(* ===== verification/Prelude.thy ===== *)
theory Prelude
  imports Main "HOL-Library.Word" "HOL-Library.Monad_Syntax"
begin

text \<open>
  Shared vocabulary of the development: the C integer types as machine words, the option
  monad in which \<open>None\<close> stands for an aborting \<open>tor_assert()\<close> (or a trap such as a
  division by zero), and the generic facts on words, options and lists that the component
  theories share.
\<close>

section \<open>C types\<close>

type_synonym u8 = "8 word"
type_synonym u16 = "16 word"
type_synonym u32 = "32 word"
type_synonym u64 = "64 word"

text \<open>Signed types share the representation of the unsigned ones; they are read with \<^const>\<open>sint\<close>.\<close>

type_synonym i32 = "32 word"
type_synonym i64 = "64 word"

section \<open>Assertions\<close>

definition tor_assert :: "bool \<Rightarrow> unit option" where
  "tor_assert b = (if b then Some () else None)"

named_theorems tor_defs \<open>definitions of the small operations that proofs unfold together\<close>

lemma tor_assert_simps [simp]:
  "tor_assert True = Some ()" "tor_assert False = None"
  by (simp_all add: tor_assert_def)

lemma tor_assert_bind_Some [simp]:
  "(tor_assert b \<bind> f = Some x) \<longleftrightarrow> b \<and> f () = Some x"
  by (simp add: tor_assert_def)

lemma tor_assert_eq_Some [simp]: "tor_assert b = Some u \<longleftrightarrow> b"
  by (simp add: tor_assert_def)

section \<open>Words\<close>

lemma sint_range32: "-2147483648 \<le> sint (w :: 32 word)" "sint (w :: 32 word) < 2147483648"
  using sint_greater_eq [of w] sint_lt [of w] by simp_all

lemma uint_range32: "0 \<le> uint (w :: 32 word)" "uint (w :: 32 word) < 4294967296"
  using uint_lt2p [of w] by simp_all

lemma sint_word_of_int32:
  assumes "-2147483648 \<le> i" "i < 2147483648"
  shows "sint (word_of_int i :: 32 word) = i"
  using assms by (simp add: sint_sbintrunc' signed_take_bit_int_eq_self)

lemma uint_word_of_int64:
  assumes "0 \<le> i" "i < 18446744073709551616"
  shows "uint (word_of_int i :: 64 word) = i"
  using assms by (simp add: uint_word_of_int)

lemma scast_word_of_int: "scast w = word_of_int (sint w)"
  by (rule scast_eq)

lemma uint_ucast_32_64: "uint (ucast (w :: 32 word) :: 64 word) = uint w"
  by (rule uint_up_ucast) (simp add: is_up)

lemma sint_add32:
  assumes "-2147483648 \<le> sint a + uint c" "sint a + uint c < 2147483648"
  shows "sint ((a :: 32 word) + c) = sint a + uint c"
proof -
  have "a + c = word_of_int (sint a + uint c)" by simp
  then show ?thesis using assms by (metis sint_word_of_int32)
qed

lemma div_bound_le:
  fixes g r e :: int
  assumes "0 < r"
  shows "e \<le> g div r \<longleftrightarrow> r * e \<le> g"
proof
  assume "e \<le> g div r"
  then have "r * e \<le> r * (g div r)" using assms by simp
  also have "\<dots> \<le> g" using assms by (simp add: div_times_less_eq_dividend mult.commute minus_mod_eq_mult_div [symmetric])
  finally show "r * e \<le> g" .
next
  assume "r * e \<le> g"
  then have "(r * e) div r \<le> g div r" using assms by (intro zdiv_mono1)
  then show "e \<le> g div r" using assms by simp
qed

lemma trunc_64_32: "(word_of_int (x mod 2 ^ LENGTH(64)) :: 32 word) = word_of_int x"
  by (simp only: take_bit_eq_mod [symmetric], transfer) simp

section \<open>Refinement of operation sequences\<close>

text \<open>
  A component and its specification are step functions; \<open>None\<close> is an abort in the component and a
  broken contract of the caller in the specification.
\<close>

primrec run_ops :: "('s \<Rightarrow> 'op \<Rightarrow> ('out \<times> 's) option) \<Rightarrow> 's \<Rightarrow> 'op list \<Rightarrow> ('out list \<times> 's) option" where
  "run_ops step s [] = Some ([], s)"
| "run_ops step s (opn # ops) = do {
     (out, s) \<leftarrow> step s opn;
     (outs, s) \<leftarrow> run_ops step s ops;
     Some (out # outs, s)
   }"

locale op_refinement =
  fixes step :: "'s \<Rightarrow> 'op \<Rightarrow> ('out \<times> 's) option"
    and spec :: "'a \<Rightarrow> 'op \<Rightarrow> ('out \<times> 'a) option"
    and ok :: "'s \<Rightarrow> bool"
    and abs_state :: "'s \<Rightarrow> 'a"
  assumes step_refines:
    "ok s \<Longrightarrow> spec (abs_state s) opn = Some (out, a) \<Longrightarrow> \<exists>s'. step s opn = Some (out, s') \<and> ok s' \<and> abs_state s' = a"
begin

lemma run_refines:
  "ok s \<Longrightarrow> run_ops spec (abs_state s) ops = Some (outs, a) \<Longrightarrow>
     \<exists>s'. run_ops step s ops = Some (outs, s') \<and> ok s' \<and> abs_state s' = a"
proof (induction ops arbitrary: s outs)
  case (Cons opn ops)
  from Cons.prems(2) obtain out b outs1 where
    o: "spec (abs_state s) opn = Some (out, b)" "run_ops spec b ops = Some (outs1, a)" "outs = out # outs1"
    by (auto split: bind_splits)
  from step_refines [OF Cons.prems(1) o(1)] obtain s1 where
    s1: "step s opn = Some (out, s1)" "ok s1" "abs_state s1 = b" by blast
  with Cons.IH [of s1 outs1] o(2) obtain s' where "run_ops step s1 ops = Some (outs1, s')" "ok s'" "abs_state s' = a" by auto
  then show ?case using s1(1) o(3) by simp
qed simp

end

end
