(* ===== verification/Token_Bucket.thy ===== *)
theory Token_Bucket
  imports Prelude
begin

text \<open>
  The token buckets of \<open>lib/evloop/token_bucket.c\<close>: the raw bucket (a signed 32-bit
  level), its configuration, the read/write pair refilled by coarse ticks and the counter
  refilled by seconds.  Levels, rates and time stamps keep their C widths; every conversion
  the C code makes is written as a word conversion.
\<close>

section \<open>Model\<close>

record token_bucket_cfg_t =
  cfg_rate :: u32
  cfg_burst :: i32

record token_bucket_raw_t =
  tb_bucket :: i32

record token_bucket_rw_t =
  rw_cfg :: token_bucket_cfg_t
  read_bucket :: token_bucket_raw_t
  write_bucket :: token_bucket_raw_t
  rw_last_refilled_at_timestamp :: u32

record token_bucket_ctr_t =
  ctr_cfg :: token_bucket_cfg_t
  ctr_counter :: token_bucket_raw_t
  ctr_last_refilled_at_timestamp :: u32

definition TOKEN_BUCKET_MAX_BURST :: u32 where
  "TOKEN_BUCKET_MAX_BURST = 2147483647"

definition TICKS_PER_STEP :: u32 where
  "TICKS_PER_STEP = 16"

text \<open>The ticks per second of the platforms that use \<open>clock_gettime()\<close>.\<close>

definition STAMP_TICKS_PER_SECOND :: u32 where
  "STAMP_TICKS_PER_SECOND = 953"

definition TB_READ :: nat where "TB_READ = 1"
definition TB_WRITE :: nat where "TB_WRITE = 2"

definition token_bucket_cfg_init :: "u32 \<Rightarrow> u32 \<Rightarrow> token_bucket_cfg_t" where
  "token_bucket_cfg_init rate burst =
     (let burst = (if burst > TOKEN_BUCKET_MAX_BURST then TOKEN_BUCKET_MAX_BURST else burst)
      in \<lparr>cfg_rate = rate, cfg_burst = burst\<rparr>)"

definition token_bucket_raw_reset ::
  "token_bucket_raw_t \<Rightarrow> token_bucket_cfg_t \<Rightarrow> token_bucket_raw_t" where
  "token_bucket_raw_reset b cfg = b\<lparr>tb_bucket := cfg_burst cfg\<rparr>"

definition token_bucket_raw_adjust ::
  "token_bucket_raw_t \<Rightarrow> token_bucket_cfg_t \<Rightarrow> token_bucket_raw_t" where
  "token_bucket_raw_adjust b cfg =
     b\<lparr>tb_bucket := (if sint (tb_bucket b) < sint (cfg_burst cfg)
                     then tb_bucket b else cfg_burst cfg)\<rparr>"

text \<open>
  \<open>gap\<close> is computed in \<open>size_t\<close> (64 bits) from sign-extended operands; the division
  traps when the rate is 0.  The addition is made in \<open>uint32_t\<close>.
\<close>

definition token_bucket_raw_refill_steps ::
  "token_bucket_raw_t \<Rightarrow> token_bucket_cfg_t \<Rightarrow> u32 \<Rightarrow> (bool \<times> token_bucket_raw_t) option" where
  "token_bucket_raw_refill_steps b cfg elapsed =
     (let was_empty = (sint (tb_bucket b) \<le> 0);
          gap = (scast (cfg_burst cfg) :: u64) - scast (tb_bucket b)
      in if cfg_rate cfg = 0 then None
         else let b' = (if ucast elapsed > gap div ucast (cfg_rate cfg)
                        then b\<lparr>tb_bucket := cfg_burst cfg\<rparr>
                        else b\<lparr>tb_bucket := tb_bucket b + cfg_rate cfg * elapsed\<rparr>)
              in Some (was_empty \<and> sint (tb_bucket b') > 0, b'))"

text \<open>The subtraction is made in \<open>ssize_t\<close> and the result stored back in 32 bits.\<close>

definition token_bucket_raw_dec ::
  "token_bucket_raw_t \<Rightarrow> i64 \<Rightarrow> bool \<times> token_bucket_raw_t" where
  "token_bucket_raw_dec b n =
     (if sint n < 0 then (False, b)
      else let becomes_empty = (sint (tb_bucket b) > 0 \<and> sint n \<ge> sint (tb_bucket b))
           in (becomes_empty,
               b\<lparr>tb_bucket := ucast ((scast (tb_bucket b) :: i64) - n)\<rparr>))"

definition token_bucket_raw_get :: "token_bucket_raw_t \<Rightarrow> u64" where
  "token_bucket_raw_get b = (if sint (tb_bucket b) \<ge> 0 then scast (tb_bucket b) else 0)"

definition monotime_coarse_stamp_units_to_approx_msec :: "u64 \<Rightarrow> u64" where
  "monotime_coarse_stamp_units_to_approx_msec units =
     (units * 1000) div ucast STAMP_TICKS_PER_SECOND"

definition rate_per_sec_to_rate_per_step :: "u32 \<Rightarrow> u32" where
  "rate_per_sec_to_rate_per_step rate =
     (let units = (ucast rate :: u64) * ucast TICKS_PER_STEP;
          val = (ucast (monotime_coarse_stamp_units_to_approx_msec units div 1000) :: u32)
      in if val \<noteq> 0 then val else 1)"

definition token_bucket_rw_adjust ::
  "token_bucket_rw_t \<Rightarrow> u32 \<Rightarrow> u32 \<Rightarrow> token_bucket_rw_t" where
  "token_bucket_rw_adjust b rate burst =
     (let cfg = token_bucket_cfg_init (rate_per_sec_to_rate_per_step rate) burst
      in b\<lparr>rw_cfg := cfg,
           read_bucket := token_bucket_raw_adjust (read_bucket b) cfg,
           write_bucket := token_bucket_raw_adjust (write_bucket b) cfg\<rparr>)"

definition token_bucket_rw_reset :: "token_bucket_rw_t \<Rightarrow> u32 \<Rightarrow> token_bucket_rw_t" where
  "token_bucket_rw_reset b now =
     b\<lparr>read_bucket := token_bucket_raw_reset (read_bucket b) (rw_cfg b),
       write_bucket := token_bucket_raw_reset (write_bucket b) (rw_cfg b),
       rw_last_refilled_at_timestamp := now\<rparr>"

text \<open>\<open>memset(bucket, 0, ...)\<close> before the first adjustment.\<close>

definition token_bucket_rw_zero :: token_bucket_rw_t where
  "token_bucket_rw_zero =
     \<lparr>rw_cfg = \<lparr>cfg_rate = 0, cfg_burst = 0\<rparr>, read_bucket = \<lparr>tb_bucket = 0\<rparr>,
      write_bucket = \<lparr>tb_bucket = 0\<rparr>, rw_last_refilled_at_timestamp = 0\<rparr>"

definition token_bucket_rw_init :: "u32 \<Rightarrow> u32 \<Rightarrow> u32 \<Rightarrow> token_bucket_rw_t" where
  "token_bucket_rw_init rate burst now =
     token_bucket_rw_reset (token_bucket_rw_adjust token_bucket_rw_zero rate burst) now"

definition token_bucket_rw_refill ::
  "token_bucket_rw_t \<Rightarrow> u32 \<Rightarrow> (nat \<times> token_bucket_rw_t) option" where
  "token_bucket_rw_refill b now =
     (let elapsed_ticks = now - rw_last_refilled_at_timestamp b
      in if elapsed_ticks \<le> (-1) div 4 then
           let elapsed_steps = elapsed_ticks div TICKS_PER_STEP
           in if elapsed_steps = 0 then Some (0, b)
              else do {
                (r, rb) \<leftarrow> token_bucket_raw_refill_steps (read_bucket b) (rw_cfg b) elapsed_steps;
                (w, wb) \<leftarrow> token_bucket_raw_refill_steps (write_bucket b) (rw_cfg b) elapsed_steps;
                Some ((if r then TB_READ else 0) + (if w then TB_WRITE else 0),
                      b\<lparr>read_bucket := rb, write_bucket := wb,
                        rw_last_refilled_at_timestamp := now\<rparr>)
              }
         else Some (0, b\<lparr>rw_last_refilled_at_timestamp := now\<rparr>))"

definition token_bucket_rw_dec_read ::
  "token_bucket_rw_t \<Rightarrow> i64 \<Rightarrow> bool \<times> token_bucket_rw_t" where
  "token_bucket_rw_dec_read b n =
     (let (r, rb) = token_bucket_raw_dec (read_bucket b) n in (r, b\<lparr>read_bucket := rb\<rparr>))"

definition token_bucket_rw_dec_write ::
  "token_bucket_rw_t \<Rightarrow> i64 \<Rightarrow> bool \<times> token_bucket_rw_t" where
  "token_bucket_rw_dec_write b n =
     (let (w, wb) = token_bucket_raw_dec (write_bucket b) n in (w, b\<lparr>write_bucket := wb\<rparr>))"

definition token_bucket_rw_dec ::
  "token_bucket_rw_t \<Rightarrow> i64 \<Rightarrow> i64 \<Rightarrow> nat \<times> token_bucket_rw_t" where
  "token_bucket_rw_dec b n_read n_written =
     (let (r, b1) = token_bucket_rw_dec_read b n_read;
          (w, b2) = token_bucket_rw_dec_write b1 n_written
      in ((if r then TB_READ else 0) + (if w then TB_WRITE else 0), b2))"

definition token_bucket_ctr_adjust ::
  "token_bucket_ctr_t \<Rightarrow> u32 \<Rightarrow> u32 \<Rightarrow> token_bucket_ctr_t" where
  "token_bucket_ctr_adjust b rate burst =
     (let cfg = token_bucket_cfg_init rate burst
      in b\<lparr>ctr_cfg := cfg, ctr_counter := token_bucket_raw_adjust (ctr_counter b) cfg\<rparr>)"

definition token_bucket_ctr_reset :: "token_bucket_ctr_t \<Rightarrow> u32 \<Rightarrow> token_bucket_ctr_t" where
  "token_bucket_ctr_reset b now =
     b\<lparr>ctr_counter := token_bucket_raw_reset (ctr_counter b) (ctr_cfg b),
       ctr_last_refilled_at_timestamp := now\<rparr>"

definition token_bucket_ctr_init :: "u32 \<Rightarrow> u32 \<Rightarrow> u32 \<Rightarrow> token_bucket_ctr_t" where
  "token_bucket_ctr_init rate burst now =
     token_bucket_ctr_reset
       (token_bucket_ctr_adjust
          \<lparr>ctr_cfg = \<lparr>cfg_rate = 0, cfg_burst = 0\<rparr>, ctr_counter = \<lparr>tb_bucket = 0\<rparr>,
           ctr_last_refilled_at_timestamp = 0\<rparr> rate burst) now"

definition token_bucket_ctr_refill ::
  "token_bucket_ctr_t \<Rightarrow> u32 \<Rightarrow> token_bucket_ctr_t option" where
  "token_bucket_ctr_refill b now =
     (let elapsed_sec = now - ctr_last_refilled_at_timestamp b
      in if elapsed_sec \<le> (-1) div 4 then do {
           (_, c) \<leftarrow> token_bucket_raw_refill_steps (ctr_counter b) (ctr_cfg b) elapsed_sec;
           Some (b\<lparr>ctr_counter := c, ctr_last_refilled_at_timestamp := now\<rparr>)
         }
         else Some (b\<lparr>ctr_last_refilled_at_timestamp := now\<rparr>))"

definition token_bucket_ctr_dec ::
  "token_bucket_ctr_t \<Rightarrow> i64 \<Rightarrow> bool \<times> token_bucket_ctr_t" where
  "token_bucket_ctr_dec b n =
     (let (e, c) = token_bucket_raw_dec (ctr_counter b) n in (e, b\<lparr>ctr_counter := c\<rparr>))"

section \<open>Calls of the interface as state machines\<close>

text \<open>The invariant that every configured read/write bucket keeps.\<close>

definition rw_ok :: "token_bucket_rw_t \<Rightarrow> bool" where
  "rw_ok b \<longleftrightarrow> cfg_rate (rw_cfg b) \<noteq> 0 \<and> 0 \<le> sint (cfg_burst (rw_cfg b))
     \<and> sint (tb_bucket (read_bucket b)) \<le> sint (cfg_burst (rw_cfg b))
     \<and> sint (tb_bucket (write_bucket b)) \<le> sint (cfg_burst (rw_cfg b))"

text \<open>One call of the public interface; a decrement must not pass the bottom of \<open>int32_t\<close>.\<close>

inductive rw_step :: "token_bucket_rw_t \<Rightarrow> token_bucket_rw_t \<Rightarrow> bool" where
  refill: "token_bucket_rw_refill b now = Some (flags, b') \<Longrightarrow> rw_step b b'"
| dec: "\<lbrakk>token_bucket_rw_dec b nr nw = (flags, b');
        -2147483648 \<le> sint (tb_bucket (read_bucket b)) - sint nr;
        -2147483648 \<le> sint (tb_bucket (write_bucket b)) - sint nw\<rbrakk> \<Longrightarrow> rw_step b b'"
| adjust: "rw_step b (token_bucket_rw_adjust b rate burst)"
| reset: "rw_step b (token_bucket_rw_reset b now)"

inductive rw_reachable :: "token_bucket_rw_t \<Rightarrow> bool" where
  init: "rw_reachable (token_bucket_rw_init rate burst now)"
| step: "rw_reachable b \<Longrightarrow> rw_step b b' \<Longrightarrow> rw_reachable b'"

text \<open>A history of the counter: refills with the current second, and decrements.\<close>

datatype ctr_event = Refill u32 | Dec i64

fun ctr_run :: "ctr_event list \<Rightarrow> token_bucket_ctr_t \<Rightarrow> token_bucket_ctr_t option" where
  "ctr_run [] b = Some b"
| "ctr_run (Refill now # es) b = (token_bucket_ctr_refill b now \<bind> ctr_run es)"
| "ctr_run (Dec n # es) b = ctr_run es (snd (token_bucket_ctr_dec b n))"

fun ctr_spent :: "ctr_event list \<Rightarrow> int" where
  "ctr_spent [] = 0"
| "ctr_spent (Refill now # es) = ctr_spent es"
| "ctr_spent (Dec n # es) = max 0 (sint n) + ctr_spent es"

text \<open>No decrement of the history passes the bottom of \<open>int32_t\<close>.\<close>

fun ctr_in_range :: "ctr_event list \<Rightarrow> token_bucket_ctr_t \<Rightarrow> bool" where
  "ctr_in_range [] b = True"
| "ctr_in_range (Refill now # es) b =
     (case token_bucket_ctr_refill b now of None \<Rightarrow> True | Some b' \<Rightarrow> ctr_in_range es b')"
| "ctr_in_range (Dec n # es) b =
     (-2147483648 \<le> sint (tb_bucket (ctr_counter b)) - sint n \<and> ctr_in_range es (snd (token_bucket_ctr_dec b n)))"

fun ctr_elapsed :: "u32 \<Rightarrow> ctr_event list \<Rightarrow> int" where
  "ctr_elapsed t [] = 0"
| "ctr_elapsed t (Refill now # es) = uint (now - t) + ctr_elapsed now es"
| "ctr_elapsed t (Dec n # es) = ctr_elapsed t es"

abbreviation ctr_level :: "token_bucket_ctr_t \<Rightarrow> int" where
  "ctr_level b \<equiv> sint (tb_bucket (ctr_counter b))"

definition ctr_ok :: "token_bucket_ctr_t \<Rightarrow> bool" where
  "ctr_ok b \<longleftrightarrow> cfg_rate (ctr_cfg b) \<noteq> 0 \<and> ctr_level b \<le> sint (cfg_burst (ctr_cfg b))"

section \<open>Exact arithmetic of the raw bucket\<close>

lemma uint_gap:
  assumes "sint (b :: 32 word) \<le> sint (B :: 32 word)"
  shows "uint ((scast B :: 64 word) - scast b) = sint B - sint b"
proof -
  have "(scast B :: 64 word) - scast b = word_of_int (sint B - sint b)"
    by (simp only: scast_word_of_int wi_hom_sub)
  moreover have "0 \<le> sint B - sint b" "sint B - sint b < 18446744073709551616"
    using assms sint_range32 [of B] sint_range32 [of b] by simp_all
  ultimately show ?thesis by (simp only: uint_word_of_int64)
qed

lemma raw_refill_exact:
  assumes "cfg_rate cfg \<noteq> 0" "sint (tb_bucket b) \<le> sint (cfg_burst cfg)"
  shows "\<exists>b'. token_bucket_raw_refill_steps b cfg elapsed =
           Some (sint (tb_bucket b) \<le> 0 \<and> 0 < sint (tb_bucket b'), b')
         \<and> sint (tb_bucket b') =
             min (sint (cfg_burst cfg)) (sint (tb_bucket b) + uint (cfg_rate cfg) * uint elapsed)"
proof -
  let ?gap = "sint (cfg_burst cfg) - sint (tb_bucket b)"
  let ?r = "uint (cfg_rate cfg)" and ?e = "uint elapsed"
  have r: "0 < ?r" using assms(1) by (simp add: word_neq_0_conv word_less_def)
  have e: "0 \<le> ?e" by simp
  have guard: "(ucast elapsed > ((scast (cfg_burst cfg) :: u64) - scast (tb_bucket b)) div ucast (cfg_rate cfg))
      \<longleftrightarrow> ?gap < ?r * ?e"
    using div_bound_le [OF r, of ?e ?gap] 
    by (simp add: word_less_def uint_div uint_gap [OF assms(2)] uint_ucast_32_64 flip: not_le)
  show ?thesis
  proof (cases "?gap < ?r * ?e")
    case True
    then show ?thesis
      using assms(1) guard by (auto simp: token_bucket_raw_refill_steps_def Let_def min_def)
  next
    case False
    have lt: "?r * ?e < 4294967296"
      using False sint_range32 [of "cfg_burst cfg"] sint_range32 [of "tb_bucket b"] by linarith
    have prod: "uint (cfg_rate cfg * elapsed) = ?r * ?e"
      using lt r by (simp add: uint_word_ariths)
    have "sint (tb_bucket b + cfg_rate cfg * elapsed) = sint (tb_bucket b) + ?r * ?e"
      using False sint_range32 [of "cfg_burst cfg"] sint_range32 [of "tb_bucket b"] prod r
      by (subst sint_add32) (simp_all add: add_increasing2)
    then show ?thesis
      using False assms(1) guard by (auto simp: token_bucket_raw_refill_steps_def Let_def min_def)
  qed
qed

lemma token_bucket_cfg_init_simps [simp]:
  "cfg_rate (token_bucket_cfg_init rate burst) = rate"
  "sint (cfg_burst (token_bucket_cfg_init rate burst)) = min (uint burst) 2147483647"
proof -
  show "cfg_rate (token_bucket_cfg_init rate burst) = rate"
    by (simp add: token_bucket_cfg_init_def Let_def)
  show "sint (cfg_burst (token_bucket_cfg_init rate burst)) = min (uint burst) 2147483647"
  proof (cases "burst > TOKEN_BUCKET_MAX_BURST")
    case True
    then show ?thesis
      by (simp add: token_bucket_cfg_init_def TOKEN_BUCKET_MAX_BURST_def word_less_def)
  next
    case False
    then have "uint burst \<le> 2147483647"
      by (simp add: TOKEN_BUCKET_MAX_BURST_def word_le_def not_less)
    moreover from this have "sint burst = uint burst"
      using sint_word_of_int32 [of "uint burst"] uint_range32 [of burst] by simp
    ultimately show ?thesis
      using False by (simp add: token_bucket_cfg_init_def)
  qed
qed

lemma sint_raw_adjust [simp]:
  "sint (tb_bucket (token_bucket_raw_adjust b cfg)) = min (sint (tb_bucket b)) (sint (cfg_burst cfg))"
  by (simp add: token_bucket_raw_adjust_def min_def)

lemma sint_dec_diff:
  assumes "-2147483648 \<le> sint b - sint n"  "0 \<le> sint n"
  shows "sint (ucast ((scast (b :: 32 word) :: 64 word) - n) :: 32 word) = sint b - sint n"
proof -
  have "(scast b :: 64 word) - n = word_of_int (sint b - sint n)"
  proof -
    have n: "n = word_of_int (sint n)" by simp
    show ?thesis by (subst n) (simp only: scast_word_of_int wi_hom_sub)
  qed
  then have "(ucast ((scast b :: 64 word) - n) :: 32 word) = word_of_int (sint b - sint n)"
    by (simp only: ucast_eq uint_word_of_int trunc_64_32)
  then show ?thesis
    using assms sint_range32 [of b] by (simp only: sint_word_of_int32)
qed

lemma raw_dec_exact:
  assumes "-2147483648 \<le> sint (tb_bucket b) - sint n"
  shows "sint (tb_bucket (snd (token_bucket_raw_dec b n))) = sint (tb_bucket b) - max 0 (sint n)"
    and "fst (token_bucket_raw_dec b n) \<longleftrightarrow> 
           0 < sint (tb_bucket b) \<and> 0 \<le> sint n \<and> sint (tb_bucket (snd (token_bucket_raw_dec b n))) \<le> 0"
  using assms sint_dec_diff [OF assms] by (auto simp: token_bucket_raw_dec_def Let_def max_def)

lemma rate_per_step_exact:
  "uint (rate_per_sec_to_rate_per_step rate) = max 1 (uint rate * 16 div 953)"
proof -
  let ?u = "(ucast rate :: u64) * ucast TICKS_PER_STEP"
  have r: "0 \<le> uint rate" "uint rate < 4294967296" using uint_range32 [of rate] by simp_all
  have u: "uint ?u = uint rate * 16"
    using r by (simp add: TICKS_PER_STEP_def uint_word_ariths uint_ucast_32_64)
  have u2: "uint (?u * 1000) = uint rate * 16000"
    using r u by (simp add: uint_word_ariths)
  have d: "uint (monotime_coarse_stamp_units_to_approx_msec ?u div 1000) = uint rate * 16 div 953"
    using u2 by (simp add: monotime_coarse_stamp_units_to_approx_msec_def STAMP_TICKS_PER_SECOND_def
        uint_div zdiv_zmult2_eq [symmetric])
  have "uint rate * 16 div 953 < 4294967296" "0 \<le> uint rate * 16 div 953"
    using r by (simp_all add: div_int_pos_iff)
  then have v: "uint (ucast (monotime_coarse_stamp_units_to_approx_msec ?u div 1000) :: u32)
      = uint rate * 16 div 953"
    using d by (simp add: unsigned_ucast_eq take_bit_int_eq_self)
  show ?thesis
    using v r  by (auto simp: rate_per_sec_to_rate_per_step_def Let_def max_def  word_uint_eq_iff)
qed

section \<open>The read/write bucket\<close>

lemma rate_per_step_nonzero [simp]: "rate_per_sec_to_rate_per_step rate \<noteq> 0"
  using rate_per_step_exact [of rate] by auto

lemma rw_ok_adjust: "rw_ok (token_bucket_rw_adjust b rate burst)"
  by (auto simp: rw_ok_def token_bucket_rw_adjust_def Let_def min_le_iff_disj)

lemma rw_ok_reset: "rw_ok b \<Longrightarrow> rw_ok (token_bucket_rw_reset b now)"
  by (simp add: rw_ok_def token_bucket_rw_reset_def token_bucket_raw_reset_def)

lemma rw_refill_ok:
  assumes "rw_ok b"
  shows "\<exists>flags b'. token_bucket_rw_refill b now = Some (flags, b') \<and> rw_ok b'"
proof -
  let ?steps = "(now - rw_last_refilled_at_timestamp b) div TICKS_PER_STEP"
  obtain rb where "token_bucket_raw_refill_steps (read_bucket b) (rw_cfg b) ?steps =
      Some (sint (tb_bucket (read_bucket b)) \<le> 0 \<and> 0 < sint (tb_bucket rb), rb)"
    "sint (tb_bucket rb) \<le> sint (cfg_burst (rw_cfg b))"
    using raw_refill_exact [of "rw_cfg b" "read_bucket b" ?steps] assms by (auto simp: rw_ok_def)
  moreover obtain wb where "token_bucket_raw_refill_steps (write_bucket b) (rw_cfg b) ?steps =
      Some (sint (tb_bucket (write_bucket b)) \<le> 0 \<and> 0 < sint (tb_bucket wb), wb)"
    "sint (tb_bucket wb) \<le> sint (cfg_burst (rw_cfg b))"
    using raw_refill_exact [of "rw_cfg b" "write_bucket b" ?steps] assms by (auto simp: rw_ok_def)
  ultimately show ?thesis
    using assms by (auto simp: token_bucket_rw_refill_def Let_def rw_ok_def)
qed

lemma rw_dec_ok:
  assumes "rw_ok b" "token_bucket_rw_dec b nr nw = (flags, b')"
    "-2147483648 \<le> sint (tb_bucket (read_bucket b)) - sint nr"
    "-2147483648 \<le> sint (tb_bucket (write_bucket b)) - sint nw"
  shows "rw_ok b'"
  using assms raw_dec_exact(1) [OF assms(3)] raw_dec_exact(1) [OF assms(4)]
  by (auto simp: rw_ok_def token_bucket_rw_dec_def token_bucket_rw_dec_read_def
      token_bucket_rw_dec_write_def Let_def split: prod.splits)

lemma rw_step_ok: "rw_step b b' \<Longrightarrow> rw_ok b \<Longrightarrow> rw_ok b'"
proof (induction rule: rw_step.induct)
  case (refill b now flags b')
  then show ?case using rw_refill_ok [of b now] by auto
qed (auto intro: rw_dec_ok rw_ok_adjust rw_ok_reset)

lemma rw_reachable_ok: "rw_reachable b \<Longrightarrow> rw_ok b"
  by (induction rule: rw_reachable.induct)
    (auto intro: rw_step_ok simp: token_bucket_rw_init_def rw_ok_reset rw_ok_adjust)

lemma rw_refill_levels:
  assumes "rw_ok b" "steps = (now - rw_last_refilled_at_timestamp b) div TICKS_PER_STEP" "steps \<noteq> 0"
    and "now - rw_last_refilled_at_timestamp b \<le> (-1) div 4"
  shows "\<exists>b'. token_bucket_rw_refill b now =
      Some ((if sint (tb_bucket (read_bucket b)) \<le> 0 \<and> 0 < sint (tb_bucket (read_bucket b')) then TB_READ else 0)
          + (if sint (tb_bucket (write_bucket b)) \<le> 0 \<and> 0 < sint (tb_bucket (write_bucket b')) then TB_WRITE else 0), b')
    \<and> rw_cfg b' = rw_cfg b \<and> rw_last_refilled_at_timestamp b' = now
    \<and> sint (tb_bucket (read_bucket b')) =
        min (sint (cfg_burst (rw_cfg b))) (sint (tb_bucket (read_bucket b)) + uint (cfg_rate (rw_cfg b)) * uint steps)
    \<and> sint (tb_bucket (write_bucket b')) =
        min (sint (cfg_burst (rw_cfg b))) (sint (tb_bucket (write_bucket b)) + uint (cfg_rate (rw_cfg b)) * uint steps)"
proof -
  obtain rb where "token_bucket_raw_refill_steps (read_bucket b) (rw_cfg b) steps =
      Some (sint (tb_bucket (read_bucket b)) \<le> 0 \<and> 0 < sint (tb_bucket rb), rb)"
    "sint (tb_bucket rb) = min (sint (cfg_burst (rw_cfg b)))
       (sint (tb_bucket (read_bucket b)) + uint (cfg_rate (rw_cfg b)) * uint steps)"
    using raw_refill_exact [of "rw_cfg b" "read_bucket b" steps] assms(1) by (auto simp: rw_ok_def)
  moreover obtain wb where "token_bucket_raw_refill_steps (write_bucket b) (rw_cfg b) steps =
      Some (sint (tb_bucket (write_bucket b)) \<le> 0 \<and> 0 < sint (tb_bucket wb), wb)"
    "sint (tb_bucket wb) = min (sint (cfg_burst (rw_cfg b)))
       (sint (tb_bucket (write_bucket b)) + uint (cfg_rate (rw_cfg b)) * uint steps)"
    using raw_refill_exact [of "rw_cfg b" "write_bucket b" steps] assms(1) by (auto simp: rw_ok_def)
  ultimately show ?thesis
    using assms(2-4)
    by (intro exI [of _ "b\<lparr>read_bucket := rb, write_bucket := wb, rw_last_refilled_at_timestamp := now\<rparr>"])
      (simp add: token_bucket_rw_refill_def Let_def)
qed

text \<open>C19 In every state of a read/write bucket that calls of its interface reach, where no decrement passes the
  bottom of \<open>int32_t\<close>, a refill returns.  If more than a quarter of the 32-bit tick range seems to have passed
  since the last refill, it only sets the time stamp; if less than a step has passed, it changes nothing.  Otherwise each
  level becomes exactly the minimum of the burst and the old level plus rate times elapsed steps, without wrapping,
  and the flags report the buckets that stopped being empty.\<close>

theorem rw_refill_reachable:
  fixes now :: u32
  assumes "rw_reachable b"
  defines "elapsed \<equiv> now - rw_last_refilled_at_timestamp b"
  defines "refilled \<equiv> \<lambda>level. min (sint (cfg_burst (rw_cfg b))) (level + uint (cfg_rate (rw_cfg b)) * (uint elapsed div 16))"
  shows "\<exists>flags b'. token_bucket_rw_refill b now = Some (flags, b') \<and>
    (if uint elapsed > 1073741823 then flags = 0 \<and> b' = b\<lparr>rw_last_refilled_at_timestamp := now\<rparr>
     else if uint elapsed < 16 then flags = 0 \<and> b' = b
     else rw_cfg b' = rw_cfg b \<and> rw_last_refilled_at_timestamp b' = now
       \<and> sint (tb_bucket (read_bucket b')) = refilled (sint (tb_bucket (read_bucket b)))
       \<and> sint (tb_bucket (write_bucket b')) = refilled (sint (tb_bucket (write_bucket b)))
       \<and> flags = (if sint (tb_bucket (read_bucket b)) \<le> 0 \<and> 0 < sint (tb_bucket (read_bucket b')) then TB_READ else 0)
           + (if sint (tb_bucket (write_bucket b)) \<le> 0 \<and> 0 < sint (tb_bucket (write_bucket b')) then TB_WRITE else 0))"
proof -
  have ok: "rw_ok b" using assms(1) by (rule rw_reachable_ok)
  have quarter: "elapsed \<le> (-1) div 4 \<longleftrightarrow> \<not> uint elapsed > 1073741823" by (simp add: word_le_def uint_div not_less)
  have steps: "uint (elapsed div TICKS_PER_STEP) = uint elapsed div 16" by (simp add: TICKS_PER_STEP_def uint_div)
  have none: "elapsed div TICKS_PER_STEP = 0 \<longleftrightarrow> uint elapsed < 16"
  proof -
    have "uint elapsed div 16 = 0 \<longleftrightarrow> uint elapsed < 16" using unsigned_greater_eq [where 'a = int and w = elapsed] by linarith
    then show ?thesis using steps by (simp add: word_uint_eq_iff)
  qed
  consider (far) "uint elapsed > 1073741823" | (early) "uint elapsed < 16" | (due) "\<not> uint elapsed > 1073741823" "\<not> uint elapsed < 16" by blast
  then show ?thesis
  proof cases
    case far
    then show ?thesis using quarter by (simp add: token_bucket_rw_refill_def elapsed_def [symmetric] Let_def)
  next
    case early
    then show ?thesis using quarter none by (simp add: token_bucket_rw_refill_def elapsed_def [symmetric] Let_def)
  next
    case due
    then show ?thesis
      using rw_refill_levels [OF ok HOL.refl, of now, folded elapsed_def] quarter none steps by (auto simp: refilled_def)
  qed
qed

theorem rw_refill_reachable_witness:
  "\<exists>flags b'. token_bucket_rw_refill (snd (token_bucket_rw_dec (token_bucket_rw_init 1000 500 100) 700 20)) 164 = Some (flags, b')
     \<and> sint (tb_bucket (read_bucket b')) = -136 \<and> sint (tb_bucket (write_bucket b')) = 500 \<and> flags = 0"
proof -
  let ?b = "snd (token_bucket_rw_dec (token_bucket_rw_init 1000 500 100) 700 20)"
  have b0: "sint (tb_bucket (read_bucket (token_bucket_rw_init 1000 500 100))) = 500" "sint (tb_bucket (write_bucket (token_bucket_rw_init 1000 500 100))) = 500"
    by code_simp+
  have "rw_step (token_bucket_rw_init 1000 500 100) ?b"
    by (rule rw_step.dec [of _ 700 20 "fst (token_bucket_rw_dec (token_bucket_rw_init 1000 500 100) 700 20)"]) (simp_all add: b0)
  then have "rw_reachable ?b" by (rule rw_reachable.step [OF rw_reachable.init])
  moreover have "rw_last_refilled_at_timestamp ?b = 100" "sint (tb_bucket (read_bucket ?b)) = -200" "sint (tb_bucket (write_bucket ?b)) = 480"
    "sint (cfg_burst (rw_cfg ?b)) = 500" "uint (cfg_rate (rw_cfg ?b)) = 16" by code_simp+
  ultimately show ?thesis using rw_refill_reachable [of ?b 164] by auto
qed

section \<open>The counter\<close>

lemma ctr_spent_nonneg: "0 \<le> ctr_spent es"
  by (induction es rule: ctr_spent.induct) auto

lemma ctr_refill_step:
  assumes "ctr_ok b"
  shows "\<exists>b'. token_bucket_ctr_refill b now = Some b' \<and> ctr_ok b' \<and> ctr_cfg b' = ctr_cfg b
     \<and> ctr_last_refilled_at_timestamp b' = now
     \<and> ctr_level b \<le> ctr_level b'
     \<and> ctr_level b' \<le> ctr_level b + uint (cfg_rate (ctr_cfg b)) * uint (now - ctr_last_refilled_at_timestamp b)"
proof -
  let ?e = "now - ctr_last_refilled_at_timestamp b"
  obtain c where "token_bucket_raw_refill_steps (ctr_counter b) (ctr_cfg b) ?e =
      Some (sint (tb_bucket (ctr_counter b)) \<le> 0 \<and> 0 < sint (tb_bucket c), c)"
    "sint (tb_bucket c) = min (sint (cfg_burst (ctr_cfg b)))
       (ctr_level b + uint (cfg_rate (ctr_cfg b)) * uint ?e)"
    using raw_refill_exact [of "ctr_cfg b" "ctr_counter b" ?e] assms by (auto simp: ctr_ok_def)
  moreover have "0 \<le> uint (cfg_rate (ctr_cfg b)) * uint ?e" by simp
  ultimately show ?thesis
    using assms by (auto simp: token_bucket_ctr_refill_def Let_def ctr_ok_def)
qed

lemma ctr_dec_step:
  assumes "ctr_ok b" "-2147483648 \<le> ctr_level b - sint n"
  shows "let b' = snd (token_bucket_ctr_dec b n) in ctr_ok b' \<and> ctr_cfg b' = ctr_cfg b
     \<and> ctr_last_refilled_at_timestamp b' = ctr_last_refilled_at_timestamp b
     \<and> ctr_level b' = ctr_level b - max 0 (sint n)"
  using raw_dec_exact(1) [OF assms(2)] assms(1)
  by (auto simp: token_bucket_ctr_dec_def ctr_ok_def Let_def split: prod.splits)

lemma ctr_run_bound:
  assumes "ctr_ok b" "ctr_in_range es b"
  shows "\<exists>b'. ctr_run es b = Some b' \<and> ctr_ok b' \<and> ctr_cfg b' = ctr_cfg b
     \<and> ctr_spent es + ctr_level b' \<le> ctr_level b
         + uint (cfg_rate (ctr_cfg b)) * ctr_elapsed (ctr_last_refilled_at_timestamp b) es"
  using assms
proof (induction es b rule: ctr_run.induct)
  case (1 b)
  then show ?case by simp
next
  case (2 now es b)
  from ctr_refill_step [OF "2.prems"(1), of now] obtain b1 where
    b1: "token_bucket_ctr_refill b now = Some b1" "ctr_ok b1" "ctr_cfg b1 = ctr_cfg b"
      "ctr_last_refilled_at_timestamp b1 = now" "ctr_level b \<le> ctr_level b1"
      "ctr_level b1 \<le> ctr_level b
        + uint (cfg_rate (ctr_cfg b)) * uint (now - ctr_last_refilled_at_timestamp b)" by blast
  from "2.IH" [of b1] "2.prems" b1 obtain b' where
    "ctr_run es b1 = Some b'" "ctr_ok b'" "ctr_cfg b' = ctr_cfg b"
    "ctr_spent es + ctr_level b' \<le> ctr_level b1 + uint (cfg_rate (ctr_cfg b)) * ctr_elapsed now es"
    by auto
  with b1 show ?case by (auto simp: distrib_left)
next
  case (3 n es b)
  then have n: "-2147483648 \<le> ctr_level b - sint n" by simp
  from "3.IH" ctr_dec_step [OF "3.prems"(1) n] "3.prems"(2) show ?case by (auto simp: Let_def)
qed

text \<open>C18 A counter bucket with a positive rate limits the rate.  For every sequence of refills and decrements,
  of any length and total, in which no decrement takes the level below the bottom of \<open>int32_t\<close>, the run never traps,
  the level never exceeds the (capped) burst, and what was taken out plus what is left is at most the burst plus
  the rate times the seconds elapsed.\<close>

theorem ctr_rate_limit:
  assumes "rate \<noteq> 0" "ctr_in_range es (token_bucket_ctr_init rate burst t0)"
  shows "\<exists>b'. ctr_run es (token_bucket_ctr_init rate burst t0) = Some b'
     \<and> ctr_level b' \<le> min (uint burst) 2147483647
     \<and> ctr_spent es + ctr_level b' \<le> min (uint burst) 2147483647 + uint rate * ctr_elapsed t0 es"
proof -
  let ?b = "token_bucket_ctr_init rate burst t0"
  have eqs: "ctr_cfg ?b = token_bucket_cfg_init rate burst" "ctr_last_refilled_at_timestamp ?b = t0"
    "ctr_level ?b = min (uint burst) 2147483647"
    by (simp_all add: token_bucket_ctr_init_def token_bucket_ctr_reset_def
        token_bucket_ctr_adjust_def token_bucket_raw_reset_def Let_def)
  have "ctr_ok ?b" using assms(1) eqs by (simp add: ctr_ok_def)
  then show ?thesis
    using ctr_run_bound [OF _ assms(2)] by (auto simp: eqs ctr_ok_def)
qed

theorem ctr_rate_limit_witness:
  "\<exists>b'. ctr_run [Dec 30, Refill 17, Dec 5] (token_bucket_ctr_init 3 20 10) = Some b'
     \<and> ctr_level b' \<le> 20 \<and> 35 + ctr_level b' \<le> 20 + 3 * 7"
proof -
  have "ctr_in_range [Dec 30, Refill 17, Dec 5] (token_bucket_ctr_init 3 20 10)" by code_simp
  then show ?thesis using ctr_rate_limit [of 3 "[Dec 30, Refill 17, Dec 5]" 20 10] by simp
qed

end
