(* ===== verification/Tor_Strings.thy ===== *)
theory Tor_Strings
  imports Prelude
begin

text \<open>
  The string helpers of \<open>lib/string\<close> that the protocol code relies on: character classes
  (\<open>compat_ctype\<close>), integer parsing (\<open>parse_int.c\<close>, over a model of the C library's
  \<open>strtol\<close> in base 10 with a 64-bit \<open>long\<close>), and the decimal output of
  \<open>tor_snprintf("%d")\<close>.  A C string is a \<^typ>\<open>string\<close> without its terminating NUL;
  reading at its end yields the NUL character.
\<close>

section \<open>Characters\<close>

abbreviation ord :: "char \<Rightarrow> nat" where
  "ord c \<equiv> of_char c"

abbreviation chr :: "nat \<Rightarrow> char" where
  "chr n \<equiv> char_of n"

definition NUL :: char where
  "NUL = CHR 0x00"

text \<open>The character that \<open>*s\<close> reads, and the C string held in a buffer.\<close>

definition deref :: "string \<Rightarrow> char" where
  "deref s = (case s of [] \<Rightarrow> NUL | c # _ \<Rightarrow> c)"

definition c_str :: "string \<Rightarrow> string" where
  "c_str buf = takeWhile (\<lambda>c. c \<noteq> NUL) buf"

definition TOR_ISDIGIT :: "char \<Rightarrow> bool" where
  "TOR_ISDIGIT c \<longleftrightarrow> 48 \<le> ord c \<and> ord c \<le> 57"

definition TOR_ISSPACE :: "char \<Rightarrow> bool" where
  "TOR_ISSPACE c \<longleftrightarrow> ord c = 32 \<or> (9 \<le> ord c \<and> ord c \<le> 13)"

definition TOR_ISUPPER :: "char \<Rightarrow> bool" where
  "TOR_ISUPPER c \<longleftrightarrow> 65 \<le> ord c \<and> ord c \<le> 90"

definition TOR_ISLOWER :: "char \<Rightarrow> bool" where
  "TOR_ISLOWER c \<longleftrightarrow> 97 \<le> ord c \<and> ord c \<le> 122"

definition TOR_ISALPHA :: "char \<Rightarrow> bool" where
  "TOR_ISALPHA c \<longleftrightarrow> TOR_ISUPPER c \<or> TOR_ISLOWER c"

definition TOR_ISALNUM :: "char \<Rightarrow> bool" where
  "TOR_ISALNUM c \<longleftrightarrow> TOR_ISALPHA c \<or> TOR_ISDIGIT c"

section \<open>Decimal numbers\<close>

definition digit_val :: "char \<Rightarrow> nat" where
  "digit_val c = ord c - 48"

text \<open>The value of a digit string, accumulated from the left as \<open>strtol\<close> does.\<close>

definition dec_val :: "string \<Rightarrow> nat" where
  "dec_val ds = foldl (\<lambda>a c. a * 10 + digit_val c) 0 ds"

definition LONG_MAX :: int where "LONG_MAX = 9223372036854775807"
definition LONG_MIN :: int where "LONG_MIN = -9223372036854775808"
definition INT32_MAX :: int where "INT32_MAX = 2147483647"

text \<open>
  \<open>strtol(s, &endptr, 10)\<close>: skip white space, an optional sign, then the longest run of
  digits.  The result is the value (clamped), whether \<open>errno\<close> is \<open>ERANGE\<close>, and
  \<open>endptr\<close> as the rest of the string; with no digit at all, \<open>endptr\<close> is \<open>s\<close> itself.
\<close>

definition strtol10 :: "string \<Rightarrow> int \<times> bool \<times> string" where
  "strtol10 s =
     (let s1 = dropWhile TOR_ISSPACE s;
          neg = (deref s1 = CHR ''-'');
          s2 = (if deref s1 = CHR ''-'' \<or> deref s1 = CHR ''+'' then tl s1 else s1);
          ds = takeWhile TOR_ISDIGIT s2;
          v = (if neg then - int (dec_val ds) else int (dec_val ds))
      in if ds = [] then (0, False, s)
         else if v > LONG_MAX then (LONG_MAX, True, drop (length ds) s2)
         else if v < LONG_MIN then (LONG_MIN, True, drop (length ds) s2)
         else (v, False, drop (length ds) s2))"

text \<open>
  \<open>tor_parse_long(s, 10, min, max, &ok, next)\<close>.  \<open>has_next\<close> tells whether \<open>next\<close> is a
  non-NULL pointer; the result is \<open>(value, ok, *next)\<close>.
\<close>

definition tor_parse_long :: "string \<Rightarrow> int \<Rightarrow> int \<Rightarrow> bool \<Rightarrow> int \<times> bool \<times> string" where
  "tor_parse_long s lo hi has_next =
     (let (r, erange, endptr) = strtol10 s
      in if erange then (0, False, endptr)
         else if endptr = s then (0, False, endptr)
         else if \<not> has_next \<and> endptr \<noteq> [] then (0, False, endptr)
         else if hi < lo then (0, False, endptr)
         else if r < lo \<or> r > hi then (0, False, endptr)
         else (r, True, endptr))"

text \<open>The output of \<open>%d\<close> for a non-negative argument.\<close>

fun show_dec :: "nat \<Rightarrow> string" where
  "show_dec n = (if n < 10 then [chr (48 + n)] else show_dec (n div 10) @ [chr (48 + n mod 10)])"

declare show_dec.simps [simp del]

definition show_int :: "int \<Rightarrow> string" where
  "show_int i = (if i < 0 then CHR ''-'' # show_dec (nat (- i)) else show_dec (nat i))"

text \<open>
  \<open>strtoul(s, &endptr, 10)\<close> with a 64-bit \<open>unsigned long\<close>: as \<open>strtol\<close>, but a negated value wraps
  around.  \<open>tor_parse_ulong\<close> ends in the same checks as \<open>tor_parse_long\<close>.
\<close>

definition ULONG_MAX :: int where "ULONG_MAX = 18446744073709551615"

definition strtoul10 :: "string \<Rightarrow> int \<times> bool \<times> string" where
  "strtoul10 s =
     (let s1 = dropWhile TOR_ISSPACE s;
          neg = (deref s1 = CHR ''-'');
          s2 = (if deref s1 = CHR ''-'' \<or> deref s1 = CHR ''+'' then tl s1 else s1);
          ds = takeWhile TOR_ISDIGIT s2;
          v = int (dec_val ds)
      in if ds = [] then (0, False, s)
         else if v > ULONG_MAX then (ULONG_MAX, True, drop (length ds) s2)
         else (if neg then (- v) mod (ULONG_MAX + 1) else v, False, drop (length ds) s2))"

definition tor_parse_ulong :: "string \<Rightarrow> int \<Rightarrow> int \<Rightarrow> bool \<Rightarrow> int \<times> bool \<times> string" where
  "tor_parse_ulong s lo hi has_next =
     (let (r, erange, endptr) = strtoul10 s
      in if erange then (0, False, endptr)
         else if endptr = s then (0, False, endptr)
         else if \<not> has_next \<and> endptr \<noteq> [] then (0, False, endptr)
         else if hi < lo then (0, False, endptr)
         else if r < lo \<or> r > hi then (0, False, endptr)
         else (r, True, endptr))"

section \<open>Searching for a character\<close>

text \<open>The offset that \<open>memchr\<close> or \<open>strchr\<close> finds.\<close>

definition index_of :: "char \<Rightarrow> string \<Rightarrow> nat option" where
  "index_of c s = (if c \<in> set s then Some (length (takeWhile (\<lambda>x. x \<noteq> c) s)) else None)"

lemma index_of_append:
  "index_of c (xs @ ys) = (case index_of c xs of Some k \<Rightarrow> Some k | None \<Rightarrow> map_option (\<lambda>k. length xs + k) (index_of c ys))"
  by (auto simp: index_of_def takeWhile_append)

lemma index_of_None: "index_of c xs = None \<longleftrightarrow> c \<notin> set xs"
  by (simp add: index_of_def)

lemma index_of_less: "index_of c xs = Some k \<Longrightarrow> k < length xs"
  by (induction xs arbitrary: k) (auto simp: index_of_def split: if_splits)

lemma index_of_drop: "index_of c xs = Some k \<Longrightarrow> \<exists>ys. drop k xs = c # ys"
  by (induction xs arbitrary: k) (auto simp: index_of_def split: if_splits)

section \<open>Printing and parsing decimal numbers\<close>

lemma ord_chr_digit [simp]: "d < 10 \<Longrightarrow> ord (chr (48 + d)) = 48 + d"
  by (simp)

lemma digit_char [simp]: "d < 10 \<Longrightarrow> TOR_ISDIGIT (chr (48 + d))" "d < 10 \<Longrightarrow> digit_val (chr (48 + d)) = d"
  by (simp_all add: TOR_ISDIGIT_def digit_val_def)

lemma dec_val_snoc [simp]: "dec_val (ds @ [c]) = dec_val ds * 10 + digit_val c"
  by (simp add: dec_val_def)

lemma show_dec_nonempty [simp]: "show_dec n \<noteq> []"
  by (subst show_dec.simps) simp

lemma show_dec_digits: "\<forall>c \<in> set (show_dec n). TOR_ISDIGIT c"
proof (induction n rule: show_dec.induct)
  case (1 n)
  then show ?case by (subst show_dec.simps) auto
qed

lemma dec_val_show_dec [simp]: "dec_val (show_dec n) = n"
proof (induction n rule: show_dec.induct)
  case (1 n)
  then show ?case
    by (subst show_dec.simps) (auto simp: dec_val_def [of "[_]"])
qed

lemma length_show_dec: "n < 10 ^ k \<Longrightarrow> 0 < k \<Longrightarrow> length (show_dec n) \<le> k"
proof (induction n arbitrary: k rule: show_dec.induct)
  case (1 n)
  show ?case
  proof (cases "n < 10")
    case True
    then show ?thesis using 1 by (subst show_dec.simps) simp
  next
    case False
    then obtain k' where k: "k = Suc k'" "0 < k'" using 1(2,3) by (cases k; cases "k - 1") auto
    then have "n div 10 < 10 ^ k'" using 1(2) by (simp add: less_mult_imp_div_less mult.commute)
    from 1(1)[OF False this k(2)] False k show ?thesis by (subst show_dec.simps) simp
  qed
qed

lemma digit_not_space: "TOR_ISDIGIT c \<Longrightarrow> \<not> TOR_ISSPACE c"
  by (auto simp: TOR_ISDIGIT_def TOR_ISSPACE_def)

lemma digit_not_sign: "TOR_ISDIGIT c \<Longrightarrow> c \<noteq> CHR ''-'' \<and> c \<noteq> CHR ''+''"
  by (auto simp: TOR_ISDIGIT_def)

lemma takeWhile_digits_append:
  assumes "\<forall>c \<in> set ds. TOR_ISDIGIT c" "\<not> TOR_ISDIGIT (deref r)"
  shows "takeWhile TOR_ISDIGIT (ds @ r) = ds"
  using assms by (cases r) (auto simp: deref_def takeWhile_append2)

lemma strtol10_digits:
  assumes "ds \<noteq> []" "\<forall>c \<in> set ds. TOR_ISDIGIT c" "\<not> TOR_ISDIGIT (deref r)" "int (dec_val ds) \<le> LONG_MAX"
  shows "strtol10 (ds @ r) = (int (dec_val ds), False, r)"
proof -
  obtain d ds' where ds: "ds = d # ds'" using assms(1) by (cases ds) auto
  then have d: "TOR_ISDIGIT d" using assms(2) by simp
  have "dropWhile TOR_ISSPACE (ds @ r) = ds @ r" using ds digit_not_space [OF d] by simp
  moreover have "deref (ds @ r) = d" using ds by (simp add: deref_def)
  moreover have "\<not> int (dec_val ds) < LONG_MIN" by (simp add: LONG_MIN_def)
  ultimately show ?thesis
    using assms takeWhile_digits_append [OF assms(2,3)] digit_not_sign [OF d]
    by (simp add: strtol10_def Let_def)
qed

lemma tor_parse_long_show_dec:
  assumes "int n \<le> hi" "hi \<le> LONG_MAX" "\<not> TOR_ISDIGIT (deref r)"
  shows "tor_parse_long (show_dec n @ r) 0 hi True = (int n, True, r)"
  using strtol10_digits [of "show_dec n" r] assms show_dec_digits
  by (simp add: tor_parse_long_def)

lemma strtoul10_digits:
  assumes "ds \<noteq> []" "\<forall>c \<in> set ds. TOR_ISDIGIT c" "\<not> TOR_ISDIGIT (deref r)" "int (dec_val ds) \<le> ULONG_MAX"
  shows "strtoul10 (ds @ r) = (int (dec_val ds), False, r)"
proof -
  obtain d ds' where ds: "ds = d # ds'" using assms(1) by (cases ds) auto
  then have d: "TOR_ISDIGIT d" using assms(2) by simp
  have "dropWhile TOR_ISSPACE (ds @ r) = ds @ r" using ds digit_not_space [OF d] by simp
  moreover have "deref (ds @ r) = d" using ds by (simp add: deref_def)
  ultimately show ?thesis
    using assms takeWhile_digits_append [OF assms(2,3)] digit_not_sign [OF d]
    by (simp add: strtoul10_def Let_def)
qed

lemma tor_parse_ulong_show_dec:
  assumes "int n \<le> hi" "hi \<le> ULONG_MAX" "\<not> TOR_ISDIGIT (deref r)"
  shows "tor_parse_ulong (show_dec n @ r) 0 hi True = (int n, True, r)"
  using strtoul10_digits [of "show_dec n" r] assms show_dec_digits
  by (simp add: tor_parse_ulong_def)

end
