(* ===== verification/Lcs_Spec.thy ===== *)
theory Lcs_Spec
  imports Main "HOL-Library.Sublist"
begin

text \<open>
  The abstract specification behind the consensus diff: the length of a longest common
  subsequence, and the laws the dynamic program and the divide-and-conquer step rely on.
\<close>

section \<open>Definition\<close>

definition common_subseqs :: "'a list \<Rightarrow> 'a list \<Rightarrow> 'a list set" where
  "common_subseqs xs ys = {zs. subseq zs xs \<and> subseq zs ys}"

definition lcs :: "'a list \<Rightarrow> 'a list \<Rightarrow> nat" where
  "lcs xs ys = Max (length ` common_subseqs xs ys)"

section \<open>Laws\<close>

lemma finite_common_subseqs: "finite (common_subseqs xs ys)"
proof (rule finite_subset)
  show "common_subseqs xs ys \<subseteq> set (subseqs xs)"
    by (auto simp: common_subseqs_def)
qed simp

lemma lcs_ge: "subseq zs xs \<Longrightarrow> subseq zs ys \<Longrightarrow> length zs \<le> lcs xs ys"
  unfolding lcs_def
  by (rule Max_ge) (simp_all add: finite_common_subseqs, simp add: common_subseqs_def)

lemma lcs_witness:
  obtains zs where "subseq zs xs" "subseq zs ys" "length zs = lcs xs ys"
proof -
  have "[] \<in> common_subseqs xs ys" by (simp add: common_subseqs_def)
  then have "lcs xs ys \<in> length ` common_subseqs xs ys"
    unfolding lcs_def by (intro Max_in) (auto simp: finite_common_subseqs)
  then show ?thesis using that by (auto simp: common_subseqs_def)
qed

lemma lcs_leI: "(\<And>zs. subseq zs xs \<Longrightarrow> subseq zs ys \<Longrightarrow> length zs \<le> n) \<Longrightarrow> lcs xs ys \<le> n"
  using lcs_witness by metis

lemma lcs_mono: "subseq xs xs' \<Longrightarrow> subseq ys ys' \<Longrightarrow> lcs xs ys \<le> lcs xs' ys'"
  by (rule lcs_leI) (blast intro: lcs_ge subseq_order.order_trans)

lemma lcs_commute: "lcs xs ys = lcs ys xs"
  by (simp add: lcs_def common_subseqs_def conj_commute)

lemma subseq_revI: "subseq xs ys \<Longrightarrow> subseq (rev xs) (rev ys)"
  by (induction rule: list_emb.induct) (auto intro: list_emb_append_mono)

lemma lcs_rev: "lcs (rev xs) (rev ys) = lcs xs ys"
proof -
  have le: "lcs (rev as) (rev bs) \<le> lcs as bs" for as bs :: "'a list"
  proof (rule lcs_leI)
    fix zs assume "subseq zs (rev as)" "subseq zs (rev bs)"
    then have "subseq (rev zs) as" "subseq (rev zs) bs"
      using subseq_revI [of zs "rev as"] subseq_revI [of zs "rev bs"] by simp_all
    then show "length zs \<le> lcs as bs" using lcs_ge [of "rev zs"] by simp
  qed
  from le [of xs ys] le [of "rev xs" "rev ys"] show ?thesis by simp
qed

lemma lcs_Nil [simp]: "lcs [] ys = 0" "lcs xs [] = 0"
  using lcs_leI [of "[]" ys 0] lcs_leI [of xs "[]" 0] by auto

lemma lcs_Cons_same [simp]: "lcs (x # xs) (x # ys) = Suc (lcs xs ys)"
proof (rule antisym)
  show "lcs (x # xs) (x # ys) \<le> Suc (lcs xs ys)"
  proof (rule lcs_leI)
    fix zs assume zs: "subseq zs (x # xs)" "subseq zs (x # ys)"
    show "length zs \<le> Suc (lcs xs ys)"
    proof (cases zs)
      case (Cons z zs')
      with zs have "subseq zs' xs" "subseq zs' ys"
        by (auto simp: subseq_Cons2_iff split: if_splits dest: subseq_Cons')
      then show ?thesis using lcs_ge Cons by force
    qed simp
  qed
next
  obtain zs where "subseq zs xs" "subseq zs ys" "length zs = lcs xs ys" by (rule lcs_witness)
  then show "Suc (lcs xs ys) \<le> lcs (x # xs) (x # ys)"
    using lcs_ge [of "x # zs" "x # xs" "x # ys"] by simp
qed

lemma lcs_Cons_diff: "x \<noteq> y \<Longrightarrow> lcs (x # xs) (y # ys) = max (lcs (x # xs) ys) (lcs xs (y # ys))"
proof (rule antisym)
  assume ne: "x \<noteq> y"
  show "lcs (x # xs) (y # ys) \<le> max (lcs (x # xs) ys) (lcs xs (y # ys))"
  proof (rule lcs_leI)
    fix zs assume zs: "subseq zs (x # xs)" "subseq zs (y # ys)"
    show "length zs \<le> max (lcs (x # xs) ys) (lcs xs (y # ys))"
    proof (cases zs)
      case (Cons z zs')
      with zs ne have "subseq zs xs \<and> subseq zs (y # ys) \<or> subseq zs (x # xs) \<and> subseq zs ys"
        by (auto simp: subseq_Cons2_iff split: if_splits)
      then show ?thesis using lcs_ge le_max_iff_disj by blast
    qed simp
  qed
next
  show "max (lcs (x # xs) ys) (lcs xs (y # ys)) \<le> lcs (x # xs) (y # ys)"
    by (intro max.boundedI lcs_mono) auto
qed

lemma lcs_snoc_same: "lcs (xs @ [x]) (ys @ [x]) = Suc (lcs xs ys)"
  using lcs_Cons_same [of x "rev xs" "rev ys"] lcs_rev [of "xs @ [x]" "ys @ [x]"] lcs_rev [of xs ys]
  by simp

lemma lcs_snoc_diff:
  assumes "x \<noteq> y"
  shows "lcs (xs @ [x]) (ys @ [y]) = max (lcs (xs @ [x]) ys) (lcs xs (ys @ [y]))"
proof -
  have "lcs (rev (xs @ [x])) (rev (ys @ [y])) = max (lcs (rev (xs @ [x])) (rev ys)) (lcs (rev xs) (rev (ys @ [y])))"
    using lcs_Cons_diff [OF assms, of "rev xs" "rev ys"] by simp
  then show ?thesis by (simp only: lcs_rev)
qed

lemma lcs_append_same: "lcs (p @ xs) (p @ ys) = length p + lcs xs ys"
  by (induction p) auto

lemma lcs_append_same_right: "lcs (xs @ q) (ys @ q) = lcs xs ys + length q"
  using lcs_append_same [of "rev q" "rev xs" "rev ys"] lcs_rev [of "xs @ q" "ys @ q"] lcs_rev [of xs ys]
  by simp

lemma lcs_singleton: "lcs [x] ys = (if x \<in> set ys then 1 else 0)"
proof (induction ys)
  case (Cons y ys)
  then show ?case by (cases "x = y") (auto simp: lcs_Cons_diff)
qed simp

text \<open>Splitting the first list: some cut of the second list keeps the whole length.\<close>

lemma lcs_append_ge: "lcs xs1 (take k ys) + lcs xs2 (drop k ys) \<le> lcs (xs1 @ xs2) ys"
proof -
  obtain z1 where z1: "subseq z1 xs1" "subseq z1 (take k ys)" "length z1 = lcs xs1 (take k ys)"
    by (rule lcs_witness)
  obtain z2 where z2: "subseq z2 xs2" "subseq z2 (drop k ys)" "length z2 = lcs xs2 (drop k ys)"
    by (rule lcs_witness)
  have "subseq (z1 @ z2) (take k ys @ drop k ys)"
    using z1(2) z2(2) by (rule list_emb_append_mono)
  moreover have "subseq (z1 @ z2) (xs1 @ xs2)"
    using z1(1) z2(1) by (rule list_emb_append_mono)
  ultimately show ?thesis using lcs_ge [of "z1 @ z2" "xs1 @ xs2" ys] z1 z2 by simp
qed

lemma lcs_append_split:
  "\<exists>k \<le> length ys. lcs (xs1 @ xs2) ys = lcs xs1 (take k ys) + lcs xs2 (drop k ys)"
proof -
  obtain zs where zs: "subseq zs (xs1 @ xs2)" "subseq zs ys" "length zs = lcs (xs1 @ xs2) ys"
    by (rule lcs_witness)
  from zs(1) obtain z1 z2 where z: "zs = z1 @ z2" "subseq z1 xs1" "subseq z2 xs2"
    by (auto simp: subseq_append_iff)
  from zs(2) z(1) obtain us vs where ys: "ys = us @ vs" "subseq z1 us" "subseq z2 vs"
    by (auto dest: list_emb_appendD)
  have "lcs (xs1 @ xs2) ys \<le> lcs xs1 us + lcs xs2 vs"
    using zs(3) z ys lcs_ge [of z1 xs1 us] lcs_ge [of z2 xs2 vs] by simp
  moreover have "lcs xs1 us + lcs xs2 vs \<le> lcs (xs1 @ xs2) ys"
    using lcs_append_ge [of xs1 "length us" ys xs2] ys by simp
  ultimately show ?thesis using ys by (intro exI [of _ "length us"]) auto
qed

end
