(* ===== verification/Consdiff_Lcs.thy ===== *)
theory Consdiff_Lcs
  imports Prelude Lcs_Spec
begin

text \<open>
  The line comparison of \<open>feature/dircommon/consdiff.c\<close>: slices of a list of lines, the
  longest-common-subsequence table, and \<open>calc_changes\<close>, which marks in two bit arrays the
  lines of the first list that are gone and the lines of the second that are new.  An index
  outside a list and a failed assertion are \<^const>\<open>None\<close>.
\<close>

section \<open>Model\<close>

type_synonym cdline = string
type_synonym smartlist = "cdline list"
type_synonym bitarray = "bool list"

definition smartlist_get :: "'a list \<Rightarrow> int \<Rightarrow> 'a option" where
  "smartlist_get sl idx = (if 0 \<le> idx \<and> idx < int (length sl) then Some (sl ! nat idx) else None)"

definition bitarray_init_zero :: "nat \<Rightarrow> bitarray" where
  "bitarray_init_zero n_bits = replicate n_bits False"

definition bitarray_set :: "bitarray \<Rightarrow> int \<Rightarrow> bitarray option" where
  "bitarray_set b i =
     (if 0 \<le> i \<and> i < int (length b) then Some (b[nat i := True]) else None)"

definition lines_eq :: "cdline \<Rightarrow> cdline \<Rightarrow> bool" where
  "lines_eq a b \<longleftrightarrow> length a = length b \<and> a = b"

record smartlist_slice_t =
  sl_list :: smartlist
  sl_offset :: int
  sl_len :: int

definition smartlist_slice :: "smartlist \<Rightarrow> int \<Rightarrow> int \<Rightarrow> smartlist_slice_t option" where
  "smartlist_slice sl start stop = do {
     let list_len = int (length sl);
     tor_assert (start \<ge> 0);
     tor_assert (start \<le> list_len);
     let stop = (if stop = -1 then list_len else stop);
     tor_assert (start \<le> stop);
     Some \<lparr>sl_list = sl, sl_offset = start, sl_len = stop - start\<rparr>
   }"

text \<open>
  The inner loop of \<open>lcs_lengths\<close>: \<open>k\<close> iterations are left, at column \<open>j\<close> and list index
  \<open>sj\<close>.
\<close>

fun lcs_inner ::
  "cdline \<Rightarrow> smartlist \<Rightarrow> int \<Rightarrow> nat list \<Rightarrow> nat \<Rightarrow> nat \<Rightarrow> int \<Rightarrow> nat list \<Rightarrow> nat list option" where
  "lcs_inner line1 l2 direction prev 0 j sj result = Some result"
| "lcs_inner line1 l2 direction prev (Suc k) j sj result = do {
     line2 \<leftarrow> smartlist_get l2 sj;
     let result = (if lines_eq line1 line2 then result[j + 1 := prev ! j + 1]
                   else result[j + 1 := max (result ! j) (prev ! (j + 1))]);
     lcs_inner line1 l2 direction prev k (j + 1) (sj + direction) result
   }"

fun lcs_outer ::
  "smartlist \<Rightarrow> smartlist_slice_t \<Rightarrow> int \<Rightarrow> nat \<Rightarrow> int \<Rightarrow> nat list \<Rightarrow> nat list option" where
  "lcs_outer l1 sl2 direction 0 si result = Some result"
| "lcs_outer l1 sl2 direction (Suc k) si result = do {
     line1 \<leftarrow> smartlist_get l1 si;
     let prev = result;
     let sj = (if direction = -1 then sl_offset sl2 + (sl_len sl2 - 1) else sl_offset sl2);
     result \<leftarrow> lcs_inner line1 (sl_list sl2) direction prev (nat (sl_len sl2)) 0 sj result;
     lcs_outer l1 sl2 direction k (si + direction) result
   }"

definition lcs_lengths ::
  "smartlist_slice_t \<Rightarrow> smartlist_slice_t \<Rightarrow> int \<Rightarrow> nat list option" where
  "lcs_lengths sl1 sl2 direction = do {
     let result = replicate (nat (sl_len sl2) + 1) 0;
     tor_assert (direction = 1 \<or> direction = -1);
     let si = (if direction = -1 then sl_offset sl1 + (sl_len sl1 - 1) else sl_offset sl1);
     lcs_outer (sl_list sl1) sl2 direction (nat (sl_len sl1)) si result
   }"

text \<open>The two loops of \<open>trim_slices\<close>: from the front, then from the back.\<close>

function trim_front ::
  "smartlist_slice_t \<Rightarrow> smartlist_slice_t \<Rightarrow> (smartlist_slice_t \<times> smartlist_slice_t) option" where
  "trim_front sl1 sl2 =
     (if sl_len sl1 > 0 \<and> sl_len sl2 > 0 then do {
        line1 \<leftarrow> smartlist_get (sl_list sl1) (sl_offset sl1);
        line2 \<leftarrow> smartlist_get (sl_list sl2) (sl_offset sl2);
        if \<not> lines_eq line1 line2 then Some (sl1, sl2)
        else trim_front
               (sl1\<lparr>sl_offset := sl_offset sl1 + 1, sl_len := sl_len sl1 - 1\<rparr>)
               (sl2\<lparr>sl_offset := sl_offset sl2 + 1, sl_len := sl_len sl2 - 1\<rparr>)
      }
      else Some (sl1, sl2))"
  by pat_completeness auto
termination
  by (relation "measure (\<lambda>(s1, s2). nat (sl_len s1))") auto

declare trim_front.simps [simp del]

function trim_back ::
  "int \<Rightarrow> int \<Rightarrow> smartlist_slice_t \<Rightarrow> smartlist_slice_t
   \<Rightarrow> (smartlist_slice_t \<times> smartlist_slice_t) option" where
  "trim_back i1 i2 sl1 sl2 =
     (if sl_len sl1 > 0 \<and> sl_len sl2 > 0 then do {
        line1 \<leftarrow> smartlist_get (sl_list sl1) i1;
        line2 \<leftarrow> smartlist_get (sl_list sl2) i2;
        if \<not> lines_eq line1 line2 then Some (sl1, sl2)
        else trim_back (i1 - 1) (i2 - 1)
               (sl1\<lparr>sl_len := sl_len sl1 - 1\<rparr>) (sl2\<lparr>sl_len := sl_len sl2 - 1\<rparr>)
      }
      else Some (sl1, sl2))"
  by pat_completeness auto
termination
  by (relation "measure (\<lambda>(i1, i2, s1, s2). nat (sl_len s1))") auto

declare trim_back.simps [simp del]

definition trim_slices ::
  "smartlist_slice_t \<Rightarrow> smartlist_slice_t \<Rightarrow> (smartlist_slice_t \<times> smartlist_slice_t) option" where
  "trim_slices sl1 sl2 = do {
     (sl1, sl2) \<leftarrow> trim_front sl1 sl2;
     let i1 = (sl_offset sl1 + sl_len sl1) - 1;
     let i2 = (sl_offset sl2 + sl_len sl2) - 1;
     trim_back i1 i2 sl1 sl2
   }"

fun slice_string_pos_loop :: "smartlist \<Rightarrow> cdline \<Rightarrow> nat \<Rightarrow> int \<Rightarrow> int option" where
  "slice_string_pos_loop sl str 0 i = Some (-1)"
| "slice_string_pos_loop sl str (Suc k) i = do {
     el \<leftarrow> smartlist_get sl i;
     if lines_eq el str then Some i else slice_string_pos_loop sl str k (i + 1)
   }"

definition smartlist_slice_string_pos :: "smartlist_slice_t \<Rightarrow> cdline \<Rightarrow> int option" where
  "smartlist_slice_string_pos sc str =
     slice_string_pos_loop (sl_list sc) str (nat (sl_len sc)) (sl_offset sc)"

fun set_changed_loop :: "int \<Rightarrow> nat \<Rightarrow> int \<Rightarrow> bitarray \<Rightarrow> bitarray option" where
  "set_changed_loop toskip 0 i changed2 = Some changed2"
| "set_changed_loop toskip (Suc k) i changed2 = do {
     changed2 \<leftarrow> (if i \<noteq> toskip then bitarray_set changed2 i else Some changed2);
     set_changed_loop toskip k (i + 1) changed2
   }"

definition set_changed ::
  "bitarray \<Rightarrow> bitarray \<Rightarrow> smartlist_slice_t \<Rightarrow> smartlist_slice_t \<Rightarrow> (bitarray \<times> bitarray) option" where
  "set_changed changed1 changed2 sl1 sl2 = do {
     tor_assert (sl_len sl1 = 0 \<or> sl_len sl1 = 1);
     (toskip, changed1) \<leftarrow>
       (if sl_len sl1 = 1 then do {
          line_common \<leftarrow> smartlist_get (sl_list sl1) (sl_offset sl1);
          toskip \<leftarrow> smartlist_slice_string_pos sl2 line_common;
          changed1 \<leftarrow> (if toskip = -1 then bitarray_set changed1 (sl_offset sl1) else Some changed1);
          Some (toskip, changed1)
        }
        else Some (-1, changed1));
     changed2 \<leftarrow> set_changed_loop toskip (nat (sl_len sl2)) (sl_offset sl2) changed2;
     Some (changed1, changed2)
   }"

text \<open>The loop of \<open>optimal_column_to_split\<close> over the columns \<open>i, i + 1, \<dots>\<close>, \<open>k\<close> of them.\<close>

fun split_column_loop :: "nat list \<Rightarrow> nat list \<Rightarrow> nat \<Rightarrow> nat \<Rightarrow> nat \<Rightarrow> nat \<Rightarrow> int \<Rightarrow> nat" where
  "split_column_loop lens_top lens_bot len2 0 i column max_sum = column"
| "split_column_loop lens_top lens_bot len2 (Suc k) i column max_sum =
     (let s = int (lens_top ! i + lens_bot ! (len2 - i))
      in if s > max_sum then split_column_loop lens_top lens_bot len2 k (i + 1) i s
         else split_column_loop lens_top lens_bot len2 k (i + 1) column max_sum)"

definition optimal_column_to_split ::
  "smartlist_slice_t \<Rightarrow> smartlist_slice_t \<Rightarrow> smartlist_slice_t \<Rightarrow> nat option" where
  "optimal_column_to_split tp bt sl2 = do {
     lens_top \<leftarrow> lcs_lengths tp sl2 1;
     lens_bot \<leftarrow> lcs_lengths bt sl2 (-1);
     Some (split_column_loop lens_top lens_bot (nat (sl_len sl2)) (nat (sl_len sl2) + 1) 0 0 (-1))
   }"

text \<open>\<open>calc_changes\<close> recurses on the halves of the trimmed first slice, which are shorter.\<close>

lemma lines_eq_iff [simp]: "lines_eq a b \<longleftrightarrow> a = b"
  by (auto simp: lines_eq_def)

lemma smartlist_slice_eq:
  "0 \<le> a \<Longrightarrow> a \<le> b \<Longrightarrow> a \<le> int (length l) \<Longrightarrow>
   smartlist_slice l a b = Some \<lparr>sl_list = l, sl_offset = a, sl_len = b - a\<rparr>"
  by (simp add: smartlist_slice_def Let_def)

lemma smartlist_slice_len: "smartlist_slice l a (a + n) = Some s \<Longrightarrow> 0 \<le> n \<Longrightarrow> sl_len s = n"
  by (auto simp: smartlist_slice_def Let_def split: if_splits)

lemma trim_front_len: "trim_front s1 s2 = Some (t1, t2) \<Longrightarrow> sl_len t1 \<le> sl_len s1 \<and> sl_len t2 \<le> sl_len s2"
proof (induction s1 s2 rule: trim_front.induct)
  case (1 s1 s2)
  show ?case
    using "1.prems" "1.IH"
    by (subst (asm) trim_front.simps) (fastforce simp: bind_eq_Some_conv split: if_splits)
qed

lemma trim_back_len: "trim_back i j s1 s2 = Some (t1, t2) \<Longrightarrow> sl_len t1 \<le> sl_len s1 \<and> sl_len t2 \<le> sl_len s2"
proof (induction i j s1 s2 rule: trim_back.induct)
  case (1 i j s1 s2)
  show ?case
    using "1.prems" "1.IH"
    by (subst (asm) trim_back.simps) (fastforce simp: bind_eq_Some_conv split: if_splits)
qed

lemma trim_slices_len: "trim_slices s1 s2 = Some (t1, t2) \<Longrightarrow> sl_len t1 \<le> sl_len s1"
  by (fastforce simp: trim_slices_def bind_eq_Some_conv Let_def dest: trim_front_len trim_back_len)

lemma halves_smaller:
  assumes "trim_slices s1 s2 = Some (t1, t2)" "\<not> sl_len t1 \<le> 1"
    and "smartlist_slice (sl_list t1) (sl_offset t1) (sl_offset t1 + sl_len t1 div 2) = Some tp"
    and "smartlist_slice (sl_list t1) (sl_offset t1 + sl_len t1 div 2) (sl_offset t1 + sl_len t1) = Some bt"
  shows "nat (sl_len tp) < nat (sl_len s1)" "nat (sl_len bt) < nat (sl_len s1)"
proof -
  have "sl_len tp = sl_len t1 div 2" using assms(2,3) by (auto dest: smartlist_slice_len)
  moreover have "sl_len bt = sl_len t1 - sl_len t1 div 2"
    using assms(2,4) smartlist_slice_len [of "sl_list t1" "sl_offset t1 + sl_len t1 div 2" "sl_len t1 - sl_len t1 div 2" bt]
    by simp
  ultimately show "nat (sl_len tp) < nat (sl_len s1)" "nat (sl_len bt) < nat (sl_len s1)"
    using trim_slices_len [OF assms(1)] assms(2) by auto
qed

function calc_changes ::
  "smartlist_slice_t \<Rightarrow> smartlist_slice_t \<Rightarrow> bitarray \<Rightarrow> bitarray \<Rightarrow> (bitarray \<times> bitarray) option" where
  "calc_changes sl1 sl2 changed1 changed2 = do {
     (sl1, sl2) \<leftarrow> trim_slices sl1 sl2;
     if sl_len sl1 \<le> 1 then set_changed changed1 changed2 sl1 sl2
     else if sl_len sl2 \<le> 1 then do {
       (changed2, changed1) \<leftarrow> set_changed changed2 changed1 sl2 sl1;
       Some (changed1, changed2)
     }
     else do {
       let mid = sl_len sl1 div 2;
       tp \<leftarrow> smartlist_slice (sl_list sl1) (sl_offset sl1) (sl_offset sl1 + mid);
       bt \<leftarrow> smartlist_slice (sl_list sl1) (sl_offset sl1 + mid) (sl_offset sl1 + sl_len sl1);
       mid2 \<leftarrow> optimal_column_to_split tp bt sl2;
       lf \<leftarrow> smartlist_slice (sl_list sl2) (sl_offset sl2) (sl_offset sl2 + int mid2);
       rt \<leftarrow> smartlist_slice (sl_list sl2) (sl_offset sl2 + int mid2) (sl_offset sl2 + sl_len sl2);
       (changed1, changed2) \<leftarrow> calc_changes tp lf changed1 changed2;
       calc_changes bt rt changed1 changed2
     }
   }"
  by pat_completeness auto
termination
  by (relation "measure (\<lambda>(s1, s2, c1, c2). nat (sl_len s1))") (auto dest: halves_smaller)

declare calc_changes.simps [simp del]

section \<open>Specification of a change set\<close>

text \<open>A slice inside its list, the lines it denotes, and the slice less \<open>p\<close> lines in front and \<open>q\<close> behind.\<close>

definition slice_ok :: "smartlist_slice_t \<Rightarrow> bool" where
  "slice_ok s \<longleftrightarrow> 0 \<le> sl_offset s \<and> 0 \<le> sl_len s \<and> sl_offset s + sl_len s \<le> int (length (sl_list s))"

definition slice_lines :: "smartlist_slice_t \<Rightarrow> smartlist" where
  "slice_lines s = take (nat (sl_len s)) (drop (nat (sl_offset s)) (sl_list s))"

definition slice_trim :: "smartlist_slice_t \<Rightarrow> nat \<Rightarrow> nat \<Rightarrow> smartlist_slice_t" where
  "slice_trim s p q = s\<lparr>sl_offset := sl_offset s + int p, sl_len := sl_len s - int p - int q\<rparr>"

text \<open>Overwriting a region of a bit array, and the lines a mask keeps.\<close>

definition bits_write :: "bitarray \<Rightarrow> int \<Rightarrow> bool list \<Rightarrow> bitarray" where
  "bits_write ch off m = take (nat off) ch @ m @ drop (nat off + length m) ch"

definition kept :: "'a list \<Rightarrow> bool list \<Rightarrow> 'a list" where
  "kept xs m = map fst (filter (\<lambda>(x, b). \<not> b) (zip xs m))"

definition clear_region :: "bitarray \<Rightarrow> smartlist_slice_t \<Rightarrow> bool" where
  "clear_region ch s \<longleftrightarrow> length ch = length (sl_list s)
     \<and> take (nat (sl_len s)) (drop (nat (sl_offset s)) ch) = replicate (nat (sl_len s)) False"

text \<open>What a call of \<open>set_changed\<close> or \<open>calc_changes\<close> promises about its result.\<close>

definition marks_diff ::
  "smartlist_slice_t \<Rightarrow> smartlist_slice_t \<Rightarrow> bitarray \<Rightarrow> bitarray \<Rightarrow> (bitarray \<times> bitarray) option \<Rightarrow> bool" where
  "marks_diff s1 s2 ch1 ch2 r \<longleftrightarrow>
     (\<exists>m1 m2. r = Some (bits_write ch1 (sl_offset s1) m1, bits_write ch2 (sl_offset s2) m2)
        \<and> length m1 = nat (sl_len s1) \<and> length m2 = nat (sl_len s2)
        \<and> kept (slice_lines s1) m1 = kept (slice_lines s2) m2
        \<and> length (kept (slice_lines s1) m1) = lcs (slice_lines s1) (slice_lines s2))"

section \<open>Reading a slice\<close>

lemma smartlist_get_nat [simp]:
  "smartlist_get sl (int k) = (if k < length sl then Some (sl ! k) else None)"
  by (simp add: smartlist_get_def)

lemma length_slice_lines [simp]: "slice_ok s \<Longrightarrow> length (slice_lines s) = nat (sl_len s)"
  by (auto simp: slice_ok_def slice_lines_def)

lemma slice_get:
  assumes "slice_ok s" "k < nat (sl_len s)"
  shows "smartlist_get (sl_list s) (sl_offset s + int k) = Some (slice_lines s ! k)"
  using assms by (auto simp: slice_ok_def slice_lines_def smartlist_get_def nat_add_distrib)

lemma slice_get_back:
  assumes "slice_ok s" "k < nat (sl_len s)"
  shows "smartlist_get (sl_list s) (sl_offset s + (sl_len s - 1) - int k) = Some (rev (slice_lines s) ! k)"
proof -
  let ?k = "nat (sl_len s) - 1 - k"
  have "sl_offset s + (sl_len s - 1) - int k = sl_offset s + int ?k" using assms by auto
  with slice_get [OF assms(1), of ?k] assms show ?thesis
    by (simp only: rev_nth length_slice_lines length_rev) simp
qed

section \<open>Longest common subsequences\<close>

lemma lcs_inner_spec:
  assumes get: "\<And>k. k < length ys \<Longrightarrow> smartlist_get l2 (sja + d * int k) = Some (ys ! k)"
    and prev: "\<And>c. c \<le> length ys \<Longrightarrow> prev ! c = lcs xs (take c ys)"
    and res: "length res = length ys + 1" "\<And>c. c \<le> j \<Longrightarrow> res ! c = lcs (xs @ [x]) (take c ys)"
    and jk: "j + k = length ys"
  shows "\<exists>res'. lcs_inner x l2 d prev k j (sja + d * int j) res = Some res'
     \<and> length res' = length ys + 1 \<and> (\<forall>c \<le> length ys. res' ! c = lcs (xs @ [x]) (take c ys))"
  using res jk
proof (induction k arbitrary: j res)
  case 0
  then show ?case by simp
next
  case (Suc k)
  have j: "j < length ys" using Suc.prems by simp
  let ?r = "res[j + 1 := lcs (xs @ [x]) (take (Suc j) ys)]"
  have row: "(if lines_eq x (ys ! j) then res[j + 1 := prev ! j + 1]
      else res[j + 1 := max (res ! j) (prev ! (j + 1))]) = ?r"
    using j prev [of j] prev [of "Suc j"] Suc.prems(2) [of j]
    by (auto simp: take_Suc_conv_app_nth lcs_snoc_same lcs_snoc_diff)
  have sj: "sja + d * int j + d = sja + d * int (Suc j)" by (simp add: algebra_simps)
  have "\<exists>res'. lcs_inner x l2 d prev k (Suc j) (sja + d * int (Suc j)) ?r = Some res'
     \<and> length res' = length ys + 1 \<and> (\<forall>c \<le> length ys. res' ! c = lcs (xs @ [x]) (take c ys))"
    using Suc.prems j by (intro Suc.IH) (auto simp: nth_list_update le_Suc_eq)
  then show ?case using get [OF j] row by (simp add: Let_def sj [unfolded of_nat_Suc, symmetric] del: lines_eq_iff)
qed

lemma lcs_outer_spec:
  assumes get1: "\<And>k. k < length xs \<Longrightarrow> smartlist_get l1 (sia + d * int k) = Some (xs ! k)"
    and get2: "\<And>k. k < length ys \<Longrightarrow> smartlist_get (sl_list s2) (sja + d * int k) = Some (ys ! k)"
    and s2: "sja = (if d = -1 then sl_offset s2 + (sl_len s2 - 1) else sl_offset s2)"
      "nat (sl_len s2) = length ys"
    and res: "length res = length ys + 1" "\<And>c. c \<le> length ys \<Longrightarrow> res ! c = lcs (take i xs) (take c ys)"
    and ik: "i + k = length xs"
  shows "\<exists>res'. lcs_outer l1 s2 d k (sia + d * int i) res = Some res'
     \<and> length res' = length ys + 1 \<and> (\<forall>c \<le> length ys. res' ! c = lcs xs (take c ys))"
  using res ik
proof (induction k arbitrary: i res)
  case 0
  then show ?case by simp
next
  case (Suc k)
  have i: "i < length xs" using Suc.prems by simp
  have "\<exists>r. lcs_inner (xs ! i) (sl_list s2) d res (length ys) 0 (sja + d * int 0) res = Some r
     \<and> length r = length ys + 1 \<and> (\<forall>c \<le> length ys. r ! c = lcs (take i xs @ [xs ! i]) (take c ys))"
    using Suc.prems get2 by (intro lcs_inner_spec) auto
  then obtain r where r: "lcs_inner (xs ! i) (sl_list s2) d res (length ys) 0 sja res = Some r"
    "length r = length ys + 1" "\<And>c. c \<le> length ys \<Longrightarrow> r ! c = lcs (take (Suc i) xs) (take c ys)"
    using i by (auto simp: take_Suc_conv_app_nth)
  have "\<exists>res'. lcs_outer l1 s2 d k (sia + d * int (Suc i)) r = Some res'
     \<and> length res' = length ys + 1 \<and> (\<forall>c \<le> length ys. res' ! c = lcs xs (take c ys))"
    using Suc.prems r by (intro Suc.IH) auto
  then show ?case using get1 [OF i] r(1) s2 by (simp add: Let_def algebra_simps)
qed

lemma lcs_lengths_forward:
  assumes "slice_ok s1" "slice_ok s2"
  shows "\<exists>r. lcs_lengths s1 s2 1 = Some r \<and> length r = nat (sl_len s2) + 1
     \<and> (\<forall>c \<le> nat (sl_len s2). r ! c = lcs (slice_lines s1) (take c (slice_lines s2)))"
proof -
  have "\<exists>r. lcs_outer (sl_list s1) s2 1 (nat (sl_len s1)) (sl_offset s1 + 1 * int 0)
        (replicate (nat (sl_len s2) + 1) 0) = Some r
     \<and> length r = length (slice_lines s2) + 1
     \<and> (\<forall>c \<le> length (slice_lines s2). r ! c = lcs (slice_lines s1) (take c (slice_lines s2)))"
    using assms slice_get by (intro lcs_outer_spec [where sja = "sl_offset s2"]) (auto simp: nth_Cons split: nat.split)
  then show ?thesis using assms by (simp add: lcs_lengths_def Let_def)
qed

lemma lcs_lengths_backward:
  assumes "slice_ok s1" "slice_ok s2"
  shows "\<exists>r. lcs_lengths s1 s2 (-1) = Some r \<and> length r = nat (sl_len s2) + 1
     \<and> (\<forall>c \<le> nat (sl_len s2). r ! c = lcs (slice_lines s1) (drop (nat (sl_len s2) - c) (slice_lines s2)))"
proof -
  have "\<exists>r. lcs_outer (sl_list s1) s2 (-1) (nat (sl_len s1)) (sl_offset s1 + (sl_len s1 - 1) + (-1) * int 0)
        (replicate (nat (sl_len s2) + 1) 0) = Some r
     \<and> length r = length (rev (slice_lines s2)) + 1
     \<and> (\<forall>c \<le> length (rev (slice_lines s2)). r ! c = lcs (rev (slice_lines s1)) (take c (rev (slice_lines s2))))"
    using assms slice_get_back
    by (intro lcs_outer_spec [where sja = "sl_offset s2 + (sl_len s2 - 1)"]) (auto simp: nth_Cons split: nat.split)
  moreover have "take c (rev (slice_lines s2)) = rev (drop (nat (sl_len s2) - c) (slice_lines s2))" for c
    using assms by (simp add: take_rev)
  ultimately show ?thesis using assms by (simp add: lcs_lengths_def Let_def lcs_rev)
qed

lemma split_column_loop_spec:
  assumes "i + k = n + 1" "column \<le> n"
    and "max_sum = -1 \<and> i = 0 \<or> i > 0 \<and> max_sum = int (f column)"
    and "\<And>c. c < i \<Longrightarrow> int (f c) \<le> max_sum"
    and "\<And>c. c \<le> n \<Longrightarrow> lt ! c + lb ! (n - c) = f c"
  shows "let c = split_column_loop lt lb n k i column max_sum in c \<le> n \<and> (\<forall>c' \<le> n. f c' \<le> f c)"
  using assms
proof (induction k arbitrary: i column max_sum)
  case 0
  then show ?case by (auto simp: Let_def)
next
  case (Suc k)
  have i: "i \<le> n" using Suc.prems(1) by simp
  show ?case
  proof (cases "int (f i) > max_sum")
    case True
    then show ?thesis
      using Suc.IH [of "i + 1" i "int (f i)"] Suc.prems i by (force simp: Let_def less_Suc_eq)
  next
    case False
    then have "i > 0" using Suc.prems(3) by auto
    then show ?thesis
      using Suc.IH [of "i + 1" column max_sum] False Suc.prems i by (force simp: Let_def less_Suc_eq)
  qed
qed

section \<open>Trimming\<close>

lemma slice_trim_simps [simp]:
  "sl_list (slice_trim s p q) = sl_list s"
  "sl_offset (slice_trim s p q) = sl_offset s + int p"
  "sl_len (slice_trim s p q) = sl_len s - int p - int q"
  by (simp_all add: slice_trim_def)

lemma slice_trim_0 [simp]: "slice_trim s 0 0 = s"
  by (simp add: slice_trim_def)

lemma slice_trim_trim [simp]: "slice_trim (slice_trim s p q) p' q' = slice_trim s (p + p') (q + q')"
  by (simp add: slice_trim_def algebra_simps)

lemma slice_trim_ok: "slice_ok s \<Longrightarrow> int (p + q) \<le> sl_len s \<Longrightarrow> slice_ok (slice_trim s p q)"
  by (auto simp: slice_ok_def)

lemma slice_lines_trim:
  assumes "slice_ok s" "int (p + q) \<le> sl_len s"
  shows "slice_lines (slice_trim s p q) = take (nat (sl_len s) - p - q) (drop p (slice_lines s))"
  using assms by (auto simp: slice_lines_def slice_ok_def drop_take nat_add_distrib nat_diff_distrib add.commute min_def)

lemma slice_first:
  assumes "slice_ok s" "0 < sl_len s"
  shows "smartlist_get (sl_list s) (sl_offset s) = Some (hd (slice_lines s))"
    and "slice_lines s = hd (slice_lines s) # slice_lines (slice_trim s 1 0)"
proof -
  have ne: "slice_lines s \<noteq> []" using assms length_slice_lines [of s] by force
  with slice_get [OF assms(1), of 0] assms show "smartlist_get (sl_list s) (sl_offset s) = Some (hd (slice_lines s))"
    by (simp add: hd_conv_nth)
  show "slice_lines s = hd (slice_lines s) # slice_lines (slice_trim s 1 0)"
    using assms ne by (simp add: slice_lines_trim drop_Suc)
qed

lemma slice_last:
  assumes "slice_ok s" "0 < sl_len s"
  shows "smartlist_get (sl_list s) (sl_offset s + sl_len s - 1) = Some (last (slice_lines s))"
    and "slice_lines s = slice_lines (slice_trim s 0 1) @ [last (slice_lines s)]"
proof -
  have ne: "slice_lines s \<noteq> []" using assms length_slice_lines [of s] by force
  have "sl_offset s + (sl_len s - 1) - int 0 = sl_offset s + sl_len s - 1" by simp
  with slice_get_back [OF assms(1), of 0] assms ne
  show "smartlist_get (sl_list s) (sl_offset s + sl_len s - 1) = Some (last (slice_lines s))"
    by (simp add: last_conv_nth rev_nth add_diff_eq)
  have "slice_lines (slice_trim s 0 1) = butlast (slice_lines s)"
    using assms by (simp add: slice_lines_trim butlast_conv_take)
  then show "slice_lines s = slice_lines (slice_trim s 0 1) @ [last (slice_lines s)]" using ne by simp
qed

lemma trim_front_spec:
  assumes "slice_ok s1" "slice_ok s2"
  shows "\<exists>p. let n = length p in trim_front s1 s2 = Some (slice_trim s1 n 0, slice_trim s2 n 0)
     \<and> int n \<le> sl_len s1 \<and> int n \<le> sl_len s2
     \<and> slice_lines s1 = p @ slice_lines (slice_trim s1 n 0)
     \<and> slice_lines s2 = p @ slice_lines (slice_trim s2 n 0)"
  using assms
proof (induction "nat (sl_len s1)" arbitrary: s1 s2 rule: less_induct)
  case less
  show ?case
  proof (cases "sl_len s1 > 0 \<and> sl_len s2 > 0 \<and> hd (slice_lines s1) = hd (slice_lines s2)")
    case True
    let ?t1 = "slice_trim s1 1 0" and ?t2 = "slice_trim s2 1 0"
    have ok: "slice_ok ?t1" "slice_ok ?t2" using less.prems True by (simp_all add: slice_trim_ok)
    have "nat (sl_len ?t1) < nat (sl_len s1)" using True by simp
    from less.hyps [OF this ok] obtain p where p: "let n = length p in
        trim_front ?t1 ?t2 = Some (slice_trim ?t1 n 0, slice_trim ?t2 n 0)
        \<and> int n \<le> sl_len ?t1 \<and> int n \<le> sl_len ?t2
        \<and> slice_lines ?t1 = p @ slice_lines (slice_trim ?t1 n 0)
        \<and> slice_lines ?t2 = p @ slice_lines (slice_trim ?t2 n 0)" by blast
    moreover have "trim_front s1 s2 = trim_front ?t1 ?t2"
      using True slice_first [OF less.prems(1)] slice_first [OF less.prems(2)]
      by (subst trim_front.simps) (simp add: slice_trim_def)
    ultimately show ?thesis
      using True slice_first(2) [OF less.prems(1)] slice_first(2) [OF less.prems(2)]
      by (intro exI [of _ "hd (slice_lines s1) # p"]) (simp add: Let_def)
  next
    case False
    then have "trim_front s1 s2 = Some (s1, s2)"
      using slice_first(1) [OF less.prems(1)] slice_first(1) [OF less.prems(2)]
      by (subst trim_front.simps) auto
    then show ?thesis using less.prems by (intro exI [of _ "[]"]) (simp add: slice_ok_def Let_def)
  qed
qed

lemma trim_back_spec:
  assumes "slice_ok s1" "slice_ok s2"
  shows "\<exists>q. let n = length q in
     trim_back (sl_offset s1 + sl_len s1 - 1) (sl_offset s2 + sl_len s2 - 1) s1 s2
        = Some (slice_trim s1 0 n, slice_trim s2 0 n)
     \<and> int n \<le> sl_len s1 \<and> int n \<le> sl_len s2
     \<and> slice_lines s1 = slice_lines (slice_trim s1 0 n) @ q
     \<and> slice_lines s2 = slice_lines (slice_trim s2 0 n) @ q"
  using assms
proof (induction "nat (sl_len s1)" arbitrary: s1 s2 rule: less_induct)
  case less
  let ?b = "\<lambda>s1 s2. trim_back (sl_offset s1 + sl_len s1 - 1) (sl_offset s2 + sl_len s2 - 1) s1 s2"
  show ?case
  proof (cases "sl_len s1 > 0 \<and> sl_len s2 > 0 \<and> last (slice_lines s1) = last (slice_lines s2)")
    case True
    let ?t1 = "slice_trim s1 0 1" and ?t2 = "slice_trim s2 0 1"
    have ok: "slice_ok ?t1" "slice_ok ?t2" using less.prems True by (simp_all add: slice_trim_ok)
    have "nat (sl_len ?t1) < nat (sl_len s1)" using True by simp
    from less.hyps [OF this ok] obtain q where q: "let n = length q in
        ?b ?t1 ?t2 = Some (slice_trim ?t1 0 n, slice_trim ?t2 0 n)
        \<and> int n \<le> sl_len ?t1 \<and> int n \<le> sl_len ?t2
        \<and> slice_lines ?t1 = slice_lines (slice_trim ?t1 0 n) @ q
        \<and> slice_lines ?t2 = slice_lines (slice_trim ?t2 0 n) @ q" by blast
    have upd: "s1\<lparr>sl_len := sl_len s1 - 1\<rparr> = ?t1" "s2\<lparr>sl_len := sl_len s2 - 1\<rparr> = ?t2"
      by (simp_all add: slice_trim_def)
    have idx: "sl_offset s1 + sl_len s1 - 1 - 1 = sl_offset ?t1 + sl_len ?t1 - 1"
      "sl_offset s2 + sl_len s2 - 1 - 1 = sl_offset ?t2 + sl_len ?t2 - 1" by simp_all
    have "?b s1 s2 = ?b ?t1 ?t2"
      using True slice_last(1) [OF less.prems(1)] slice_last(1) [OF less.prems(2)]
      by (subst trim_back.simps) (simp only: upd idx lines_eq_iff simp_thms if_True if_False Option.bind.simps)
    with q have "let n = length q in ?b s1 s2 = Some (slice_trim s1 0 (Suc n), slice_trim s2 0 (Suc n))
        \<and> int n < sl_len s1 \<and> int n < sl_len s2
        \<and> slice_lines ?t1 = slice_lines (slice_trim s1 0 (Suc n)) @ q
        \<and> slice_lines ?t2 = slice_lines (slice_trim s2 0 (Suc n)) @ q" by (simp add: Let_def)
    then show ?thesis
      using True slice_last(2) [OF less.prems(1)] slice_last(2) [OF less.prems(2)]
      by (intro exI [of _ "q @ [last (slice_lines s1)]"]) (simp add: Let_def)
  next
    case False
    then have "?b s1 s2 = Some (s1, s2)"
      using slice_last(1) [OF less.prems(1)] slice_last(1) [OF less.prems(2)]
      by (subst trim_back.simps) auto
    then show ?thesis using less.prems by (intro exI [of _ "[]"]) (simp add: slice_ok_def Let_def)
  qed
qed

lemma trim_slices_spec:
  assumes "slice_ok s1" "slice_ok s2"
  shows "\<exists>p q t1 t2. trim_slices s1 s2 = Some (t1, t2)
     \<and> t1 = slice_trim s1 (length p) (length q) \<and> t2 = slice_trim s2 (length p) (length q)
     \<and> slice_ok t1 \<and> slice_ok t2
     \<and> slice_lines s1 = p @ slice_lines t1 @ q \<and> slice_lines s2 = p @ slice_lines t2 @ q"
proof -
  from trim_front_spec [OF assms] obtain p where p:
    "trim_front s1 s2 = Some (slice_trim s1 (length p) 0, slice_trim s2 (length p) 0)"
    "int (length p) \<le> sl_len s1" "int (length p) \<le> sl_len s2"
    "slice_lines s1 = p @ slice_lines (slice_trim s1 (length p) 0)"
    "slice_lines s2 = p @ slice_lines (slice_trim s2 (length p) 0)" by (auto simp: Let_def)
  let ?u1 = "slice_trim s1 (length p) 0" and ?u2 = "slice_trim s2 (length p) 0"
  have ok: "slice_ok ?u1" "slice_ok ?u2" using assms p(2,3) by (simp_all add: slice_trim_ok)
  from trim_back_spec [OF ok] obtain q where q:
    "trim_back (sl_offset ?u1 + sl_len ?u1 - 1) (sl_offset ?u2 + sl_len ?u2 - 1) ?u1 ?u2
       = Some (slice_trim ?u1 0 (length q), slice_trim ?u2 0 (length q))"
    "int (length q) \<le> sl_len ?u1" "int (length q) \<le> sl_len ?u2"
    "slice_lines ?u1 = slice_lines (slice_trim ?u1 0 (length q)) @ q"
    "slice_lines ?u2 = slice_lines (slice_trim ?u2 0 (length q)) @ q" unfolding Let_def by blast
  have "trim_slices s1 s2 = Some (slice_trim ?u1 0 (length q), slice_trim ?u2 0 (length q))"
    using q(1) by (simp only: trim_slices_def p(1) Option.bind.simps prod.case Let_def)
  moreover have "slice_ok (slice_trim ?u1 0 (length q))" "slice_ok (slice_trim ?u2 0 (length q))"
    using ok q(2,3) by (auto intro!: slice_trim_ok simp del: slice_trim_trim)
  ultimately show ?thesis using p(4,5) q(4,5)
    by (intro exI [of _ p] exI [of _ q] exI) auto
qed

section \<open>Marking\<close>

lemma kept_append: "length xs = length m \<Longrightarrow> kept (xs @ ys) (m @ n) = kept xs m @ kept ys n"
  by (simp add: kept_def)

lemma kept_all [simp]: "kept xs (replicate (length xs) False) = xs"
  by (induction xs) (auto simp: kept_def)

lemma kept_none [simp]: "kept xs (replicate n True) = []"
  by (auto simp: kept_def filter_empty_conv dest: set_zip_rightD)

lemma subseq_kept: "subseq (kept xs m) xs"
proof (induction xs m rule: list_induct2')
  case (4 x xs b m)
  then show ?case by (auto simp: kept_def)
qed (auto simp: kept_def)

lemma bits_write_length [simp]:
  "0 \<le> off \<Longrightarrow> nat off + length m \<le> length ch \<Longrightarrow> length (bits_write ch off m) = length ch"
  by (simp add: bits_write_def)

lemma bits_write_same:
  "take (length m) (drop (nat off) ch) = m \<Longrightarrow> bits_write ch off m = ch"
  by (metis append_take_drop_id bits_write_def drop_drop add.commute)

lemma bits_write_append:
  assumes "0 \<le> off" "nat off + length m + length n \<le> length ch"
  shows "bits_write (bits_write ch off m) (off + int (length m)) n = bits_write ch off (m @ n)"
  using assms by (simp add: bits_write_def nat_add_distrib ac_simps)

lemma set_changed_loop_spec:
  assumes "0 \<le> i" "nat i + k \<le> length ch"
  shows "set_changed_loop t k i ch = Some (bits_write ch i (map (\<lambda>j. if i + int j = t then ch ! (nat i + j) else True) [0..<k]))"
  using assms
proof (induction k arbitrary: i ch)
  case 0
  then show ?case by (simp add: bits_write_def)
next
  case (Suc k)
  let ?ch = "if i \<noteq> t then ch[nat i := True] else ch"
  have set: "(if i \<noteq> t then bitarray_set ch i else Some ch) = Some ?ch"
    using Suc.prems by (auto simp: bitarray_set_def)
  have IH: "set_changed_loop t k (i + 1) ?ch =
      Some (bits_write ?ch (i + 1) (map (\<lambda>j. if i + 1 + int j = t then ?ch ! (nat (i + 1) + j) else True) [0..<k]))"
    using Suc.prems by (intro Suc.IH) auto
  have hd: "take (nat (i + 1)) ?ch = take (nat i) ch @ [if i = t then ch ! nat i else True]"
    using Suc.prems by (auto simp: nat_add_distrib take_Suc_conv_app_nth list_update_append1)
  have dr: "drop (nat (i + 1) + k) ?ch = drop (nat i + Suc k) ch"
    using Suc.prems by (simp add: nat_add_distrib)
  have nth: "ch[nat i := True] ! (nat (i + 1) + j) = ch ! Suc (nat i + j)"
    "ch ! (nat (i + 1) + j) = ch ! Suc (nat i + j)" for j
    using Suc.prems by (simp_all add: nat_add_distrib)
  have ms: "map (\<lambda>j. if i + int j = t then ch ! (nat i + j) else True) [0..<Suc k]
     = (if i = t then ch ! nat i else True) # map (\<lambda>j. if i + 1 + int j = t then ch ! (nat i + Suc j) else True) [0..<k]"
    by (simp add: upt_conv_Cons map_Suc_upt [symmetric] comp_def algebra_simps del: upt_Suc)
  show ?case using set IH by (simp add: bits_write_def hd dr nth ms del: upt_Suc)
qed

lemma slice_string_pos_loop_spec:
  "\<lbrakk>\<And>j. j < length xs \<Longrightarrow> smartlist_get sl (i + int j) = Some (xs ! j)\<rbrakk> \<Longrightarrow>
   \<exists>r. slice_string_pos_loop sl x (length xs) i = Some r
     \<and> (if x \<in> set xs then \<exists>j < length xs. r = i + int j \<and> xs ! j = x else r = -1)"
proof (induction xs arbitrary: i)
  case Nil
  then show ?case by simp
next
  case (Cons y ys)
  have y: "smartlist_get sl i = Some y" using Cons.prems [of 0] by simp
  obtain r where r: "slice_string_pos_loop sl x (length ys) (i + 1) = Some r"
     "if x \<in> set ys then \<exists>j < length ys. r = i + 1 + int j \<and> ys ! j = x else r = -1"
    using Cons.IH [of "i + 1"] Cons.prems [of "Suc _"] by (auto simp: algebra_simps)
  have shift: "\<exists>k < length (y # ys). i + 1 + int j = i + int k \<and> (y # ys) ! k = x"
    if "j < length ys" "ys ! j = x" for j
    using that by (intro exI [of _ "Suc j"]) simp
  show ?case
  proof (cases "y = x")
    case True
    then show ?thesis using y by auto
  next
    case False
    then show ?thesis using y r shift by (auto split: if_splits)
  qed
qed

lemma slice_string_pos_spec:
  assumes "slice_ok s"
  shows "\<exists>r. smartlist_slice_string_pos s x = Some r
     \<and> (if x \<in> set (slice_lines s) then \<exists>j < nat (sl_len s). r = sl_offset s + int j \<and> slice_lines s ! j = x
        else r = -1)"
  using slice_string_pos_loop_spec [of "slice_lines s" "sl_list s" "sl_offset s" x] slice_get [OF assms]
  unfolding length_slice_lines [OF assms] smartlist_slice_string_pos_def by blast

lemma kept_single_elem: "kept (x # xs) (b # m) = (if b then kept xs m else x # kept xs m)"
  by (simp add: kept_def)

lemma kept_single:
  assumes "j < length xs"
  shows "kept xs (map (\<lambda>i. i \<noteq> j) [0..<length xs]) = [xs ! j]"
proof -
  have m: "map (\<lambda>i. i \<noteq> j) [0..<length xs] = replicate j True @ [False] @ replicate (length xs - Suc j) True"
    using assms by (auto intro!: nth_equalityI simp: nth_append nth_Cons split: nat.split)
  have "kept (take j xs @ [xs ! j] @ drop (Suc j) xs) (replicate j True @ [False] @ replicate (length xs - Suc j) True)
      = [xs ! j]"
    using assms by (simp add: kept_append kept_single_elem)
  then show ?thesis using assms by (simp add: m id_take_nth_drop [symmetric])
qed

lemma set_changed_loop_all:
  assumes "slice_ok s" "length ch = length (sl_list s)"
  shows "set_changed_loop (-1) (nat (sl_len s)) (sl_offset s) ch
     = Some (bits_write ch (sl_offset s) (replicate (nat (sl_len s)) True))"
proof -
  have "map (\<lambda>j. if sl_offset s + int j = -1 then ch ! (nat (sl_offset s) + j) else True) [0..<nat (sl_len s)]
      = replicate (nat (sl_len s)) True"
    using assms by (auto simp: slice_ok_def intro!: nth_equalityI)
  then show ?thesis
    using assms set_changed_loop_spec [of "sl_offset s" "nat (sl_len s)" ch "-1"] by (auto simp: slice_ok_def)
qed

lemma set_changed_loop_skip:
  assumes "slice_ok s" "clear_region ch s" "j < nat (sl_len s)"
  shows "set_changed_loop (sl_offset s + int j) (nat (sl_len s)) (sl_offset s) ch
     = Some (bits_write ch (sl_offset s) (map (\<lambda>i. i \<noteq> j) [0..<nat (sl_len s)]))"
proof -
  have "ch ! (nat (sl_offset s) + j) = take (nat (sl_len s)) (drop (nat (sl_offset s)) ch) ! j"
    using assms by (subst nth_take) (auto simp: slice_ok_def clear_region_def intro!: nth_drop [symmetric])
  also have "\<dots> = False" using assms by (simp add: clear_region_def)
  finally have f: "\<not> ch ! (nat (sl_offset s) + j)" by simp
  have "map (\<lambda>i. if sl_offset s + int i = sl_offset s + int j then ch ! (nat (sl_offset s) + i) else True) [0..<nat (sl_len s)]
      = map (\<lambda>i. i \<noteq> j) [0..<nat (sl_len s)]"
    using f by auto
  moreover have "0 \<le> sl_offset s" "nat (sl_offset s) + nat (sl_len s) \<le> length ch"
    using assms by (auto simp: slice_ok_def clear_region_def)
  ultimately show ?thesis by (simp only: set_changed_loop_spec)
qed

lemma bits_write_clear:
  "clear_region ch s \<Longrightarrow> bits_write ch (sl_offset s) (replicate (nat (sl_len s)) False) = ch"
  by (rule bits_write_same) (simp add: clear_region_def)

lemma set_changed_marks:
  assumes "slice_ok s1" "slice_ok s2" "clear_region ch1 s1" "clear_region ch2 s2" "sl_len s1 \<le> 1"
  shows "marks_diff s1 s2 ch1 ch2 (set_changed ch1 ch2 s1 s2)"
proof -
  have l2: "length ch2 = length (sl_list s2)" using assms(4) by (simp add: clear_region_def)
  have "0 \<le> sl_len s1" using assms(1) by (simp add: slice_ok_def)
  with assms(5) consider "sl_len s1 = 0" | "sl_len s1 = 1" by linarith
  then show ?thesis
  proof cases
    case 1
    then have "slice_lines s1 = []" using assms(1) by (simp add: slice_lines_def)
    moreover have "set_changed ch1 ch2 s1 s2 = Some (bits_write ch1 (sl_offset s1) [],
        bits_write ch2 (sl_offset s2) (replicate (nat (sl_len s2)) True))"
      using 1 set_changed_loop_all [OF assms(2) l2] by (simp add: set_changed_def bits_write_def)
    ultimately show ?thesis
      using 1 unfolding marks_diff_def
      by (intro exI [of _ "[]"] exI [of _ "replicate (nat (sl_len s2)) True"]) (simp add: kept_def [of "[]"])
  next
    case 2
    obtain x where x: "slice_lines s1 = [x]"
      using 2 assms(1) length_slice_lines [of s1] by (cases "slice_lines s1") auto
    have get: "smartlist_get (sl_list s1) (sl_offset s1) = Some x"
      using slice_get [OF assms(1), of 0] 2 x by simp
    obtain r where r: "smartlist_slice_string_pos s2 x = Some r"
      "if x \<in> set (slice_lines s2) then \<exists>j < nat (sl_len s2). r = sl_offset s2 + int j \<and> slice_lines s2 ! j = x else r = -1"
      using slice_string_pos_spec [OF assms(2)] by blast
    show ?thesis
    proof (cases "x \<in> set (slice_lines s2)")
      case True
      then obtain j where j: "j < nat (sl_len s2)" "r = sl_offset s2 + int j" "slice_lines s2 ! j = x"
        using r(2) by auto
      then have "r \<noteq> -1" using assms(2) by (auto simp: slice_ok_def)
      then have "set_changed ch1 ch2 s1 s2 = Some (bits_write ch1 (sl_offset s1) [False],
          bits_write ch2 (sl_offset s2) (map (\<lambda>i. i \<noteq> j) [0..<nat (sl_len s2)]))"
        using 2 get r(1) j(2) set_changed_loop_skip [OF assms(2,4) j(1)] bits_write_clear [OF assms(3)]
        by (simp add: set_changed_def)
      then show ?thesis
        using 2 x True j kept_single [of j "slice_lines s2"] assms(2) unfolding marks_diff_def
        by (intro exI [of _ "[False]"] exI [of _ "map (\<lambda>i. i \<noteq> j) [0..<nat (sl_len s2)]"])
          (simp add: kept_def [of "[_]"] lcs_singleton)
    next
      case False
      then have rm: "r = -1" using r(2) by simp
      have "bitarray_set ch1 (sl_offset s1) = Some (bits_write ch1 (sl_offset s1) [True])"
        using assms(1,3) 2 by (auto simp: bitarray_set_def slice_ok_def clear_region_def bits_write_def upd_conv_take_nth_drop)
      then have "set_changed ch1 ch2 s1 s2 = Some (bits_write ch1 (sl_offset s1) [True],
          bits_write ch2 (sl_offset s2) (replicate (nat (sl_len s2)) True))"
        using 2 get r(1) rm set_changed_loop_all [OF assms(2) l2] by (simp add: set_changed_def)
      then show ?thesis
        using 2 x False unfolding marks_diff_def
        by (intro exI [of _ "[True]"] exI [of _ "replicate (nat (sl_len s2)) True"])
          (simp add: kept_def [of "[_]"] lcs_singleton)
    qed
  qed
qed

section \<open>Divide and conquer\<close>

lemma clear_region_trim:
  assumes "slice_ok s" "clear_region ch s" "int (p + q) \<le> sl_len s"
  shows "clear_region ch (slice_trim s p q)"
proof -
  let ?n = "nat (sl_len s)" and ?o = "nat (sl_offset s)"
  have n: "p + q \<le> ?n" "nat (sl_len (slice_trim s p q)) = ?n - p - q" "nat (sl_offset (slice_trim s p q)) = ?o + p"
    using assms by (auto simp: slice_ok_def nat_add_distrib)
  have "take (?n - p - q) (drop (?o + p) ch) = take (?n - p - q) (drop p (take ?n (drop ?o ch)))"
    by (simp add: drop_take add.commute)
  also have "\<dots> = replicate (?n - p - q) False"
    using assms(2) n(1) by (simp add: clear_region_def)
  finally show ?thesis using assms(2) n by (simp add: clear_region_def)
qed

lemma smartlist_slice_head:
  assumes "slice_ok s" "a \<le> nat (sl_len s)"
  shows "smartlist_slice (sl_list s) (sl_offset s) (sl_offset s + int a) = Some (slice_trim s 0 (nat (sl_len s) - a))"
  using assms by (subst smartlist_slice_eq) (auto simp: slice_ok_def slice_trim_def)

lemma smartlist_slice_rest:
  assumes "slice_ok s" "a \<le> nat (sl_len s)"
  shows "smartlist_slice (sl_list s) (sl_offset s + int a) (sl_offset s + sl_len s) = Some (slice_trim s a 0)"
  using assms by (subst smartlist_slice_eq) (auto simp: slice_ok_def slice_trim_def)

lemma slice_lines_head: "slice_ok s \<Longrightarrow> a \<le> nat (sl_len s) \<Longrightarrow>
    slice_lines (slice_trim s 0 (nat (sl_len s) - a)) = take a (slice_lines s)"
  by (subst slice_lines_trim) (auto simp: slice_ok_def)

lemma slice_lines_rest: "slice_ok s \<Longrightarrow> a \<le> nat (sl_len s) \<Longrightarrow>
    slice_lines (slice_trim s a 0) = drop a (slice_lines s)"
  by (subst slice_lines_trim) (auto simp: slice_ok_def)

lemma bits_write_pad:
  assumes "slice_ok s" "clear_region ch s" "int (p + q) \<le> sl_len s" "length m = nat (sl_len s) - p - q"
  shows "bits_write ch (sl_offset s) (replicate p False @ m @ replicate q False) = bits_write ch (sl_offset s + int p) m"
proof -
  let ?n = "nat (sl_len s)" and ?o = "nat (sl_offset s)"
  have o: "0 \<le> sl_offset s" "?o + ?n \<le> length ch" "p + q \<le> ?n"
    using assms by (auto simp: slice_ok_def clear_region_def)
  have reg: "take ?n (drop ?o ch) = replicate ?n False" using assms(2) by (simp add: clear_region_def)
  have "take p (drop ?o ch) = take p (take ?n (drop ?o ch))" using o by (simp add: min_def)
  then have p: "take (?o + p) ch = take ?o ch @ replicate p False"
    using reg o by (simp add: take_add min_def)
  have "take q (drop (?o + (?n - q)) ch) = drop (?n - q) (take ?n (drop ?o ch))"
    using o by (simp add: drop_take add.commute)
  then have q: "take q (drop (?o + (?n - q)) ch) = replicate q False" using reg o by simp
  have "drop (?o + (?n - q)) ch = replicate q False @ drop (?o + ?n) ch"
    using append_take_drop_id [of q "drop (?o + (?n - q)) ch"] q o by (simp add: add.commute)
  moreover have "?o + length (replicate p False @ m @ replicate q False) = ?o + ?n"
    "nat (sl_offset s + int p) + length m = ?o + (?n - q)" "nat (sl_offset s + int p) = ?o + p"
    using assms(4) o by (simp_all add: nat_add_distrib)
  ultimately show ?thesis using p by (simp only: bits_write_def append_assoc)
qed

lemma marks_diff_trim:
  assumes "slice_ok s1" "slice_ok s2" "clear_region ch1 s1" "clear_region ch2 s2"
    and "t1 = slice_trim s1 (length p) (length q)" "t2 = slice_trim s2 (length p) (length q)"
    and "slice_ok t1" "slice_ok t2"
    and "slice_lines s1 = p @ slice_lines t1 @ q" "slice_lines s2 = p @ slice_lines t2 @ q"
    and "marks_diff t1 t2 ch1 ch2 r"
  shows "marks_diff s1 s2 ch1 ch2 r"
proof -
  from assms(11) obtain m1 m2 where m:
    "r = Some (bits_write ch1 (sl_offset t1) m1, bits_write ch2 (sl_offset t2) m2)"
    "length m1 = nat (sl_len t1)" "length m2 = nat (sl_len t2)"
    "kept (slice_lines t1) m1 = kept (slice_lines t2) m2"
    "length (kept (slice_lines t1) m1) = lcs (slice_lines t1) (slice_lines t2)"
    by (auto simp: marks_diff_def)
  let ?pad = "\<lambda>m. replicate (length p) False @ m @ replicate (length q) False"
  have k: "kept (slice_lines s1) (?pad m1) = p @ kept (slice_lines t1) m1 @ q"
    "kept (slice_lines s2) (?pad m2) = p @ kept (slice_lines t2) m2 @ q"
    using assms(7-10) m(2,3) by (simp_all add: kept_append)
  have w: "bits_write ch1 (sl_offset s1) (?pad m1) = bits_write ch1 (sl_offset t1) m1"
    "bits_write ch2 (sl_offset s2) (?pad m2) = bits_write ch2 (sl_offset t2) m2"
    using bits_write_pad [OF assms(1,3), of "length p" "length q" m1] bits_write_pad [OF assms(2,4), of "length p" "length q" m2]
      assms(5-8) m(2,3) by (auto simp: slice_ok_def)
  have len: "length (?pad m1) = nat (sl_len s1)" "length (?pad m2) = nat (sl_len s2)"
    using assms(5-8) m(2,3) by (auto simp: slice_ok_def)
  show ?thesis
    unfolding marks_diff_def using m k w len assms(9,10)
    by (intro exI [of _ "?pad m1"] exI [of _ "?pad m2"])
      (simp add: lcs_append_same lcs_append_same_right)
qed

lemma marks_diff_swap:
  assumes "marks_diff s2 s1 ch2 ch1 r"
  shows "marks_diff s1 s2 ch1 ch2 (r \<bind> (\<lambda>(c2, c1). Some (c1, c2)))"
  using assms by (fastforce simp: marks_diff_def lcs_commute)


lemma clear_region_after_write:
  assumes "slice_ok s" "clear_region ch s" "a \<le> nat (sl_len s)" "length m = a"
  shows "clear_region (bits_write ch (sl_offset s) m) (slice_trim s a 0)"
proof -
  have o: "0 \<le> sl_offset s" "nat (sl_offset s) + a \<le> length ch" "0 \<le> sl_len s"
    using assms by (auto simp: slice_ok_def clear_region_def)
  have "clear_region ch (slice_trim s a 0)"
    using assms by (intro clear_region_trim) (auto simp: slice_ok_def)
  moreover have "drop (nat (sl_offset s) + a) (bits_write ch (sl_offset s) m) = drop (nat (sl_offset s) + a) ch"
    using o assms(4) by (simp add: bits_write_def)
  ultimately show ?thesis
    using o assms(4) by (simp add: clear_region_def nat_add_distrib)
qed

lemma marks_diff_split:
  assumes ok: "slice_ok s1" "slice_ok s2" "clear_region ch1 s1" "clear_region ch2 s2"
    and ab: "a \<le> nat (sl_len s1)" "b \<le> nat (sl_len s2)"
    and lcs: "lcs (slice_lines s1) (slice_lines s2) =
      lcs (take a (slice_lines s1)) (take b (slice_lines s2)) + lcs (drop a (slice_lines s1)) (drop b (slice_lines s2))"
    and m1: "marks_diff (slice_trim s1 0 (nat (sl_len s1) - a)) (slice_trim s2 0 (nat (sl_len s2) - b)) ch1 ch2 (Some (c1, c2))"
    and m2: "marks_diff (slice_trim s1 a 0) (slice_trim s2 b 0) c1 c2 r"
  shows "marks_diff s1 s2 ch1 ch2 r"
proof -
  have nn: "0 \<le> sl_len s1" "0 \<le> sl_len s2" "0 \<le> sl_offset s1" "0 \<le> sl_offset s2"
    "nat (sl_offset s1) + nat (sl_len s1) \<le> length ch1" "nat (sl_offset s2) + nat (sl_len s2) \<le> length ch2"
    using ok by (auto simp: slice_ok_def clear_region_def)
  have nd: "nat (sl_len s1 - int a) = nat (sl_len s1) - a" "nat (sl_len s2 - int b) = nat (sl_len s2) - b"
    using ab nn by simp_all
  from m1 obtain x1 x2 where x: "c1 = bits_write ch1 (sl_offset s1) x1" "c2 = bits_write ch2 (sl_offset s2) x2"
    "length x1 = a" "length x2 = b"
    "kept (take a (slice_lines s1)) x1 = kept (take b (slice_lines s2)) x2"
    "length (kept (take a (slice_lines s1)) x1) = lcs (take a (slice_lines s1)) (take b (slice_lines s2))"
    using ab nn by (auto simp: marks_diff_def slice_lines_head ok)
  from m2 obtain y1 y2 where y: "r = Some (bits_write c1 (sl_offset s1 + int a) y1, bits_write c2 (sl_offset s2 + int b) y2)"
    "length y1 = nat (sl_len s1) - a" "length y2 = nat (sl_len s2) - b"
    "kept (drop a (slice_lines s1)) y1 = kept (drop b (slice_lines s2)) y2"
    "length (kept (drop a (slice_lines s1)) y1) = lcs (drop a (slice_lines s1)) (drop b (slice_lines s2))"
    using ab nn nd by (auto simp: marks_diff_def slice_lines_rest ok)
  have "r = Some (bits_write ch1 (sl_offset s1) (x1 @ y1), bits_write ch2 (sl_offset s2) (x2 @ y2))"
    using x(1-4) y(1-3) ab nn bits_write_append [of "sl_offset s1" x1 y1 ch1] bits_write_append [of "sl_offset s2" x2 y2 ch2]
    by simp
  moreover have "kept (slice_lines s1) (x1 @ y1) = kept (take a (slice_lines s1)) x1 @ kept (drop a (slice_lines s1)) y1"
    using kept_append [of "take a (slice_lines s1)" x1 "drop a (slice_lines s1)" y1] x(3) ab ok by simp
  moreover have "kept (slice_lines s2) (x2 @ y2) = kept (take b (slice_lines s2)) x2 @ kept (drop b (slice_lines s2)) y2"
    using kept_append [of "take b (slice_lines s2)" x2 "drop b (slice_lines s2)" y2] x(4) ab ok by simp
  ultimately show ?thesis
    unfolding marks_diff_def using x y lcs ab
    by (intro exI [of _ "x1 @ y1"] exI [of _ "x2 @ y2"]) simp
qed

text \<open>The column found is one at which nothing of the common subsequence is lost.\<close>

lemma optimal_column_spec:
  assumes "slice_ok tp" "slice_ok bt" "slice_ok s2"
  shows "\<exists>c \<le> nat (sl_len s2). optimal_column_to_split tp bt s2 = Some c
     \<and> lcs (slice_lines tp @ slice_lines bt) (slice_lines s2)
        = lcs (slice_lines tp) (take c (slice_lines s2)) + lcs (slice_lines bt) (drop c (slice_lines s2))"
proof -
  let ?n = "nat (sl_len s2)" and ?ys = "slice_lines s2"
  let ?f = "\<lambda>c. lcs (slice_lines tp) (take c ?ys) + lcs (slice_lines bt) (drop c ?ys)"
  obtain rt where rt: "lcs_lengths tp s2 1 = Some rt" "\<forall>c \<le> ?n. rt ! c = lcs (slice_lines tp) (take c ?ys)"
    using lcs_lengths_forward [OF assms(1,3)] by blast
  obtain rb where rb: "lcs_lengths bt s2 (-1) = Some rb" "\<forall>c \<le> ?n. rb ! c = lcs (slice_lines bt) (drop (?n - c) ?ys)"
    using lcs_lengths_backward [OF assms(2,3)] by blast
  let ?c = "split_column_loop rt rb ?n (?n + 1) 0 0 (-1)"
  have "let c = ?c in c \<le> ?n \<and> (\<forall>c' \<le> ?n. ?f c' \<le> ?f c)"
    using rt(2) rb(2) by (intro split_column_loop_spec) auto
  then have c: "?c \<le> ?n" "\<And>c'. c' \<le> ?n \<Longrightarrow> ?f c' \<le> ?f ?c" by (auto simp: Let_def)
  obtain k where k: "k \<le> ?n" "lcs (slice_lines tp @ slice_lines bt) ?ys = ?f k"
    using lcs_append_split [of ?ys "slice_lines tp" "slice_lines bt"] assms(3) by auto
  have "?f ?c \<le> lcs (slice_lines tp @ slice_lines bt) ?ys" by (rule lcs_append_ge)
  with c(2) [OF k(1)] k(2) have "lcs (slice_lines tp @ slice_lines bt) ?ys = ?f ?c" by simp
  then show ?thesis using c(1) rt(1) rb(1) by (intro exI [of _ ?c]) (simp add: optimal_column_to_split_def)
qed

lemma calc_changes_base:
  assumes t: "trim_slices s1 s2 = Some (t1, t2)" "slice_ok t1" "slice_ok t2"
    and clr: "clear_region ch1 t1" "clear_region ch2 t2"
    and short: "sl_len t1 \<le> 1 \<or> sl_len t2 \<le> 1"
  shows "marks_diff t1 t2 ch1 ch2 (calc_changes s1 s2 ch1 ch2)"
proof -
  have "calc_changes s1 s2 ch1 ch2 = (if sl_len t1 \<le> 1 then set_changed ch1 ch2 t1 t2
      else set_changed ch2 ch1 t2 t1 \<bind> (\<lambda>(c2, c1). Some (c1, c2)))"
    using short t(1) by (subst calc_changes.simps) auto
  then show ?thesis
    using short set_changed_marks [OF t(2,3) clr] marks_diff_swap [OF set_changed_marks [OF t(3,2) clr(2,1)]]
    by (auto split: if_splits)
qed

lemma calc_changes_marks:
  assumes "slice_ok s1" "slice_ok s2" "clear_region ch1 s1" "clear_region ch2 s2"
  shows "marks_diff s1 s2 ch1 ch2 (calc_changes s1 s2 ch1 ch2)"
  using assms
proof (induction "nat (sl_len s1)" arbitrary: s1 s2 ch1 ch2 rule: less_induct)
  case less
  from trim_slices_spec [OF less.prems(1,2)] obtain p q t1 t2 where t: "trim_slices s1 s2 = Some (t1, t2)"
    "t1 = slice_trim s1 (length p) (length q)" "t2 = slice_trim s2 (length p) (length q)"
    "slice_ok t1" "slice_ok t2"
    "slice_lines s1 = p @ slice_lines t1 @ q" "slice_lines s2 = p @ slice_lines t2 @ q" by blast
  have clr: "clear_region ch1 t1" "clear_region ch2 t2"
    using less.prems t(2-5) by (auto intro!: clear_region_trim simp: slice_ok_def)
  have "marks_diff t1 t2 ch1 ch2 (calc_changes s1 s2 ch1 ch2)"
  proof (cases "sl_len t1 \<le> 1 \<or> sl_len t2 \<le> 1")
    case True
    then show ?thesis by (rule calc_changes_base [OF t(1,4,5) clr])
  next
    case False
    let ?a = "nat (sl_len t1 div 2)"
    have a: "?a \<le> nat (sl_len t1)" "0 < ?a" "?a < nat (sl_len t1)" using False by auto
    let ?tp = "slice_trim t1 0 (nat (sl_len t1) - ?a)" and ?bt = "slice_trim t1 ?a 0"
    have tb: "slice_ok ?tp" "slice_ok ?bt" using t(4) a by (auto intro!: slice_trim_ok simp: slice_ok_def)
    from optimal_column_spec [OF tb t(5)] obtain b where b: "b \<le> nat (sl_len t2)"
      "optimal_column_to_split ?tp ?bt t2 = Some b"
      "lcs (slice_lines ?tp @ slice_lines ?bt) (slice_lines t2)
        = lcs (slice_lines ?tp) (take b (slice_lines t2)) + lcs (slice_lines ?bt) (drop b (slice_lines t2))" by blast
    let ?lf = "slice_trim t2 0 (nat (sl_len t2) - b)" and ?rt = "slice_trim t2 b 0"
    have lr: "slice_ok ?lf" "slice_ok ?rt" using t(5) b(1) by (auto intro!: slice_trim_ok simp: slice_ok_def)
    have small: "nat (sl_len ?tp) < nat (sl_len s1)" "nat (sl_len ?bt) < nat (sl_len s1)"
      using a t(2) by auto
    have m1: "marks_diff ?tp ?lf ch1 ch2 (calc_changes ?tp ?lf ch1 ch2)"
      using small(1) tb lr clr t(4,5) a b(1) by (intro less.hyps) (auto intro!: clear_region_trim simp: slice_ok_def)
    then obtain x1 x2 where x: "calc_changes ?tp ?lf ch1 ch2
        = Some (bits_write ch1 (sl_offset t1) x1, bits_write ch2 (sl_offset t2) x2)"
      "length x1 = ?a" "length x2 = b" using a b(1) t(4,5) by (auto simp: marks_diff_def slice_ok_def)
    let ?c1 = "bits_write ch1 (sl_offset t1) x1" and ?c2 = "bits_write ch2 (sl_offset t2) x2"
    have "clear_region ?c1 ?bt" "clear_region ?c2 ?rt"
      using clear_region_after_write [OF t(4) clr(1) a(1) x(2)] clear_region_after_write [OF t(5) clr(2) b(1) x(3)] by simp_all
    then have m2: "marks_diff ?bt ?rt ?c1 ?c2 (calc_changes ?bt ?rt ?c1 ?c2)"
      using small(2) tb lr by (intro less.hyps)
    have "int ?a = sl_len t1 div 2" using False by auto
    then have eq: "calc_changes s1 s2 ch1 ch2 = calc_changes ?bt ?rt ?c1 ?c2"
      using False t(1) x(1) b(2) smartlist_slice_head [OF t(4) a(1)] smartlist_slice_rest [OF t(4) a(1)]
        smartlist_slice_head [OF t(5) b(1)] smartlist_slice_rest [OF t(5) b(1)]
      by (subst calc_changes.simps) (simp add: Let_def)
    have "lcs (slice_lines t1) (slice_lines t2) = lcs (take ?a (slice_lines t1)) (take b (slice_lines t2))
        + lcs (drop ?a (slice_lines t1)) (drop b (slice_lines t2))"
      using b(3) by (simp add: slice_lines_head [OF t(4) a(1)] slice_lines_rest [OF t(4) a(1)])
    from marks_diff_split [OF t(4,5) clr a(1) b(1) this m1 [unfolded x(1)] m2] show ?thesis
      unfolding eq .
  qed
  then show ?case
    by (rule marks_diff_trim [OF less.prems t(2-7)])
qed

text \<open>the table of \<open>lcs_lengths\<close>.  Walking forwards, column \<open>c\<close> is the length of a longest
  common subsequence of the first slice and the first \<open>c\<close> lines of the second; walking
  backwards, of the first slice and the last \<open>c\<close> lines; no index leaves its list.\<close>

theorem lcs_lengths_table:
  assumes "slice_ok s1" "slice_ok s2"
  shows "\<exists>f b. lcs_lengths s1 s2 1 = Some f \<and> lcs_lengths s1 s2 (-1) = Some b
     \<and> f = map (\<lambda>c. lcs (slice_lines s1) (take c (slice_lines s2))) [0..<nat (sl_len s2) + 1]
     \<and> b = map (\<lambda>c. lcs (slice_lines s1) (drop (nat (sl_len s2) - c) (slice_lines s2))) [0..<nat (sl_len s2) + 1]"
proof -
  let ?n = "nat (sl_len s2)"
  obtain f where "lcs_lengths s1 s2 1 = Some f" "length f = ?n + 1"
    "\<forall>c \<le> ?n. f ! c = lcs (slice_lines s1) (take c (slice_lines s2))"
    using lcs_lengths_forward [OF assms] by blast
  moreover obtain b where "lcs_lengths s1 s2 (-1) = Some b" "length b = ?n + 1"
    "\<forall>c \<le> ?n. b ! c = lcs (slice_lines s1) (drop (?n - c) (slice_lines s2))"
    using lcs_lengths_backward [OF assms] by blast
  ultimately show ?thesis
    by (intro exI [of _ f] exI [of _ b] conjI nth_equalityI) (auto simp del: upt_Suc)
qed

theorem lcs_lengths_table_witness:
  "\<exists>f. lcs_lengths \<lparr>sl_list = [''r'', ''s'', ''w''], sl_offset = 0, sl_len = 3\<rparr>
         \<lparr>sl_list = [''r'', ''w''], sl_offset = 0, sl_len = 2\<rparr> 1 = Some f \<and> length f = 3"
  using lcs_lengths_table [of "\<lparr>sl_list = [''r'', ''s'', ''w''], sl_offset = 0, sl_len = 3\<rparr>"
      "\<lparr>sl_list = [''r'', ''w''], sl_offset = 0, sl_len = 2\<rparr>"]
  by (auto simp: slice_ok_def simp del: upt_Suc)

text \<open>C5 \<open>calc_changes\<close> on two whole documents returns (no assertion fails, no index leaves its
  array); the lines it leaves unmarked in the first document are exactly the lines it leaves
  unmarked in the second, in the same order, and their number is that of a longest common
  subsequence: the change set is the smallest possible.\<close>

theorem calc_changes_minimal:
  "\<exists>m1 m2. do {
       s1 \<leftarrow> smartlist_slice xs 0 (-1);
       s2 \<leftarrow> smartlist_slice ys 0 (-1);
       calc_changes s1 s2 (bitarray_init_zero (length xs)) (bitarray_init_zero (length ys))
     } = Some (m1, m2)
     \<and> length m1 = length xs \<and> length m2 = length ys
     \<and> kept xs m1 = kept ys m2 \<and> length (kept xs m1) = lcs xs ys"
proof -
  let ?s = "\<lambda>l. \<lparr>sl_list = l, sl_offset = 0, sl_len = int (length l)\<rparr>"
  have sl: "smartlist_slice l 0 (-1) = Some (?s l)" for l
    by (simp add: smartlist_slice_def)
  have ok: "slice_ok (?s l)" "slice_lines (?s l) = l" "clear_region (bitarray_init_zero (length l)) (?s l)" for l
    by (simp_all add: slice_ok_def slice_lines_def clear_region_def bitarray_init_zero_def)
  have "marks_diff (?s xs) (?s ys) (bitarray_init_zero (length xs)) (bitarray_init_zero (length ys))
      (calc_changes (?s xs) (?s ys) (bitarray_init_zero (length xs)) (bitarray_init_zero (length ys)))"
    by (intro calc_changes_marks ok)
  then show ?thesis
    by (auto simp: sl marks_diff_def ok bits_write_def bitarray_init_zero_def)
qed

end
