(* ===== verification/Consdiff_Ed.thy ===== *)
theory Consdiff_Ed
  imports Tor_Strings Consdiff_Lcs
begin

text \<open>
  Ed scripts of \<open>feature/dircommon/consdiff.c\<close>: walking two consensuses router by router
  (\<open>next_router\<close>, \<open>base64cmp\<close>), generating a script (\<open>gen_ed_diff\<close>) and applying one
  (\<open>apply_ed_diff\<close>).  A function that can both fail an assertion and return NULL has a nested
  option: \<open>None\<close> is the abort, \<open>Some None\<close> the NULL.
\<close>

section \<open>Router entries\<close>

definition line_str_eq :: "cdline \<Rightarrow> string \<Rightarrow> bool" where
  "line_str_eq a b = lines_eq a b"

definition line_starts_with_str :: "cdline \<Rightarrow> string \<Rightarrow> bool" where
  "line_starts_with_str a b \<longleftrightarrow> length a \<ge> length b \<and> take (length b) a = b"

definition NOT_VALID_BASE64 :: nat where
  "NOT_VALID_BASE64 = 255"

definition base64_compare_table :: "char \<Rightarrow> nat" where
  "base64_compare_table c =
     (let n = ord c in
      if n = 43 then 62 else if n = 47 then 63
      else if 48 \<le> n \<and> n \<le> 57 then n + 4
      else if 65 \<le> n \<and> n \<le> 90 then n - 65
      else if 97 \<le> n \<and> n \<le> 122 then n - 71
      else NOT_VALID_BASE64)"

definition get_id_hash :: "cdline \<Rightarrow> string option" where
  "get_id_hash line =
     (if length line < 2 then None
      else case dropWhile (\<lambda>c. c \<noteq> CHR '' '') (drop 2 line) of
        [] \<Rightarrow> None
      | _ # hash \<Rightarrow>
          let hash_out = takeWhile (\<lambda>c. base64_compare_table c \<noteq> NOT_VALID_BASE64) hash
          in if hash_out = [] then None else Some hash_out)"

definition is_valid_router_entry :: "cdline \<Rightarrow> bool" where
  "is_valid_router_entry line \<longleftrightarrow>
     \<not> (length line < 2 \<or> take 2 line \<noteq> ''r '') \<and> get_id_hash line \<noteq> None"

function next_router_loop :: "smartlist \<Rightarrow> int \<Rightarrow> int option" where
  "next_router_loop cons cur = do {
     line \<leftarrow> smartlist_get cons cur;
     if is_valid_router_entry line then Some cur
     else if cur + 1 \<ge> int (length cons) then Some (int (length cons))
     else next_router_loop cons (cur + 1)
   }"
  by pat_completeness auto
termination
  by (relation "measure (\<lambda>(cons, cur). nat (int (length cons) - cur))") auto

declare next_router_loop.simps [simp del]

definition next_router :: "smartlist \<Rightarrow> int \<Rightarrow> int option" where
  "next_router cons cur = do {
     let len = int (length cons);
     tor_assert (cur \<ge> -1 \<and> cur < len);
     if cur + 1 \<ge> len then Some len
     else next_router_loop cons (cur + 1)
   }"

text \<open>An identity hash that is NULL is \<^const>\<open>None\<close>; reading past the end of a hash aborts.\<close>

fun base64cmp_loop :: "string \<Rightarrow> string \<Rightarrow> int option" where
  "base64cmp_loop (a # as) (b # bs) =
     (let av = base64_compare_table a; bv = base64_compare_table b in
      if av = NOT_VALID_BASE64 then (if bv = NOT_VALID_BASE64 then Some 0 else Some (-1))
      else if bv = NOT_VALID_BASE64 then Some 1
      else if av < bv then Some (-1)
      else if av > bv then Some 1
      else if as = [] then (if bs = [] then Some 0 else Some (-1))
      else if bs = [] then Some 1
      else base64cmp_loop as bs)"
| "base64cmp_loop _ _ = None"

definition base64cmp :: "string option \<Rightarrow> string option \<Rightarrow> int option" where
  "base64cmp hash1 hash2 =
     (case (hash1, hash2) of
        (None, None) \<Rightarrow> Some 0
      | (None, Some _) \<Rightarrow> Some (-1)
      | (Some _, None) \<Rightarrow> Some 1
      | (Some a, Some b) \<Rightarrow> base64cmp_loop a b)"

record router_id_iterator_t =
  last_hash :: "string option"
  it_hash :: "string option"

definition ROUTER_ID_ITERATOR_INIT :: router_id_iterator_t where
  "ROUTER_ID_ITERATOR_INIT = \<lparr>last_hash = None, it_hash = None\<rparr>"

definition find_next_router_line ::
  "smartlist \<Rightarrow> int \<Rightarrow> router_id_iterator_t \<Rightarrow> (int \<times> int \<times> router_id_iterator_t) option" where
  "find_next_router_line cons idx iter = do {
     idx \<leftarrow> next_router cons idx;
     if idx < int (length cons) then do {
       let iter = iter\<lparr>last_hash := it_hash iter\<rparr>;
       line \<leftarrow> smartlist_get cons idx;
       case get_id_hash line of
         None \<Rightarrow> Some (-1, idx, iter)
       | Some h \<Rightarrow> do {
           let iter = iter\<lparr>it_hash := Some h\<rparr>;
           cmp \<leftarrow> base64cmp (it_hash iter) (last_hash iter);
           Some (if cmp \<le> 0 then -1 else 0, idx, iter)
         }
     }
     else Some (0, idx, iter)
   }"

section \<open>Preprocessing\<close>

definition START_OF_SIGNATURES_SECTION :: string where
  "START_OF_SIGNATURES_SECTION = ''directory-signature ''"

text \<open>\<open>smartlist_del\<close> moves the last element into the hole.\<close>

definition smartlist_del :: "'a list \<Rightarrow> nat \<Rightarrow> 'a list" where
  "smartlist_del sl idx = butlast (sl[idx := last sl])"

function del_from :: "'a list \<Rightarrow> nat \<Rightarrow> 'a list" where
  "del_from cons dirsig_idx =
     (if length cons > dirsig_idx then del_from (smartlist_del cons dirsig_idx) dirsig_idx else cons)"
  by pat_completeness auto
termination
  by (relation "measure (\<lambda>(cons, i). length cons)") (auto simp: smartlist_del_def)

declare del_from.simps [simp del]

fun find_dirsig :: "nat \<Rightarrow> smartlist \<Rightarrow> nat option" where
  "find_dirsig idx [] = None"
| "find_dirsig idx (line # cons) =
     (if line_starts_with_str line START_OF_SIGNATURES_SECTION then Some idx
      else find_dirsig (idx + 1) cons)"

definition preprocess_consensus :: "smartlist \<Rightarrow> cdline option \<times> smartlist" where
  "preprocess_consensus cons =
     (case find_dirsig 0 cons of
        Some dirsig_idx \<Rightarrow> (Some (show_int (int dirsig_idx + 1) @ '',$d''), del_from cons dirsig_idx)
      | None \<Rightarrow> (None, cons))"

section \<open>Generating a script\<close>

lemma next_router_loop_range:
  "next_router_loop cons cur = Some r \<Longrightarrow> cur < int (length cons) \<Longrightarrow> cur \<le> r \<and> r \<le> int (length cons)"
proof (induction cons cur rule: next_router_loop.induct)
  case (1 cons cur)
  then show ?case
    unfolding next_router_loop.simps [of cons cur] by (fastforce simp: bind_eq_Some_conv split: if_splits)
qed

lemma next_router_range:
  "next_router cons cur = Some r \<Longrightarrow> cur < r \<and> r \<le> int (length cons) \<and> cur < int (length cons)"
  using next_router_loop_range [of cons "cur + 1" r]
  by (auto simp: next_router_def Let_def split: if_splits)

lemma find_next_router_line_range:
  "find_next_router_line cons idx iter = Some (ret, r, iter') \<Longrightarrow>
     idx < r \<and> r \<le> int (length cons) \<and> idx < int (length cons)"
  using next_router_range [of cons idx r]
  by (auto simp: find_next_router_line_def Let_def bind_eq_Some_conv split: if_splits option.splits)

text \<open>The inner loop of \<open>gen_ed_diff()\<close>: advance the lower position until the hashes match.\<close>

type_synonym walk = "int \<times> int \<times> router_id_iterator_t \<times> router_id_iterator_t"

function advance_lower ::
  "smartlist \<Rightarrow> smartlist \<Rightarrow> int \<Rightarrow> int \<Rightarrow> router_id_iterator_t \<Rightarrow> router_id_iterator_t \<Rightarrow> walk option option" where
  "advance_lower cons1 cons2 i1 i2 iter1 iter2 =
     (let len1 = int (length cons1); len2 = int (length cons2) in
      case base64cmp (it_hash iter1) (it_hash iter2) of
        None \<Rightarrow> None
      | Some cmp \<Rightarrow>
          if cmp = 0 then Some (Some (i1, i2, iter1, iter2))
          else if i1 < len1 \<and> cmp < 0 then
            (case find_next_router_line cons1 i1 iter1 of
               None \<Rightarrow> None
             | Some (ret, i1', iter1') \<Rightarrow>
                 if ret < 0 then Some None
                 else if i1' = len1 then Some (Some (i1', len2, iter1', iter2))
                 else advance_lower cons1 cons2 i1' i2 iter1' iter2)
          else if i2 < len2 \<and> cmp > 0 then
            (case find_next_router_line cons2 i2 iter2 of
               None \<Rightarrow> None
             | Some (ret, i2', iter2') \<Rightarrow>
                 if ret < 0 then Some None
                 else if i2' = len2 then Some (Some (len1, i2', iter1, iter2'))
                 else advance_lower cons1 cons2 i1 i2' iter1 iter2')
          else Some (Some (len1, len2, iter1, iter2)))"
  by pat_completeness auto
termination
  by (relation "measure (\<lambda>(cons1, cons2, i1, i2, _). nat (int (length cons1) - i1) + nat (int (length cons2) - i2))")
    (auto dest: find_next_router_line_range)

declare advance_lower.simps [simp del]

text \<open>One round of the outer loop up to the slices: the next pair of positions.\<close>

definition advance_routers ::
  "smartlist \<Rightarrow> smartlist \<Rightarrow> int \<Rightarrow> int \<Rightarrow> router_id_iterator_t \<Rightarrow> router_id_iterator_t \<Rightarrow> walk option option" where
  "advance_routers cons1 cons2 i1 i2 iter1 iter2 =
     (let len1 = int (length cons1); len2 = int (length cons2) in
      case (if i1 < len1 then find_next_router_line cons1 i1 iter1 else Some (0, i1, iter1)) of
        None \<Rightarrow> None
      | Some (ret1, i1, iter1) \<Rightarrow>
          if ret1 < 0 then Some None
          else (case (if i2 < len2 then find_next_router_line cons2 i2 iter2 else Some (0, i2, iter2)) of
            None \<Rightarrow> None
          | Some (ret2, i2, iter2) \<Rightarrow>
              if ret2 < 0 then Some None
              else if i1 < len1 \<or> i2 < len2 then advance_lower cons1 cons2 i1 i2 iter1 iter2
              else Some (Some (i1, i2, iter1, iter2))))"

lemma advance_lower_range:
  "advance_lower cons1 cons2 i1 i2 iter1 iter2 = Some (Some (j1, j2, iter1', iter2')) \<Longrightarrow>
     (j1 = int (length cons1) \<or> i1 \<le> j1) \<and> (j2 = int (length cons2) \<or> i2 \<le> j2)
     \<and> j1 \<le> max i1 (int (length cons1)) \<and> j2 \<le> max i2 (int (length cons2))"
proof (induction cons1 cons2 i1 i2 iter1 iter2 rule: advance_lower.induct)
  case (1 cons1 cons2 i1 i2 iter1 iter2)
  show ?case
    using 1(3) 1(1,2)[OF refl refl] unfolding advance_lower.simps [of cons1 cons2 i1 i2 iter1 iter2]
    by (fastforce simp: Let_def dest: find_next_router_line_range split: option.splits if_splits prod.splits)
qed

lemma advance_routers_range:
  assumes "advance_routers cons1 cons2 i1 i2 iter1 iter2 = Some (Some (j1, j2, iter1', iter2'))"
  shows "(j1 = int (length cons1) \<or> i1 \<le> j1) \<and> (j2 = int (length cons2) \<or> i2 \<le> j2)
    \<and> j1 \<le> max i1 (int (length cons1)) \<and> j2 \<le> max i2 (int (length cons2))
    \<and> (i1 < int (length cons1) \<longrightarrow> i1 < j1) \<and> (i2 < int (length cons2) \<longrightarrow> i2 < j2)"
  using assms
  by (fastforce simp: advance_routers_def Let_def dest: find_next_router_line_range advance_lower_range
      split: option.splits if_splits prod.splits)

definition MAX_LINE_COUNT :: int where
  "MAX_LINE_COUNT = 10000"

function mark_changes ::
  "smartlist \<Rightarrow> smartlist \<Rightarrow> int \<Rightarrow> int \<Rightarrow> int \<Rightarrow> int \<Rightarrow> router_id_iterator_t \<Rightarrow> router_id_iterator_t \<Rightarrow>
   bitarray \<Rightarrow> bitarray \<Rightarrow> (bitarray \<times> bitarray) option option" where
  "mark_changes cons1 cons2 i1 i2 start1 start2 iter1 iter2 changed1 changed2 =
     (if \<not> (i1 < int (length cons1) \<or> i2 < int (length cons2)) then Some (Some (changed1, changed2))
      else case advance_routers cons1 cons2 i1 i2 iter1 iter2 of
        None \<Rightarrow> None
      | Some None \<Rightarrow> Some None
      | Some (Some (j1, j2, iter1', iter2')) \<Rightarrow>
          if j1 - start1 > MAX_LINE_COUNT \<or> j2 - start2 > MAX_LINE_COUNT then Some None
          else (case do {
              cons1_sl \<leftarrow> smartlist_slice cons1 start1 j1;
              cons2_sl \<leftarrow> smartlist_slice cons2 start2 j2;
              calc_changes cons1_sl cons2_sl changed1 changed2
            } of
              None \<Rightarrow> None
            | Some (changed1', changed2') \<Rightarrow>
                mark_changes cons1 cons2 j1 j2 j1 j2 iter1' iter2' changed1' changed2'))"
  by pat_completeness auto
termination
  by (relation "measure (\<lambda>(cons1, cons2, i1, i2, _). nat (int (length cons1) - i1) + nat (int (length cons2) - i2))")
    (auto dest!: advance_routers_range)

declare mark_changes.simps [simp del]

definition bitarray_is_set :: "bitarray \<Rightarrow> int \<Rightarrow> bool option" where
  "bitarray_is_set b i = (if 0 \<le> i \<and> i < int (length b) then Some (b ! nat i) else None)"

text \<open>\<open>i >= 0 && bitarray_is_set(changed, i)\<close>\<close>

definition is_changed :: "bitarray \<Rightarrow> int \<Rightarrow> bool option" where
  "is_changed changed i = (if i \<ge> 0 then bitarray_is_set changed i else Some False)"

function skip_changed :: "bitarray \<Rightarrow> int \<Rightarrow> int option" where
  "skip_changed changed i = do {
     c \<leftarrow> is_changed changed i;
     if c then skip_changed changed (i - 1) else Some i
   }"
  by pat_completeness auto
termination
  by (relation "measure (\<lambda>(ch, i). nat (i + 1))") (auto simp: is_changed_def split: if_splits)

declare skip_changed.simps [simp del]

function add_new_lines :: "smartlist \<Rightarrow> int \<Rightarrow> int \<Rightarrow> smartlist \<Rightarrow> smartlist option option" where
  "add_new_lines cons2 i end2 result =
     (if i \<le> end2 then
        case smartlist_get cons2 i of
          None \<Rightarrow> None
        | Some line \<Rightarrow>
            if line_str_eq line ''.'' then Some None
            else add_new_lines cons2 (i + 1) end2 (result @ [line])
      else Some (Some result))"
  by pat_completeness auto
termination
  by (relation "measure (\<lambda>(cons2, i, end2, result). nat (end2 + 1 - i))") auto

declare add_new_lines.simps [simp del]

text \<open>The command for one run of changes, with the lines it adds.\<close>

definition ed_command ::
  "smartlist \<Rightarrow> int \<Rightarrow> int \<Rightarrow> int \<Rightarrow> int \<Rightarrow> int \<Rightarrow> smartlist \<Rightarrow> smartlist option option" where
  "ed_command cons2 start1 start2 end2 added deleted result =
     (if added = 0 then
        (if deleted = 1 then Some (Some (result @ [show_int (start1 + 1) @ ''d'']))
         else Some (Some (result @ [show_int (start1 + 1) @ '','' @ show_int (start1 + deleted) @ ''d''])))
      else
        let command =
          (if deleted = 0 then show_int start1 @ ''a''
           else if deleted = 1 then show_int (start1 + 1) @ ''c''
           else show_int (start1 + 1) @ '','' @ show_int (start1 + deleted) @ ''c'')
        in (case add_new_lines cons2 start2 end2 (result @ [command]) of
              None \<Rightarrow> None
            | Some None \<Rightarrow> Some None
            | Some (Some result) \<Rightarrow> Some (Some (result @ [''.'']))))"

lemma is_changed_nonneg: "is_changed ch i = Some True \<Longrightarrow> 0 \<le> i"
  by (auto simp: is_changed_def split: if_splits)

lemma skip_changed_le: "skip_changed ch i = Some j \<Longrightarrow> j \<le> i \<and> (is_changed ch i = Some True \<longrightarrow> j < i)"
proof (induction ch i rule: skip_changed.induct)
  case (1 ch i)
  then show ?case
    unfolding skip_changed.simps [of ch i] by (fastforce simp: bind_eq_Some_conv split: if_splits)
qed

lemma skip_changed_decreases:
  assumes "Some j1 = skip_changed ch1 i1" "Some j2 = skip_changed ch2 i2"
    and "Some c1 = is_changed ch1 i1" "Some c2 = is_changed ch2 i2" "\<not> (\<not> c1 \<and> \<not> c2)"
  shows "nat (j1 + 1) + nat (j2 + 1) < nat (i1 + 1) + nat (i2 + 1)"
proof -
  have "j1 \<le> i1 \<and> (c1 \<longrightarrow> j1 < i1)" "j2 \<le> i2 \<and> (c2 \<longrightarrow> j2 < i2)"
    using assms skip_changed_le by metis+
  moreover have "c1 \<longrightarrow> 0 \<le> i1" "c2 \<longrightarrow> 0 \<le> i2"
    using assms(3,4) is_changed_nonneg by metis+
  ultimately show ?thesis using assms(5) by auto
qed

function gen_commands ::
  "smartlist \<Rightarrow> bitarray \<Rightarrow> bitarray \<Rightarrow> int \<Rightarrow> int \<Rightarrow> smartlist \<Rightarrow> smartlist option option" where
  "gen_commands cons2 changed1 changed2 i1 i2 result =
     (if \<not> (i1 \<ge> 0 \<or> i2 \<ge> 0) then Some (Some result)
      else case (is_changed changed1 i1, is_changed changed2 i2) of
        (Some c1, Some c2) \<Rightarrow>
          if \<not> c1 \<and> \<not> c2 then
            gen_commands cons2 changed1 changed2
              (if i1 \<ge> 0 then i1 - 1 else i1) (if i2 \<ge> 0 then i2 - 1 else i2) result
          else
            (case (skip_changed changed1 i1, skip_changed changed2 i2) of
               (Some j1, Some j2) \<Rightarrow>
                 (case ed_command cons2 (j1 + 1) (j2 + 1) i2 (i2 - j2) (i1 - j1) result of
                    None \<Rightarrow> None
                  | Some None \<Rightarrow> Some None
                  | Some (Some result) \<Rightarrow> gen_commands cons2 changed1 changed2 j1 j2 result)
             | _ \<Rightarrow> None)
      | _ \<Rightarrow> None)"
  by pat_completeness auto
termination
proof (relation "measure (\<lambda>(_, _, _, i1, i2, _). nat (i1 + 1) + nat (i2 + 1))", goal_cases)
  case 3
  then show ?case using skip_changed_decreases by auto
qed auto

declare gen_commands.simps [simp del]

definition gen_ed_diff :: "smartlist \<Rightarrow> smartlist \<Rightarrow> smartlist option option" where
  "gen_ed_diff cons1_orig cons2 =
     (let (remove_trailer, cons1) = preprocess_consensus cons1_orig;
          len1 = length cons1; len2 = length cons2;
          result = (case remove_trailer of None \<Rightarrow> [] | Some line \<Rightarrow> [line])
      in case mark_changes cons1 cons2 (-1) (-1) 0 0 ROUTER_ID_ITERATOR_INIT ROUTER_ID_ITERATOR_INIT
                (bitarray_init_zero len1) (bitarray_init_zero len2) of
           None \<Rightarrow> None
         | Some None \<Rightarrow> Some None
         | Some (Some (changed1, changed2)) \<Rightarrow>
             gen_commands cons2 changed1 changed2 (int len1 - 1) (int len2 - 1) result)"

section \<open>Applying a script\<close>

definition get_linenum :: "string \<Rightarrow> (int \<times> string) option" where
  "get_linenum s =
     (if \<not> TOR_ISDIGIT (deref s) then None
      else let (num, ok, next) = tor_parse_long s 0 INT32_MAX True
           in if ok then Some (num, next) else None)"

text \<open>
  The parsed head of a command: the line numbers, whether a range and a dollar sign were
  given, and the action.  \<open>j\<close> is the number of lines of the base not yet consumed.
\<close>

definition parse_range :: "int \<Rightarrow> string \<Rightarrow> (int \<times> int \<times> bool \<times> bool \<times> string) option" where
  "parse_range cons1_len line = do {
     (start, ptr) \<leftarrow> get_linenum line;
     if deref ptr = CHR '','' then do {
       let ptr = tl ptr;
       (end, eof, ptr) \<leftarrow>
         (if deref ptr = CHR ''$'' then Some (cons1_len, True, tl ptr)
          else do { (end, ptr) \<leftarrow> get_linenum ptr; Some (end, False, ptr) });
       if end \<le> start then None else Some (start, end, True, eof, ptr)
     }
     else Some (start, start, False, False, ptr)
   }"

definition parse_command :: "int \<Rightarrow> int \<Rightarrow> cdline \<Rightarrow> (int \<times> int \<times> char) option" where
  "parse_command cons1_len j diff_cdline =
     (if length diff_cdline > 127 then None
      else do {
        (start, end, had_range, end_was_eof, ptr) \<leftarrow> parse_range cons1_len (c_str diff_cdline);
        if end > j then None
        else if deref ptr = NUL then None
        else if deref (tl ptr) \<noteq> NUL then None
        else let action = deref ptr in
          if action \<noteq> CHR ''a'' \<and> action \<noteq> CHR ''c'' \<and> action \<noteq> CHR ''d'' then None
          else if end_was_eof \<and> action \<noteq> CHR ''d'' then None
          else if had_range \<and> action = CHR ''a'' then None
          else Some (start, end, action)
      })"

function copy_unchanged :: "smartlist \<Rightarrow> int \<Rightarrow> int \<Rightarrow> smartlist \<Rightarrow> (int \<times> smartlist) option" where
  "copy_unchanged cons1 j end cons2 =
     (if j \<noteq> 0 \<and> j > end then
        do { line \<leftarrow> smartlist_get cons1 (j - 1);
             copy_unchanged cons1 (j - 1) end (cons2 @ [line]) }
      else Some (j, cons2))"
  by pat_completeness auto
termination
  by (relation "measure (\<lambda>(cons1, j, end, cons2). nat (j - end))") auto

function skip_removed :: "int \<Rightarrow> int \<Rightarrow> int" where
  "skip_removed j start = (let j = j - 1 in if j \<ge> start then skip_removed j start else j)"
  by pat_completeness auto
termination
  by (relation "measure (\<lambda>(j, start). nat (j - start))") auto

declare copy_unchanged.simps [simp del] skip_removed.simps [simp del]

text \<open>
  The lines to insert, up to a line holding a dot: they are collected in reverse order, as the
  code adds them, and the rest of the script starts at the dot.
\<close>

fun take_added :: "smartlist \<Rightarrow> smartlist \<Rightarrow> (smartlist \<times> smartlist) option" where
  "take_added added [] = Some (added, [])"
| "take_added added (line # diff) =
     (if line_str_eq line ''.'' then Some (added, line # diff)
      else if diff = [] then None
      else take_added (line # added) diff)"

lemma take_added_length:
  "take_added added diff = Some (a, d) \<Longrightarrow> length d \<le> length diff"
  by (induction added diff rule: take_added.induct) (auto split: if_splits)

text \<open>The main loop; \<open>diff\<close> is the part of the script from the current line on.\<close>

function apply_commands :: "smartlist \<Rightarrow> smartlist \<Rightarrow> int \<Rightarrow> smartlist \<Rightarrow> (int \<times> smartlist) option" where
  "apply_commands cons1 [] j cons2 = Some (j, cons2)"
| "apply_commands cons1 (diff_cdline # diff) j cons2 =
     (case parse_command (int (length cons1)) j diff_cdline of
        None \<Rightarrow> None
      | Some (start, end, action) \<Rightarrow>
          (case copy_unchanged cons1 j end cons2 of
             None \<Rightarrow> None
           | Some (j, cons2) \<Rightarrow>
               let j = (if action = CHR ''c'' \<or> action = CHR ''d'' then skip_removed j start else j) in
               if action = CHR ''a'' \<or> action = CHR ''c'' then
                 (case take_added [] diff of
                    None \<Rightarrow> None
                  | Some (added, diff') \<Rightarrow>
                      if added = [] then None
                      else apply_commands cons1 (tl diff') j (cons2 @ added))
               else apply_commands cons1 diff j cons2))"
  by pat_completeness auto
termination
  by (relation "measure (\<lambda>(cons1, diff, j, cons2). length diff)") (auto dest: take_added_length simp: less_Suc_eq_le le_diff_conv)

declare apply_commands.simps [simp del]

text \<open>\<open>diff_starting_line\<close> is only ever 0 or \<open>DIFF_HEADER_LINES\<close>: the script is read from there.\<close>

definition apply_ed_diff :: "smartlist \<Rightarrow> smartlist \<Rightarrow> nat \<Rightarrow> smartlist option" where
  "apply_ed_diff cons1 diff diff_starting_line = do {
     (j, cons2) \<leftarrow> apply_commands cons1 (drop diff_starting_line diff) (int (length cons1)) [];
     (_, cons2) \<leftarrow> copy_unchanged cons1 j 0 cons2;
     Some (rev cons2)
   }"


end
