(* ===== verification/Consdiff_Roundtrip.thy ===== *)
theory Consdiff_Roundtrip
  imports Consdiff_Ed
begin

text \<open>
  Correctness of the ed scripts of \<open>consdiff.c\<close>: the router walk never aborts, the change
  marks it leaves agree on the unchanged lines, every generated command is read back as
  written, and a generated script rebuilds the target document.
\<close>

section \<open>The walk never aborts\<close>

definition hash_ok :: "router_id_iterator_t \<Rightarrow> bool" where
  "hash_ok iter \<longleftrightarrow> it_hash iter \<noteq> Some []"

lemma next_router_loop_total:
  "0 \<le> cur \<Longrightarrow> cur < int (length cons) \<Longrightarrow>
     \<exists>r. next_router_loop cons cur = Some r
       \<and> (r < int (length cons) \<longrightarrow> is_valid_router_entry (cons ! nat r))"
proof (induction cons cur rule: next_router_loop.induct)
  case (1 cons cur)
  then show ?case
    unfolding next_router_loop.simps [of cons cur] by (auto simp: smartlist_get_def)
qed

lemma base64cmp_loop_total: "a \<noteq> [] \<Longrightarrow> b \<noteq> [] \<Longrightarrow> \<exists>c. base64cmp_loop a b = Some c"
  by (induction a b rule: base64cmp_loop.induct) (auto simp: Let_def)

lemma base64cmp_total: "a \<noteq> Some [] \<Longrightarrow> b \<noteq> Some [] \<Longrightarrow> \<exists>c. base64cmp a b = Some c"
  by (cases a; cases b) (auto simp: base64cmp_def base64cmp_loop_total)

lemma get_id_hash_nonempty: "get_id_hash line \<noteq> Some []"
  by (auto simp: get_id_hash_def Let_def split: list.splits if_splits)

lemma next_router_total:
  assumes "-1 \<le> cur" "cur < int (length cons)"
  shows "\<exists>r. next_router cons cur = Some r \<and> (r < int (length cons) \<longrightarrow> is_valid_router_entry (cons ! nat r))"
  using assms next_router_loop_total [of "cur + 1" cons] by (auto simp: next_router_def Let_def)

lemma find_next_router_line_total:
  assumes "-1 \<le> idx" "idx < int (length cons)" "hash_ok iter"
  shows "\<exists>ret r iter'. find_next_router_line cons idx iter = Some (ret, r, iter') \<and> hash_ok iter'
    \<and> idx < r \<and> r \<le> int (length cons)"
proof -
  obtain r where r: "next_router cons idx = Some r"
      "r < int (length cons) \<longrightarrow> is_valid_router_entry (cons ! nat r)" "idx < r" "r \<le> int (length cons)"
    using next_router_total [OF assms(1,2)] next_router_range by blast
  show ?thesis
  proof (cases "r < int (length cons)")
    case False
    then show ?thesis using r assms by (auto simp: find_next_router_line_def)
  next
    case True
    then have get: "smartlist_get cons r = Some (cons ! nat r)" using r assms by (simp add: smartlist_get_def)
    obtain h where h: "get_id_hash (cons ! nat r) = Some h" "h \<noteq> []"
      using r True get_id_hash_nonempty by (fastforce simp: is_valid_router_entry_def)
    then obtain c where "base64cmp (Some h) (it_hash iter) = Some c"
      using base64cmp_total [of "Some h" "it_hash iter"] assms(3) by (auto simp: hash_ok_def)
    then show ?thesis using r True get h by (auto simp: find_next_router_line_def hash_ok_def Let_def)
  qed
qed

lemma advance_lower_total:
  "-1 \<le> i1 \<Longrightarrow> -1 \<le> i2 \<Longrightarrow> hash_ok iter1 \<Longrightarrow> hash_ok iter2 \<Longrightarrow>
     \<exists>r. advance_lower cons1 cons2 i1 i2 iter1 iter2 = Some r
       \<and> (\<forall>j1 j2 iter1' iter2'. r = Some (j1, j2, iter1', iter2') \<longrightarrow> hash_ok iter1' \<and> hash_ok iter2')"
proof (induction cons1 cons2 i1 i2 iter1 iter2 rule: advance_lower.induct)
  case (1 cons1 cons2 i1 i2 iter1 iter2)
  obtain c where c: "base64cmp (it_hash iter1) (it_hash iter2) = Some c"
    using 1(5,6) base64cmp_total by (auto simp: hash_ok_def)
  show ?case
  proof (cases "i1 < int (length cons1) \<and> c < 0")
    case True
    with find_next_router_line_total [of i1 cons1 iter1] 1(3,5) obtain ret r iter' where
      "find_next_router_line cons1 i1 iter1 = Some (ret, r, iter')" "hash_ok iter'" "i1 < r" by blast
    then show ?thesis
      using c True 1(3-6) 1(1)[OF refl refl c _ True] unfolding advance_lower.simps [of cons1 cons2 i1 i2 iter1 iter2]
      by (auto simp: Let_def)
  next
    case F1: False
    show ?thesis
    proof (cases "i2 < int (length cons2) \<and> c > 0")
      case True
      with find_next_router_line_total [of i2 cons2 iter2] 1(4,6) obtain ret r iter' where
        "find_next_router_line cons2 i2 iter2 = Some (ret, r, iter')" "hash_ok iter'" "i2 < r" by blast
      then show ?thesis
        using c F1 True 1(3-6) 1(2)[OF refl refl c _ F1 True] unfolding advance_lower.simps [of cons1 cons2 i1 i2 iter1 iter2]
        by (auto simp: Let_def)
    next
      case False
      then show ?thesis
        using c F1 1(5,6) unfolding advance_lower.simps [of cons1 cons2 i1 i2 iter1 iter2] by (auto simp: Let_def)
    qed
  qed
qed

lemma advance_routers_total:
  assumes "-1 \<le> i1" "-1 \<le> i2" "hash_ok iter1" "hash_ok iter2"
  shows "\<exists>r. advance_routers cons1 cons2 i1 i2 iter1 iter2 = Some r
       \<and> (\<forall>j1 j2 iter1' iter2'. r = Some (j1, j2, iter1', iter2') \<longrightarrow> hash_ok iter1' \<and> hash_ok iter2')"
proof -
  have step: "\<exists>ret r iter'. (if i < int (length cons) then find_next_router_line cons i iter else Some (0, i, iter))
      = Some (ret, r, iter') \<and> hash_ok iter' \<and> -1 \<le> r" if "-1 \<le> i" "hash_ok iter" for cons i iter
    using find_next_router_line_total [of i cons iter] that by auto
  from step [OF assms(1,3)] obtain ret1 r1 iter1' where s1:
    "(if i1 < int (length cons1) then find_next_router_line cons1 i1 iter1 else Some (0, i1, iter1)) = Some (ret1, r1, iter1')"
    "hash_ok iter1'" "-1 \<le> r1" by blast
  from step [OF assms(2,4)] obtain ret2 r2 iter2' where s2:
    "(if i2 < int (length cons2) then find_next_router_line cons2 i2 iter2 else Some (0, i2, iter2)) = Some (ret2, r2, iter2')"
    "hash_ok iter2'" "-1 \<le> r2" by blast
  show ?thesis
    using advance_lower_total [OF s1(3) s2(3) s1(2) s2(2)] s1(2) s2(2)
    unfolding advance_routers_def Let_def s1(1) s2(1) by auto
qed

section \<open>The marks of the walk\<close>

text \<open>Up to the current positions the two documents agree on their unmarked lines; beyond them nothing is marked.\<close>

definition marks_upto :: "smartlist \<Rightarrow> smartlist \<Rightarrow> int \<Rightarrow> int \<Rightarrow> bitarray \<Rightarrow> bitarray \<Rightarrow> bool" where
  "marks_upto cons1 cons2 start1 start2 ch1 ch2 \<longleftrightarrow>
     length ch1 = length cons1 \<and> length ch2 = length cons2
     \<and> kept (take (nat start1) cons1) (take (nat start1) ch1) = kept (take (nat start2) cons2) (take (nat start2) ch2)
     \<and> drop (nat start1) ch1 = replicate (length cons1 - nat start1) False
     \<and> drop (nat start2) ch2 = replicate (length cons2 - nat start2) False"

lemma take_split: "a \<le> b \<Longrightarrow> take b xs = take a xs @ take (b - a) (drop a xs)"
  using take_add [of a "b - a" xs] by simp

lemma marks_extend:
  assumes "length ch = length cons" "0 \<le> s" "s \<le> j" "j \<le> int (length cons)"
    and "drop (nat s) ch = replicate (length cons - nat s) False" "length m = nat (j - s)"
  shows "length (bits_write ch s m) = length cons"
    "take (nat j) (bits_write ch s m) = take (nat s) ch @ m"
    "drop (nat j) (bits_write ch s m) = replicate (length cons - nat j) False"
proof -
  have j: "nat j = nat s + length m" "nat s \<le> length ch" using assms by simp_all
  then show "length (bits_write ch s m) = length cons"
    "take (nat j) (bits_write ch s m) = take (nat s) ch @ m"
    using assms(1,4) by (simp_all add: bits_write_def)
  have "drop (nat j) (bits_write ch s m) = drop (nat j) ch"
    using j by (simp add: bits_write_def)
  also have "\<dots> = drop (nat j - nat s) (drop (nat s) ch)" using assms(2,3) by simp
  finally show "drop (nat j) (bits_write ch s m) = replicate (length cons - nat j) False"
    using assms(2,3) unfolding assms(5) drop_replicate by simp
qed

lemma marks_step:
  assumes inv: "marks_upto cons1 cons2 s1 s2 ch1 ch2" and b: "0 \<le> s1" "s1 \<le> j1" "j1 \<le> int (length cons1)"
    "0 \<le> s2" "s2 \<le> j2" "j2 \<le> int (length cons2)"
  shows "\<exists>ch1' ch2'. do {
      cons1_sl \<leftarrow> smartlist_slice cons1 s1 j1;
      cons2_sl \<leftarrow> smartlist_slice cons2 s2 j2;
      calc_changes cons1_sl cons2_sl ch1 ch2
    } = Some (ch1', ch2') \<and> marks_upto cons1 cons2 j1 j2 ch1' ch2'"
proof -
  let ?s1 = "\<lparr>sl_list = cons1, sl_offset = s1, sl_len = j1 - s1\<rparr>"
  let ?s2 = "\<lparr>sl_list = cons2, sl_offset = s2, sl_len = j2 - s2\<rparr>"
  have "slice_ok ?s1" "slice_ok ?s2" using b by (auto simp: slice_ok_def)
  moreover have "clear_region ch1 ?s1" "clear_region ch2 ?s2"
    using inv b by (auto simp: clear_region_def marks_upto_def min_def nat_diff_distrib)
  ultimately obtain m1 m2 where m:
      "calc_changes ?s1 ?s2 ch1 ch2 = Some (bits_write ch1 s1 m1, bits_write ch2 s2 m2)"
      "length m1 = nat (j1 - s1)" "length m2 = nat (j2 - s2)" "kept (slice_lines ?s1) m1 = kept (slice_lines ?s2) m2"
    using calc_changes_marks [of ?s1 ?s2 ch1 ch2] by (auto simp: marks_diff_def)
  note x1 = marks_extend [OF _ b(1-3) _ m(2), of ch1] and x2 = marks_extend [OF _ b(4-6) _ m(3), of ch2]
  have sl: "take (nat j1) cons1 = take (nat s1) cons1 @ slice_lines ?s1"
    "take (nat j2) cons2 = take (nat s2) cons2 @ slice_lines ?s2"
    using b by (auto simp: slice_lines_def take_split [of "nat s1" "nat j1"] take_split [of "nat s2" "nat j2"] nat_diff_distrib)
  have "marks_upto cons1 cons2 j1 j2 (bits_write ch1 s1 m1) (bits_write ch2 s2 m2)"
    using inv m(4) x1 x2 by (simp add: marks_upto_def sl kept_append)
  then show ?thesis using b by (simp add: smartlist_slice_eq m(1))
qed

lemma mark_changes_marks:
  assumes "marks_upto cons1 cons2 start1 start2 ch1 ch2"
    and "-1 \<le> i1" "i1 \<le> int (length cons1)" "start1 = max 0 i1" "hash_ok iter1"
    and "-1 \<le> i2" "i2 \<le> int (length cons2)" "start2 = max 0 i2" "hash_ok iter2"
  shows "\<exists>r. mark_changes cons1 cons2 i1 i2 start1 start2 iter1 iter2 ch1 ch2 = Some r
     \<and> (\<forall>ch1' ch2'. r = Some (ch1', ch2') \<longrightarrow>
          marks_upto cons1 cons2 (int (length cons1)) (int (length cons2)) ch1' ch2')"
  using assms
proof (induction cons1 cons2 i1 i2 start1 start2 iter1 iter2 ch1 ch2 rule: mark_changes.induct)
  case (1 cons1 cons2 i1 i2 start1 start2 iter1 iter2 ch1 ch2)
  note pre = 1(2-)
  let ?f = "mark_changes cons1 cons2 i1 i2 start1 start2 iter1 iter2 ch1 ch2"
  show ?case
  proof (cases "\<not> (i1 < int (length cons1) \<or> i2 < int (length cons2))")
    case True
    then have "start1 = int (length cons1)" "start2 = int (length cons2)" using pre by auto
    then show ?thesis using True pre(1) by (subst mark_changes.simps) simp
  next
    case more: False
    from advance_routers_total [OF pre(2,6,5,9), of cons1 cons2] obtain r where
      r: "advance_routers cons1 cons2 i1 i2 iter1 iter2 = Some r"
      "\<And>j1 j2 iter1' iter2'. r = Some (j1, j2, iter1', iter2') \<Longrightarrow> hash_ok iter1' \<and> hash_ok iter2'" by auto
    show ?thesis
    proof (cases r)
      case None
      then show ?thesis using more r(1) by (subst mark_changes.simps) simp
    next
      case (Some w)
      obtain j1 j2 it1 it2 where w: "w = (j1, j2, it1, it2)" by (cases w)
      note adv = r(1)[unfolded Some w]
      have h: "hash_ok it1" "hash_ok it2" using r(2) Some w by auto
      have rg: "start1 \<le> j1" "j1 \<le> int (length cons1)" "start2 \<le> j2" "j2 \<le> int (length cons2)" "0 \<le> start1" "0 \<le> start2"
        using advance_routers_range [OF adv] pre by (auto simp: max_def split: if_splits)
      from marks_step [OF pre(1) rg(5,1,2,6,3,4)] obtain ch1' ch2' where
        st: "do {
          cons1_sl \<leftarrow> smartlist_slice cons1 start1 j1;
          cons2_sl \<leftarrow> smartlist_slice cons2 start2 j2;
          calc_changes cons1_sl cons2_sl ch1 ch2 } = Some (ch1', ch2')" "marks_upto cons1 cons2 j1 j2 ch1' ch2'" by blast
      show ?thesis
      proof (cases "j1 - start1 > MAX_LINE_COUNT \<or> j2 - start2 > MAX_LINE_COUNT")
        case True
        then show ?thesis using more adv by (subst mark_changes.simps) simp
      next
        case False
        have "?f = mark_changes cons1 cons2 j1 j2 j1 j2 it1 it2 ch1' ch2'"
          using more adv False st(1) by (subst mark_changes.simps) simp
        then show ?thesis
          using 1(1)[OF more adv _ refl refl refl False st(1) refl] st(2) rg h by auto
      qed
    qed
  qed
qed

section \<open>Segments\<close>

text \<open>The elements from index \<open>a\<close> up to, not including, index \<open>b\<close>.\<close>

definition segment :: "'a list \<Rightarrow> int \<Rightarrow> int \<Rightarrow> 'a list" where
  "segment xs a b = take (nat (b - a)) (drop (nat a) xs)"

lemma segment_empty [simp]: "b \<le> a \<Longrightarrow> segment xs a b = []"
  by (simp add: segment_def)

lemma segment_append:
  "0 \<le> a \<Longrightarrow> a \<le> b \<Longrightarrow> b \<le> c \<Longrightarrow> segment xs a b @ segment xs b c = segment xs a c"
proof -
  assume b: "0 \<le> a" "a \<le> b" "b \<le> c"
  then have n: "nat (c - a) = nat (b - a) + nat (c - b)" "nat b = nat (b - a) + nat a" by simp_all
  then show ?thesis by (simp add: segment_def take_add)
qed

lemma segment_single:
  "0 \<le> a \<Longrightarrow> a < int (length xs) \<Longrightarrow> segment xs a (a + 1) = [xs ! nat a]"
  by (simp add: segment_def take_Suc_conv_app_nth hd_drop_conv_nth take_Suc)

lemma segment_Cons:
  assumes "0 \<le> a" "a < b" "a < int (length xs)"
  shows "segment xs a b = xs ! nat a # segment xs (a + 1) b"
  using segment_append [of a "a + 1" b xs] segment_single [of a xs] assms by simp

lemma segment_snoc:
  assumes "0 \<le> a" "a \<le> b" "b < int (length xs)"
  shows "segment xs a (b + 1) = segment xs a b @ [xs ! nat b]"
  using segment_append [of a b "b + 1" xs] segment_single [of b xs] assms by simp

lemma segment_take: "0 \<le> a \<Longrightarrow> b \<le> int n \<Longrightarrow> segment (take n xs) a b = segment xs a b"
proof (cases "a \<le> b")
  case True
  moreover assume "0 \<le> a" "b \<le> int n"
  ultimately have "nat (b - a) + nat a \<le> n" by linarith
  then show ?thesis by (simp add: segment_def take_drop min_absorb1)
qed simp

lemma segment_nonempty: "0 \<le> a \<Longrightarrow> a < b \<Longrightarrow> a < int (length xs) \<Longrightarrow> segment xs a b \<noteq> []"
  by (simp add: segment_def)

section \<open>Reading a command back\<close>

lemma c_str_id: "NUL \<notin> set s \<Longrightarrow> c_str s = s"
  by (auto simp: c_str_def takeWhile_eq_all_conv)

lemma digit_not_NUL: "TOR_ISDIGIT c \<Longrightarrow> c \<noteq> NUL"
  by (auto simp: TOR_ISDIGIT_def NUL_def)

lemma show_int_nat: "0 \<le> n \<Longrightarrow> show_int n = show_dec (nat n)"
  by (simp add: show_int_def)

lemma show_int_no_NUL: "0 \<le> n \<Longrightarrow> NUL \<notin> set (show_int n)"
  using show_dec_digits digit_not_NUL by (auto simp: show_int_nat)

lemma length_show_int: "0 \<le> n \<Longrightarrow> n \<le> INT32_MAX \<Longrightarrow> length (show_int n) \<le> 10"
  using length_show_dec [of "nat n" 10] by (simp add: show_int_nat INT32_MAX_def nat_le_iff)

lemma get_linenum_show:
  assumes "0 \<le> n" "n \<le> INT32_MAX" "\<not> TOR_ISDIGIT (deref r)"
  shows "get_linenum (show_int n @ r) = Some (n, r)"
proof -
  have "TOR_ISDIGIT (deref (show_dec (nat n) @ r))"
    using show_dec_digits [of "nat n"] by (cases "show_dec (nat n)") (auto simp: deref_def)
  then show ?thesis
    using assms tor_parse_long_show_dec [of "nat n" INT32_MAX r]
    by (simp add: get_linenum_def show_int_nat INT32_MAX_def LONG_MAX_def)
qed

lemma not_digits [simp]:
  "\<not> TOR_ISDIGIT (CHR '','')" "\<not> TOR_ISDIGIT (CHR ''a'')" "\<not> TOR_ISDIGIT (CHR ''c'')"
  "\<not> TOR_ISDIGIT (CHR ''d'')" "\<not> TOR_ISDIGIT NUL" "\<not> TOR_ISDIGIT (CHR ''$'')"
  by (simp_all add: TOR_ISDIGIT_def NUL_def)

lemma deref_simps [simp]: "deref [] = NUL" "deref (c # s) = c"
  by (simp_all add: deref_def)

lemma NUL_neq [simp]:
  "CHR ''a'' \<noteq> NUL" "CHR ''c'' \<noteq> NUL" "CHR ''d'' \<noteq> NUL" "CHR '','' \<noteq> NUL" "CHR ''$'' \<noteq> NUL"
  "NUL \<noteq> CHR ''a''" "NUL \<noteq> CHR ''c''" "NUL \<noteq> CHR ''d''" "NUL \<noteq> CHR '',''" "NUL \<noteq> CHR ''$''"
  by (simp_all add: NUL_def)

lemma parse_single:
  assumes "0 \<le> n" "n \<le> INT32_MAX" "n \<le> j" "act \<in> {CHR ''a'', CHR ''c'', CHR ''d''}"
  shows "parse_command len j (show_int n @ [act]) = Some (n, n, act)"
proof -
  have "c_str (show_int n @ [act]) = show_int n @ [act]"
    using assms show_int_no_NUL by (intro c_str_id) auto
  moreover have "get_linenum (show_int n @ [act]) = Some (n, [act])"
    using assms by (intro get_linenum_show) auto
  ultimately show ?thesis
    using length_show_int [OF assms(1,2)] assms(3,4) by (auto simp: parse_command_def parse_range_def)
qed

lemma parse_pair:
  assumes "0 \<le> n" "n < m" "m \<le> INT32_MAX" "m \<le> j" "act \<in> {CHR ''c'', CHR ''d''}"
  shows "parse_command len j (show_int n @ '','' @ show_int m @ [act]) = Some (n, m, act)"
proof -
  let ?r = "show_int m @ [act]"
  have "c_str (show_int n @ '','' @ ?r) = show_int n @ '','' @ ?r"
    using assms show_int_no_NUL by (intro c_str_id) auto
  moreover have "get_linenum (show_int n @ '','' @ ?r) = Some (n, '','' @ ?r)"
    using assms by (intro get_linenum_show) auto
  moreover have "get_linenum ?r = Some (m, [act])"
    using assms by (intro get_linenum_show) auto
  moreover have "deref ?r \<noteq> CHR ''$''"
    using show_dec_digits [of "nat m"] assms by (cases "show_dec (nat m)") (auto simp: show_int_nat)
  ultimately show ?thesis
    using length_show_int [of n] length_show_int [of m] assms by (auto simp: parse_command_def parse_range_def Let_def)
qed

lemma parse_trailer:
  assumes "0 \<le> n" "n \<le> INT32_MAX" "len \<le> j"
  shows "parse_command len j (show_int n @ '',$d'') = (if n < len then Some (n, len, CHR ''d'') else None)"
proof -
  have "c_str (show_int n @ '',$d'') = show_int n @ '',$d''"
    using assms show_int_no_NUL by (intro c_str_id) auto
  moreover have "get_linenum (show_int n @ '',$d'') = Some (n, '',$d'')"
    using assms by (intro get_linenum_show) auto
  ultimately show ?thesis
    using length_show_int [OF assms(1,2)] assms(3) by (auto simp: parse_command_def parse_range_def Let_def)
qed

section \<open>The steps of the interpreter\<close>

lemma copy_unchanged_spec:
  "0 \<le> e \<Longrightarrow> e \<le> j \<Longrightarrow> j \<le> int (length b) \<Longrightarrow>
     copy_unchanged b j e acc = Some (e, acc @ rev (segment b e j))"
proof (induction b j e acc rule: copy_unchanged.induct)
  case (1 b j e acc)
  show ?case
  proof (cases "j = e")
    case True
    then show ?thesis by (subst copy_unchanged.simps) simp
  next
    case False
    then have get: "smartlist_get b (j - 1) = Some (b ! nat (j - 1))" using 1(2-4) by (simp add: smartlist_get_def)
    have "copy_unchanged b j e acc = copy_unchanged b (j - 1) e (acc @ [b ! nat (j - 1)])"
      using 1(2,3) False get by (subst copy_unchanged.simps) simp
    also have "\<dots> = Some (e, (acc @ [b ! nat (j - 1)]) @ rev (segment b e (j - 1)))"
      using 1(1) get 1(2-4) False by auto
    finally show ?thesis using segment_snoc [of e "j - 1" b] 1(2-4) False by simp
  qed
qed

lemma skip_removed_eq: "skip_removed j s = min j s - 1"
  by (induction j s rule: skip_removed.induct) (subst skip_removed.simps, auto simp: Let_def)

lemma add_new_lines_spec:
  "0 \<le> i \<Longrightarrow> e < int (length cons2) \<Longrightarrow>
     add_new_lines cons2 i e res =
       Some (if ''.'' \<in> set (segment cons2 i (e + 1)) then None else Some (res @ segment cons2 i (e + 1)))"
proof (induction cons2 i e res rule: add_new_lines.induct)
  case (1 cons2 i e res)
  show ?case
  proof (cases "i \<le> e")
    case False
    then show ?thesis by (subst add_new_lines.simps) simp
  next
    case True
    then have "smartlist_get cons2 i = Some (cons2 ! nat i)" "segment cons2 i (e + 1) = cons2 ! nat i # segment cons2 (i + 1) (e + 1)"
      using 1(2,3) by (simp_all add: smartlist_get_def segment_Cons)
    then show ?thesis
      using 1(1)[OF True] 1(2,3) True by (subst add_new_lines.simps) (auto simp: line_str_eq_def)
  qed
qed

lemma take_added_spec:
  "''.'' \<notin> set seg \<Longrightarrow> take_added acc (seg @ ''.'' # rest) = Some (rev seg @ acc, ''.'' # rest)"
  by (induction seg arbitrary: acc) (auto simp: line_str_eq_def)

section \<open>Runs of changes\<close>

definition kept_to :: "'a list \<Rightarrow> bitarray \<Rightarrow> int \<Rightarrow> 'a list" where
  "kept_to cons ch i = kept (take (nat (i + 1)) cons) (take (nat (i + 1)) ch)"

lemma kept_to_step:
  assumes "length ch = length cons" "0 \<le> i" "i < int (length cons)"
  shows "kept_to cons ch i = kept_to cons ch (i - 1) @ (if ch ! nat i then [] else [cons ! nat i])"
proof -
  obtain k where k: "i = int k" "k < length cons" using assms by (metis nonneg_int_cases of_nat_less_iff)
  then show ?thesis
    using assms(1) by (simp add: kept_to_def nat_add_distrib take_Suc_conv_app_nth kept_append) (simp add: kept_def)
qed

lemma kept_to_neg [simp]: "kept_to cons ch (-1) = []"
  by (simp add: kept_to_def kept_def)

lemma is_changed_eq:
  "-1 \<le> i \<Longrightarrow> i < int (length ch) \<Longrightarrow> is_changed ch i = Some (0 \<le> i \<and> ch ! nat i)"
  by (simp add: is_changed_def bitarray_is_set_def)

lemma skip_changed_spec:
  "length ch = length cons \<Longrightarrow> -1 \<le> i \<Longrightarrow> i < int (length ch) \<Longrightarrow>
     \<exists>j. skip_changed ch i = Some j \<and> -1 \<le> j \<and> j \<le> i \<and> (is_changed ch i = Some True \<longrightarrow> j < i)
       \<and> kept_to cons ch j = kept_to cons ch i"
proof (induction ch i rule: skip_changed.induct)
  case (1 ch i)
  note c = is_changed_eq [OF 1(3,4)]
  show ?case
  proof (cases "0 \<le> i \<and> ch ! nat i")
    case True
    with 1(1)[OF c True 1(2)] 1(4) obtain j where "skip_changed ch (i - 1) = Some j" "-1 \<le> j" "j \<le> i - 1"
      "kept_to cons ch j = kept_to cons ch (i - 1)" by auto
    then show ?thesis
      using True c kept_to_step [of ch cons i] 1(2,4) unfolding skip_changed.simps [of ch i] by simp
  next
    case False
    then show ?thesis using c 1(3) unfolding skip_changed.simps [of ch i] by auto
  qed
qed

section \<open>Effect of a generated command\<close>

lemma apply_delete:
  assumes "parse_command (int (length b)) j c = Some (s, e, CHR ''d'')" "0 \<le> e" "e \<le> j" "j \<le> int (length b)"
    and "k = min e s - 1"
  shows "apply_commands b (c # cmds) j acc = apply_commands b cmds k (acc @ rev (segment b e j))"
  using assms copy_unchanged_spec [OF assms(2-4), of acc] by (simp add: apply_commands.simps skip_removed_eq Let_def)

lemma apply_insert:
  assumes "parse_command (int (length b)) j c = Some (s, e, act)" "0 \<le> e" "e \<le> j" "j \<le> int (length b)"
    and "act = CHR ''a'' \<or> act = CHR ''c''" "seg \<noteq> []" "''.'' \<notin> set seg"
    and "k = (if act = CHR ''c'' then min e s - 1 else e)"
  shows "apply_commands b (c # seg @ ''.'' # cmds) j acc =
    apply_commands b cmds k (acc @ rev (segment b e j) @ rev seg)"
  using assms(1,5,6,8) copy_unchanged_spec [OF assms(2-4), of acc] take_added_spec [OF assms(7), of "[]" cmds]
  by (auto simp: apply_commands.simps skip_removed_eq Let_def)

text \<open>
  The rest of a script is right for positions \<open>i1\<close>, \<open>i2\<close> if it completes every output that
  agrees with the target above \<open>i2\<close>.
\<close>

definition rebuilds :: "smartlist \<Rightarrow> int \<Rightarrow> smartlist \<Rightarrow> int \<Rightarrow> int \<Rightarrow> smartlist \<Rightarrow> bool" where
  "rebuilds b len1 cons2 i1 i2 cmds \<longleftrightarrow>
     (\<forall>j acc. len1 \<le> INT32_MAX \<and> i1 + 1 \<le> j \<and> j \<le> len1
        \<and> acc @ rev (segment b (i1 + 1) j) = rev (segment cons2 (i2 + 1) (int (length cons2)))
        \<longrightarrow> (\<exists>jf accf. apply_commands b cmds j acc = Some (jf, accf) \<and> 0 \<le> jf \<and> jf \<le> int (length b)
               \<and> accf @ rev (segment b 0 jf) = rev cons2))"

lemma rebuilds_nil: "len1 \<le> int (length b) \<Longrightarrow> rebuilds b len1 cons2 (-1) (-1) []"
  by (auto simp: rebuilds_def segment_def apply_commands.simps)

lemma rebuilds_same:
  assumes "rebuilds b len1 cons2 (i1 - 1) (i2 - 1) cmds" "0 \<le> i1" "0 \<le> i2" "i2 < int (length cons2)"
    and "len1 \<le> int (length b)" "b ! nat i1 = cons2 ! nat i2"
  shows "rebuilds b len1 cons2 i1 i2 cmds"
  using assms unfolding rebuilds_def
  by (auto simp: segment_Cons [of i1] segment_Cons [of i2])

lemma rebuilds_delete:
  assumes "rebuilds b len1 cons2 j1 i2 cmds" "-1 \<le> j1" "j1 < i1" "i1 < len1" "len1 \<le> int (length b)"
    and "\<And>j. len1 \<le> INT32_MAX \<Longrightarrow> i1 + 1 \<le> j \<Longrightarrow> parse_command (int (length b)) j c = Some (j1 + 2, i1 + 1, CHR ''d'')"
  shows "rebuilds b len1 cons2 i1 i2 (c # cmds)"
  unfolding rebuilds_def
proof (intro allI impI)
  fix j acc
  assume h: "len1 \<le> INT32_MAX \<and> i1 + 1 \<le> j \<and> j \<le> len1
    \<and> acc @ rev (segment b (i1 + 1) j) = rev (segment cons2 (i2 + 1) (int (length cons2)))"
  have "apply_commands b (c # cmds) j acc = apply_commands b cmds (j1 + 1) (acc @ rev (segment b (i1 + 1) j))"
    using assms(2-5) h by (intro apply_delete [OF assms(6)]) auto
  then show "\<exists>jf accf. apply_commands b (c # cmds) j acc = Some (jf, accf) \<and> 0 \<le> jf \<and> jf \<le> int (length b)
      \<and> accf @ rev (segment b 0 jf) = rev cons2"
    using assms(1-4) h unfolding rebuilds_def by (auto dest!: spec [of _ "j1 + 1"])
qed

lemma rebuilds_insert:
  assumes "rebuilds b len1 cons2 j1 j2 cmds" "-1 \<le> j1" "j1 \<le> i1" "i1 < len1" "len1 \<le> int (length b)"
    and "-1 \<le> j2" "j2 < i2" "i2 < int (length cons2)" "''.'' \<notin> set (segment cons2 (j2 + 1) (i2 + 1))"
    and "act = CHR ''a'' \<and> j1 = i1 \<and> s = i1 + 1 \<or> act = CHR ''c'' \<and> j1 < i1 \<and> s = j1 + 2"
    and "\<And>j. len1 \<le> INT32_MAX \<Longrightarrow> i1 + 1 \<le> j \<Longrightarrow> parse_command (int (length b)) j c = Some (s, i1 + 1, act)"
  shows "rebuilds b len1 cons2 i1 i2 (c # segment cons2 (j2 + 1) (i2 + 1) @ ''.'' # cmds)"
  unfolding rebuilds_def
proof (intro allI impI)
  fix j acc
  let ?seg = "segment cons2 (j2 + 1) (i2 + 1)"
  let ?acc = "acc @ rev (segment b (i1 + 1) j) @ rev ?seg"
  assume h: "len1 \<le> INT32_MAX \<and> i1 + 1 \<le> j \<and> j \<le> len1
    \<and> acc @ rev (segment b (i1 + 1) j) = rev (segment cons2 (i2 + 1) (int (length cons2)))"
  have "apply_commands b (c # ?seg @ ''.'' # cmds) j acc = apply_commands b cmds (j1 + 1) ?acc"
    using assms(2-10) h segment_nonempty [of "j2 + 1" "i2 + 1" cons2] by (intro apply_insert [OF assms(11)]) auto
  moreover have "?acc = rev (segment cons2 (j2 + 1) (int (length cons2)))"
    using h assms(6-8) segment_append [of "j2 + 1" "i2 + 1" "int (length cons2)" cons2]
    by (metis add_le_cancel_right append_assoc less_imp_le rev_append zless_imp_add1_zle add.commute add.right_inverse add_mono_thms_linordered_semiring(3))
  ultimately show "\<exists>jf accf. apply_commands b (c # ?seg @ ''.'' # cmds) j acc = Some (jf, accf) \<and> 0 \<le> jf
      \<and> jf \<le> int (length b) \<and> accf @ rev (segment b 0 jf) = rev cons2"
    using assms(1-4) h unfolding rebuilds_def by (auto dest!: spec [of _ "j1 + 1"])
qed

lemma ed_command_rebuilds:
  assumes "ed_command cons2 (j1 + 1) (j2 + 1) i2 (i2 - j2) (i1 - j1) res = Some (Some d)"
    and "-1 \<le> j1" "j1 \<le> i1" "i1 < len1" "len1 \<le> int (length b)"
    and "-1 \<le> j2" "j2 \<le> i2" "i2 < int (length cons2)" "j1 < i1 \<or> j2 < i2"
  shows "\<exists>cmd. d = res @ cmd \<and> (\<forall>cmds. rebuilds b len1 cons2 j1 j2 cmds \<longrightarrow> rebuilds b len1 cons2 i1 i2 (cmd @ cmds))"
proof -
  have n: "j1 + 1 + 1 = j1 + 2" "j1 + 1 + (i1 - j1) = i1 + 1" by simp_all
  show ?thesis
  proof (cases "j2 = i2")
  case True
  then obtain c where c: "d = res @ [c]"
      "c = (if i1 - j1 = 1 then show_int (j1 + 2) @ ''d'' else show_int (j1 + 2) @ '','' @ show_int (i1 + 1) @ ''d'')"
    using assms(1) by (auto simp: ed_command_def n split: if_splits)
  then have "parse_command (int (length b)) j c = Some (j1 + 2, i1 + 1, CHR ''d'')" if "len1 \<le> INT32_MAX" "i1 + 1 \<le> j" for j
    using that True assms(2-) parse_single [of "j1 + 2" j "CHR ''d''"] parse_pair [of "j1 + 2" "i1 + 1" j "CHR ''d''"]
    by (auto simp: algebra_simps)
  then show ?thesis using rebuilds_delete c(1) True assms(2-) by fastforce
next
  case False
  let ?seg = "segment cons2 (j2 + 1) (i2 + 1)"
  define act where "act = (if j1 = i1 then CHR ''a'' else CHR ''c'')"
  define s where "s = (if j1 = i1 then i1 + 1 else j1 + 2)"
  from False obtain c where c: "d = res @ c # ?seg @ [''.'']" "''.'' \<notin> set ?seg"
      "c = (if i1 = j1 then show_int (j1 + 1) @ ''a'' else if i1 - j1 = 1 then show_int (j1 + 2) @ ''c''
            else show_int (j1 + 2) @ '','' @ show_int (i1 + 1) @ ''c'')"
    using assms(1) add_new_lines_spec [of "j2 + 1" i2 cons2] assms(6,8)
    by (auto simp: ed_command_def n Let_def split: if_splits)
  have p: "parse_command (int (length b)) j c = Some (s, i1 + 1, act)" if "len1 \<le> INT32_MAX" "i1 + 1 \<le> j" for j
    using that assms(2-) parse_single [of s j act] parse_pair [of "j1 + 2" "i1 + 1" j "CHR ''c''"] c(3)
    by (auto simp: act_def s_def algebra_simps)
  show ?thesis
  proof (intro exI conjI allI impI)
    show "d = res @ (c # ?seg @ [''.''])" using c(1) by simp
    fix cmds
    assume "rebuilds b len1 cons2 j1 j2 cmds"
    from rebuilds_insert [OF this assms(2-6) _ assms(8) c(2) _ p]
    show "rebuilds b len1 cons2 i1 i2 ((c # ?seg @ [''.'']) @ cmds)"
      using False assms(3,7) by (auto simp: act_def s_def)
  qed
  qed
qed

lemma ed_command_total:
  "-1 \<le> j2 \<Longrightarrow> i2 < int (length cons2) \<Longrightarrow>
     \<exists>r. ed_command cons2 s1 (j2 + 1) i2 added deleted res = Some r"
  using add_new_lines_spec [of "j2 + 1" i2 cons2] by (auto simp: ed_command_def Let_def)

lemma gen_commands_rebuilds:
  assumes "length ch1 = len1" "length ch2 = length cons2" "take len1 b = cons1" "len1 \<le> length b"
    and "-1 \<le> i1" "i1 < int len1" "-1 \<le> i2" "i2 < int (length cons2)" "kept_to cons1 ch1 i1 = kept_to cons2 ch2 i2"
  shows "\<exists>r. gen_commands cons2 ch1 ch2 i1 i2 res = Some r
    \<and> (\<forall>d. r = Some d \<longrightarrow> (\<exists>cmds. d = res @ cmds \<and> rebuilds b (int len1) cons2 i1 i2 cmds))"
  using assms
proof (induction cons2 ch1 ch2 i1 i2 res rule: gen_commands.induct)
  case (1 cons2 ch1 ch2 i1 i2 res)
  note len = 1(3-6) and idx = 1(7-10) and kept = 1(11)
  have l1: "length cons1 = len1" using len by auto
  have nth: "cons1 ! k = b ! k" if "k < len1" for k using len(3) that by auto
  note c1 = is_changed_eq [of i1 ch1] and c2 = is_changed_eq [of i2 ch2]
  show ?case
  proof (cases "\<not> (i1 \<ge> 0 \<or> i2 \<ge> 0)")
    case True
    then have "i1 = -1" "i2 = -1" using idx by auto
    then show ?thesis using rebuilds_nil len(4) by (subst gen_commands.simps) simp
  next
    case more: False
    show ?thesis
    proof (cases "\<not> (0 \<le> i1 \<and> ch1 ! nat i1) \<and> \<not> (0 \<le> i2 \<and> ch2 ! nat i2)")
      case True
      note s1 = kept_to_step [of ch1 cons1 i1] and s2 = kept_to_step [of ch2 cons2 i2]
      have nn: "0 \<le> i1" "0 \<le> i2"
        using more kept s1 s2 True idx len(1,2) l1 by (cases "i1 = -1"; cases "i2 = -1"; simp)+
      have k: "kept_to cons1 ch1 (i1 - 1) = kept_to cons2 ch2 (i2 - 1)" "b ! nat i1 = cons2 ! nat i2"
        using kept True s1 s2 nn idx len(1,2) l1 nth [of "nat i1"] by simp_all
      have c: "is_changed ch1 i1 = Some (0 \<le> i1 \<and> ch1 ! nat i1)" "is_changed ch2 i2 = Some (0 \<le> i2 \<and> ch2 ! nat i2)"
        using c1 c2 idx len by simp_all
      have "gen_commands cons2 ch1 ch2 i1 i2 res = gen_commands cons2 ch1 ch2 (i1 - 1) (i2 - 1) res"
        using more True nn c by (subst gen_commands.simps) simp
      moreover have "\<exists>r. gen_commands cons2 ch1 ch2 (i1 - 1) (i2 - 1) res = Some r
          \<and> (\<forall>d. r = Some d \<longrightarrow> (\<exists>cmds. d = res @ cmds \<and> rebuilds b (int len1) cons2 (i1 - 1) (i2 - 1) cmds))"
        using 1(1)[OF more refl c True len] nn idx k(1) by simp
      ultimately show ?thesis
        using rebuilds_same [OF _ nn idx(4) _ k(2), of "int len1"] len(4) by fastforce
    next
      case False
      from skip_changed_spec [of ch1 cons1 i1] idx len l1 obtain j1 where j1: "skip_changed ch1 i1 = Some j1" "-1 \<le> j1"
        "j1 \<le> i1" "is_changed ch1 i1 = Some True \<longrightarrow> j1 < i1" "kept_to cons1 ch1 j1 = kept_to cons1 ch1 i1" by auto
      from skip_changed_spec [of ch2 cons2 i2] idx len obtain j2 where j2: "skip_changed ch2 i2 = Some j2" "-1 \<le> j2"
        "j2 \<le> i2" "is_changed ch2 i2 = Some True \<longrightarrow> j2 < i2" "kept_to cons2 ch2 j2 = kept_to cons2 ch2 i2" by auto
      have lt: "j1 < i1 \<or> j2 < i2" using False j1(4) j2(4) c1 c2 idx len by auto
      obtain r where r: "ed_command cons2 (j1 + 1) (j2 + 1) i2 (i2 - j2) (i1 - j1) res = Some r"
        using ed_command_total [OF j2(2) idx(4)] by blast
      have step: "gen_commands cons2 ch1 ch2 i1 i2 res = (case r of None \<Rightarrow> Some None
          | Some d \<Rightarrow> gen_commands cons2 ch1 ch2 j1 j2 d)"
        using more False c1 c2 idx len j1(1) j2(1) r by (subst gen_commands.simps) (auto split: option.splits)
      show ?thesis
      proof (cases r)
        case None
        then show ?thesis using step by simp
      next
        case (Some d)
        have "i1 < int len1" "int len1 \<le> int (length b)" using idx len by auto
        from ed_command_rebuilds [OF r [unfolded Some] j1(2,3) this j2(2,3) idx(4) lt]
        obtain cmd where cmd: "d = res @ cmd"
          "\<And>cmds. rebuilds b (int len1) cons2 j1 j2 cmds \<Longrightarrow> rebuilds b (int len1) cons2 i1 i2 (cmd @ cmds)" by blast
        have "is_changed ch1 i1 = Some (0 \<le> i1 \<and> ch1 ! nat i1)" "is_changed ch2 i2 = Some (0 \<le> i2 \<and> ch2 ! nat i2)"
          using c1 c2 idx len by auto
        note IH = 1(2)[OF more refl this False refl j1(1) j2(1) r Some len]
        have "\<exists>r. gen_commands cons2 ch1 ch2 j1 j2 d = Some r
            \<and> (\<forall>d'. r = Some d' \<longrightarrow> (\<exists>cmds. d' = d @ cmds \<and> rebuilds b (int len1) cons2 j1 j2 cmds))"
          using IH j1 j2 idx kept by simp
        then show ?thesis using step Some cmd by (metis append.assoc option.simps(5))
      qed
    qed
  qed
qed

section \<open>Whole scripts\<close>

lemma del_from_take: "del_from cons n = take n cons"
proof (induction cons n rule: del_from.induct)
  case (1 cons n)
  show ?case
  proof (cases "n < length cons")
    case True
    then have "take n (smartlist_del cons n) = take n cons"
      by (simp add: smartlist_del_def take_butlast butlast_conv_take)
    then show ?thesis using 1 True by (subst del_from.simps) simp
  qed (subst del_from.simps, simp)
qed

lemma find_dirsig_range: "find_dirsig k cons = Some n \<Longrightarrow> k \<le> n \<and> n < k + length cons"
  by (induction k cons rule: find_dirsig.induct) (fastforce split: if_splits)+

text \<open>The number of lines before the signatures.\<close>

definition body_len :: "smartlist \<Rightarrow> nat" where
  "body_len cons = (case find_dirsig 0 cons of None \<Rightarrow> length cons | Some n \<Rightarrow> n)"

definition trailer :: "smartlist \<Rightarrow> smartlist" where
  "trailer cons = (case find_dirsig 0 cons of None \<Rightarrow> [] | Some n \<Rightarrow> [show_int (int n + 1) @ '',$d''])"

lemma preprocess_eq:
  "preprocess_consensus cons = (case find_dirsig 0 cons of None \<Rightarrow> None | Some n \<Rightarrow> Some (show_int (int n + 1) @ '',$d''),
     take (body_len cons) cons)"
  by (auto simp: preprocess_consensus_def body_len_def del_from_take split: option.splits)

lemma body_len_le: "body_len cons \<le> length cons"
  using find_dirsig_range [of 0 cons] by (auto simp: body_len_def split: option.splits)

lemma gen_ed_diff_marked:
  "gen_ed_diff c1 c2 = Some None
   \<or> (\<exists>ch1 ch2. marks_upto (take (body_len c1) c1) c2 (int (body_len c1)) (int (length c2)) ch1 ch2
        \<and> gen_ed_diff c1 c2 = gen_commands c2 ch1 ch2 (int (body_len c1) - 1) (int (length c2) - 1) (trailer c1))"
proof -
  let ?c = "take (body_len c1) c1"
  have len: "length ?c = body_len c1" using body_len_le by simp
  have "marks_upto ?c c2 0 0 (bitarray_init_zero (length ?c)) (bitarray_init_zero (length c2))"
    by (simp add: marks_upto_def bitarray_init_zero_def kept_def)
  then obtain r where r: "mark_changes ?c c2 (-1) (-1) 0 0 ROUTER_ID_ITERATOR_INIT ROUTER_ID_ITERATOR_INIT
      (bitarray_init_zero (length ?c)) (bitarray_init_zero (length c2)) = Some r"
      "\<And>ch1 ch2. r = Some (ch1, ch2) \<Longrightarrow> marks_upto ?c c2 (int (length ?c)) (int (length c2)) ch1 ch2"
    using mark_changes_marks [of ?c c2 0 0 "bitarray_init_zero (length ?c)" "bitarray_init_zero (length c2)"
        "-1" ROUTER_ID_ITERATOR_INIT "-1" ROUTER_ID_ITERATOR_INIT]
    by (auto simp: hash_ok_def ROUTER_ID_ITERATOR_INIT_def)
  have t: "(case fst (preprocess_consensus c1) of None \<Rightarrow> [] | Some line \<Rightarrow> [line]) = trailer c1"
    by (auto simp: preprocess_eq trailer_def split: option.splits)
  show ?thesis
  proof (cases r)
    case None
    then show ?thesis using r(1) by (auto simp: gen_ed_diff_def preprocess_eq)
  next
    case (Some p)
    then show ?thesis using r t len by (cases p) (auto simp: gen_ed_diff_def preprocess_eq)
  qed
qed

lemma gen_ed_diff_script:
  shows "\<exists>r. gen_ed_diff c1 c2 = Some r \<and> (\<forall>d. r = Some d \<longrightarrow>
    (\<exists>cmds. d = trailer c1 @ cmds \<and> rebuilds c1 (int (body_len c1)) c2 (int (body_len c1) - 1) (int (length c2) - 1) cmds))"
  using gen_ed_diff_marked [of c1 c2]
proof (elim disjE exE conjE)
  fix ch1 ch2
  assume m: "marks_upto (take (body_len c1) c1) c2 (int (body_len c1)) (int (length c2)) ch1 ch2"
    and g: "gen_ed_diff c1 c2 = gen_commands c2 ch1 ch2 (int (body_len c1) - 1) (int (length c2) - 1) (trailer c1)"
  show ?thesis
    unfolding g
    by (rule gen_commands_rebuilds [where ?cons1.0 = "take (body_len c1) c1"])
      (use m body_len_le [of c1] in \<open>auto simp: marks_upto_def kept_to_def\<close>)
qed simp

lemma rebuilds_result:
  assumes "rebuilds b len1 c2 (len1 - 1) (int (length c2) - 1) cmds" "0 \<le> len1" "len1 \<le> INT32_MAX"
  shows "\<exists>jf accf. apply_commands b cmds len1 [] = Some (jf, accf) \<and> 0 \<le> jf \<and> jf \<le> int (length b)
    \<and> accf @ rev (segment b 0 jf) = rev c2"
  using assms unfolding rebuilds_def by (auto dest!: spec [of _ len1])

lemma apply_ed_diff_finish:
  assumes "apply_commands b (drop n d) (int (length b)) [] = Some (jf, accf)" "0 \<le> jf" "jf \<le> int (length b)"
    "accf @ rev (segment b 0 jf) = rev c2"
  shows "apply_ed_diff b d n = Some c2"
  using assms copy_unchanged_spec [of 0 jf b accf] by (simp add: apply_ed_diff_def)

lemma trailer_step:
  assumes "find_dirsig 0 b = Some n" "int (length b) \<le> INT32_MAX"
  shows "apply_commands b (trailer b @ cmds) (int (length b)) acc =
    (if Suc n < length b then apply_commands b cmds (int n) acc else None)"
proof -
  have n: "n < length b" using find_dirsig_range [OF assms(1)] by simp
  then have p: "parse_command (int (length b)) (int (length b)) (show_int (int n + 1) @ '',$d'') =
      (if Suc n < length b then Some (int n + 1, int (length b), CHR ''d'') else None)"
    using parse_trailer [of "int n + 1" "int (length b)" "int (length b)"] assms(2) by auto
  show ?thesis
  proof (cases "Suc n < length b")
    case True
    have "apply_commands b ((show_int (int n + 1) @ '',$d'') # cmds) (int (length b)) acc
        = apply_commands b cmds (int n) (acc @ rev (segment b (int (length b)) (int (length b))))"
      by (rule apply_delete) (use p True in auto)
    then show ?thesis using True assms(1) by (simp add: trailer_def)
  next
    case False
    then show ?thesis using p assms(1) by (simp add: trailer_def apply_commands.simps)
  qed
qed

section \<open>Properties\<close>

lemma ed_script_rebuilds:
  assumes "gen_ed_diff c1 c2 = Some (Some d)" "int (length c1) \<le> INT32_MAX" "find_dirsig 0 c1 \<noteq> Some (length c1 - 1)"
  shows "apply_ed_diff c1 d 0 = Some c2"
proof -
  from gen_ed_diff_script [of c1 c2] assms(1) obtain cmds where d: "d = trailer c1 @ cmds"
    "rebuilds c1 (int (body_len c1)) c2 (int (body_len c1) - 1) (int (length c2) - 1) cmds" by auto
  have "int (body_len c1) \<le> INT32_MAX" using assms(2) body_len_le [of c1] by linarith
  with rebuilds_result [OF d(2)] obtain jf accf where fin: "apply_commands c1 cmds (int (body_len c1)) [] = Some (jf, accf)"
    "0 \<le> jf" "jf \<le> int (length c1)" "accf @ rev (segment c1 0 jf) = rev c2" by auto
  have "apply_commands c1 d (int (length c1)) [] = apply_commands c1 cmds (int (body_len c1)) []"
  proof (cases "find_dirsig 0 c1")
    case None
    then show ?thesis using d by (simp add: trailer_def body_len_def)
  next
    case (Some n)
    then have "Suc n < length c1" using assms(3) find_dirsig_range [OF Some] by auto
    then show ?thesis using trailer_step [OF Some assms(2)] d Some by (simp add: body_len_def)
  qed
  then show ?thesis using fin by (intro apply_ed_diff_finish) auto
qed

text \<open>C4. Round trip of the ed scripts: whenever \<open>gen_ed_diff\<close> produces a script for two
  documents, applying it to the first gives back the second, line for line, provided the first
  fits in an \<open>int\<close> and its signature part is not exactly one line long.\<close>

theorem ed_diff_roundtrip:
  assumes "gen_ed_diff cons1 cons2 = Some (Some diff)" "int (length cons1) \<le> INT32_MAX"
    and "find_dirsig 0 cons1 \<noteq> Some (length cons1 - 1)"
  shows "apply_ed_diff cons1 diff 0 = Some cons2"
  using assms by (rule ed_script_rebuilds)

theorem ed_diff_roundtrip_witness:
  "apply_ed_diff [''a'', ''b'', ''directory-signature x'', ''y'']
     [''3,$d'', ''2c'', ''c'', ''.''] 0 = Some [''a'', ''c'']"
  by (rule ed_diff_roundtrip [where ?cons2.0 = "[''a'', ''c'']"]) code_simp+

text \<open>C17. The generator never aborts.\<close>

theorem gen_ed_diff_total:
  "gen_ed_diff cons1 cons2 \<noteq> None"
  using gen_ed_diff_script [of cons1 cons2] by auto

text \<open>C22. finding.\<close>

theorem one_line_trailer_rejected:
  assumes "gen_ed_diff cons1 cons2 = Some (Some diff)" "int (length cons1) \<le> INT32_MAX"
    and "find_dirsig 0 cons1 = Some (length cons1 - 1)"
  shows "apply_ed_diff cons1 diff 0 = None"
proof -
  from gen_ed_diff_script [of cons1 cons2] assms(1) obtain cmds where d: "diff = trailer cons1 @ cmds" by auto
  have "cons1 \<noteq> []" using assms(3) by auto
  then show ?thesis using trailer_step [OF assms(3,2), of cmds "[]"] d by (simp add: apply_ed_diff_def)
qed

theorem one_line_trailer_rejected_witness:
  "apply_ed_diff [''a'', ''b'', ''directory-signature x''] [''3,$d'', ''2c'', ''c'', ''.''] 0 = None"
  by (rule one_line_trailer_rejected [where ?cons2.0 = "[''a'', ''c'']"]) code_simp+

end
