(* ===== verification/Binascii.thy ===== *)
theory Binascii
  imports Tor_Strings
begin

text \<open>
  \<open>lib/encoding/binascii.c\<close>: base 16, 32 and 64 encoding and decoding.  Bytes are 8-bit words,
  encoded text is a string, a destination buffer is the list of its \<open>destlen\<close> characters.
  \<open>None\<close> is an aborting assertion; where a function can also return \<open>-1\<close> the result is a
  nested option.  The locale \<open>codec\<close> is the contract the users of an encoding rely on.
\<close>

unbundle bit_operations_syntax

type_synonym bytes = "u8 list"

definition INT_MAX :: int where "INT_MAX = 2147483647"
definition SIZE_T_CEILING :: int where "SIZE_T_CEILING = 9223372036854775791"

definition CEIL_DIV :: "nat \<Rightarrow> nat \<Rightarrow> nat" where
  "CEIL_DIV a b = (a + (b - 1)) div b"

text \<open>A destination buffer of \<open>destlen\<close> bytes that was cleared and then written from its start.\<close>

definition fill :: "nat \<Rightarrow> string \<Rightarrow> string" where
  "fill destlen s = s @ replicate (destlen - length s) NUL"

section \<open>Base 16\<close>

definition HEX_CHARS :: string where
  "HEX_CHARS = ''0123456789ABCDEF''"

definition hex_decode_digit :: "char \<Rightarrow> int" where
  "hex_decode_digit c =
     (let n = int (ord c) in
      if 48 \<le> n \<and> n \<le> 57 then n - 48
      else if 65 \<le> n \<and> n \<le> 70 then n - 55
      else if 97 \<le> n \<and> n \<le> 102 then n - 87
      else -1)"

fun base16_encode_loop :: "bytes \<Rightarrow> string" where
  "base16_encode_loop [] = []"
| "base16_encode_loop (b # src) =
     HEX_CHARS ! unat (drop_bit 4 b) # HEX_CHARS ! unat (b AND 0xf) # base16_encode_loop src"

definition base16_encode :: "nat \<Rightarrow> bytes \<Rightarrow> string option" where
  "base16_encode destlen src = do {
     tor_assert (int (length src) < SIZE_T_CEILING div 2 - 1);
     tor_assert (destlen \<ge> length src * 2 + 1);
     tor_assert (int destlen < SIZE_T_CEILING);
     Some (fill destlen (base16_encode_loop src))
   }"

fun base16_decode_loop :: "string \<Rightarrow> bytes option" where
  "base16_decode_loop (c1 # c2 # src) =
     (let v1 = hex_decode_digit c1; v2 = hex_decode_digit c2 in
      if v1 < 0 \<or> v2 < 0 then None
      else map_option (\<lambda>d. (push_bit 4 (word_of_int v1) OR word_of_int v2) # d) (base16_decode_loop src))"
| "base16_decode_loop _ = Some []"

text \<open>The result is \<open>None\<close> for a return value of \<open>-1\<close>, else the bytes written.\<close>

definition base16_decode :: "nat \<Rightarrow> string \<Rightarrow> bytes option" where
  "base16_decode destlen src =
     (if length src mod 2 \<noteq> 0 then None
      else if destlen < length src div 2 \<or> int destlen > INT_MAX then None
      else base16_decode_loop src)"

definition hex_str :: "bytes \<Rightarrow> string option" where
  "hex_str from = base16_encode 65 (take 32 from)"

section \<open>Base 32\<close>

definition BASE32_CHARS :: string where
  "BASE32_CHARS = ''abcdefghijklmnopqrstuvwxyz234567''"

definition base32_encoded_size :: "nat \<Rightarrow> nat option" where
  "base32_encoded_size srclen = do {
     tor_assert (int srclen < SIZE_T_CEILING div 8);
     let enclen = CEIL_DIV (srclen * 8) 5 + 1;
     tor_assert (int enclen < INT_MAX \<and> enclen > srclen);
     Some enclen
   }"

definition base32_group :: "bytes \<Rightarrow> nat \<Rightarrow> nat" where
  "base32_group src bit0 =
     (let idx = bit0 div 8;
          v = unat (src ! idx) * 256 + (if idx + 1 < length src then unat (src ! (idx + 1)) else 0)
      in v div 2 ^ (11 - bit0 mod 8) mod 32)"

function base32_encode_loop :: "bytes \<Rightarrow> nat \<Rightarrow> string" where
  "base32_encode_loop src bit0 =
     (if bit0 < length src * 8
      then BASE32_CHARS ! base32_group src bit0 # base32_encode_loop src (bit0 + 5)
      else [])"
  by pat_completeness auto
termination
  by (relation "measure (\<lambda>(src, b). length src * 8 - b)") auto

declare base32_encode_loop.simps [simp del]

definition base32_encode :: "nat \<Rightarrow> bytes \<Rightarrow> string option" where
  "base32_encode destlen src = do {
     size \<leftarrow> base32_encoded_size (length src);
     tor_assert (size \<le> destlen);
     tor_assert (int destlen < SIZE_T_CEILING);
     Some (fill destlen (base32_encode_loop src 0))
   }"

definition base32_digit :: "char \<Rightarrow> u8 option" where
  "base32_digit c =
     (let n = ord c in
      if n > 0x60 \<and> n < 0x7B then Some (of_nat (n - 0x61))
      else if n > 0x31 \<and> n < 0x38 then Some (of_nat (n - 0x18))
      else if n > 0x40 \<and> n < 0x5B then Some (of_nat (n - 0x41))
      else None)"

fun base32_digits :: "string \<Rightarrow> bytes option" where
  "base32_digits [] = Some []"
| "base32_digits (c # src) =
     (case base32_digit c of
        None \<Rightarrow> None
      | Some d \<Rightarrow> map_option (\<lambda>ds. d # ds) (base32_digits src))"

definition base32_byte :: "bytes \<Rightarrow> nat \<Rightarrow> u8" where
  "base32_byte tmp bit0 =
     (let k = bit0 div 5; a = tmp ! k; b = tmp ! (k + 1); c = tmp ! (k + 2); r = bit0 mod 40 in
      if r = 0 then push_bit 3 a + drop_bit 2 b
      else if r = 8 then push_bit 6 a + push_bit 1 b + drop_bit 4 c
      else if r = 16 then push_bit 4 a + drop_bit 1 b
      else if r = 24 then push_bit 7 a + push_bit 2 b + drop_bit 3 c
      else push_bit 5 a + b)"

function base32_decode_loop :: "bytes \<Rightarrow> nat \<Rightarrow> nat \<Rightarrow> bytes" where
  "base32_decode_loop tmp nbits bit0 =
     (if bit0 < nbits then base32_byte tmp bit0 # base32_decode_loop tmp nbits (bit0 + 8) else [])"
  by pat_completeness auto
termination
  by (relation "measure (\<lambda>(tmp, n, b). n - b)") auto

declare base32_decode_loop.simps [simp del]

text \<open>Outer \<open>None\<close>: failed assertion; inner \<open>None\<close>: return value \<open>-1\<close>.\<close>

definition base32_decode :: "nat \<Rightarrow> string \<Rightarrow> bytes option option" where
  "base32_decode destlen src = do {
     let nbits = length src * 5 div 8 * 8;
     tor_assert (int (length src) < SIZE_T_CEILING div 5);
     tor_assert (nbits div 8 \<le> destlen);
     tor_assert (int destlen < SIZE_T_CEILING);
     Some (case base32_digits src of
       None \<Rightarrow> None
     | Some tmp \<Rightarrow> Some (base32_decode_loop tmp nbits 0))
   }"


section \<open>Base 16 round trip\<close>

lemma all_below: "list_all P [0..<k] \<Longrightarrow> n < k \<Longrightarrow> P n"
  by (simp add: list_all_iff)

lemma hex_digit_roundtrip: "n < 16 \<Longrightarrow> hex_decode_digit (HEX_CHARS ! n) = int n"
  by (rule all_below [of "\<lambda>n. hex_decode_digit (HEX_CHARS ! n) = int n" 16]) (code_simp, assumption)

lemma base32_digit_roundtrip: "n < 32 \<Longrightarrow> base32_digit (BASE32_CHARS ! n) = Some (of_nat n)"
  by (rule all_below [of "\<lambda>n. base32_digit (BASE32_CHARS ! n) = Some (of_nat n)" 32]) (code_simp, assumption)


lemma byte_all: "list_all (\<lambda>n. P (of_nat n)) [0..<256] \<Longrightarrow> P (b :: 8 word)"
  using all_below [of "\<lambda>n. P (of_nat n)" 256 "unat b"] unsigned_less [of b] by simp

lemma nibbles: "push_bit 4 (drop_bit 4 b) OR b AND 0xf = (b :: 8 word)"
  by (rule byte_all) code_simp

lemma nibble_bounds: "unat (drop_bit 4 (b :: 8 word)) < 16" "unat ((b :: 8 word) AND 0xf) < 16"
proof -
  have "unat (drop_bit 4 b) = unat b div 16" by (simp add: drop_bit_eq_div unat_div)
  moreover have "unat b < 256" using unsigned_less [of b, where ?'a = nat] by simp
  ultimately show "unat (drop_bit 4 b) < 16" by (simp add: less_mult_imp_div_less)
  have "b AND 0xf \<le> 0xf" by (rule word_and_le1)
  then show "unat (b AND 0xf) < 16" by (simp add: word_le_nat_alt)
qed

lemma base16_loop_roundtrip: "base16_decode_loop (base16_encode_loop src) = Some src"
  by (induction src) (simp_all add: hex_digit_roundtrip nibble_bounds nibbles Let_def)

lemma hex_char_not_NUL: "n < 16 \<Longrightarrow> HEX_CHARS ! n \<noteq> NUL"
  by (rule all_below [of "\<lambda>n. HEX_CHARS ! n \<noteq> NUL" 16]) (code_simp, assumption)

lemma base16_encode_loop_set: "NUL \<notin> set (base16_encode_loop src)"
  by (induction src) (auto simp: hex_char_not_NUL [OF nibble_bounds(1), symmetric] hex_char_not_NUL [OF nibble_bounds(2), symmetric])

lemma base16_encode_loop_length [simp]: "length (base16_encode_loop src) = 2 * length src"
  by (induction src) auto

lemma c_str_fill: "NUL \<notin> set s \<Longrightarrow> c_str (fill n s) = s"
  by (auto simp: c_str_def fill_def takeWhile_append takeWhile_eq_all_conv)

section \<open>Base 32 round trip\<close>

lemma div_split: "(a * (k * c) + b) div c = a * k + b div (c::nat)" if "0 < c"
  using that by (simp flip: mult.assoc)

lemma mod_split: "u < k \<Longrightarrow> (a * k + u) mod (m * k) = a mod m * k + (u::nat)"
  by (simp add: mod_mult2_eq [of _ k m, simplified mult.commute [of k m]] div_add1_eq)

lemma group_low:
  assumes "b < (256::nat)" "256 = k * c" "32 = m * k" "0 < c"
  shows "(a * 256 + b) div c mod 32 = a mod m * k + b div c"
proof -
  have u: "b div c < k" using assms by (simp add: less_mult_imp_div_less)
  have "(a * 256 + b) div c = a * k + b div c" unfolding assms(2) using div_split [OF assms(4)] .
  then show ?thesis unfolding assms(3) using mod_split [OF u, of a m] by simp
qed

lemma group_high: "b < (256::nat) \<Longrightarrow> (a * 256 + b) div (256 * c) = a div c"
  by (simp add: div_mult2_eq)

text \<open>The eight positions of a group of five bits, by the bytes it straddles.\<close>

lemma groups:
  assumes "b < (256::nat)"
  shows "(a * 256 + b) div 2048 = a div 8" "(a * 256 + b) div 1024 = a div 4" "(a * 256 + b) div 512 = a div 2"
    "(a * 256 + b) div 256 = a"
    "(a * 256 + b) div 64 mod 32 = a mod 8 * 4 + b div 64" "(a * 256 + b) div 16 mod 32 = a mod 2 * 16 + b div 16"
    "(a * 256 + b) div 128 mod 32 = a mod 16 * 2 + b div 128" "(a * 256 + b) div 32 mod 32 = a mod 4 * 8 + b div 32"
  subgoal using group_high [OF assms, of a 8] by simp
  subgoal using group_high [OF assms, of a 4] by simp
  subgoal using group_high [OF assms, of a 2] by simp
  subgoal using group_high [OF assms, of a 1] by simp
  subgoal by (rule group_low [OF assms]) simp_all
  subgoal by (rule group_low [OF assms]) simp_all
  subgoal by (rule group_low [OF assms]) simp_all
  subgoal by (rule group_low [OF assms]) simp_all
  done

lemma base32_char_not_NUL: "n < 32 \<Longrightarrow> BASE32_CHARS ! n \<noteq> NUL"
  by (rule all_below [of "\<lambda>n. BASE32_CHARS ! n \<noteq> NUL" 32]) (code_simp, assumption)

definition base32_nchars :: "nat \<Rightarrow> nat" where
  "base32_nchars n = CEIL_DIV (n * 8) 5"

lemma base32_nchars_bounds: "5 * base32_nchars n < 8 * n + 5" "8 * n \<le> 5 * base32_nchars n"
  using div_mult_mod_eq [of "n * 8 + 4" 5] mod_less_divisor [of 5 "n * 8 + 4"]
  unfolding base32_nchars_def CEIL_DIV_def by auto

lemma base32_group_less: "base32_group src b < 32"
  by (simp add: base32_group_def Let_def)

lemma base32_encode_loop_eq:
  "base32_encode_loop src (5 * j) = map (\<lambda>i. BASE32_CHARS ! base32_group src (5 * i)) [j..<base32_nchars (length src)]"
proof (induction "base32_nchars (length src) - j" arbitrary: j)
  case 0
  then have "\<not> 5 * j < length src * 8" using base32_nchars_bounds [of "length src"] by linarith
  then show ?case using 0 by (subst base32_encode_loop.simps) simp
next
  case (Suc m)
  then have j: "j < base32_nchars (length src)" by simp
  then have lt: "5 * j < length src * 8" using base32_nchars_bounds [of "length src"] by linarith
  have "base32_encode_loop src (5 * j) = BASE32_CHARS ! base32_group src (5 * j) # base32_encode_loop src (5 * Suc j)"
    using lt by (subst base32_encode_loop.simps) (simp add: add.commute)
  also have "base32_encode_loop src (5 * Suc j) = map (\<lambda>i. BASE32_CHARS ! base32_group src (5 * i)) [Suc j..<base32_nchars (length src)]"
    using Suc by (intro Suc(1)) simp
  finally show ?case using j by (simp add: upt_conv_Cons)
qed

lemma base32_digits_map:
  "(\<And>x. x \<in> set xs \<Longrightarrow> f x < 32) \<Longrightarrow> base32_digits (map (\<lambda>x. BASE32_CHARS ! f x) xs) = Some (map (\<lambda>x. of_nat (f x)) xs)"
  by (induction xs) (auto simp: base32_digit_roundtrip)

lemma base32_decode_loop_eq:
  "base32_decode_loop tmp (8 * m) (8 * i) = map (\<lambda>k. base32_byte tmp (8 * k)) [i..<m]"
proof (induction "m - i" arbitrary: i)
  case 0
  then show ?case by (subst base32_decode_loop.simps) simp
next
  case (Suc d)
  then have "base32_decode_loop tmp (8 * m) (8 * i) = base32_byte tmp (8 * i) # base32_decode_loop tmp (8 * m) (8 * Suc i)"
    by (subst base32_decode_loop.simps) (simp add: add.commute)
  also have "base32_decode_loop tmp (8 * m) (8 * Suc i) = map (\<lambda>k. base32_byte tmp (8 * k)) [Suc i..<m]"
    using Suc by (intro Suc(1)) simp
  finally show ?case using Suc(2) by (simp add: upt_conv_Cons)
qed

lemma unat_byte [simp]: "unat (b :: 8 word) < 256"
  using unsigned_less [of b, where ?'a = nat] by simp

lemma unat_push8: "unat (push_bit n (b :: 8 word)) = unat b * 2 ^ n mod 256"
  by (simp only: unsigned_push_bit_eq) (simp add: push_bit_eq_mult take_bit_eq_mod)

lemma unat_drop8: "unat (drop_bit n (b :: 8 word)) = unat b div 2 ^ n"
  by (simp only: unsigned_drop_bit_eq) (simp add: drop_bit_eq_div take_bit_eq_mod)

lemma unat_plus8: "unat ((a :: 8 word) + b) = (unat a + unat b) mod 256"
  by (simp add: unat_word_ariths)

lemma unat_of_nat8: "n < 256 \<Longrightarrow> unat (of_nat n :: 8 word) = n"
  by (simp add: unat_of_nat)

text \<open>Putting the groups of a byte together again.\<close>

lemma carry_out: "256 = k * (c::nat) \<Longrightarrow> (a * k + x) * c mod 256 = x * c mod 256"
  by (simp add: distrib_right mult.assoc)

lemma top_bits: "(s::nat) < 256 \<Longrightarrow> s div c * c mod 256 = s div c * c"
  by (rule mod_less) (rule le_less_trans [OF div_times_less_eq_dividend])

lemma quot_low: "w < k \<Longrightarrow> (a * k + w) div k = (a::nat)"
  by (simp add: div_add1_eq)

lemma bits0: "(s::nat) < 256 \<Longrightarrow> w < 4 \<Longrightarrow> (s div 8 * 8 mod 256 + (s mod 8 * 4 + w) div 4) mod 256 = s"
  by (simp only: quot_low top_bits div_mult_mod_eq) simp

lemma three_parts: "(s::nat) = s div (m * c) * (m * c) + s div c mod m * c + s mod c"
  by (metis div_mult2_eq div_mult_mod_eq mult.commute mult.assoc add_mult_distrib)

lemma bits1:
  assumes "(s::nat) < 256" "u < 16"
  shows "((((a mod 8 * 4 + s div 64) * 64 mod 256) + (s div 2 mod 32) * 2 mod 256) mod 256 + (s mod 2 * 16 + u) div 16) mod 256 = s"
  using three_parts [of s 32 2] assms by (simp add: quot_low carry_out)

lemma bits2:
  assumes "(s::nat) < 256" "w < 2"
  shows "((a mod 2 * 16 + s div 16) * 16 mod 256 + (s mod 16 * 2 + w) div 2) mod 256 = s"
  using assms by (simp add: quot_low carry_out)

lemma bits3:
  assumes "(s::nat) < 256" "w < 8"
  shows "(((a mod 16 * 2 + s div 128) * 128 mod 256 + (s div 4 mod 32) * 4 mod 256) mod 256 + (s mod 4 * 8 + w) div 8) mod 256 = s"
  using three_parts [of s 32 4] assms by (simp add: quot_low carry_out)

lemma bits4:
  assumes "(s::nat) < 256"
  shows "((a mod 4 * 8 + s div 32) * 32 mod 256 + s mod 32) mod 256 = s"
  using assms by (simp add: carry_out)

definition byte_at :: "bytes \<Rightarrow> nat \<Rightarrow> nat" where
  "byte_at src i = (if i < length src then unat (src ! i) else 0)"

lemma byte_at_less [simp]: "byte_at src i < 256"
  by (simp add: byte_at_def)

lemma byte_at_div:
  "byte_at src i div 64 < 4" "byte_at src i div 16 < 16" "byte_at src i div 128 < 2" "byte_at src i div 32 < 8"
  by (rule less_mult_imp_div_less, simp)+

lemma base32_group_eq:
  "bit0 div 8 < length src \<Longrightarrow> base32_group src bit0 =
     (byte_at src (bit0 div 8) * 256 + byte_at src (bit0 div 8 + 1)) div 2 ^ (11 - bit0 mod 8) mod 32"
  by (simp add: base32_group_def byte_at_def Let_def)

text \<open>The five-bit groups of the bytes \<open>5 * q\<close> to \<open>5 * q + 4\<close>, when the last one needed exists.\<close>

lemma base32_tmp:
  fixes tmp :: bytes
  assumes "\<forall>i < base32_nchars (length src). tmp ! i = of_nat (base32_group src (5 * i))"
    and "5 * q + r < length src" "5 * i < 8 * r + 8"
  shows "unat (tmp ! (8 * q + i)) =
    (byte_at src (5 * q + 5 * i div 8) * 256 + byte_at src (5 * q + (5 * i div 8 + 1))) div 2 ^ (11 - 5 * i mod 8) mod 32"
proof -
  have n: "8 * q + i < base32_nchars (length src)"
    using base32_nchars_bounds(2)[of "length src"] assms(2,3) by linarith
  have "unat (tmp ! (8 * q + i)) = base32_group src (40 * q + 5 * i)"
    using assms(1)[rule_format, OF n] less_trans [OF base32_group_less [of src "5 * (8 * q + i)"], of 256]
    by (simp add: unat_of_nat8 algebra_simps)
  moreover have "40 * q + 5 * i = 8 * (5 * q) + 5 * i" by simp
  then have "(40 * q + 5 * i) div 8 = 5 * q + 5 * i div 8" "(40 * q + 5 * i) mod 8 = 5 * i mod 8"
    by (simp_all only: div_mult_self4 mod_mult_self4)
  moreover have "5 * i div 8 \<le> r" using assms(3) by (simp add: less_mult_imp_div_less less_Suc_eq_le [symmetric])
  ultimately show ?thesis using assms(2) by (simp add: base32_group_eq)
qed

lemma base32_tmp_groups:
  fixes tmp :: bytes
  assumes "\<forall>i < base32_nchars (length src). tmp ! i = of_nat (base32_group src (5 * i))"
    and "5 * q + r < length src"
  defines "B \<equiv> \<lambda>i. byte_at src (5 * q + i)"
  shows
    "0 \<le> r \<Longrightarrow> unat (tmp ! (8 * q + 0)) = B 0 div 8"
    "0 \<le> r \<Longrightarrow> unat (tmp ! (8 * q + 1)) = B 0 mod 8 * 4 + B 1 div 64"
    "1 \<le> r \<Longrightarrow> unat (tmp ! (8 * q + 2)) = B 1 div 2 mod 32"
    "1 \<le> r \<Longrightarrow> unat (tmp ! (8 * q + 3)) = B 1 mod 2 * 16 + B 2 div 16"
    "2 \<le> r \<Longrightarrow> unat (tmp ! (8 * q + 4)) = B 2 mod 16 * 2 + B 3 div 128"
    "3 \<le> r \<Longrightarrow> unat (tmp ! (8 * q + 5)) = B 3 div 4 mod 32"
    "3 \<le> r \<Longrightarrow> unat (tmp ! (8 * q + 6)) = B 3 mod 4 * 8 + B 4 div 32"
    "4 \<le> r \<Longrightarrow> unat (tmp ! (8 * q + 7)) = B 4 mod 32"
  subgoal using base32_tmp [OF assms(1,2), of 0] by (simp add: B_def groups less_mult_imp_div_less)
  subgoal using base32_tmp [OF assms(1,2), of 1] by (simp add: B_def groups less_mult_imp_div_less)
  subgoal using base32_tmp [OF assms(1,2), of 2] by (simp add: B_def groups less_mult_imp_div_less)
  subgoal using base32_tmp [OF assms(1,2), of 3] by (simp add: B_def groups less_mult_imp_div_less)
  subgoal using base32_tmp [OF assms(1,2), of 4] by (simp add: B_def groups less_mult_imp_div_less)
  subgoal using base32_tmp [OF assms(1,2), of 5] by (simp add: B_def groups less_mult_imp_div_less)
  subgoal using base32_tmp [OF assms(1,2), of 6] by (simp add: B_def groups less_mult_imp_div_less)
  subgoal using base32_tmp [OF assms(1,2), of 7] by (simp add: B_def groups less_mult_imp_div_less)
  done

lemma base32_byte_case:
  assumes "r < 5"
  shows "base32_byte tmp (8 * (5 * q + r)) =
     (if r = 0 then push_bit 3 (tmp ! (8 * q + 0)) + drop_bit 2 (tmp ! (8 * q + 1))
      else if r = 1 then push_bit 6 (tmp ! (8 * q + 1)) + push_bit 1 (tmp ! (8 * q + 2)) + drop_bit 4 (tmp ! (8 * q + 3))
      else if r = 2 then push_bit 4 (tmp ! (8 * q + 3)) + drop_bit 1 (tmp ! (8 * q + 4))
      else if r = 3 then push_bit 7 (tmp ! (8 * q + 4)) + push_bit 2 (tmp ! (8 * q + 5)) + drop_bit 3 (tmp ! (8 * q + 6))
      else push_bit 5 (tmp ! (8 * q + 6)) + tmp ! (8 * q + 7))"
proof -
  let ?p = "8 * (5 * q + r)"
  have "?p = 5 * (8 * q) + 8 * r" "?p = 40 * q + 8 * r" by simp_all
  then have "?p div 5 = 8 * q + 8 * r div 5" "?p mod 40 = 8 * r mod 40"
    by (simp_all only: div_mult_self4 mod_mult_self4) simp
  then have "base32_byte tmp ?p = (let a = tmp ! (8 * q + 8 * r div 5); b = tmp ! (8 * q + 8 * r div 5 + 1); c = tmp ! (8 * q + 8 * r div 5 + 2)
    in if r = 0 then push_bit 3 a + drop_bit 2 b
      else if r = 1 then push_bit 6 a + push_bit 1 b + drop_bit 4 c
      else if r = 2 then push_bit 4 a + drop_bit 1 b
      else if r = 3 then push_bit 7 a + push_bit 2 b + drop_bit 3 c
      else push_bit 5 a + b)"
    using assms by (simp add: base32_byte_def Let_def)
  moreover have "r = 0 \<or> r = 1 \<or> r = 2 \<or> r = 3 \<or> r = 4" using assms by linarith
  ultimately show ?thesis
    by (cases "r = 1") (simp add: Let_def numeral_3_eq_3, auto simp: Let_def add.commute simp del: One_nat_def)
qed

lemma base32_byte_roundtrip:
  assumes k: "k < length src"
    and tmp: "\<forall>i < base32_nchars (length src). tmp ! i = of_nat (base32_group src (5 * i))"
  shows "base32_byte tmp (8 * k) = src ! k"
proof -
  define q r where "q = k div 5" and "r = k mod 5"
  have kq: "k = 5 * q + r" "r < 5" by (simp_all add: q_def r_def)
  have pw: "2 ^ 1 = (2::nat)" "2 ^ 2 = (4::nat)" "2 ^ 3 = (8::nat)" "2 ^ 4 = (16::nat)" "2 ^ 5 = (32::nat)"
    "2 ^ 6 = (64::nat)" "2 ^ 7 = (128::nat)" by simp_all
  have le: "1 \<le> (2::nat)" "2 \<le> (3::nat)" "3 \<le> (4::nat)" "0 \<noteq> (1::nat)" "1 \<noteq> (0::nat)" "2 \<noteq> (0::nat)"
    "2 \<noteq> (1::nat)" "3 \<noteq> (0::nat)" "3 \<noteq> (1::nat)" "3 \<noteq> (2::nat)" "4 \<noteq> (0::nat)" "4 \<noteq> (1::nat)" "4 \<noteq> (2::nat)" "4 \<noteq> (3::nat)" by simp_all
  note T = base32_tmp_groups [OF tmp k [unfolded kq(1)]]
  note ev = unat_plus8 unat_push8 unat_drop8 pw le order_refl zero_le if_True if_False simp_thms
  note rebuild = bits0 [OF byte_at_less byte_at_div(1)] bits1 [OF byte_at_less byte_at_div(2)]
    bits2 [OF byte_at_less byte_at_div(3)] bits3 [OF byte_at_less byte_at_div(4)] bits4 [OF byte_at_less]
  have "r = 0 \<or> r = 1 \<or> r = 2 \<or> r = 3 \<or> r = 4" using kq(2) by linarith
  then have "unat (base32_byte tmp (8 * k)) = byte_at src (5 * q + r)"
    unfolding kq(1) base32_byte_case [OF kq(2)]
    by (elim disjE) (simp_all only: ev T rebuild)
  then show ?thesis using k kq(1) by (simp add: byte_at_def unsigned_word_eqI)
qed

lemma base32_loop_roundtrip:
  "base32_digits (base32_encode_loop src 0) = Some tmp \<Longrightarrow>
     base32_decode_loop tmp (length (base32_encode_loop src 0) * 5 div 8 * 8) 0 = src"
proof -
  let ?n = "base32_nchars (length src)"
  assume d: "base32_digits (base32_encode_loop src 0) = Some tmp"
  have e: "base32_encode_loop src 0 = map (\<lambda>i. BASE32_CHARS ! base32_group src (5 * i)) [0..<?n]"
    using base32_encode_loop_eq [of src 0] by simp
  then have tmp: "tmp = map (\<lambda>i. of_nat (base32_group src (5 * i))) [0..<?n]"
    using d base32_digits_map [of "[0..<?n]" "\<lambda>i. base32_group src (5 * i)"] base32_group_less by simp
  have "?n * 5 div 8 = length src" using base32_nchars_bounds [of "length src"] by (intro div_nat_eqI) simp_all
  then have "base32_decode_loop tmp (length (base32_encode_loop src 0) * 5 div 8 * 8) 0
      = map (\<lambda>k. base32_byte tmp (8 * k)) [0..<length src]"
    using base32_decode_loop_eq [of tmp "length src" 0] by (simp add: e mult.commute)
  also have "\<dots> = map (\<lambda>k. src ! k) [0..<length src]"
    using base32_byte_roundtrip [of _ src tmp] by (simp add: tmp)
  finally show ?thesis by (simp add: map_nth)
qed

lemma base32_digits_encode: "\<exists>tmp. base32_digits (base32_encode_loop src 0) = Some tmp"
  using base32_encode_loop_eq [of src 0] base32_group_less
    base32_digits_map [of "[0..<base32_nchars (length src)]" "\<lambda>i. base32_group src (5 * i)"] by simp

lemma base32_encode_loop_set: "NUL \<notin> set (base32_encode_loop src 0)"
  using base32_encode_loop_eq [of src 0] base32_char_not_NUL [OF base32_group_less, of src] by (auto dest: sym)

section \<open>Base 64\<close>

definition BASE64_OPENSSL_LINELEN :: nat where "BASE64_OPENSSL_LINELEN = 64"

definition base64_encode_size :: "nat \<Rightarrow> bool \<Rightarrow> nat option" where
  "base64_encode_size srclen multiline = do {
     tor_assert (int srclen < INT_MAX);
     tor_assert (int (CEIL_DIV srclen 3) < INT_MAX div 4);
     let enclen = CEIL_DIV srclen 3 * 4;
     let enclen = (if multiline then enclen + CEIL_DIV enclen BASE64_OPENSSL_LINELEN else enclen);
     tor_assert (int enclen < INT_MAX \<and> (enclen = 0 \<or> enclen > srclen));
     Some enclen
   }"

definition base64_decode_maxsize :: "nat \<Rightarrow> nat option" where
  "base64_decode_maxsize srclen = do {
     tor_assert (int srclen < INT_MAX div 3);
     Some (CEIL_DIV (srclen * 3) 4)
   }"

definition base64_encode_table :: string where
  "base64_encode_table = ''ABCDEFGHIJKLMNOPQRSTUVWXYZabcdefghijklmnopqrstuvwxyz0123456789+/''"

text \<open>The output so far and the length of the current output line, as \<open>ENCODE_CHAR\<close> changes them.\<close>

definition ENCODE_CHAR :: "bool \<Rightarrow> char \<Rightarrow> string \<times> nat \<Rightarrow> string \<times> nat" where
  "ENCODE_CHAR multiline ch st =
     (let (d, linelen) = st; d = d @ [ch] in
      if multiline then
        let linelen = linelen + 1 in
        if linelen mod BASE64_OPENSSL_LINELEN = 0 then (d @ [CHR 0x0A], 0) else (d, linelen)
      else (d, linelen))"

definition ENCODE_N :: "bool \<Rightarrow> u32 \<Rightarrow> nat \<Rightarrow> string \<times> nat \<Rightarrow> string \<times> nat" where
  "ENCODE_N multiline n idx st =
     ENCODE_CHAR multiline (base64_encode_table ! unat (drop_bit ((3 - idx) * 6) n AND 0x3f)) st"

fun base64_encode_loop :: "bool \<Rightarrow> bytes \<Rightarrow> u32 \<Rightarrow> nat \<Rightarrow> string \<times> nat \<Rightarrow> u32 \<times> nat \<times> string \<times> nat" where
  "base64_encode_loop ml [] n n_idx st = (n, n_idx, st)"
| "base64_encode_loop ml (b # src) n n_idx st =
     (let n = push_bit 8 n OR ucast b; n_idx = n_idx + 1 in
      if n_idx = 3 then
        base64_encode_loop ml src 0 0
          (ENCODE_N ml n 3 (ENCODE_N ml n 2 (ENCODE_N ml n 1 (ENCODE_N ml n 0 st))))
      else base64_encode_loop ml src n n_idx st)"

definition base64_encode_tail :: "bool \<Rightarrow> u32 \<Rightarrow> nat \<Rightarrow> string \<times> nat \<Rightarrow> string \<times> nat" where
  "base64_encode_tail ml n n_idx st =
     (let pad = ENCODE_CHAR ml (CHR ''='') in
      if n_idx = 1 then
        let n = push_bit 4 n in pad (pad (ENCODE_N ml n 3 (ENCODE_N ml n 2 st)))
      else if n_idx = 2 then
        let n = push_bit 2 n in pad (ENCODE_N ml n 3 (ENCODE_N ml n 2 (ENCODE_N ml n 1 st)))
      else st)"

definition base64_encode :: "nat \<Rightarrow> bytes \<Rightarrow> bool \<Rightarrow> string option option" where
  "base64_encode destlen src multiline = do {
     enclen \<leftarrow> base64_encode_size (length src) multiline;
     if destlen < enclen + 1 then Some None
     else if int destlen > SIZE_T_CEILING then Some None
     else if int enclen > INT_MAX then Some None
     else do {
       let (n, n_idx, st) = base64_encode_loop multiline src 0 0 ([], 0);
       let (d, linelen) = base64_encode_tail multiline n n_idx st;
       let d = (if multiline \<and> linelen \<noteq> 0 then d @ [CHR 0x0A] else d);
       tor_assert (length d = enclen);
       Some (Some (fill destlen d))
     }
   }"

text \<open>The copy loop stops at the first NUL; the rest of the buffer keeps its old contents.\<close>

definition base64_encode_nopad :: "nat \<Rightarrow> bytes \<Rightarrow> string option option" where
  "base64_encode_nopad destlen src =
     (case base64_encode destlen src False of
        None \<Rightarrow> None
      | Some None \<Rightarrow> Some None
      | Some (Some dest) \<Rightarrow>
          let n = length (c_str dest) in
          if n \<le> 0 then Some (Some dest)
          else do {
            tor_assert (n < destlen \<and> dest ! n = NUL);
            let out = filter (\<lambda>c. c \<noteq> CHR ''='' \<and> c \<noteq> CHR 0x0A) (c_str dest);
            tor_assert (int (length out) \<le> INT_MAX);
            Some (Some (out @ [NUL] @ drop (length out + 1) dest))
          })"

definition base64_decode_table :: "char \<Rightarrow> int" where
  "base64_decode_table c =
     (let n = of_char c in
      if n = 43 then 62 else if n = 47 then 63
      else if 48 \<le> n \<and> n \<le> 57 then n + 4
      else if 65 \<le> n \<and> n \<le> 90 then n - 65
      else if 97 \<le> n \<and> n \<le> 122 then n - 71
      else if n = 61 then 65
      else if n = 9 \<or> n = 10 \<or> n = 11 \<or> n = 13 \<or> n = 32 then 64
      else 255)"

definition base64_decode_end :: "nat \<Rightarrow> u32 \<Rightarrow> nat \<Rightarrow> bytes \<Rightarrow> bytes option" where
  "base64_decode_end destlen n n_idx dest =
     (if n_idx = 1 then None
      else if n_idx = 2 then
        (if destlen < 1 \<or> length dest > destlen - 1 then None else Some (dest @ [ucast (drop_bit 4 n)]))
      else if n_idx = 3 then
        (if destlen < 2 \<or> length dest > destlen - 2 then None
         else Some (dest @ [ucast (drop_bit 10 n), ucast (drop_bit 2 n)]))
      else Some dest)"

fun base64_decode_loop :: "nat \<Rightarrow> string \<Rightarrow> u32 \<Rightarrow> nat \<Rightarrow> bytes \<Rightarrow> bytes option" where
  "base64_decode_loop destlen [] n n_idx dest = base64_decode_end destlen n n_idx dest"
| "base64_decode_loop destlen (c # src) n n_idx dest =
     (let v = base64_decode_table c in
      if v = 255 then None
      else if v = 64 then base64_decode_loop destlen src n n_idx dest
      else if v = 65 then base64_decode_end destlen n n_idx dest
      else
        let n = push_bit 6 n OR word_of_int v; n_idx = n_idx + 1 in
        if n_idx = 4 then
          (if destlen < 3 \<or> length dest > destlen - 3 then None
           else base64_decode_loop destlen src 0 0
             (dest @ [ucast (drop_bit 16 n), ucast (drop_bit 8 n AND 0xff), ucast (n AND 0xff)]))
        else base64_decode_loop destlen src n n_idx dest)"

definition base64_decode :: "nat \<Rightarrow> string \<Rightarrow> bytes option option" where
  "base64_decode destlen src =
     (if int destlen > INT_MAX then Some None
      else case base64_decode_loop destlen src 0 0 [] of
        None \<Rightarrow> Some None
      | Some dest \<Rightarrow> do { tor_assert (length dest \<le> destlen); Some (Some dest) })"


section \<open>Base 64 round trip\<close>

definition sextet :: "u32 \<Rightarrow> nat \<Rightarrow> u32" where
  "sextet n idx = drop_bit ((3 - idx) * 6) n AND 0x3f"

definition char64 :: "u32 \<Rightarrow> nat \<Rightarrow> char" where
  "char64 n idx = base64_encode_table ! unat (sextet n idx)"

definition join3 :: "u8 \<Rightarrow> u8 \<Rightarrow> u8 \<Rightarrow> u32" where
  "join3 a b c = push_bit 8 (push_bit 8 (ucast a) OR ucast b) OR ucast c"

definition join2 :: "u8 \<Rightarrow> u8 \<Rightarrow> u32" where
  "join2 a b = push_bit 8 (ucast a) OR ucast b"

text \<open>The encoding as one would write it, three bytes at a time and without line breaks.\<close>

fun enc64 :: "bytes \<Rightarrow> string" where
  "enc64 [] = []"
| "enc64 [a] = (let n = push_bit 4 (ucast a) in [char64 n 2, char64 n 3, CHR ''='', CHR ''=''])"
| "enc64 [a, b] = (let n = push_bit 2 (join2 a b) in [char64 n 1, char64 n 2, char64 n 3, CHR ''=''])"
| "enc64 (a # b # c # src) =
     (let n = join3 a b c in [char64 n 0, char64 n 1, char64 n 2, char64 n 3]) @ enc64 src"

definition emit :: "bool \<Rightarrow> string \<Rightarrow> string \<times> nat \<Rightarrow> string \<times> nat" where
  "emit ml cs st = foldl (\<lambda>st c. ENCODE_CHAR ml c st) st cs"

lemma emit_simps [simp]: "emit ml [] st = st" "emit ml (c # cs) st = emit ml cs (ENCODE_CHAR ml c st)"
  "emit ml (cs @ ds) st = emit ml ds (emit ml cs st)"
  by (simp_all add: emit_def)

lemma ENCODE_N_char: "ENCODE_N ml n idx st = ENCODE_CHAR ml (char64 n idx) st"
  by (simp add: ENCODE_N_def char64_def sextet_def)

lemma base64_encode_loop_emit:
  "(case base64_encode_loop ml src 0 0 st of (n, n_idx, st) \<Rightarrow> base64_encode_tail ml n n_idx st) = emit ml (enc64 src) st"
  by (induction src arbitrary: st rule: enc64.induct)
    (simp_all add: Let_def base64_encode_tail_def ENCODE_N_char join3_def join2_def)

lemma sextet_mask: "sextet n idx = take_bit 6 (drop_bit ((3 - idx) * 6) n)"
  by (simp add: sextet_def take_bit_eq_mask mask_eq_exp_minus_1)

lemma sextet_less: "unat (sextet n idx) < 64"
proof -
  have "sextet n idx \<le> 0x3f" unfolding sextet_def by (rule word_and_le1)
  then show ?thesis by (simp add: word_le_nat_alt)
qed

lemma table_roundtrip_all: "map base64_decode_table base64_encode_table = map int [0..<64]"
  by code_simp

lemma table_roundtrip: "k < 64 \<Longrightarrow> base64_decode_table (base64_encode_table ! k) = int k"
  using arg_cong [OF table_roundtrip_all, of "\<lambda>l. l ! k"] arg_cong [OF table_roundtrip_all, of length] by simp

lemma char64_decode: "base64_decode_table (char64 n idx) = uint (sextet n idx)"
  by (simp add: char64_def table_roundtrip sextet_less)

lemma char64_value [simp]: "(word_of_int (base64_decode_table (char64 n idx)) :: u32) = sextet n idx"
  by (simp add: char64_decode)

lemma char64_plain [simp]:
  "base64_decode_table (char64 n idx) \<noteq> 255" "base64_decode_table (char64 n idx) \<noteq> 64" "base64_decode_table (char64 n idx) \<noteq> 65"
proof -
  have "base64_decode_table (char64 n idx) = int (unat (sextet n idx))"
    by (simp only: char64_def table_roundtrip [OF sextet_less])
  then have "base64_decode_table (char64 n idx) < 64" using sextet_less [of n idx] by linarith
  then show "base64_decode_table (char64 n idx) \<noteq> 255" "base64_decode_table (char64 n idx) \<noteq> 64"
    "base64_decode_table (char64 n idx) \<noteq> 65" by auto
qed

lemma pad_value [simp]: "base64_decode_table (CHR ''='') = 65" "base64_decode_table (CHR 0x0A) = 64"
  "base64_decode_table NUL = 255"
  by code_simp+

text \<open>Four groups of six bits give back 24 bits.\<close>

lemma regroup4:
  "push_bit 6 (push_bit 6 (push_bit 6 (push_bit 6 0 OR sextet n 0) OR sextet n 1) OR sextet n 2) OR sextet n 3 = take_bit 24 n"
proof (rule bit_word_eqI)
  fix k assume "k < LENGTH(32)"
  then show "bit (push_bit 6 (push_bit 6 (push_bit 6 (push_bit 6 0 OR sextet n 0) OR sextet n 1) OR sextet n 2) OR sextet n 3) k
      = bit (take_bit 24 n) k"
    by (cases "k < 6"; cases "k < 12"; cases "k < 18") (auto simp: sextet_mask bit_simps)
qed

lemma regroup3:
  "push_bit 6 (push_bit 6 (push_bit 6 0 OR sextet n 1) OR sextet n 2) OR sextet n 3 = take_bit 18 n"
proof (rule bit_word_eqI)
  fix k assume "k < LENGTH(32)"
  then show "bit (push_bit 6 (push_bit 6 (push_bit 6 0 OR sextet n 1) OR sextet n 2) OR sextet n 3) k = bit (take_bit 18 n) k"
    by (cases "k < 6"; cases "k < 12") (auto simp: sextet_mask bit_simps)
qed

lemma regroup2: "push_bit 6 (push_bit 6 0 OR sextet n 2) OR sextet n 3 = take_bit 12 n"
  by (rule bit_word_eqI) (auto simp: sextet_mask bit_simps)

lemma and_ff: "(x :: u32) AND 0xff = take_bit 8 x"
  by (simp add: take_bit_eq_mask mask_eq_exp_minus_1)

lemma join3_bytes:
  "(ucast (drop_bit 16 (take_bit 24 (join3 a b c))) :: u8) = a"
  "(ucast (drop_bit 8 (take_bit 24 (join3 a b c)) AND 0xff) :: u8) = b"
  "(ucast (take_bit 24 (join3 a b c) AND 0xff) :: u8) = c"
  unfolding and_ff by (rule bit_word_eqI; auto simp: join3_def bit_simps dest: bit_imp_le_length)+

lemma join2_bytes:
  "(ucast (drop_bit 10 (take_bit 18 (push_bit 2 (join2 a b)))) :: u8) = a"
  "(ucast (drop_bit 2 (take_bit 18 (push_bit 2 (join2 a b)))) :: u8) = b"
  by (rule bit_word_eqI; auto simp: join2_def bit_simps dest: bit_imp_le_length)+

lemma join1_byte: "(ucast (drop_bit 4 (take_bit 12 (push_bit 4 (ucast (a :: u8) :: u32)))) :: u8) = a"
  by (rule bit_word_eqI) (auto simp: bit_simps dest: bit_imp_le_length)

lemma base64_decode_enc64:
  "length dest + length src \<le> destlen \<Longrightarrow> base64_decode_loop destlen (enc64 src) 0 0 dest = Some (dest @ src)"
proof (induction src arbitrary: dest rule: enc64.induct)
  case 1
  then show ?case by (simp add: base64_decode_end_def)
next
  case (2 a)
  then show ?case
    using regroup2 [of "push_bit 4 (ucast a)"] join1_byte [of a] by (simp add: Let_def base64_decode_end_def)
next
  case (3 a b)
  then show ?case
    using regroup3 [of "push_bit 2 (join2 a b)"] join2_bytes [of a b] by (simp add: Let_def base64_decode_end_def)
next
  case (4 a b c src)
  then show ?case
    using regroup4 [of "join3 a b c"] join3_bytes [of a b c] by (simp add: Let_def)
qed

lemma base64_decode_skip_nl:
  "base64_decode_loop destlen (filter (\<lambda>c. c \<noteq> CHR 0x0A) s) n n_idx dest = base64_decode_loop destlen s n n_idx dest"
  by (induction destlen s n n_idx dest rule: base64_decode_loop.induct) (auto simp: Let_def)

lemma char64_neq [simp]: "char64 n idx \<noteq> CHR ''=''" "char64 n idx \<noteq> CHR 0x0A" "char64 n idx \<noteq> NUL"
  using char64_plain [of n idx] by (metis pad_value)+

lemma base64_decode_nopad:
  "length dest + length src \<le> destlen \<Longrightarrow>
     base64_decode_loop destlen (filter (\<lambda>c. c \<noteq> CHR ''='' \<and> c \<noteq> CHR 0x0A) (enc64 src)) 0 0 dest = Some (dest @ src)"
proof (induction src arbitrary: dest rule: enc64.induct)
  case 1
  then show ?case by (simp add: base64_decode_end_def)
next
  case (2 a)
  then show ?case
    using regroup2 [of "push_bit 4 (ucast a)"] join1_byte [of a] by (simp add: Let_def base64_decode_end_def)
next
  case (3 a b)
  then show ?case
    using regroup3 [of "push_bit 2 (join2 a b)"] join2_bytes [of a b] by (simp add: Let_def base64_decode_end_def)
next
  case (4 a b c src)
  then show ?case
    using regroup4 [of "join3 a b c"] join3_bytes [of a b c] by (simp add: Let_def)
qed

lemma enc64_plain: "CHR 0x0A \<notin> set (enc64 src)" "NUL \<notin> set (enc64 src)"
  by (induction src rule: enc64.induct)
    (simp_all add: Let_def char64_neq [symmetric], simp_all add: NUL_def)

lemma enc64_length: "length (enc64 src) = CEIL_DIV (length src) 3 * 4"
proof (induction src rule: enc64.induct)
  case (4 a b c src)
  have "(5 + length src) div 3 = Suc ((2 + length src) div 3)" using div_add_self1 [of 3 "2 + length src"] by simp
  with 4 show ?case by (simp add: Let_def CEIL_DIV_def)
qed (simp_all add: Let_def CEIL_DIV_def)

section \<open>Line breaks\<close>

lemma ENCODE_CHAR_single: "ENCODE_CHAR False c (d, l) = (d @ [c], l)"
  by (simp add: ENCODE_CHAR_def)

lemma emit_single: "emit False cs (d, l) = (d @ cs, l)"
  by (induction cs arbitrary: d) (simp_all add: ENCODE_CHAR_single)

lemma emit_multi:
  "CHR 0x0A \<notin> set cs \<Longrightarrow>
     \<exists>d. emit True cs ([], 0) = (d, length cs mod 64) \<and> length d = length cs + length cs div 64
       \<and> filter (\<lambda>c. c \<noteq> CHR 0x0A) d = cs \<and> set d \<subseteq> insert (CHR 0x0A) (set cs)"
proof (induction cs rule: rev_induct)
  case Nil
  then show ?case by simp
next
  case (snoc c cs)
  then obtain d where d: "emit True cs ([], 0) = (d, length cs mod 64)" "length d = length cs + length cs div 64"
    "filter (\<lambda>c. c \<noteq> CHR 0x0A) d = cs" "set d \<subseteq> insert (CHR 0x0A) (set cs)" by auto
  have "Suc (length cs mod 64) = 64 \<longleftrightarrow> Suc (length cs) mod 64 = 0" "(Suc (length cs mod 64)) mod 64 = Suc (length cs) mod 64"
    by (auto simp: mod_Suc)
  then show ?case
    using d snoc(2)
    by (auto simp: ENCODE_CHAR_def BASE64_OPENSSL_LINELEN_def Let_def mod_Suc div_Suc split: if_splits)
qed

lemma CEIL_DIV_eq:
  assumes "0 < b"
  shows "CEIL_DIV e b = e div b + (if e mod b = 0 then 0 else 1)"
proof -
  define q r where "q = e div b" and "r = e mod b"
  have e: "e + (b - 1) = q * b + (r + (b - 1))" and r: "r < b"
    using assms by (simp_all add: q_def r_def div_mult_mod_eq flip: add.assoc)
  have "(r + (b - 1)) div b = (if r = 0 then 0 else 1)"
    using r by (auto intro!: div_nat_eqI)
  moreover have "CEIL_DIV e b = q + (r + (b - 1)) div b" unfolding CEIL_DIV_def e using assms by (simp only: div_mult_self3)
  ultimately show ?thesis by (simp add: q_def r_def)
qed

text \<open>The text a successful call leaves in the buffer.\<close>

definition text64 :: "bytes \<Rightarrow> bool \<Rightarrow> string" where
  "text64 src multiline =
     (let (d, linelen) = emit multiline (enc64 src) ([], 0)
      in if multiline \<and> linelen \<noteq> 0 then d @ [CHR 0x0A] else d)"

lemma text64_facts:
  "filter (\<lambda>c. c \<noteq> CHR 0x0A) (text64 src ml) = enc64 src \<and> NUL \<notin> set (text64 src ml)
   \<and> length (text64 src ml) = (let e = CEIL_DIV (length src) 3 * 4 in if ml then e + CEIL_DIV e 64 else e)"
proof -
  have "filter (\<lambda>c. c \<noteq> CHR 0x0A) (enc64 src) = enc64 src"
    using enc64_plain(1)[of src] by (auto simp: filter_id_conv)
  then have single: ?thesis if "\<not> ml"
    using that enc64_plain enc64_length by (simp add: text64_def emit_single)
  from emit_multi [OF enc64_plain(1)[of src]] obtain d where d: "emit True (enc64 src) ([], 0) = (d, length (enc64 src) mod 64)"
    "length d = length (enc64 src) + length (enc64 src) div 64" "filter (\<lambda>c. c \<noteq> CHR 0x0A) d = enc64 src"
    "set d \<subseteq> insert (CHR 0x0A) (set (enc64 src))" by auto
  have "CEIL_DIV e 64 = e div 64 + (if e mod 64 = 0 then 0 else 1)" for e by (rule CEIL_DIV_eq) simp
  then have multi: ?thesis if ml
    using d that enc64_plain(2)[of src] enc64_length [of src] by (auto simp: text64_def NUL_def)
  show ?thesis using single multi by blast
qed

section \<open>The codec contract\<close>

text \<open>
  What users of an encoder rely on: the buffer is completely initialised and NUL-terminated,
  and decoding its text into any large enough buffer gives the bytes back.
\<close>

locale codec =
  fixes enc :: "nat \<Rightarrow> bytes \<Rightarrow> string option"
    and dec :: "nat \<Rightarrow> string \<Rightarrow> bytes option"
  assumes dec_enc: "enc destlen src = Some buf \<Longrightarrow> length src \<le> n \<Longrightarrow> int n \<le> INT_MAX \<Longrightarrow> dec n (c_str buf) = Some src"
    and enc_terminated: "enc destlen src = Some buf \<Longrightarrow> length buf = destlen \<and> length (c_str buf) < destlen"
begin

lemma enc_injective:
  assumes "enc d1 x = Some b1" "enc d2 y = Some b2" "c_str b1 = c_str b2" "int (length x) \<le> INT_MAX" "int (length y) \<le> INT_MAX"
  shows "x = y"
proof -
  let ?n = "max (length x) (length y)"
  have "dec ?n (c_str b1) = Some x" "dec ?n (c_str b2) = Some y"
    using dec_enc [OF assms(1), of ?n] dec_enc [OF assms(2), of ?n] assms(4,5) by (auto simp: max_def)
  then show ?thesis using assms(3) by simp
qed

lemma enc_nul: "enc destlen src = Some buf \<Longrightarrow> buf ! length (c_str buf) = NUL"
  using enc_terminated nth_length_takeWhile [of "\<lambda>c. c \<noteq> NUL" buf] by (auto simp: c_str_def)

end

lemma c_str_fill_length: "NUL \<notin> set s \<Longrightarrow> length s < n \<Longrightarrow> length (fill n s) = n \<and> length (c_str (fill n s)) < n"
  by (simp add: c_str_fill) (simp add: fill_def)

interpretation b16: codec base16_encode base16_decode
proof
  fix destlen src buf
  assume e: "base16_encode destlen src = Some buf"
  then have buf: "buf = fill destlen (base16_encode_loop src)" "length src * 2 + 1 \<le> destlen"
    by (auto simp: base16_encode_def)
  then show "length buf = destlen \<and> length (c_str buf) < destlen"
    by (auto intro!: c_str_fill_length simp: base16_encode_loop_set)
  fix n
  assume "length src \<le> n" "int n \<le> INT_MAX"
  then show "base16_decode n (c_str buf) = Some src"
    using buf by (simp add: c_str_fill base16_encode_loop_set base16_decode_def base16_loop_roundtrip)
qed

text \<open>A result that is NULL or an abort is no result.\<close>

definition flatten :: "'a option option \<Rightarrow> 'a option" where
  "flatten r = (case r of Some (Some x) \<Rightarrow> Some x | _ \<Rightarrow> None)"

lemma flatten_Some [simp]: "flatten r = Some x \<longleftrightarrow> r = Some (Some x)"
  by (auto simp: flatten_def split: option.splits)

lemma base32_encode_loop_length: "length (base32_encode_loop src 0) = base32_nchars (length src)"
  using base32_encode_loop_eq [of src 0] by simp

interpretation b32: codec base32_encode "\<lambda>n s. flatten (base32_decode n s)"
proof
  fix destlen src buf
  assume e: "base32_encode destlen src = Some buf"
  then have buf: "buf = fill destlen (base32_encode_loop src 0)" "base32_nchars (length src) < destlen"
    "int (base32_nchars (length src)) < INT_MAX"
    by (auto simp: base32_encode_def base32_encoded_size_def base32_nchars_def Let_def bind_eq_Some_conv)
  then show "length buf = destlen \<and> length (c_str buf) < destlen"
    by (auto intro!: c_str_fill_length simp: base32_encode_loop_set base32_encode_loop_length)
  fix n
  assume n: "length src \<le> n" "int n \<le> INT_MAX"
  have "base32_nchars (length src) * 5 div 8 = length src"
    using base32_nchars_bounds [of "length src"] by (intro div_nat_eqI) simp_all
  moreover obtain tmp where "base32_digits (base32_encode_loop src 0) = Some tmp" using base32_digits_encode by blast
  ultimately show "flatten (base32_decode n (c_str buf)) = Some src"
    using buf(1,3) n base32_loop_roundtrip [of src tmp]
    by (simp add: c_str_fill base32_encode_loop_set base32_decode_def base32_encode_loop_length INT_MAX_def SIZE_T_CEILING_def Let_def)
qed

lemma base64_encode_eq:
  "base64_encode destlen src ml = do {
     enclen \<leftarrow> base64_encode_size (length src) ml;
     Some (if destlen < enclen + 1 \<or> int destlen > SIZE_T_CEILING then None
           else Some (fill destlen (text64 src ml)))
   }"
proof (cases "base64_encode_size (length src) ml")
  case (Some enclen)
  then have len: "enclen = length (text64 src ml)" "\<not> int enclen > INT_MAX"
    using text64_facts [of src ml]
    by (auto simp: base64_encode_size_def Let_def BASE64_OPENSSL_LINELEN_def split: if_splits)
  obtain n n_idx st where l: "base64_encode_loop ml src 0 0 ([], 0) = (n, n_idx, st)" by (metis prod_cases3)
  obtain d linelen where d: "base64_encode_tail ml n n_idx st = (d, linelen)" by (metis prod.exhaust)
  have "(if ml \<and> linelen \<noteq> 0 then d @ [CHR 0x0A] else d) = text64 src ml"
  proof -
    have "emit ml (enc64 src) ([], 0) = (d, linelen)" using base64_encode_loop_emit [of ml src "([], 0)"] l d by simp
    then show ?thesis by (simp add: text64_def)
  qed
  then show ?thesis using Some len l d by (simp add: base64_encode_def Let_def)
qed (simp add: base64_encode_def)

lemma base64_encode_Some:
  "flatten (base64_encode destlen src ml) = Some buf \<longleftrightarrow>
     (\<exists>enclen. base64_encode_size (length src) ml = Some enclen \<and> enclen + 1 \<le> destlen \<and> int destlen \<le> SIZE_T_CEILING
        \<and> buf = fill destlen (text64 src ml))"
  by (auto simp: base64_encode_eq bind_eq_Some_conv not_less)

lemma base64_text_decode:
  "length src \<le> n \<Longrightarrow> int n \<le> INT_MAX \<Longrightarrow> flatten (base64_decode n (text64 src ml)) = Some src"
proof -
  assume n: "length src \<le> n" "int n \<le> INT_MAX"
  have "base64_decode_loop n (text64 src ml) 0 0 [] = Some src"
    using base64_decode_skip_nl [of n "text64 src ml" 0 0 "[]"] base64_decode_enc64 [of "[]" src n] n(1)
      text64_facts [of src ml] by simp
  with n show ?thesis by (simp add: base64_decode_def)
qed

lemma base64_codec: "codec (\<lambda>n src. flatten (base64_encode n src ml)) (\<lambda>n s. flatten (base64_decode n s))"
proof
  fix destlen src buf
  assume "flatten (base64_encode destlen src ml) = Some buf"
  then obtain enclen where e: "base64_encode_size (length src) ml = Some enclen" "enclen + 1 \<le> destlen"
      "buf = fill destlen (text64 src ml)" unfolding base64_encode_Some by blast
  moreover have "enclen = length (text64 src ml)"
    using e(1) text64_facts [of src ml] by (auto simp: base64_encode_size_def Let_def BASE64_OPENSSL_LINELEN_def split: if_splits)
  ultimately show "length buf = destlen \<and> length (c_str buf) < destlen"
    using c_str_fill_length text64_facts [of src ml] by simp
  fix n
  assume "length src \<le> n" "int n \<le> INT_MAX"
  then show "flatten (base64_decode n (c_str buf)) = Some src"
    using base64_text_decode e(3) text64_facts [of src ml] by (simp add: c_str_fill)
qed

interpretation b64: codec "\<lambda>n src. flatten (base64_encode n src False)" "\<lambda>n s. flatten (base64_decode n s)"
  by (rule base64_codec)

interpretation b64m: codec "\<lambda>n src. flatten (base64_encode n src True)" "\<lambda>n s. flatten (base64_decode n s)"
  by (rule base64_codec)


section \<open>Properties\<close>

lemma c_str_append_NUL: "NUL \<notin> set s \<Longrightarrow> c_str (s @ NUL # r) = s"
  by (induction s) (auto simp: c_str_def)

lemma nopad_text:
  assumes "flatten (base64_encode_nopad destlen src) = Some buf"
  shows "c_str buf = filter (\<lambda>c. c \<noteq> CHR ''='' \<and> c \<noteq> CHR 0x0A) (enc64 src)"
proof -
  let ?f = "\<lambda>c. c \<noteq> CHR ''='' \<and> c \<noteq> CHR 0x0A"
  have plain: "NUL \<notin> set (filter ?f (enc64 src))" using enc64_plain(2) by auto
  have t: "text64 src False = enc64 src" by (simp add: text64_def emit_single)
  from assms obtain dest where dest: "base64_encode destlen src False = Some (Some dest)"
    by (auto simp: base64_encode_nopad_def split: option.splits)
  then have c: "c_str dest = enc64 src"
    using base64_encode_Some [of destlen src False dest] c_str_fill text64_facts [of src False] t by auto
  show ?thesis
  proof (cases "enc64 src = []")
    case True
    then show ?thesis using assms dest c by (simp add: base64_encode_nopad_def)
  next
    case False
    then have "\<exists>rest. buf = filter ?f (enc64 src) @ NUL # rest"
      using assms dest c by (auto simp: base64_encode_nopad_def Let_def)
    then show ?thesis using c_str_append_NUL [OF plain] by auto
  qed
qed

text \<open>C8. Base 64 without padding: what \<open>base64_encode_nopad\<close> writes is decoded by
  \<open>base64_decode\<close> to the original bytes although the decoder is told nothing about the
  missing padding.\<close>

theorem base64_nopad_roundtrip:
  assumes "base64_encode_nopad destlen src = Some (Some buf)" "length src \<le> n" "int n \<le> INT_MAX"
  shows "base64_decode n (c_str buf) = Some (Some src)"
proof -
  have "base64_decode_loop n (c_str buf) 0 0 [] = Some src"
    using nopad_text [of destlen src buf] base64_decode_nopad [of "[]" src n] assms(1,2) by simp
  with assms(2,3) show ?thesis by (simp add: base64_decode_def)
qed

theorem base64_nopad_roundtrip_witness:
  "base64_decode 4 (c_str (''AQL/CQ'' @ [NUL] @ ''='' @ [NUL])) = Some (Some [1, 2, 255, 9])"
  by (rule base64_nopad_roundtrip [where destlen = 9]) code_simp+

text \<open>C20. Base 64, with or without line breaks: \<open>base64_encode\<close> succeeds on every buffer that
  holds \<open>base64_encode_size\<close> characters and a NUL, its length assertion never fails, and
  decoding the text gives the bytes back.\<close>

theorem base64_roundtrip:
  assumes "base64_encode_size (length src) multiline = Some enclen"
    and "enclen + 1 \<le> destlen" "int destlen \<le> SIZE_T_CEILING" "length src \<le> n" "int n \<le> INT_MAX"
  shows "\<exists>buf. base64_encode destlen src multiline = Some (Some buf) \<and> length buf = destlen
    \<and> length (c_str buf) = enclen \<and> base64_decode n (c_str buf) = Some (Some src)"
proof (intro exI conjI)
  let ?buf = "fill destlen (text64 src multiline)"
  have "flatten (base64_encode destlen src multiline) = Some ?buf"
    unfolding base64_encode_Some using assms by blast
  then show "base64_encode destlen src multiline = Some (Some ?buf)" by simp
  have len: "enclen = length (text64 src multiline)"
    using assms(1) text64_facts [of src multiline]
    by (auto simp: base64_encode_size_def Let_def BASE64_OPENSSL_LINELEN_def split: if_splits)
  then show "length ?buf = destlen" using assms(2) by (simp add: fill_def)
  have c: "c_str ?buf = text64 src multiline" using text64_facts [of src multiline] by (simp add: c_str_fill)
  then show "length (c_str ?buf) = enclen" using len by simp
  show "base64_decode n (c_str ?buf) = Some (Some src)"
    using base64_text_decode [OF assms(4,5), of multiline] c by simp
qed

theorem base64_roundtrip_witness:
  "\<exists>buf. base64_encode 10 [1, 2, 255] True = Some (Some buf) \<and> length buf = 10
    \<and> length (c_str buf) = 5 \<and> base64_decode 3 (c_str buf) = Some (Some [1, 2, 255])"
  by (rule base64_roundtrip) code_simp+

text \<open>C20. Base 32.\<close>

theorem base32_roundtrip:
  assumes "base32_encode destlen src = Some buf" "length src \<le> n" "int n \<le> INT_MAX"
  shows "base32_decode n (c_str buf) = Some (Some src)"
  using b32.dec_enc [OF assms] by simp


theorem base32_roundtrip_witness:
  "base32_decode 3 (c_str (''aeaac'' @ [NUL, NUL])) = Some (Some [1, 0, 1])"
  by (rule base32_roundtrip [where destlen = 7]) code_simp+

end
