(* ===== verification/Smartlist_Split.thy ===== *)
theory Smartlist_Split
  imports Tor_Strings
begin

text \<open>
  Splitting and joining of strings: \<open>smartlist_split_string()\<close> of
  \<open>lib/smartlist_core/smartlist_split.c\<close> with its options, and
  \<open>smartlist_join_strings2()\<close> of \<open>lib/container/smartlist.c\<close>.
\<close>

section \<open>Searching\<close>

text \<open>\<open>strstr()\<close> and \<open>tor_memstr()\<close>: the offset of the first occurrence.\<close>

fun str_find :: "string \<Rightarrow> string \<Rightarrow> nat option" where
  "str_find needle [] = (if needle = [] then Some 0 else None)"
| "str_find needle (c # s) =
     (if take (length needle) (c # s) = needle then Some 0 else map_option Suc (str_find needle s))"

section \<open>Splitting\<close>

definition tor_strstrip :: "string \<Rightarrow> string \<Rightarrow> string" where
  "tor_strstrip s strip = filter (\<lambda>c. c \<notin> set strip) s"

definition is_hspace :: "char \<Rightarrow> bool" where
  "is_hspace c \<longleftrightarrow> c = CHR 0x09 \<or> c = CHR '' ''"

record split_opts =
  so_sep :: "string option"
  so_skip_space :: bool
  so_ignore_blank :: bool
  so_strip_space :: bool
  so_max :: int

text \<open>The text up to \<open>end\<close>, the text from \<open>end\<close> on, and \<open>next\<close>.\<close>

definition split_at_end :: "split_opts \<Rightarrow> int \<Rightarrow> string \<Rightarrow> string \<times> string" where
  "split_at_end o' n cp =
     (if so_max o' > 0 \<and> n = so_max o' - 1 then (cp, [])
      else case so_sep o' of
        Some sep \<Rightarrow> (case str_find sep cp of None \<Rightarrow> (cp, []) | Some k \<Rightarrow> (take k cp, drop k cp))
      | None \<Rightarrow> (takeWhile (\<lambda>c. \<not> is_hspace c) cp, dropWhile (\<lambda>c. \<not> is_hspace c) cp))"

definition split_next :: "split_opts \<Rightarrow> string \<Rightarrow> string option" where
  "split_next o' rest =
     (if rest = [] then None
      else case so_sep o' of
        Some sep \<Rightarrow> Some (drop (length sep) rest)
      | None \<Rightarrow> Some (dropWhile is_hspace (tl rest)))"

text \<open>
  One turn of the loop per unit of fuel; \<open>None\<close> means that the loop has not ended.  It never
  ends for an empty separator that is found, and needs at most one turn per character otherwise.
\<close>

fun smartlist_split_loop :: "nat \<Rightarrow> split_opts \<Rightarrow> string \<Rightarrow> int \<Rightarrow> string list \<Rightarrow> (int \<times> string list) option" where
  "smartlist_split_loop 0 o' cp n sl = None"
| "smartlist_split_loop (Suc fuel) o' cp n sl =
     (let cp = (if so_skip_space o' then dropWhile TOR_ISSPACE cp else cp);
          (piece, rest) = split_at_end o' n cp;
          next = split_next o' rest;
          piece = (if so_skip_space o' then rev (dropWhile TOR_ISSPACE (rev piece)) else piece);
          (n, sl) = (if piece \<noteq> [] \<or> \<not> so_ignore_blank o'
                     then (n + 1, sl @ [if so_strip_space o' then tor_strstrip piece '' '' else piece])
                     else (n, sl))
      in case next of
           None \<Rightarrow> Some (n, sl)
         | Some cp \<Rightarrow> smartlist_split_loop fuel o' cp n sl)"

definition smartlist_split_string :: "string list \<Rightarrow> string \<Rightarrow> split_opts \<Rightarrow> (int \<times> string list) option" where
  "smartlist_split_string sl str o' = smartlist_split_loop (length str + 1) o' str 0 sl"

section \<open>Joining\<close>

fun join_loop :: "string \<Rightarrow> string list \<Rightarrow> string" where
  "join_loop join [] = []"
| "join_loop join (s # sl) = s @ (if sl = [] then [] else join @ join_loop join sl)"

text \<open>
  \<open>smartlist_join_strings2()\<close>: the size is computed first; writing past it would overrun the
  allocation (\<open>None\<close>).
\<close>

definition smartlist_join_strings2 :: "string list \<Rightarrow> string \<Rightarrow> bool \<Rightarrow> string option" where
  "smartlist_join_strings2 sl join terminate =
     (let n = (if terminate then length join else 0) + sum_list (map length sl)
              + (if sl = [] then 0 else (length sl - 1) * length join);
          r = join_loop join sl @ (if terminate then join else [])
      in if length r > n then None else Some r)"

section \<open>Facts\<close>

lemma str_find_Some:
  "str_find needle s = Some k \<Longrightarrow> k + length needle \<le> length s \<and> take (length needle) (drop k s) = needle"
proof (induction needle s arbitrary: k rule: str_find.induct)
  case (2 needle c s)
  then show ?case
  proof (cases "take (length needle) (c # s) = needle")
    case True
    then have "length needle \<le> length (c # s)" by (metis length_take min.bounded_iff order_refl)
    then show ?thesis using 2 True by simp
  qed auto
qed (auto split: if_splits)

lemma str_find_char:
  "str_find [c] s = (if c \<in> set s then Some (length (takeWhile (\<lambda>x. x \<noteq> c) s)) else None)"
  by (induction s) auto

lemma split_next_shorter:
  assumes "split_at_end o' n cp = (piece, rest)" "split_next o' rest = Some cp'" "so_sep o' \<noteq> Some []"
  shows "length cp' < length cp"
proof (cases "so_sep o'")
  case None
  then have "rest \<noteq> []" "cp' = dropWhile is_hspace (tl rest)" "length rest \<le> length cp"
    using assms(1,2) by (auto simp: split_next_def split_at_end_def length_dropWhile_le split: if_splits)
  then show ?thesis using length_dropWhile_le [of is_hspace "tl rest"] by (cases rest) auto
next
  case (Some sep)
  then have "rest \<noteq> []" "cp' = drop (length sep) rest" "length rest \<le> length cp" "sep \<noteq> []"
    using assms by (auto simp: split_next_def split_at_end_def split: if_splits option.splits)
  then show ?thesis by (cases rest; cases sep) auto
qed

lemma split_loop_total:
  "so_sep o' \<noteq> Some [] \<Longrightarrow> length cp < fuel \<Longrightarrow> \<exists>r. smartlist_split_loop fuel o' cp n sl = Some r"
proof (induction fuel arbitrary: cp n sl)
  case (Suc fuel)
  let ?cp = "if so_skip_space o' then dropWhile TOR_ISSPACE cp else cp"
  obtain piece rest where pr: "split_at_end o' n ?cp = (piece, rest)" by fastforce
  have "length ?cp \<le> length cp" by (simp add: length_dropWhile_le)
  then show ?case
    using Suc pr split_next_shorter [OF pr _ Suc.prems(1)]
    by (cases "split_next o' rest") (fastforce simp: Let_def split: prod.splits)+
qed simp

text \<open>C24. \<open>smartlist_split_string()\<close> always returns when the separator is not the empty string.\<close>

theorem smartlist_split_string_total:
  assumes "so_sep o' \<noteq> Some []"
  shows "\<exists>n sl'. smartlist_split_string sl str o' = Some (n, sl')"
  using split_loop_total [OF assms, of str "length str + 1" 0 sl] by (auto simp: smartlist_split_string_def)

definition plain_split :: "string \<Rightarrow> int \<Rightarrow> split_opts" where
  "plain_split sep mx = \<lparr>so_sep = Some sep, so_skip_space = False, so_ignore_blank = False, so_strip_space = False, so_max = mx\<rparr>"

lemma plain_split_simps [simp]:
  "so_sep (plain_split sep mx) = Some sep" "so_skip_space (plain_split sep mx) = False"
  "so_ignore_blank (plain_split sep mx) = False" "so_strip_space (plain_split sep mx) = False" "so_max (plain_split sep mx) = mx"
  by (simp_all add: plain_split_def)

lemma split_loop_join:
  "smartlist_split_loop fuel (plain_split sep 0) cp n sl = Some (m, sl') \<Longrightarrow>
     \<exists>ps. ps \<noteq> [] \<and> sl' = sl @ ps \<and> m = n + int (length ps) \<and> join_loop sep ps = cp"
proof (induction fuel arbitrary: cp n sl)
  case (Suc fuel)
  show ?case
  proof (cases "str_find sep cp")
    case None
    then show ?thesis using Suc.prems by (auto simp: split_at_end_def split_next_def)
  next
    case (Some k)
    note f = str_find_Some [OF Some]
    show ?thesis
    proof (cases "drop k cp = []")
      case True
      then show ?thesis using Suc.prems Some by (auto simp: split_at_end_def split_next_def)
    next
      case False
      then have "smartlist_split_loop fuel (plain_split sep 0) (drop (length sep) (drop k cp)) (n + 1) (sl @ [take k cp]) = Some (m, sl')"
        using Suc.prems Some by (simp add: split_at_end_def split_next_def)
      from Suc.IH [OF this] obtain ps where ps: "ps \<noteq> []" "sl' = (sl @ [take k cp]) @ ps" "m = n + 1 + int (length ps)"
        "join_loop sep ps = drop (length sep) (drop k cp)" by blast
      have "drop k cp = sep @ drop (length sep) (drop k cp)" using f by (metis append_take_drop_id)
      then have "join_loop sep (take k cp # ps) = cp" using ps by (metis append_take_drop_id join_loop.simps(2))
      then show ?thesis using ps by (intro exI [of _ "take k cp # ps"]) simp
    qed
  qed
qed simp

lemma split_loop_words:
  "ws \<noteq> [] \<Longrightarrow> \<forall>w \<in> set ws. c \<notin> set w \<Longrightarrow> length (join_loop [c] ws) < fuel \<Longrightarrow> mx = 0 \<or> n + int (length ws) < mx \<Longrightarrow>
     smartlist_split_loop fuel (plain_split [c] mx) (join_loop [c] ws) n sl = Some (n + int (length ws), sl @ ws)"
proof (induction ws arbitrary: fuel n sl)
  case (Cons w ws)
  then obtain fuel' where fu: "fuel = Suc fuel'" by (cases fuel) auto
  have tw: "takeWhile (\<lambda>x. x \<noteq> c) w = w" using Cons.prems(2) by (auto simp: takeWhile_eq_all_conv)
  have mx: "\<not> (0 < mx \<and> n = mx - 1)" using Cons.prems(4) by auto
  show ?case
  proof (cases "ws = []")
    case True
    then show ?thesis using Cons.prems(2) fu mx by (simp add: split_at_end_def split_next_def str_find_char)
  next
    case False
    have "str_find [c] (w @ c # join_loop [c] ws) = Some (length w)" using Cons.prems(2) tw by (simp add: str_find_char takeWhile_append)
    then have "smartlist_split_loop fuel (plain_split [c] mx) (join_loop [c] (w # ws)) n sl
        = smartlist_split_loop fuel' (plain_split [c] mx) (join_loop [c] ws) (n + 1) (sl @ [w])"
      using False fu mx by (auto simp: split_at_end_def split_next_def Let_def)
    also have "\<dots> = Some (n + 1 + int (length ws), (sl @ [w]) @ ws)"
      using Cons.prems False fu by (intro Cons.IH) auto
    finally show ?thesis by simp
  qed
qed simp

lemma split_string_words:
  assumes "ws \<noteq> []" "\<forall>w \<in> set ws. c \<notin> set w" "mx = 0 \<or> int (length ws) < mx"
  shows "smartlist_split_string [] (join_loop [c] ws) (plain_split [c] mx) = Some (int (length ws), ws)"
  using split_loop_words [OF assms(1,2), of "length (join_loop [c] ws) + 1" mx 0 "[]"] assms(3)
  by (simp add: smartlist_split_string_def)

lemma length_join_loop:
  "length (join_loop join sl) = sum_list (map length sl) + (if sl = [] then 0 else (length sl - 1) * length join)"
  by (induction join sl rule: join_loop.induct) (auto simp: neq_Nil_conv)

text \<open>C23. Splitting without flags or limit loses nothing: joining the pieces with the separator
  (\<open>smartlist_join_strings2\<close>, which never overruns the size it computed) gives the string back.\<close>

theorem split_join_roundtrip:
  assumes "sep \<noteq> []"
  shows "\<exists>ps. smartlist_split_string [] str (plain_split sep 0) = Some (int (length ps), ps)
    \<and> smartlist_join_strings2 ps sep False = Some str"
proof -
  from split_loop_total [of "plain_split sep 0" str "length str + 1" 0 "[]"] assms obtain m ps where
    s: "smartlist_split_loop (length str + 1) (plain_split sep 0) str 0 [] = Some (m, ps)" by auto
  from split_loop_join [OF this] have j: "m = int (length ps)" "join_loop sep ps = str" by auto
  have "smartlist_split_string [] str (plain_split sep 0) = Some (int (length ps), ps)"
    using s j(1) by (simp add: smartlist_split_string_def del: smartlist_split_loop.simps)
  moreover have "smartlist_join_strings2 ps sep False = Some str"
    using length_join_loop [of sep ps] j(2) by (simp add: smartlist_join_strings2_def Let_def)
  ultimately show ?thesis by blast
qed

theorem smartlist_split_string_total_witness:
  "\<exists>n sl'. smartlist_split_string [] ''a b'' (plain_split '' '' 0) = Some (n, sl')"
  by (rule smartlist_split_string_total) simp

theorem split_join_roundtrip_witness:
  "\<exists>ps. smartlist_split_string [] ''a,,b'' (plain_split '','' 0) = Some (int (length ps), ps)
    \<and> smartlist_join_strings2 ps '','' False = Some ''a,,b''"
  by (rule split_join_roundtrip) simp

end
