(* ===== verification/Consdiff.thy ===== *)
theory Consdiff
  imports Consdiff_Roundtrip Binascii Smartlist_Split
begin

text \<open>
  Consensus diffs as documents (\<open>feature/dircommon/consdiff.c\<close>): splitting a document into
  lines and joining lines, the diff header with its two digests, and the entry points
  \<open>consensus_diff_generate\<close> and \<open>consensus_diff_apply\<close>; the signed part of a consensus comes
  from \<open>feature/dirparse/sigcommon.c\<close> and \<open>ns_parse.c\<close>.  SHA3-256 is a parameter.
\<close>

section \<open>Lines\<close>

definition NL :: char where "NL = CHR 0x0A"

definition CONSENSUS_LINE_MAX_LEN :: int where "CONSENSUS_LINE_MAX_LEN = 1048576"

function consensus_split_lines :: "string \<Rightarrow> smartlist option" where
  "consensus_split_lines s =
     (if s = [] then Some []
      else if NL \<notin> set s then None
      else let line = takeWhile (\<lambda>c. c \<noteq> NL) s in
        if int (length line) > CONSENSUS_LINE_MAX_LEN then None
        else map_option (\<lambda>out. line # out) (consensus_split_lines (drop (length line + 1) s)))"
  by pat_completeness auto
termination
  by (relation "measure length") auto

declare consensus_split_lines.simps [simp del]

text \<open>The result buffer, less its terminating NUL; the size is computed beforehand and checked.\<close>

definition consensus_join_lines :: "smartlist \<Rightarrow> string option" where
  "consensus_join_lines inp = do {
     let n = sum_list (map (\<lambda>l. length l + 1) inp) + 1;
     let result = concat (map (\<lambda>l. l @ [NL]) inp) @ [NUL];
     tor_assert (length result = n);
     Some (butlast result)
   }"

section \<open>Digests\<close>

text \<open>
  SHA3-256 is a parameter, \<open>None\<close> when the digest function fails.  The digest of a consensus
  \<open>as signed\<close> covers the text from \<open>network-status-version\<close> to the space after the first
  \<open>directory-signature\<close>.
\<close>

definition DIGEST256_LEN :: nat where "DIGEST256_LEN = 32"
definition HEX_DIGEST256_LEN :: nat where "HEX_DIGEST256_LEN = 64"

definition router_get_hash_impl_helper :: "string \<Rightarrow> string \<Rightarrow> string \<Rightarrow> char \<Rightarrow> (nat \<times> nat) option" where
  "router_get_hash_impl_helper s start_str end_str end_c = do {
     start \<leftarrow> str_find start_str s;
     if start \<noteq> 0 \<and> s ! (start - 1) \<noteq> NL then None
     else do {
       e \<leftarrow> str_find end_str (drop (start + length start_str) s);
       let e = start + length start_str + e;
       c \<leftarrow> str_find [end_c] (drop (e + length end_str) s);
       Some (start, e + length end_str + c + 1)
     }
   }"

definition router_get_networkstatus_v3_signed_boundaries :: "string \<Rightarrow> (nat \<times> nat) option" where
  "router_get_networkstatus_v3_signed_boundaries s =
     router_get_hash_impl_helper s ''network-status-version'' (NL # ''directory-signature'') (CHR '' '')"

definition consensus_compute_digest :: "(string \<Rightarrow> bytes option) \<Rightarrow> string \<Rightarrow> bytes option" where
  "consensus_compute_digest sha3 cons = sha3 cons"

definition consensus_compute_digest_as_signed :: "(string \<Rightarrow> bytes option) \<Rightarrow> string \<Rightarrow> bytes option" where
  "consensus_compute_digest_as_signed sha3 s =
     (let (start, stop) = (case router_get_networkstatus_v3_signed_boundaries s of
                             None \<Rightarrow> (0, length s) | Some r \<Rightarrow> r)
      in sha3 (take (stop - start) (drop start s)))"

definition consensus_digest_eq :: "bytes \<Rightarrow> bytes \<Rightarrow> bool" where
  "consensus_digest_eq d1 d2 \<longleftrightarrow> take DIGEST256_LEN d1 = take DIGEST256_LEN d2"

section \<open>Diffs\<close>

definition ns_diff_version :: string where "ns_diff_version = ''network-status-diff-version 1''"
definition hash_token :: string where "hash_token = ''hash''"

fun cons_lists_eq :: "smartlist \<Rightarrow> smartlist \<Rightarrow> bool" where
  "cons_lists_eq [] [] \<longleftrightarrow> True"
| "cons_lists_eq (a # as) (b # bs) \<longleftrightarrow> lines_eq a b \<and> cons_lists_eq as bs"
| "cons_lists_eq _ _ \<longleftrightarrow> False"

definition consdiff_gen_diff :: "smartlist \<Rightarrow> smartlist \<Rightarrow> bytes \<Rightarrow> bytes \<Rightarrow> smartlist option option" where
  "consdiff_gen_diff cons1 cons2 digests1 digests2 =
     (case gen_ed_diff cons1 cons2 of
        None \<Rightarrow> None
      | Some None \<Rightarrow> Some None
      | Some (Some ed_diff) \<Rightarrow>
          (case apply_ed_diff cons1 ed_diff 0 of
             None \<Rightarrow> Some None
           | Some ed_cons2 \<Rightarrow>
               if \<not> cons_lists_eq cons2 ed_cons2 then Some None
               else do {
                 hex1 \<leftarrow> base16_encode (HEX_DIGEST256_LEN + 1) (take DIGEST256_LEN digests1);
                 hex2 \<leftarrow> base16_encode (HEX_DIGEST256_LEN + 1) (take DIGEST256_LEN digests2);
                 Some (Some ([ns_diff_version, hash_token @ '' '' @ c_str hex1 @ '' '' @ c_str hex2] @ ed_diff))
               }))"

text \<open>Outer \<open>None\<close>: no result; the digests otherwise.\<close>

definition consdiff_get_digests :: "smartlist \<Rightarrow> (bytes \<times> bytes) option" where
  "consdiff_get_digests diff =
     (if length diff < 2 then None
      else if \<not> line_str_eq (diff ! 0) ns_diff_version then None
      else case smartlist_split_string [] (c_str (diff ! 1)) (plain_split '' '' 4) of
        None \<Rightarrow> None
      | Some (_, hash_words) \<Rightarrow>
          if length hash_words \<noteq> 3 \<or> hash_words ! 0 \<noteq> hash_token then None
          else if length (hash_words ! 1) \<noteq> HEX_DIGEST256_LEN \<or> length (hash_words ! 2) \<noteq> HEX_DIGEST256_LEN then None
          else (case (base16_decode DIGEST256_LEN (hash_words ! 1), base16_decode DIGEST256_LEN (hash_words ! 2)) of
                  (Some d1, Some d2) \<Rightarrow>
                    if length d1 \<noteq> DIGEST256_LEN \<or> length d2 \<noteq> DIGEST256_LEN then None else Some (d1, d2)
                | _ \<Rightarrow> None))"

definition consdiff_apply_diff ::
  "(string \<Rightarrow> bytes option) \<Rightarrow> smartlist \<Rightarrow> smartlist \<Rightarrow> bytes \<Rightarrow> string option option" where
  "consdiff_apply_diff sha3 cons1 diff digests1 =
     (case consdiff_get_digests diff of
        None \<Rightarrow> Some None
      | Some (e_cons1_hash, e_cons2_hash) \<Rightarrow>
          if \<not> consensus_digest_eq digests1 e_cons1_hash then Some None
          else (case apply_ed_diff cons1 diff 2 of
            None \<Rightarrow> Some None
          | Some cons2 \<Rightarrow> do {
              cons2_str \<leftarrow> consensus_join_lines cons2;
              Some (case consensus_compute_digest sha3 (c_str cons2_str) of
                      None \<Rightarrow> None
                    | Some cons2_digests \<Rightarrow>
                        if \<not> consensus_digest_eq cons2_digests e_cons2_hash then None else Some cons2_str)
            }))"

definition consensus_diff_generate ::
  "(string \<Rightarrow> bytes option) \<Rightarrow> string \<Rightarrow> string \<Rightarrow> string option option" where
  "consensus_diff_generate sha3 cons1 cons2 =
     (case (consensus_compute_digest_as_signed sha3 cons1, consensus_compute_digest sha3 cons2) of
        (Some d1, Some d2) \<Rightarrow>
          (case (consensus_split_lines cons1, consensus_split_lines cons2) of
             (Some lines1, Some lines2) \<Rightarrow>
               (case consdiff_gen_diff lines1 lines2 d1 d2 of
                  None \<Rightarrow> None
                | Some None \<Rightarrow> Some None
                | Some (Some result_lines) \<Rightarrow> map_option Some (consensus_join_lines result_lines))
           | _ \<Rightarrow> Some None)
      | _ \<Rightarrow> Some None)"

definition consensus_diff_apply ::
  "(string \<Rightarrow> bytes option) \<Rightarrow> string \<Rightarrow> string \<Rightarrow> string option option" where
  "consensus_diff_apply sha3 consensus diff =
     (case consensus_compute_digest_as_signed sha3 consensus of
        None \<Rightarrow> Some None
      | Some d1 \<Rightarrow>
          (case (consensus_split_lines consensus, consensus_split_lines diff) of
             (Some lines1, Some lines2) \<Rightarrow> consdiff_apply_diff sha3 lines1 lines2 d1
           | _ \<Rightarrow> Some None))"

definition looks_like_a_consensus_diff :: "string \<Rightarrow> bool" where
  "looks_like_a_consensus_diff document \<longleftrightarrow>
     length document \<ge> length ns_diff_version \<and> take (length ns_diff_version) document = ns_diff_version"

section \<open>Splitting and joining lines\<close>

definition line_ok :: "cdline \<Rightarrow> bool" where
  "line_ok l \<longleftrightarrow> NL \<notin> set l \<and> int (length l) \<le> CONSENSUS_LINE_MAX_LEN"

lemma consensus_join_lines_eq: "consensus_join_lines ls = Some (concat (map (\<lambda>l. l @ [NL]) ls))"
  by (simp add: consensus_join_lines_def length_concat comp_def)

lemma takeWhile_line: "NL \<notin> set l \<Longrightarrow> takeWhile (\<lambda>c. c \<noteq> NL) (l @ NL # r) = l"
  by (induction l) auto

lemma split_lines_join:
  "\<forall>l \<in> set ls. line_ok l \<Longrightarrow> consensus_split_lines (concat (map (\<lambda>l. l @ [NL]) ls)) = Some ls"
proof (induction ls)
  case (Cons l ls)
  then show ?case by (subst consensus_split_lines.simps) (auto simp: takeWhile_line line_ok_def)
qed (subst consensus_split_lines.simps, simp)

lemma split_lines_sound:
  "consensus_split_lines s = Some ls \<Longrightarrow> concat (map (\<lambda>l. l @ [NL]) ls) = s \<and> (\<forall>l \<in> set ls. line_ok l \<and> set l \<subseteq> set s)"
proof (induction s arbitrary: ls rule: consensus_split_lines.induct)
  case (1 s)
  show ?case
  proof (cases "s = []")
    case True
    then show ?thesis using 1(2) by (subst (asm) consensus_split_lines.simps) simp
  next
    case False
    let ?l = "takeWhile (\<lambda>c. c \<noteq> NL) s"
    from 1(2) False have nl: "NL \<in> set s" "\<not> int (length ?l) > CONSENSUS_LINE_MAX_LEN"
      by (subst (asm) consensus_split_lines.simps, simp add: Let_def split: if_splits)+
    from 1(2) False nl obtain out where out: "consensus_split_lines (drop (length ?l + 1) s) = Some out" "ls = ?l # out"
      by (subst (asm) consensus_split_lines.simps) (auto simp: Let_def split: if_splits)
    from nl(1) obtain r where s: "s = ?l @ NL # r" by (metis split_list_first takeWhile_line)
    then have r: "drop (length ?l + 1) s = r" by (metis add.commute append_eq_conv_conj drop_drop drop_Suc_Cons drop0 plus_1_eq_Suc)
    have "NL \<notin> set ?l" by (auto dest: set_takeWhileD)
    moreover have "set ?l \<subseteq> set s" "set r \<subseteq> set s" using s by (metis set_append Un_upper1) (metis s set_append set_subset_Cons Un_upper2 subset_trans)
    ultimately show ?thesis
      using 1(1)[OF False _ refl, of out] nl out r s by (auto simp: line_ok_def)
  qed
qed

section \<open>The lines of a script\<close>

text \<open>A line of a script is a short command without special characters, or comes from the target.\<close>

definition cmd_ok :: "cdline \<Rightarrow> bool" where
  "cmd_ok l \<longleftrightarrow> NL \<notin> set l \<and> NUL \<notin> set l \<and> length l \<le> 127"

lemma digit_not_NL: "TOR_ISDIGIT c \<Longrightarrow> c \<noteq> NL"
  by (auto simp: TOR_ISDIGIT_def NL_def)

lemma show_int_ok: "0 \<le> n \<Longrightarrow> n \<le> INT32_MAX \<Longrightarrow> NL \<notin> set (show_int n) \<and> NUL \<notin> set (show_int n) \<and> length (show_int n) \<le> 10"
  using show_dec_digits [of "nat n"] digit_not_NL length_show_int show_int_no_NUL by (auto simp: show_int_nat)

lemma cmd_ok_single: "0 \<le> n \<Longrightarrow> n \<le> INT32_MAX \<Longrightarrow> c \<in> set ''acd'' \<Longrightarrow> cmd_ok (show_int n @ [c])"
  using show_int_ok [of n] by (auto simp: cmd_ok_def NL_def NUL_def)

lemma cmd_ok_pair:
  "0 \<le> n \<Longrightarrow> n \<le> INT32_MAX \<Longrightarrow> 0 \<le> m \<Longrightarrow> m \<le> INT32_MAX \<Longrightarrow> c \<in> set ''cd'' \<Longrightarrow>
     cmd_ok (show_int n @ CHR '','' # show_int m @ [c])"
  using show_int_ok [of n] show_int_ok [of m] by (auto simp: cmd_ok_def NL_def NUL_def)

lemma cmd_ok_dot: "cmd_ok ''.''" by (simp add: cmd_ok_def NL_def NUL_def)

lemma segment_subset: "set (segment xs a b) \<subseteq> set xs"
  unfolding segment_def using set_take_subset set_drop_subset by fast

lemma ed_command_lines:
  assumes "ed_command cons2 (j1 + 1) (j2 + 1) i2 (i2 - j2) (i1 - j1) res = Some (Some d)"
    and "-1 \<le> j1" "j1 \<le> i1" "i1 < int len1" "int len1 \<le> INT32_MAX" "-1 \<le> j2" "i2 < int (length cons2)"
    and "j1 < i1 \<or> j2 < i2"
  shows "\<forall>l \<in> set d. l \<in> set res \<or> l \<in> set cons2 \<or> cmd_ok l"
proof -
  have n: "j1 + 1 + 1 = j1 + 2" "j1 + 1 + (i1 - j1) = i1 + 1" by simp_all
  have ok: "cmd_ok (show_int (j1 + 1) @ ''a'')"
    "j1 < i1 \<Longrightarrow> c \<in> set ''cd'' \<Longrightarrow> cmd_ok (show_int (j1 + 2) @ [c]) \<and> cmd_ok (show_int (j1 + 2) @ '','' @ show_int (i1 + 1) @ [c])" for c
    using assms(2-5) by (auto intro!: cmd_ok_single cmd_ok_pair)
  show ?thesis
  proof (cases "i2 - j2 = 0")
    case True
    then show ?thesis using assms(1,8) ok(2)[of "CHR ''d''"] by (auto simp: ed_command_def n split: if_splits)
  next
    case False
    then show ?thesis
      using assms(1,3) add_new_lines_spec [of "j2 + 1" i2 cons2] assms(6,7) ok(1) ok(2)[of "CHR ''c''"] cmd_ok_dot
        segment_subset [of cons2 "j2 + 1" "i2 + 1"]
      by (auto simp: ed_command_def n Let_def split: if_splits)
  qed
qed

lemma gen_commands_lines:
  assumes "length ch1 = len1" "length ch2 = length cons2" "int len1 \<le> INT32_MAX"
    and "-1 \<le> i1" "i1 < int len1" "-1 \<le> i2" "i2 < int (length cons2)"
    and "gen_commands cons2 ch1 ch2 i1 i2 res = Some (Some d)"
  shows "\<forall>l \<in> set d. l \<in> set res \<or> l \<in> set cons2 \<or> cmd_ok l"
  using assms
proof (induction cons2 ch1 ch2 i1 i2 res rule: gen_commands.induct)
  case (1 cons2 ch1 ch2 i1 i2 res)
  note len = 1(3-5) and idx = 1(6-9)
  have c: "is_changed ch1 i1 = Some (0 \<le> i1 \<and> ch1 ! nat i1)" "is_changed ch2 i2 = Some (0 \<le> i2 \<and> ch2 ! nat i2)"
    using is_changed_eq [of i1 ch1] is_changed_eq [of i2 ch2] idx len by simp_all
  show ?case
  proof (cases "\<not> (i1 \<ge> 0 \<or> i2 \<ge> 0)")
    case True
    then show ?thesis using 1(10) by (subst (asm) gen_commands.simps) simp
  next
    case more: False
    show ?thesis
    proof (cases "\<not> (0 \<le> i1 \<and> ch1 ! nat i1) \<and> \<not> (0 \<le> i2 \<and> ch2 ! nat i2)")
      case True
      have "gen_commands cons2 ch1 ch2 (if i1 \<ge> 0 then i1 - 1 else i1) (if i2 \<ge> 0 then i2 - 1 else i2) res = Some (Some d)"
        using 1(10) more True c by (subst (asm) gen_commands.simps) auto
      then show ?thesis using 1(1)[OF more refl c True len] idx by simp
    next
      case False
      from skip_changed_spec [of ch1 ch1 i1] idx len obtain j1 where j1: "skip_changed ch1 i1 = Some j1" "-1 \<le> j1"
        "j1 \<le> i1" "is_changed ch1 i1 = Some True \<longrightarrow> j1 < i1" by auto
      from skip_changed_spec [of ch2 ch2 i2] idx len obtain j2 where j2: "skip_changed ch2 i2 = Some j2" "-1 \<le> j2"
        "j2 \<le> i2" "is_changed ch2 i2 = Some True \<longrightarrow> j2 < i2" by auto
      have lt: "j1 < i1 \<or> j2 < i2" using False j1(4) j2(4) c by auto
      obtain d' where d': "ed_command cons2 (j1 + 1) (j2 + 1) i2 (i2 - j2) (i1 - j1) res = Some (Some d')"
        and g: "gen_commands cons2 ch1 ch2 j1 j2 d' = Some (Some d)"
        using 1(10) more False c j1(1) j2(1) by (subst (asm) gen_commands.simps) (auto split: option.splits)
      have "\<forall>l \<in> set d'. l \<in> set res \<or> l \<in> set cons2 \<or> cmd_ok l"
        using ed_command_lines [OF d' j1(2,3) idx(2) len(3) j2(2) idx(4) lt] .
      moreover have "\<forall>l \<in> set d. l \<in> set d' \<or> l \<in> set cons2 \<or> cmd_ok l"
        using 1(2)[OF more refl c False refl j1(1) j2(1) d' refl len] g j1 j2 idx by simp
      ultimately show ?thesis by blast
    qed
  qed
qed

lemma gen_ed_diff_lines:
  assumes "gen_ed_diff cons1 cons2 = Some (Some d)" "int (length cons1) \<le> INT32_MAX"
  shows "\<forall>l \<in> set d. l \<in> set cons2 \<or> cmd_ok l"
proof -
  let ?n = "body_len cons1"
  have len: "length (take ?n cons1) = ?n" "int ?n \<le> INT32_MAX" using body_len_le [of cons1] assms(2) by simp_all
  from gen_ed_diff_marked [of cons1 cons2] assms(1) obtain ch1 ch2 where
    m: "marks_upto (take ?n cons1) cons2 (int ?n) (int (length cons2)) ch1 ch2"
    and g: "gen_commands cons2 ch1 ch2 (int ?n - 1) (int (length cons2) - 1) (trailer cons1) = Some (Some d)" by auto
  have "\<forall>l \<in> set d. l \<in> set (trailer cons1) \<or> l \<in> set cons2 \<or> cmd_ok l"
    by (rule gen_commands_lines [OF _ _ len(2) _ _ _ _ g]) (use m len in \<open>auto simp: marks_upto_def\<close>)
  moreover have "\<forall>l \<in> set (trailer cons1). cmd_ok l"
  proof (cases "find_dirsig 0 cons1")
    case (Some n)
    then have "int n + 1 \<le> INT32_MAX" using find_dirsig_range [OF Some] assms(2) by simp
    then show ?thesis using Some show_int_ok [of "int n + 1"] by (simp add: trailer_def cmd_ok_def NL_def NUL_def)
  qed (simp add: trailer_def)
  ultimately show ?thesis by blast
qed

section \<open>The header\<close>

lemma hex_char_plain: "n < 16 \<Longrightarrow> HEX_CHARS ! n \<noteq> NL \<and> HEX_CHARS ! n \<noteq> CHR '' ''"
  by (rule all_below [of "\<lambda>n. HEX_CHARS ! n \<noteq> NL \<and> HEX_CHARS ! n \<noteq> CHR '' ''" 16]) (code_simp, assumption)

lemma base16_text_plain: "NL \<notin> set (base16_encode_loop src)" "CHR '' '' \<notin> set (base16_encode_loop src)"
  by (induction src) (auto simp: hex_char_plain [OF nibble_bounds(1), THEN conjunct1, symmetric]
      hex_char_plain [OF nibble_bounds(2), THEN conjunct1, symmetric]
      hex_char_plain [OF nibble_bounds(1), THEN conjunct2, symmetric] hex_char_plain [OF nibble_bounds(2), THEN conjunct2, symmetric])

lemma digest_hex:
  assumes "length d = DIGEST256_LEN"
  shows "base16_encode (Suc HEX_DIGEST256_LEN) d = Some (fill (HEX_DIGEST256_LEN + 1) (base16_encode_loop d))"
  using assms by (simp add: base16_encode_def DIGEST256_LEN_def HEX_DIGEST256_LEN_def SIZE_T_CEILING_def)

definition hash_line :: "bytes \<Rightarrow> bytes \<Rightarrow> cdline" where
  "hash_line d1 d2 = hash_token @ '' '' @ base16_encode_loop d1 @ '' '' @ base16_encode_loop d2"

lemma hash_line_words: "hash_line d1 d2 = join_loop '' '' [hash_token, base16_encode_loop d1, base16_encode_loop d2]"
  by (simp add: hash_line_def)

lemma hash_line_ok:
  assumes "length d1 = DIGEST256_LEN" "length d2 = DIGEST256_LEN"
  shows "NL \<notin> set (hash_line d1 d2)" "NUL \<notin> set (hash_line d1 d2)" "line_ok (hash_line d1 d2)"
  using base16_text_plain base16_encode_loop_set assms
  by (auto simp: hash_line_def hash_token_def cmd_ok_def line_ok_def NL_def NUL_def DIGEST256_LEN_def CONSENSUS_LINE_MAX_LEN_def)

lemma get_digests_header:
  assumes "length d1 = DIGEST256_LEN" "length d2 = DIGEST256_LEN"
  shows "consdiff_get_digests ([ns_diff_version, hash_line d1 d2] @ ed) = Some (d1, d2)"
proof -
  have "smartlist_split_string [] (hash_line d1 d2) (plain_split '' '' 4)
      = Some (3, [hash_token, base16_encode_loop d1, base16_encode_loop d2])"
    unfolding hash_line_words
    using split_string_words [of "[hash_token, base16_encode_loop d1, base16_encode_loop d2]" "CHR '' ''" 4] base16_text_plain(2)
    by (simp add: hash_token_def)
  moreover have "c_str (hash_line d1 d2) = hash_line d1 d2" using hash_line_ok [OF assms] by (intro c_str_id)
  moreover have "base16_decode DIGEST256_LEN (base16_encode_loop d) = Some d" if "length d = DIGEST256_LEN" for d
    using that by (simp add: base16_decode_def base16_loop_roundtrip DIGEST256_LEN_def INT_MAX_def)
  ultimately show ?thesis
    using assms by (simp add: consdiff_get_digests_def line_str_eq_def DIGEST256_LEN_def HEX_DIGEST256_LEN_def)
qed

lemma cons_lists_eq_iff: "cons_lists_eq a b \<longleftrightarrow> a = b"
  by (induction a b rule: cons_lists_eq.induct) auto

lemma gen_diff_Some:
  assumes "consdiff_gen_diff cons1 cons2 d1 d2 = Some (Some diff)" "length d1 = DIGEST256_LEN" "length d2 = DIGEST256_LEN"
  shows "\<exists>ed. gen_ed_diff cons1 cons2 = Some (Some ed) \<and> apply_ed_diff cons1 ed 0 = Some cons2
    \<and> diff = [ns_diff_version, hash_line d1 d2] @ ed"
  using assms
  by (auto simp: consdiff_gen_diff_def digest_hex hash_line_def cons_lists_eq_iff c_str_fill base16_encode_loop_set
      split: option.splits if_splits)

lemma apply_ed_diff_header: "apply_ed_diff cons1 (a # b # ed) 2 = apply_ed_diff cons1 ed 0"
  by (simp add: apply_ed_diff_def numeral_2_eq_2)

text \<open>What is assumed of SHA3-256: it succeeds and gives 32 bytes.\<close>

definition sha3_ok :: "(string \<Rightarrow> bytes option) \<Rightarrow> bool" where
  "sha3_ok sha3 \<longleftrightarrow> (\<forall>s. \<exists>d. sha3 s = Some d \<and> length d = DIGEST256_LEN)"

lemma sha3_as_signed: "sha3_ok sha3 \<Longrightarrow> \<exists>d. consensus_compute_digest_as_signed sha3 s = Some d \<and> length d = DIGEST256_LEN"
  by (simp add: consensus_compute_digest_as_signed_def sha3_ok_def split: prod.splits)

lemma ns_diff_version_ok: "line_ok ns_diff_version" "NUL \<notin> set ns_diff_version"
  by (simp_all add: line_ok_def ns_diff_version_def NL_def NUL_def CONSENSUS_LINE_MAX_LEN_def)

lemma cmd_line_ok: "cmd_ok l \<Longrightarrow> line_ok l"
  by (auto simp: cmd_ok_def line_ok_def CONSENSUS_LINE_MAX_LEN_def)

section \<open>Properties\<close>

lemma diff_generate_lines:
  assumes "consensus_diff_generate sha3 cons1 cons2 = Some (Some diff)" "sha3_ok sha3"
    and "int (length cons1) \<le> INT32_MAX"
  shows "\<exists>lines1 lines2 d1 d2 ed. consensus_split_lines cons1 = Some lines1 \<and> consensus_split_lines cons2 = Some lines2
    \<and> consensus_compute_digest_as_signed sha3 cons1 = Some d1 \<and> sha3 cons2 = Some d2
    \<and> length d1 = DIGEST256_LEN \<and> length d2 = DIGEST256_LEN
    \<and> apply_ed_diff lines1 ed 0 = Some lines2
    \<and> consensus_split_lines diff = Some ([ns_diff_version, hash_line d1 d2] @ ed)
    \<and> diff = concat (map (\<lambda>l. l @ [NL]) ([ns_diff_version, hash_line d1 d2] @ ed))"
proof -
  obtain d1 d2 where d: "consensus_compute_digest_as_signed sha3 cons1 = Some d1" "sha3 cons2 = Some d2"
      "length d1 = DIGEST256_LEN" "length d2 = DIGEST256_LEN"
    using sha3_as_signed [OF assms(2), of cons1] assms(2) by (force simp: sha3_ok_def)
  then obtain lines1 lines2 dl where l: "consensus_split_lines cons1 = Some lines1" "consensus_split_lines cons2 = Some lines2"
      "consdiff_gen_diff lines1 lines2 d1 d2 = Some (Some dl)" "diff = concat (map (\<lambda>l. l @ [NL]) dl)"
    using assms(1)
    by (auto simp: consensus_diff_generate_def consensus_compute_digest_def consensus_join_lines_eq split: option.splits)
  from gen_diff_Some [OF l(3) d(3,4)] obtain ed where ed: "gen_ed_diff lines1 lines2 = Some (Some ed)"
      "apply_ed_diff lines1 ed 0 = Some lines2" "dl = [ns_diff_version, hash_line d1 d2] @ ed" by blast
  have "length lines1 \<le> length cons1"
    using split_lines_sound [OF l(1)] sum_list_mono [of lines1 "\<lambda>_. 1" "\<lambda>l. length l + 1"]
    by (auto simp: length_concat comp_def sum_list_triv)
  then have "\<forall>x \<in> set ed. x \<in> set lines2 \<or> cmd_ok x" using gen_ed_diff_lines [OF ed(1)] assms(3) by simp
  then have "\<forall>x \<in> set dl. line_ok x"
    using ed(3) split_lines_sound [OF l(2)] cmd_line_ok ns_diff_version_ok hash_line_ok [OF d(3,4)] by auto
  then show ?thesis using split_lines_join [of dl] l d ed by blast
qed

text \<open>C3. End to end: a diff that \<open>consensus_diff_generate\<close> makes for two consensuses is accepted
  by \<open>consensus_diff_apply\<close> on the first and gives back the second, character by character:
  header, digests and script survive printing and parsing.  The target holds no NUL.\<close>

theorem consensus_diff_roundtrip:
  assumes "consensus_diff_generate sha3 cons1 cons2 = Some (Some diff)" "sha3_ok sha3"
    and "int (length cons1) \<le> INT32_MAX" "NUL \<notin> set cons2"
  shows "consensus_diff_apply sha3 cons1 diff = Some (Some cons2)"
proof -
  from diff_generate_lines [OF assms(1-3)] obtain lines1 lines2 d1 d2 ed where
    l: "consensus_split_lines cons1 = Some lines1" "consensus_split_lines cons2 = Some lines2"
    and d: "consensus_compute_digest_as_signed sha3 cons1 = Some d1" "sha3 cons2 = Some d2"
      "length d1 = DIGEST256_LEN" "length d2 = DIGEST256_LEN"
    and e: "apply_ed_diff lines1 ed 0 = Some lines2" "consensus_split_lines diff = Some ([ns_diff_version, hash_line d1 d2] @ ed)"
    by blast
  have c2: "consensus_join_lines lines2 = Some cons2" using split_lines_sound [OF l(2)] by (simp add: consensus_join_lines_eq)
  moreover have "c_str cons2 = cons2" using assms(4) by (rule c_str_id)
  ultimately show ?thesis
    using l d e get_digests_header [OF d(3,4), of ed]
    by (simp add: consensus_diff_apply_def consdiff_apply_diff_def apply_ed_diff_header consensus_digest_eq_def consensus_compute_digest_def)
qed

definition toy_sha3 :: "string \<Rightarrow> bytes option" where
  "toy_sha3 s = Some (of_nat (length s) # replicate 31 0)"

lemma toy_sha3_ok: "sha3_ok toy_sha3"
  by (simp add: sha3_ok_def toy_sha3_def DIGEST256_LEN_def)


theorem consensus_diff_roundtrip_witness:
  "let diff = concat (map (\<lambda>l. l @ [NL])
       [''network-status-diff-version 1'', hash_line (6 # replicate 31 0) (6 # replicate 31 0), ''3a'', ''d'', ''.'', ''2d''])
   in consensus_diff_apply toy_sha3 (''a'' @ [NL] @ ''b'' @ [NL] @ ''c'' @ [NL]) diff = Some (Some (''a'' @ [NL] @ ''c'' @ [NL] @ ''d'' @ [NL]))"
  unfolding Let_def by (rule consensus_diff_roundtrip [OF _ toy_sha3_ok]) code_simp+

text \<open>C12. A generated diff starts with the header that \<open>looks_like_a_consensus_diff\<close> recognises,
  and it names the digests of the two documents: the digest as signed of the base and the plain
  digest of the target.\<close>

theorem generated_diff_header:
  assumes "consensus_diff_generate sha3 cons1 cons2 = Some (Some diff)" "sha3_ok sha3"
    and "int (length cons1) \<le> INT32_MAX"
  shows "looks_like_a_consensus_diff diff
    \<and> Option.bind (consensus_split_lines diff) consdiff_get_digests
      = Some (the (consensus_compute_digest_as_signed sha3 cons1), the (consensus_compute_digest sha3 cons2))"
proof -
  from diff_generate_lines [OF assms] obtain d1 d2 ed where
    d: "consensus_compute_digest_as_signed sha3 cons1 = Some d1" "sha3 cons2 = Some d2"
      "length d1 = DIGEST256_LEN" "length d2 = DIGEST256_LEN"
    and e: "consensus_split_lines diff = Some ([ns_diff_version, hash_line d1 d2] @ ed)"
      "diff = concat (map (\<lambda>l. l @ [NL]) ([ns_diff_version, hash_line d1 d2] @ ed))" by blast
  then show ?thesis
    using get_digests_header [OF d(3,4), of ed] by (simp add: looks_like_a_consensus_diff_def consensus_compute_digest_def)
qed

theorem generated_diff_header_witness:
  "looks_like_a_consensus_diff (concat (map (\<lambda>l. l @ [NL])
       [''network-status-diff-version 1'', hash_line (6 # replicate 31 0) (6 # replicate 31 0), ''3a'', ''d'', ''.'', ''2d'']))"
  by (rule generated_diff_header [of toy_sha3 "''a'' @ [NL] @ ''b'' @ [NL] @ ''c'' @ [NL]" "''a'' @ [NL] @ ''c'' @ [NL] @ ''d'' @ [NL]",
        OF _ toy_sha3_ok, THEN conjunct1]) code_simp+

text \<open>C21. Any result of \<open>consensus_diff_apply\<close> has the digest its diff announces, and the diff
  announced the digest of the base: a corrupted base, diff or result is never returned.\<close>

theorem consensus_diff_apply_checked:
  assumes "consensus_diff_apply sha3 cons1 diff = Some (Some cons2)" "sha3_ok sha3"
  shows "\<exists>d1 d2. Option.bind (consensus_split_lines diff) consdiff_get_digests = Some (d1, d2)
    \<and> consensus_compute_digest_as_signed sha3 cons1 = Some d1 \<and> sha3 (c_str cons2) = Some d2"
proof -
  obtain d1 where d1: "consensus_compute_digest_as_signed sha3 cons1 = Some d1" "length d1 = DIGEST256_LEN"
    using sha3_as_signed [OF assms(2)] by blast
  obtain d2 where d2: "sha3 (c_str cons2) = Some d2" "length d2 = DIGEST256_LEN"
    using assms(2) by (auto simp: sha3_ok_def)
  from assms(1) d1 obtain dl e1 e2 where l: "consensus_split_lines diff = Some dl"
      "consdiff_get_digests dl = Some (e1, e2)" "consensus_digest_eq d1 e1"
      "consensus_digest_eq d2 e2"
    using d2 by (auto simp: consensus_diff_apply_def consdiff_apply_diff_def consensus_compute_digest_def consensus_join_lines_eq
        split: option.splits if_splits)
  have "length e1 = DIGEST256_LEN" "length e2 = DIGEST256_LEN"
    using l(2) by (auto simp: consdiff_get_digests_def split: if_splits option.splits)
  then have "e1 = d1" "e2 = d2" using l(3,4) d1(2) d2(2) by (auto simp: consensus_digest_eq_def)
  then show ?thesis using l d1 d2 by simp
qed

theorem consensus_diff_apply_checked_witness:
  "\<exists>d1 d2. Option.bind (consensus_split_lines (concat (map (\<lambda>l. l @ [NL])
       [''network-status-diff-version 1'', hash_line (6 # replicate 31 0) (6 # replicate 31 0), ''3a'', ''d'', ''.'', ''2d''])))
       consdiff_get_digests = Some (d1, d2)
    \<and> consensus_compute_digest_as_signed toy_sha3 (''a'' @ [NL] @ ''b'' @ [NL] @ ''c'' @ [NL]) = Some d1
    \<and> toy_sha3 (c_str (''a'' @ [NL] @ ''c'' @ [NL] @ ''d'' @ [NL])) = Some d2"
  by (rule consensus_diff_apply_checked [OF _ toy_sha3_ok]) code_simp

end
