(* ===== verification/Buffers.thy ===== *)
theory Buffers
  imports Tor_Strings
begin

text \<open>
  \<open>lib/buf/buffers.c\<close>: byte buffers as chains of chunks.  A chunk carries its storage as a list of
  characters and the offset of its first data byte; reading or writing outside the storage is
  \<open>None\<close>, as is a failed assertion.  The chain is a list, so \<open>buf->head\<close> and \<open>buf->tail\<close> are its
  first and last elements.  Sizes are natural numbers; the one place where \<open>size_t\<close> can wrap is
  written out.  The constants are those of a 64-bit build with chunk debugging, as
  \<open>buffers.h\<close> selects it, and with memory sentinels.
\<close>

section \<open>State\<close>

record chunk_t =
  ch_datalen :: nat
  ch_memlen :: nat
  ch_DBG_alloc :: nat
  ch_data :: nat
  ch_inserted_time :: u32
  ch_mem :: string

record buf_t =
  b_magic :: u32
  b_datalen :: nat
  b_default_chunk_size :: nat
  b_chunks :: "chunk_t list"

text \<open>
  What the functions reach besides their arguments: the running total of allocated bytes, the
  coarse clock, and the contents of freshly allocated memory.
\<close>

record buf_env =
  total_bytes_allocated_in_chunks :: nat
  coarse_stamp :: u32
  junk :: "nat \<Rightarrow> char"

definition CHUNK_HEADER_LEN :: nat where "CHUNK_HEADER_LEN = 44"
definition SENTINEL_LEN :: nat where "SENTINEL_LEN = 4"
definition CHUNK_OVERHEAD :: nat where "CHUNK_OVERHEAD = CHUNK_HEADER_LEN + SENTINEL_LEN"
definition MIN_CHUNK_ALLOC :: nat where "MIN_CHUNK_ALLOC = 256"
definition MAX_CHUNK_ALLOC :: nat where "MAX_CHUNK_ALLOC = 65536"
definition BUF_MAX_LEN :: nat where "BUF_MAX_LEN = 2147483646"
definition BUFFER_MAGIC :: u32 where "BUFFER_MAGIC = 0xB0FFF312"
definition SIZE_CEILING :: nat where "SIZE_CEILING = 9223372036854775791"

definition CHUNK_ALLOC_SIZE :: "nat \<Rightarrow> nat" where
  "CHUNK_ALLOC_SIZE memlen = CHUNK_OVERHEAD + memlen"

definition CHUNK_SIZE_WITH_ALLOC :: "nat \<Rightarrow> nat" where
  "CHUNK_SIZE_WITH_ALLOC alloc = alloc - CHUNK_OVERHEAD"

definition CHUNK_REMAINING_CAPACITY :: "chunk_t \<Rightarrow> nat" where
  "CHUNK_REMAINING_CAPACITY chunk = ch_memlen chunk - (ch_data chunk + ch_datalen chunk)"

definition CHUNK_WRITE_PTR :: "chunk_t \<Rightarrow> nat" where
  "CHUNK_WRITE_PTR chunk = ch_data chunk + ch_datalen chunk"

text \<open>Memory accesses fail outside the storage of a chunk.\<close>

definition mem_write :: "string \<Rightarrow> nat \<Rightarrow> string \<Rightarrow> string option" where
  "mem_write mem off bs =
     (if off + length bs \<le> length mem then Some (take off mem @ bs @ drop (off + length bs) mem) else None)"

definition mem_read :: "string \<Rightarrow> nat \<Rightarrow> nat \<Rightarrow> string option" where
  "mem_read mem off n = (if off + n \<le> length mem then Some (take n (drop off mem)) else None)"

definition fresh_mem :: "buf_env \<Rightarrow> nat \<Rightarrow> string" where
  "fresh_mem e n = map (junk e) [0..<n]"

section \<open>Chunks\<close>

definition chunk_repack :: "chunk_t \<Rightarrow> chunk_t option" where
  "chunk_repack chunk = do {
     mem \<leftarrow> (if ch_datalen chunk \<noteq> 0 \<and> ch_data chunk \<noteq> 0
             then do { bs \<leftarrow> mem_read (ch_mem chunk) (ch_data chunk) (ch_datalen chunk);
                       mem_write (ch_mem chunk) 0 bs }
             else Some (ch_mem chunk));
     Some (chunk\<lparr>ch_mem := mem, ch_data := 0\<rparr>)
   }"

definition buf_chunk_free_unchecked :: "chunk_t \<Rightarrow> buf_env \<Rightarrow> buf_env option" where
  "buf_chunk_free_unchecked chunk e = do {
     tor_assert (CHUNK_ALLOC_SIZE (ch_memlen chunk) = ch_DBG_alloc chunk);
     tor_assert (total_bytes_allocated_in_chunks e \<ge> CHUNK_ALLOC_SIZE (ch_memlen chunk));
     Some (e\<lparr>total_bytes_allocated_in_chunks := total_bytes_allocated_in_chunks e - CHUNK_ALLOC_SIZE (ch_memlen chunk)\<rparr>)
   }"

definition chunk_new_with_alloc_size :: "nat \<Rightarrow> buf_env \<Rightarrow> chunk_t \<times> buf_env" where
  "chunk_new_with_alloc_size alloc e =
     (let memlen = CHUNK_SIZE_WITH_ALLOC alloc in
      (\<lparr>ch_datalen = 0, ch_memlen = memlen, ch_DBG_alloc = alloc, ch_data = 0, ch_inserted_time = 0, ch_mem = fresh_mem e memlen\<rparr>,
       e\<lparr>total_bytes_allocated_in_chunks := total_bytes_allocated_in_chunks e + alloc\<rparr>))"

definition chunk_grow :: "chunk_t \<Rightarrow> nat \<Rightarrow> buf_env \<Rightarrow> (chunk_t \<times> buf_env) option" where
  "chunk_grow chunk sz e = do {
     let orig_alloc = CHUNK_ALLOC_SIZE (ch_memlen chunk);
     let new_alloc = CHUNK_ALLOC_SIZE sz;
     tor_assert (sz > ch_memlen chunk);
     tor_assert (ch_DBG_alloc chunk = orig_alloc);
     Some (chunk\<lparr>ch_memlen := sz, ch_DBG_alloc := new_alloc, ch_mem := ch_mem chunk @ fresh_mem e (sz - ch_memlen chunk)\<rparr>,
           e\<lparr>total_bytes_allocated_in_chunks := total_bytes_allocated_in_chunks e + (new_alloc - orig_alloc)\<rparr>)
   }"

text \<open>The doubling loop; it starts at \<open>MIN_CHUNK_ALLOC\<close>, so the size is never 0.\<close>

function preferred_size_loop :: "nat \<Rightarrow> nat \<Rightarrow> nat" where
  "preferred_size_loop sz target =
     (if 0 < sz \<and> CHUNK_SIZE_WITH_ALLOC sz < target then preferred_size_loop (sz * 2) target else sz)"
  by pat_completeness auto
termination
  by (relation "measure (\<lambda>(sz, target). target + CHUNK_OVERHEAD - sz)") (auto simp: CHUNK_SIZE_WITH_ALLOC_def)

declare preferred_size_loop.simps [simp del]

definition buf_preferred_chunk_size :: "nat \<Rightarrow> nat option" where
  "buf_preferred_chunk_size target = do {
     tor_assert (target \<le> SIZE_CEILING - CHUNK_OVERHEAD);
     if CHUNK_ALLOC_SIZE target \<ge> MAX_CHUNK_ALLOC then Some (CHUNK_ALLOC_SIZE target)
     else Some (preferred_size_loop MIN_CHUNK_ALLOC target)
   }"

section \<open>Buffers\<close>

definition buf_new :: buf_t where
  "buf_new = \<lparr>b_magic = BUFFER_MAGIC, b_datalen = 0, b_default_chunk_size = 4096, b_chunks = []\<rparr>"

definition buf_new_with_capacity :: "nat \<Rightarrow> buf_t option" where
  "buf_new_with_capacity capacity = do {
     sz \<leftarrow> buf_preferred_chunk_size capacity;
     Some (buf_new\<lparr>b_default_chunk_size := sz\<rparr>)
   }"

fun free_chunks :: "chunk_t list \<Rightarrow> buf_env \<Rightarrow> buf_env option" where
  "free_chunks [] e = Some e"
| "free_chunks (chunk # rest) e = do { e \<leftarrow> buf_chunk_free_unchecked chunk e; free_chunks rest e }"

definition buf_clear :: "buf_t \<Rightarrow> buf_env \<Rightarrow> (buf_t \<times> buf_env) option" where
  "buf_clear buf e = do {
     e \<leftarrow> free_chunks (b_chunks buf) e;
     Some (buf\<lparr>b_datalen := 0, b_chunks := []\<rparr>, e)
   }"

definition buf_free :: "buf_t \<Rightarrow> buf_env \<Rightarrow> buf_env option" where
  "buf_free buf e = do { (_, e) \<leftarrow> buf_clear buf e; Some e }"

definition buf_get_default_chunk_size :: "buf_t \<Rightarrow> nat" where
  "buf_get_default_chunk_size buf = b_default_chunk_size buf"

definition buf_datalen :: "buf_t \<Rightarrow> nat" where
  "buf_datalen buf = b_datalen buf"

definition buf_allocation :: "buf_t \<Rightarrow> nat" where
  "buf_allocation buf = sum_list (map (\<lambda>chunk. CHUNK_ALLOC_SIZE (ch_memlen chunk)) (b_chunks buf))"

definition buf_slack :: "buf_t \<Rightarrow> nat" where
  "buf_slack buf = (if b_chunks buf = [] then 0 else CHUNK_REMAINING_CAPACITY (last (b_chunks buf)))"

text \<open>The copied chunks count as newly allocated.\<close>

definition chunk_copy :: "chunk_t \<Rightarrow> buf_env \<Rightarrow> chunk_t \<times> buf_env" where
  "chunk_copy in_chunk e =
     (in_chunk\<lparr>ch_DBG_alloc := CHUNK_ALLOC_SIZE (ch_memlen in_chunk)\<rparr>,
      e\<lparr>total_bytes_allocated_in_chunks := total_bytes_allocated_in_chunks e + CHUNK_ALLOC_SIZE (ch_memlen in_chunk)\<rparr>)"

fun copy_chunks :: "chunk_t list \<Rightarrow> buf_env \<Rightarrow> chunk_t list \<times> buf_env" where
  "copy_chunks [] e = ([], e)"
| "copy_chunks (in_chunk # rest) e =
     (let (newch, e) = chunk_copy in_chunk e;
          (out, e) = copy_chunks rest e
      in (newch # out, e))"

definition buf_copy :: "buf_t \<Rightarrow> buf_env \<Rightarrow> buf_t \<times> buf_env" where
  "buf_copy buf e =
     (let (chunks, e) = copy_chunks (b_chunks buf) e
      in (buf_new\<lparr>b_default_chunk_size := b_default_chunk_size buf, b_chunks := chunks, b_datalen := b_datalen buf\<rparr>, e))"

definition buf_set_to_copy :: "buf_t option \<Rightarrow> buf_t \<Rightarrow> buf_env \<Rightarrow> (buf_t \<times> buf_env) option" where
  "buf_set_to_copy output input e = do {
     e \<leftarrow> (case output of None \<Rightarrow> Some e | Some b \<Rightarrow> buf_free b e);
     Some (buf_copy input e)
   }"

definition buf_add_chunk_with_capacity :: "buf_t \<Rightarrow> nat \<Rightarrow> bool \<Rightarrow> buf_env \<Rightarrow> (buf_t \<times> buf_env) option" where
  "buf_add_chunk_with_capacity buf capacity capped e = do {
     (chunk, e) \<leftarrow>
       (if CHUNK_ALLOC_SIZE capacity < b_default_chunk_size buf
        then Some (chunk_new_with_alloc_size (b_default_chunk_size buf) e)
        else if capped \<and> CHUNK_ALLOC_SIZE capacity > MAX_CHUNK_ALLOC
        then Some (chunk_new_with_alloc_size MAX_CHUNK_ALLOC e)
        else do { sz \<leftarrow> buf_preferred_chunk_size capacity; Some (chunk_new_with_alloc_size sz e) });
     let chunk = chunk\<lparr>ch_inserted_time := coarse_stamp e\<rparr>;
     Some (buf\<lparr>b_chunks := b_chunks buf @ [chunk]\<rparr>, e)
   }"

definition buf_get_total_allocation :: "buf_env \<Rightarrow> nat" where
  "buf_get_total_allocation e = total_bytes_allocated_in_chunks e"

definition buf_get_oldest_chunk_timestamp :: "buf_t \<Rightarrow> u32 \<Rightarrow> u32" where
  "buf_get_oldest_chunk_timestamp buf now =
     (case b_chunks buf of [] \<Rightarrow> 0 | chunk # _ \<Rightarrow> now - ch_inserted_time chunk)"

text \<open>Writing to the tail chunk.\<close>

definition append_to_tail :: "buf_t \<Rightarrow> string \<Rightarrow> buf_t option" where
  "append_to_tail buf bs =
     (if b_chunks buf = [] then None
      else do {
        let tail = last (b_chunks buf);
        mem \<leftarrow> mem_write (ch_mem tail) (CHUNK_WRITE_PTR tail) bs;
        let tail = tail\<lparr>ch_mem := mem, ch_datalen := ch_datalen tail + length bs\<rparr>;
        Some (buf\<lparr>b_datalen := b_datalen buf + length bs, b_chunks := butlast (b_chunks buf) @ [tail]\<rparr>)
      })"

text \<open>\<open>None\<close> also stands for a loop that does not end.\<close>

partial_function (option) buf_add_loop :: "buf_t \<Rightarrow> string \<Rightarrow> buf_env \<Rightarrow> (buf_t \<times> buf_env) option" where
  "buf_add_loop buf string e =
     (if string = [] then Some (buf, e)
      else do {
        (buf, e) \<leftarrow>
          (if b_chunks buf = [] \<or> CHUNK_REMAINING_CAPACITY (last (b_chunks buf)) = 0
           then buf_add_chunk_with_capacity buf (length string) True e else Some (buf, e));
        let copy = min (CHUNK_REMAINING_CAPACITY (last (b_chunks buf))) (length string);
        buf \<leftarrow> append_to_tail buf (take copy string);
        buf_add_loop buf (drop copy string) e
      })"

text \<open>\<open>BUF_MAX_LEN - string_len\<close> is computed in \<open>size_t\<close>.  The inner \<open>None\<close> is the return value \<open>-1\<close>.\<close>

definition exceeds_max :: "nat \<Rightarrow> nat \<Rightarrow> bool" where
  "exceeds_max datalen n \<longleftrightarrow> int datalen > (int BUF_MAX_LEN - int n) mod 2 ^ 64"

definition buf_add :: "buf_t \<Rightarrow> string \<Rightarrow> buf_env \<Rightarrow> (nat option \<times> buf_t \<times> buf_env) option" where
  "buf_add buf string e =
     (if string = [] then Some (Some (b_datalen buf), buf, e)
      else if b_datalen buf > BUF_MAX_LEN then Some (None, buf, e)
      else if exceeds_max (b_datalen buf) (length string) then Some (None, buf, e)
      else do {
        (buf, e) \<leftarrow> buf_add_loop buf string e;
        tor_assert (b_datalen buf \<le> BUF_MAX_LEN);
        Some (Some (b_datalen buf), buf, e)
      })"

definition buf_add_string :: "buf_t \<Rightarrow> string \<Rightarrow> buf_env \<Rightarrow> (buf_t \<times> buf_env) option" where
  "buf_add_string buf string e = do { (_, buf, e) \<leftarrow> buf_add buf string e; Some (buf, e) }"

section \<open>Removing data\<close>

fun drain_loop :: "nat \<Rightarrow> nat \<Rightarrow> chunk_t list \<Rightarrow> buf_env \<Rightarrow> (nat \<times> chunk_t list \<times> buf_env) option" where
  "drain_loop n datalen chunks e =
     (if n = 0 then Some (datalen, chunks, e)
      else case chunks of
        [] \<Rightarrow> None
      | head # rest \<Rightarrow>
          if ch_datalen head > n then
            Some (datalen - n, head\<lparr>ch_datalen := ch_datalen head - n, ch_data := ch_data head + n\<rparr> # rest, e)
          else do {
            e \<leftarrow> buf_chunk_free_unchecked head e;
            drain_loop (n - ch_datalen head) (datalen - ch_datalen head) rest e
          })"

declare drain_loop.simps [simp del]

definition buf_drain :: "buf_t \<Rightarrow> nat \<Rightarrow> buf_env \<Rightarrow> (buf_t \<times> buf_env) option" where
  "buf_drain buf n e = do {
     tor_assert (b_datalen buf \<ge> n);
     (datalen, chunks, e) \<leftarrow> drain_loop n (b_datalen buf) (b_chunks buf) e;
     Some (buf\<lparr>b_datalen := datalen, b_chunks := chunks\<rparr>, e)
   }"

fun peek_loop :: "nat \<Rightarrow> chunk_t list \<Rightarrow> string option" where
  "peek_loop string_len chunks =
     (if string_len = 0 then Some []
      else case chunks of
        [] \<Rightarrow> None
      | chunk # rest \<Rightarrow> do {
          let copy = min (ch_datalen chunk) string_len;
          bs \<leftarrow> mem_read (ch_mem chunk) (ch_data chunk) copy;
          more \<leftarrow> peek_loop (string_len - copy) rest;
          Some (bs @ more)
        })"

declare peek_loop.simps [simp del]

definition buf_peek :: "buf_t \<Rightarrow> nat \<Rightarrow> string option" where
  "buf_peek buf string_len = do {
     tor_assert (string_len \<le> b_datalen buf);
     peek_loop string_len (b_chunks buf)
   }"

definition buf_get_bytes :: "buf_t \<Rightarrow> nat \<Rightarrow> buf_env \<Rightarrow> (string \<times> buf_t \<times> buf_env) option" where
  "buf_get_bytes buf string_len e = do {
     string \<leftarrow> buf_peek buf string_len;
     (buf, e) \<leftarrow> buf_drain buf string_len e;
     tor_assert (b_datalen buf \<le> BUF_MAX_LEN);
     Some (string, buf, e)
   }"

definition buf_extract :: "buf_t \<Rightarrow> string option" where
  "buf_extract buf = buf_peek buf (buf_datalen buf)"


definition MOVE_BUF_LEN :: nat where "MOVE_BUF_LEN = 4096"

text \<open>The result of \<open>buf_add\<close> in the loop is ignored, as in the code.\<close>

function move_loop :: "buf_t \<Rightarrow> buf_t \<Rightarrow> nat \<Rightarrow> buf_env \<Rightarrow> (buf_t \<times> buf_t \<times> buf_env) option" where
  "move_loop buf_out buf_in len e =
     (if len = 0 then Some (buf_out, buf_in, e)
      else do {
        let n = (if len > MOVE_BUF_LEN then MOVE_BUF_LEN else len);
        (b, buf_in, e) \<leftarrow> buf_get_bytes buf_in n e;
        (_, buf_out, e) \<leftarrow> buf_add buf_out b e;
        move_loop buf_out buf_in (len - n) e
      })"
  by pat_completeness auto
termination
  by (relation "measure (\<lambda>(_, _, len, _). len)") (auto simp: MOVE_BUF_LEN_def)

declare move_loop.simps [simp del]

text \<open>Result: the return value (\<open>None\<close> for \<open>-1\<close>), the new flush length, the buffers.\<close>

definition buf_move_to_buf ::
  "buf_t \<Rightarrow> buf_t \<Rightarrow> nat \<Rightarrow> buf_env \<Rightarrow> (nat option \<times> nat \<times> buf_t \<times> buf_t \<times> buf_env) option" where
  "buf_move_to_buf buf_out buf_in buf_flushlen e =
     (if b_datalen buf_out > BUF_MAX_LEN \<or> buf_flushlen > BUF_MAX_LEN then Some (None, buf_flushlen, buf_out, buf_in, e)
      else if exceeds_max (b_datalen buf_out) buf_flushlen then Some (None, buf_flushlen, buf_out, buf_in, e)
      else do {
        let len = (if buf_flushlen > b_datalen buf_in then b_datalen buf_in else buf_flushlen);
        let cp = len;
        tor_assert (cp \<le> BUF_MAX_LEN);
        (buf_out, buf_in, e) \<leftarrow> move_loop buf_out buf_in len e;
        Some (Some cp, buf_flushlen - cp, buf_out, buf_in, e)
      })"

definition buf_move_all :: "buf_t \<Rightarrow> buf_t \<Rightarrow> nat \<times> buf_t \<times> buf_t" where
  "buf_move_all buf_out buf_in =
     (if buf_datalen buf_in = 0 then (0, buf_out, buf_in)
      else if b_datalen buf_out > BUF_MAX_LEN \<or> b_datalen buf_in > BUF_MAX_LEN then (0, buf_out, buf_in)
      else if exceeds_max (b_datalen buf_out) (b_datalen buf_in) then (0, buf_out, buf_in)
      else (b_datalen buf_in,
            buf_out\<lparr>b_chunks := b_chunks buf_out @ b_chunks buf_in, b_datalen := b_datalen buf_out + b_datalen buf_in\<rparr>,
            buf_in\<lparr>b_chunks := [], b_datalen := 0\<rparr>))"

section \<open>Pulling up\<close>

fun pullup_loop :: "nat \<Rightarrow> chunk_t \<Rightarrow> chunk_t list \<Rightarrow> buf_env \<Rightarrow> (chunk_t list \<times> buf_env) option" where
  "pullup_loop bytes dest rest e =
     (if \<not> ch_datalen dest < bytes then Some (dest # rest, e)
      else case rest of
        [] \<Rightarrow> None
      | src # rest \<Rightarrow>
          let n = bytes - ch_datalen dest in
          if n \<ge> ch_datalen src then do {
            bs \<leftarrow> mem_read (ch_mem src) (ch_data src) (ch_datalen src);
            mem \<leftarrow> mem_write (ch_mem dest) (CHUNK_WRITE_PTR dest) bs;
            e \<leftarrow> buf_chunk_free_unchecked src e;
            pullup_loop bytes (dest\<lparr>ch_mem := mem, ch_datalen := ch_datalen dest + ch_datalen src\<rparr>) rest e
          } else do {
            bs \<leftarrow> mem_read (ch_mem src) (ch_data src) n;
            mem \<leftarrow> mem_write (ch_mem dest) (CHUNK_WRITE_PTR dest) bs;
            let dest = dest\<lparr>ch_mem := mem, ch_datalen := ch_datalen dest + n\<rparr>;
            tor_assert (ch_datalen dest = bytes);
            Some (dest # src\<lparr>ch_data := ch_data src + n, ch_datalen := ch_datalen src - n\<rparr> # rest, e)
          })"

declare pullup_loop.simps [simp del]

text \<open>The result is the contiguous data at the head (\<open>head_out\<close>, \<open>len_out\<close>), and the buffer.\<close>

definition buf_pullup :: "buf_t \<Rightarrow> nat \<Rightarrow> buf_env \<Rightarrow> (string \<times> buf_t \<times> buf_env) option" where
  "buf_pullup buf bytes e =
     (case b_chunks buf of
        [] \<Rightarrow> Some ([], buf, e)
      | head # rest \<Rightarrow> do {
          let bytes = (if b_datalen buf < bytes then b_datalen buf else bytes);
          let capacity = bytes;
          (chunks, e) \<leftarrow>
            (if ch_datalen head \<ge> bytes then Some (head # rest, e)
             else do {
               (head, e) \<leftarrow>
                 (if ch_memlen head \<ge> capacity then do {
                    let needed = capacity - ch_datalen head;
                    head \<leftarrow> (if CHUNK_REMAINING_CAPACITY head < needed then chunk_repack head else Some head);
                    tor_assert (CHUNK_REMAINING_CAPACITY head \<ge> needed);
                    Some (head, e)
                  } else do {
                    head \<leftarrow> chunk_repack head;
                    sz \<leftarrow> buf_preferred_chunk_size capacity;
                    (head, e) \<leftarrow> chunk_grow head (CHUNK_SIZE_WITH_ALLOC sz) e;
                    tor_assert (ch_memlen head \<ge> capacity);
                    Some (head, e)
                  });
               pullup_loop bytes head rest e
             });
          out \<leftarrow> mem_read (ch_mem (hd chunks)) (ch_data (hd chunks)) (ch_datalen (hd chunks));
          Some (out, buf\<lparr>b_chunks := chunks\<rparr>, e)
        })"

section \<open>Searching\<close>

text \<open>A position: the chunks from the current one on, the offset in the current one, and the bytes before it.\<close>

record buf_pos_t =
  bp_chunk :: "chunk_t list"
  bp_pos :: nat
  bp_chunk_pos :: nat

definition buf_pos_init :: "buf_t \<Rightarrow> buf_pos_t" where
  "buf_pos_init buf = \<lparr>bp_chunk = b_chunks buf, bp_pos = 0, bp_chunk_pos = 0\<rparr>"

text \<open>\<open>memchr(chunk->data+pos, ch, chunk->datalen - pos)\<close>, as an offset from \<open>chunk->data\<close>.\<close>

definition chunk_memchr :: "chunk_t \<Rightarrow> nat \<Rightarrow> char \<Rightarrow> nat option option" where
  "chunk_memchr chunk pos ch = do {
     bs \<leftarrow> mem_read (ch_mem chunk) (ch_data chunk + pos) (ch_datalen chunk - pos);
     Some (if ch \<in> set bs then Some (pos + length (takeWhile (\<lambda>c. c \<noteq> ch) bs)) else None)
   }"

fun find_pos_loop :: "char \<Rightarrow> chunk_t list \<Rightarrow> nat \<Rightarrow> nat \<Rightarrow> (nat option \<times> buf_pos_t) option" where
  "find_pos_loop ch [] pos chunk_pos = Some (None, \<lparr>bp_chunk = [], bp_pos = pos, bp_chunk_pos = chunk_pos\<rparr>)"
| "find_pos_loop ch (chunk # rest) pos chunk_pos = do {
     cp \<leftarrow> chunk_memchr chunk pos ch;
     case cp of
       Some off \<Rightarrow> do {
         tor_assert (off \<le> BUF_MAX_LEN);
         Some (Some (chunk_pos + off), \<lparr>bp_chunk = chunk # rest, bp_pos = off, bp_chunk_pos = chunk_pos\<rparr>)
       }
     | None \<Rightarrow> find_pos_loop ch rest 0 (chunk_pos + ch_datalen chunk)
   }"

text \<open>When nothing is found only \<open>chunk_pos\<close> changes; callers then stop using the position.\<close>

definition buf_find_pos_of_char :: "char \<Rightarrow> buf_pos_t \<Rightarrow> (nat option \<times> buf_pos_t) option" where
  "buf_find_pos_of_char ch out = do {
     tor_assert (case bp_chunk out of
         [] \<Rightarrow> True
       | chunk # _ \<Rightarrow> if ch_datalen chunk \<noteq> 0 then bp_pos out < ch_datalen chunk else bp_pos out = 0);
     (r, p) \<leftarrow> find_pos_loop ch (bp_chunk out) (bp_pos out) (bp_chunk_pos out);
     Some (r, if r = None then out\<lparr>bp_chunk_pos := bp_chunk_pos p\<rparr> else p)
   }"

text \<open>The inner \<open>None\<close> is the return value \<open>-1\<close>.\<close>

definition buf_pos_inc :: "buf_pos_t \<Rightarrow> buf_pos_t option option" where
  "buf_pos_inc p = do {
     tor_assert (bp_pos p < BUF_MAX_LEN);
     let p = p\<lparr>bp_pos := bp_pos p + 1\<rparr>;
     case bp_chunk p of
       [] \<Rightarrow> None
     | chunk # rest \<Rightarrow>
         if bp_pos p = ch_datalen chunk then
           (if rest = [] then Some None
            else Some (Some \<lparr>bp_chunk = rest, bp_pos = 0, bp_chunk_pos = bp_chunk_pos p + ch_datalen chunk\<rparr>))
         else Some (Some p)
   }"

text \<open>Reading \<open>data[pos]\<close> without a bound check: storage, then the NUL sentinel, then nothing defined.\<close>

definition chunk_byte :: "chunk_t \<Rightarrow> nat \<Rightarrow> char option" where
  "chunk_byte chunk pos =
     (let i = ch_data chunk + pos in
      if i < length (ch_mem chunk) then Some (ch_mem chunk ! i)
      else if i < length (ch_mem chunk) + SENTINEL_LEN then Some NUL
      else None)"

fun buf_matches_at_pos :: "buf_pos_t \<Rightarrow> string \<Rightarrow> bool option" where
  "buf_matches_at_pos p [] = Some True"
| "buf_matches_at_pos p (c # s) =
     (case bp_chunk p of
        [] \<Rightarrow> None
      | chunk # _ \<Rightarrow> do {
          ch \<leftarrow> chunk_byte chunk (bp_pos p);
          if ch \<noteq> c then Some False
          else if s = [] then Some True
          else do {
            r \<leftarrow> buf_pos_inc p;
            case r of None \<Rightarrow> Some False | Some p \<Rightarrow> buf_matches_at_pos p s
          }
        })"

text \<open>\<open>None\<close> also stands for a search that does not end; the inner \<open>None\<close> is \<open>-1\<close>.\<close>

partial_function (option) find_string_loop :: "string \<Rightarrow> buf_pos_t \<Rightarrow> nat option option" where
  "find_string_loop s pos = do {
     (r, pos) \<leftarrow> buf_find_pos_of_char (hd s) pos;
     if r = None then Some None
     else do {
       m \<leftarrow> buf_matches_at_pos pos s;
       if m then do {
         tor_assert (bp_chunk_pos pos + bp_pos pos \<le> BUF_MAX_LEN);
         Some (Some (bp_chunk_pos pos + bp_pos pos))
       } else do {
         q \<leftarrow> buf_pos_inc pos;
         case q of None \<Rightarrow> Some None | Some pos \<Rightarrow> find_string_loop s pos
       }
     }
   }"

definition buf_find_string_offset :: "buf_t \<Rightarrow> string \<Rightarrow> nat option option" where
  "buf_find_string_offset buf s = find_string_loop s (buf_pos_init buf)"

definition PEEK_BUF_STARTSWITH_MAX :: nat where "PEEK_BUF_STARTSWITH_MAX = 16"

definition buf_peek_startswith :: "buf_t \<Rightarrow> string \<Rightarrow> bool option" where
  "buf_peek_startswith buf cmd =
     (if cmd = [] then Some True
      else if length cmd > PEEK_BUF_STARTSWITH_MAX then Some False
      else if b_datalen buf < length cmd then Some False
      else do { tmp \<leftarrow> buf_peek buf (length cmd); Some (tmp = cmd) })"

fun find_offset_loop :: "char \<Rightarrow> chunk_t list \<Rightarrow> nat \<Rightarrow> nat option option" where
  "find_offset_loop ch [] offset = Some None"
| "find_offset_loop ch (chunk # rest) offset = do {
     cp \<leftarrow> chunk_memchr chunk 0 ch;
     case cp of
       Some off \<Rightarrow> Some (Some (offset + off))
     | None \<Rightarrow> find_offset_loop ch rest (offset + ch_datalen chunk)
   }"

definition buf_find_offset_of_char :: "buf_t \<Rightarrow> char \<Rightarrow> nat option option" where
  "buf_find_offset_of_char buf ch = do {
     tor_assert (b_datalen buf \<le> BUF_MAX_LEN);
     find_offset_loop ch (b_chunks buf) 0
   }"

datatype line_result = No_Line | Line_Too_Long nat | Line string

definition buf_get_line :: "buf_t \<Rightarrow> nat \<Rightarrow> buf_env \<Rightarrow> (line_result \<times> buf_t \<times> buf_env) option" where
  "buf_get_line buf data_len e =
     (if b_chunks buf = [] then Some (No_Line, buf, e)
      else do {
        offset \<leftarrow> buf_find_offset_of_char buf (CHR 0x0A);
        case offset of
          None \<Rightarrow> Some (No_Line, buf, e)
        | Some sz \<Rightarrow>
            if sz + 2 > data_len then Some (Line_Too_Long (sz + 2), buf, e)
            else do {
              (line, buf, e) \<leftarrow> buf_get_bytes buf (sz + 1) e;
              Some (Line line, buf, e)
            }
      })"

text \<open>The checks of \<open>buf_assert_ok\<close>.\<close>

definition buf_assert_ok :: "buf_t \<Rightarrow> bool" where
  "buf_assert_ok buf \<longleftrightarrow>
     b_magic buf = BUFFER_MAGIC
     \<and> (if b_chunks buf = [] then b_datalen buf = 0
        else (\<forall>ch \<in> set (b_chunks buf). ch_datalen ch \<le> ch_memlen ch \<and> ch_datalen ch \<le> BUF_MAX_LEN
                \<and> ch_data ch \<le> ch_memlen ch \<and> ch_data ch + ch_datalen ch \<le> ch_memlen ch)
             \<and> b_datalen buf = sum_list (map ch_datalen (b_chunks buf)))"

end
