(* ===== verification/Buffers_Queue.thy ===== *)
theory Buffers_Queue
  imports Buffers Smartlist_Split
begin

text \<open>
  The invariant of buffers, the contents they represent, what every operation does to both, and
  the proof that a buffer implements a plain byte queue (an interpretation of
  \<open>op_refinement\<close>).  The search results and the two defects found are at the end.
\<close>

lemmas overhead_defs = CHUNK_OVERHEAD_def CHUNK_HEADER_LEN_def SENTINEL_LEN_def

section \<open>Invariant and contents\<close>

definition chunk_ok :: "chunk_t \<Rightarrow> bool" where
  "chunk_ok ch \<longleftrightarrow> ch_DBG_alloc ch = CHUNK_ALLOC_SIZE (ch_memlen ch) \<and> length (ch_mem ch) = ch_memlen ch \<and> ch_data ch + ch_datalen ch \<le> ch_memlen ch"

definition chunk_bytes :: "chunk_t \<Rightarrow> string" where
  "chunk_bytes ch = take (ch_datalen ch) (drop (ch_data ch) (ch_mem ch))"

definition buf_content :: "buf_t \<Rightarrow> string" where
  "buf_content buf = concat (map chunk_bytes (b_chunks buf))"

definition buf_inv :: "buf_t \<Rightarrow> bool" where
  "buf_inv buf \<longleftrightarrow> b_magic buf = BUFFER_MAGIC \<and> (\<forall>ch \<in> set (b_chunks buf). chunk_ok ch)
     \<and> b_datalen buf = length (buf_content buf) \<and> b_datalen buf \<le> BUF_MAX_LEN
     \<and> CHUNK_OVERHEAD < b_default_chunk_size buf"

text \<open>Every chunk but the last holds data, and an empty chunk has room.\<close>

definition no_holes :: "chunk_t list \<Rightarrow> bool" where
  "no_holes chs \<longleftrightarrow> (\<forall>ch \<in> set (butlast chs). ch_datalen ch \<noteq> 0)
     \<and> (\<forall>ch \<in> set chs. ch_datalen ch = 0 \<longrightarrow> 0 < CHUNK_REMAINING_CAPACITY ch)"

text \<open>The allocation count moves with the allocation of the buffer; the rest of the environment stays.\<close>

definition accounted :: "buf_t \<Rightarrow> buf_env \<Rightarrow> buf_t \<Rightarrow> buf_env \<Rightarrow> bool" where
  "accounted buf e buf' e' \<longleftrightarrow>
     total_bytes_allocated_in_chunks e' + buf_allocation buf = total_bytes_allocated_in_chunks e + buf_allocation buf'
     \<and> coarse_stamp e' = coarse_stamp e \<and> junk e' = junk e"

definition alloc_ok :: "buf_t \<Rightarrow> buf_env \<Rightarrow> bool" where
  "alloc_ok buf e \<longleftrightarrow> buf_allocation buf \<le> total_bytes_allocated_in_chunks e"

lemma accounted_refl [simp]: "accounted buf e buf e"
  by (simp add: accounted_def)

lemma accounted_trans: "accounted b e b' e' \<Longrightarrow> accounted b' e' b'' e'' \<Longrightarrow> accounted b e b'' e''"
  by (auto simp: accounted_def)

lemma accounted_alloc: "accounted b e b' e' \<Longrightarrow> alloc_ok b e \<Longrightarrow> alloc_ok b' e'"
  by (auto simp: accounted_def alloc_ok_def)

lemma chunk_free [simp]:
  "chunk_ok ch \<Longrightarrow> buf_chunk_free_unchecked ch e =
     (if CHUNK_ALLOC_SIZE (ch_memlen ch) \<le> total_bytes_allocated_in_chunks e
      then Some (e\<lparr>total_bytes_allocated_in_chunks := total_bytes_allocated_in_chunks e - CHUNK_ALLOC_SIZE (ch_memlen ch)\<rparr>) else None)"
  by (simp add: buf_chunk_free_unchecked_def chunk_ok_def)

lemma chunk_bytes_length [simp]: "chunk_ok ch \<Longrightarrow> length (chunk_bytes ch) = ch_datalen ch"
  by (auto simp: chunk_ok_def chunk_bytes_def)

lemma content_length: "\<forall>ch \<in> set chs. chunk_ok ch \<Longrightarrow> length (concat (map chunk_bytes chs)) = sum_list (map ch_datalen chs)"
  by (induction chs) auto

lemma mem_read_bytes: "chunk_ok ch \<Longrightarrow> n \<le> ch_datalen ch \<Longrightarrow> mem_read (ch_mem ch) (ch_data ch) n = Some (take n (chunk_bytes ch))"
  by (auto simp: mem_read_def chunk_ok_def chunk_bytes_def min_def)

lemma allocation_simps [simp]:
  "buf_allocation (b\<lparr>b_chunks := []\<rparr>) = 0"
  "buf_allocation (b\<lparr>b_chunks := ch # chs\<rparr>) = CHUNK_ALLOC_SIZE (ch_memlen ch) + buf_allocation (b\<lparr>b_chunks := chs\<rparr>)"
  "buf_allocation (b\<lparr>b_chunks := chs @ chs'\<rparr>) = buf_allocation (b\<lparr>b_chunks := chs\<rparr>) + buf_allocation (b\<lparr>b_chunks := chs'\<rparr>)"
  "buf_allocation (b\<lparr>b_datalen := n\<rparr>) = buf_allocation b"
  "buf_allocation (b\<lparr>b_datalen := n, b_chunks := chs\<rparr>) = buf_allocation (b\<lparr>b_chunks := chs\<rparr>)"
  by (simp_all add: buf_allocation_def)

lemma buf_chunks_update: "b\<lparr>b_chunks := b_chunks b\<rparr> = b" by simp

lemma buf_new_inv: "buf_inv buf_new" "alloc_ok buf_new e" "buf_content buf_new = []" "no_holes (b_chunks buf_new)"
  by (simp_all add: buf_inv_def buf_new_def buf_content_def BUF_MAX_LEN_def overhead_defs alloc_ok_def buf_allocation_def no_holes_def)

section \<open>Chunk sizes\<close>

lemma preferred_size_loop_ge: "0 < sz \<Longrightarrow> target \<le> CHUNK_SIZE_WITH_ALLOC (preferred_size_loop sz target) \<and> sz \<le> preferred_size_loop sz target"
proof (induction sz target rule: preferred_size_loop.induct)
  case (1 sz target)
  then show ?case unfolding preferred_size_loop.simps [of sz target] by (auto simp: not_less)
qed

lemma preferred_size_loop_lt:
  "sz \<le> 2 * (target + CHUNK_OVERHEAD) \<Longrightarrow> preferred_size_loop sz target \<le> 2 * (target + CHUNK_OVERHEAD)"
proof (induction sz target rule: preferred_size_loop.induct)
  case (1 sz target)
  then show ?case unfolding preferred_size_loop.simps [of sz target] by (auto simp: CHUNK_SIZE_WITH_ALLOC_def)
qed

lemma preferred_size:
  assumes "target \<le> SIZE_CEILING - CHUNK_OVERHEAD"
  shows "\<exists>sz. buf_preferred_chunk_size target = Some sz \<and> CHUNK_OVERHEAD < sz \<and> target \<le> CHUNK_SIZE_WITH_ALLOC sz"
proof (cases "CHUNK_ALLOC_SIZE target \<ge> MAX_CHUNK_ALLOC")
  case True
  then show ?thesis
    using assms by (simp add: buf_preferred_chunk_size_def CHUNK_SIZE_WITH_ALLOC_def CHUNK_ALLOC_SIZE_def MAX_CHUNK_ALLOC_def overhead_defs)
next
  case False
  then show ?thesis
    using assms preferred_size_loop_ge [of MIN_CHUNK_ALLOC target]
    by (auto simp: buf_preferred_chunk_size_def MIN_CHUNK_ALLOC_def overhead_defs)
qed

section \<open>Appending\<close>

lemma add_chunk_spec:
  assumes "buf_inv buf" "capacity \<le> BUF_MAX_LEN" "0 < capacity"
  shows "\<exists>buf' e' ch. buf_add_chunk_with_capacity buf capacity capped e = Some (buf', e')
    \<and> buf' = buf\<lparr>b_chunks := b_chunks buf @ [ch]\<rparr> \<and> chunk_ok ch \<and> ch_datalen ch = 0 \<and> ch_data ch = 0 \<and> 0 < ch_memlen ch
    \<and> accounted buf e buf' e'"
proof -
  have "capacity \<le> SIZE_CEILING - CHUNK_OVERHEAD" using assms(2) by (simp add: BUF_MAX_LEN_def SIZE_CEILING_def overhead_defs)
  from preferred_size [OF this] obtain psz where psz: "buf_preferred_chunk_size capacity = Some psz" "CHUNK_OVERHEAD < psz"
    by blast
  define sz where "sz = (if CHUNK_ALLOC_SIZE capacity < b_default_chunk_size buf then b_default_chunk_size buf
      else if capped \<and> CHUNK_ALLOC_SIZE capacity > MAX_CHUNK_ALLOC then MAX_CHUNK_ALLOC else psz)"
  have "CHUNK_OVERHEAD < sz"
    using assms(1) psz(2) by (auto simp: sz_def buf_inv_def MAX_CHUNK_ALLOC_def overhead_defs)
  moreover have "buf_add_chunk_with_capacity buf capacity capped e =
      (let (ch, e) = chunk_new_with_alloc_size sz e
       in Some (buf\<lparr>b_chunks := b_chunks buf @ [ch\<lparr>ch_inserted_time := coarse_stamp e\<rparr>]\<rparr>, e))"
    using psz(1) by (simp add: buf_add_chunk_with_capacity_def sz_def Let_def split: prod.splits)
  ultimately show ?thesis
    by (auto simp: chunk_new_with_alloc_size_def Let_def chunk_ok_def fresh_mem_def CHUNK_SIZE_WITH_ALLOC_def accounted_def
        CHUNK_ALLOC_SIZE_def)
qed

lemma chunk_append:
  assumes "chunk_ok ch" "length bs \<le> CHUNK_REMAINING_CAPACITY ch"
  shows "\<exists>mem. mem_write (ch_mem ch) (CHUNK_WRITE_PTR ch) bs = Some mem
    \<and> chunk_ok (ch\<lparr>ch_mem := mem, ch_datalen := ch_datalen ch + length bs\<rparr>)
    \<and> chunk_bytes (ch\<lparr>ch_mem := mem, ch_datalen := ch_datalen ch + length bs\<rparr>) = chunk_bytes ch @ bs"
proof -
  let ?d = "ch_data ch" and ?n = "ch_datalen ch" and ?m = "ch_mem ch"
  have b: "?d + ?n + length bs \<le> length ?m" using assms by (auto simp: chunk_ok_def CHUNK_REMAINING_CAPACITY_def)
  have "take (?n + length bs) (drop ?d (take (?d + ?n) ?m @ bs @ drop (?d + ?n + length bs) ?m)) = take ?n (drop ?d ?m) @ bs"
    using b by (simp add: drop_take)
  then show ?thesis
    using b assms(1) by (auto simp: mem_write_def CHUNK_WRITE_PTR_def chunk_ok_def chunk_bytes_def)
qed

lemma append_to_tail_spec:
  assumes "buf_inv buf" "b_chunks buf = chs @ [ch]" "length bs \<le> CHUNK_REMAINING_CAPACITY ch" "b_datalen buf + length bs \<le> BUF_MAX_LEN"
  shows "\<exists>ch'. append_to_tail buf bs = Some (buf\<lparr>b_datalen := b_datalen buf + length bs, b_chunks := chs @ [ch']\<rparr>)
    \<and> ch_memlen ch' = ch_memlen ch \<and> ch_datalen ch' = ch_datalen ch + length bs
    \<and> buf_inv (buf\<lparr>b_datalen := b_datalen buf + length bs, b_chunks := chs @ [ch']\<rparr>)
    \<and> buf_content (buf\<lparr>b_datalen := b_datalen buf + length bs, b_chunks := chs @ [ch']\<rparr>) = buf_content buf @ bs"
proof -
  have "chunk_ok ch" using assms(1,2) by (simp add: buf_inv_def)
  from chunk_append [OF this assms(3)] show ?thesis
    using assms by (auto simp: append_to_tail_def buf_inv_def buf_content_def)
qed

lemma room_at_tail:
  assumes "buf_inv buf" "s \<noteq> []" "b_datalen buf + length s \<le> BUF_MAX_LEN"
  shows "\<exists>buf1 e1 chs ch.
      (if b_chunks buf = [] \<or> CHUNK_REMAINING_CAPACITY (last (b_chunks buf)) = 0
       then buf_add_chunk_with_capacity buf (length s) True e else Some (buf, e)) = Some (buf1, e1)
    \<and> b_chunks buf1 = chs @ [ch] \<and> 0 < CHUNK_REMAINING_CAPACITY ch \<and> buf_inv buf1 \<and> buf_content buf1 = buf_content buf
    \<and> b_datalen buf1 = b_datalen buf \<and> b_default_chunk_size buf1 = b_default_chunk_size buf
    \<and> accounted buf e buf1 e1 \<and> (no_holes (b_chunks buf) \<longrightarrow> (\<forall>c \<in> set chs. ch_datalen c \<noteq> 0))"
proof (cases "b_chunks buf = [] \<or> CHUNK_REMAINING_CAPACITY (last (b_chunks buf)) = 0")
  case True
  from add_chunk_spec [OF assms(1), of "length s" True e] assms(2,3) obtain buf1 e1 ch where
    a: "buf_add_chunk_with_capacity buf (length s) True e = Some (buf1, e1)" "buf1 = buf\<lparr>b_chunks := b_chunks buf @ [ch]\<rparr>"
    "chunk_ok ch" "ch_datalen ch = 0" "ch_data ch = 0" "0 < ch_memlen ch" "accounted buf e buf1 e1" by auto
  have "chunk_bytes ch = []" using a(4) by (simp add: chunk_bytes_def)
  then have "buf_inv buf1" "buf_content buf1 = buf_content buf" using a assms(1) by (auto simp: buf_inv_def buf_content_def)
  moreover have "no_holes (b_chunks buf) \<longrightarrow> (\<forall>c \<in> set (b_chunks buf). ch_datalen c \<noteq> 0)"
    using True by (cases "b_chunks buf" rule: rev_cases) (auto simp: no_holes_def)
  ultimately show ?thesis using a True by (auto simp: CHUNK_REMAINING_CAPACITY_def)
next
  case F: False
  then obtain chs ch where "b_chunks buf = chs @ [ch]" by (cases "b_chunks buf" rule: rev_cases) auto
  then show ?thesis using F assms(1) by (auto simp: no_holes_def)
qed

lemma buf_add_loop_spec:
  assumes "buf_inv buf" "b_datalen buf + length s \<le> BUF_MAX_LEN"
  shows "\<exists>buf' e'. buf_add_loop buf s e = Some (buf', e') \<and> buf_inv buf' \<and> buf_content buf' = buf_content buf @ s
    \<and> accounted buf e buf' e' \<and> (no_holes (b_chunks buf) \<longrightarrow> no_holes (b_chunks buf'))
    \<and> b_default_chunk_size buf' = b_default_chunk_size buf"
  using assms
proof (induction "length s" arbitrary: buf s e rule: less_induct)
  case less
  show ?case
  proof (cases "s = []")
    case True
    then show ?thesis using less.prems by (subst buf_add_loop.simps) simp
  next
    case False
    from room_at_tail [OF less.prems(1) False less.prems(2), of e] obtain buf1 e1 chs ch where
      b1: "(if b_chunks buf = [] \<or> CHUNK_REMAINING_CAPACITY (last (b_chunks buf)) = 0
            then buf_add_chunk_with_capacity buf (length s) True e else Some (buf, e)) = Some (buf1, e1)"
      "b_chunks buf1 = chs @ [ch]" "0 < CHUNK_REMAINING_CAPACITY ch" "buf_inv buf1" "buf_content buf1 = buf_content buf"
      "b_datalen buf1 = b_datalen buf" "b_default_chunk_size buf1 = b_default_chunk_size buf" "accounted buf e buf1 e1"
      "no_holes (b_chunks buf) \<longrightarrow> (\<forall>c \<in> set chs. ch_datalen c \<noteq> 0)" by blast
    define copy where "copy = min (CHUNK_REMAINING_CAPACITY ch) (length s)"
    have copy: "0 < copy" "copy \<le> length s" "copy \<le> CHUNK_REMAINING_CAPACITY ch" using b1(3) False by (auto simp: copy_def)
    then have tk: "length (take copy s) = copy" by simp
    obtain ch' where c': "append_to_tail buf1 (take copy s) = Some (buf1\<lparr>b_datalen := b_datalen buf1 + copy, b_chunks := chs @ [ch']\<rparr>)"
      "ch_memlen ch' = ch_memlen ch" "ch_datalen ch' = ch_datalen ch + copy"
      "buf_inv (buf1\<lparr>b_datalen := b_datalen buf1 + copy, b_chunks := chs @ [ch']\<rparr>)"
      "buf_content (buf1\<lparr>b_datalen := b_datalen buf1 + copy, b_chunks := chs @ [ch']\<rparr>) = buf_content buf1 @ take copy s"
      using append_to_tail_spec [OF b1(4,2), of "take copy s"] copy less.prems(2) b1(6) unfolding tk by auto
    define buf2 where "buf2 = buf1\<lparr>b_datalen := b_datalen buf1 + copy, b_chunks := chs @ [ch']\<rparr>"
    have nh: "no_holes (b_chunks buf) \<longrightarrow> no_holes (b_chunks buf2)"
      using b1(9) c'(3) copy(1) by (auto simp: buf2_def no_holes_def)
    have acc: "accounted buf1 e1 buf2 e1"
      using b1(2) c'(2) by (simp add: accounted_def buf2_def) (simp add: buf_allocation_def)
    have step: "buf_add_loop buf s e = buf_add_loop buf2 (drop copy s) e1"
      using False b1(1,2) c'(1) by (subst buf_add_loop.simps) (simp add: buf2_def copy_def [symmetric])
    have inv2: "buf_inv buf2" using c'(4) by (simp add: buf2_def)
    have "b_datalen buf2 + length (drop copy s) \<le> BUF_MAX_LEN" using copy less.prems(2) b1(6) by (simp add: buf2_def)
    with less.hyps [OF _ inv2, of "drop copy s" e1] copy False obtain buf' e' where
      r: "buf_add_loop buf2 (drop copy s) e1 = Some (buf', e')" "buf_inv buf'" "buf_content buf' = buf_content buf2 @ drop copy s"
        "accounted buf2 e1 buf' e'" "no_holes (b_chunks buf2) \<longrightarrow> no_holes (b_chunks buf')"
        "b_default_chunk_size buf' = b_default_chunk_size buf2" by auto
    have "buf_content buf' = buf_content buf @ s" using r(3) c'(5) b1(5) by (simp add: buf2_def)
    moreover have "accounted buf e buf' e'" using accounted_trans [OF accounted_trans [OF b1(8) acc] r(4)] .
    moreover have "b_default_chunk_size buf' = b_default_chunk_size buf" using r(6) b1(7) by (simp add: buf2_def)
    ultimately show ?thesis using step r(1,2,5) nh by (intro exI [of _ buf'] exI [of _ e']) auto
  qed
qed


lemma exceeds_max_eq: "n \<le> BUF_MAX_LEN \<Longrightarrow> exceeds_max d n \<longleftrightarrow> d + n > BUF_MAX_LEN"
proof -
  assume n: "n \<le> BUF_MAX_LEN"
  then have "(int BUF_MAX_LEN - int n) mod 2 ^ 64 = int BUF_MAX_LEN - int n"
    by (intro mod_pos_pos_trivial) (auto simp: BUF_MAX_LEN_def)
  then show ?thesis unfolding exceeds_max_def by auto
qed

text \<open>The outcome of an operation on a buffer: invariant, contents, accounting and shape.\<close>

definition becomes :: "buf_t \<Rightarrow> buf_env \<Rightarrow> string \<Rightarrow> buf_t \<Rightarrow> buf_env \<Rightarrow> bool" where
  "becomes buf e content buf' e' \<longleftrightarrow> buf_inv buf' \<and> buf_content buf' = content \<and> accounted buf e buf' e'
     \<and> (no_holes (b_chunks buf) \<longrightarrow> no_holes (b_chunks buf')) \<and> b_default_chunk_size buf' = b_default_chunk_size buf"

lemma becomes_max: "becomes buf e c buf' e' \<Longrightarrow> b_datalen buf' \<le> BUF_MAX_LEN"
  unfolding becomes_def buf_inv_def by blast

lemma buf_add_spec:
  assumes "buf_inv buf" "length (buf_content buf) + length s \<le> BUF_MAX_LEN"
  shows "\<exists>buf' e'. buf_add buf s e = Some (Some (b_datalen buf'), buf', e') \<and> becomes buf e (buf_content buf @ s) buf' e'"
proof (cases "s = []")
  case True
  then show ?thesis using assms by (auto simp: buf_add_def becomes_def)
next
  case False
  have len: "b_datalen buf + length s \<le> BUF_MAX_LEN" using assms by (simp add: buf_inv_def)
  from buf_add_loop_spec [OF assms(1) len, of e] obtain buf' e' where
    r: "buf_add_loop buf s e = Some (buf', e')" and b: "becomes buf e (buf_content buf @ s) buf' e'" by (auto simp: becomes_def)
  have "b_datalen buf' \<le> BUF_MAX_LEN" using b by (rule becomes_max)
  moreover have "\<not> exceeds_max (b_datalen buf) (length s)" using len exceeds_max_eq [of "length s" "b_datalen buf"] by simp
  ultimately show ?thesis using r b False len by (auto simp: buf_add_def)
qed

section \<open>Peeking and draining\<close>

lemma peek_loop_spec:
  "\<forall>ch \<in> set chs. chunk_ok ch \<Longrightarrow> n \<le> length (concat (map chunk_bytes chs)) \<Longrightarrow>
     peek_loop n chs = Some (take n (concat (map chunk_bytes chs)))"
proof (induction chs arbitrary: n)
  case (Cons ch chs)
  show ?case
  proof (cases "n = 0")
    case False
    let ?c = "min (ch_datalen ch) n"
    have "mem_read (ch_mem ch) (ch_data ch) ?c = Some (take ?c (chunk_bytes ch))"
      using Cons.prems(1) by (intro mem_read_bytes) auto
    moreover have "peek_loop (n - ?c) chs = Some (take (n - ?c) (concat (map chunk_bytes chs)))"
      using Cons.prems by (intro Cons.IH) auto
    ultimately show ?thesis using False Cons.prems(1) by (subst peek_loop.simps) (auto simp: min_def)
  qed (subst peek_loop.simps, simp)
qed (subst peek_loop.simps, simp)

lemma chunk_drop:
  assumes "chunk_ok ch" "n < ch_datalen ch"
  shows "chunk_ok (ch\<lparr>ch_datalen := ch_datalen ch - n, ch_data := ch_data ch + n\<rparr>)"
    "chunk_bytes (ch\<lparr>ch_datalen := ch_datalen ch - n, ch_data := ch_data ch + n\<rparr>) = drop n (chunk_bytes ch)"
  using assms by (auto simp: chunk_ok_def chunk_bytes_def drop_take add.commute)

lemma no_holes_Cons: "no_holes (ch # chs) \<Longrightarrow> no_holes chs"
  by (auto simp: no_holes_def split: if_splits)

lemma drain_loop_spec:
  "\<forall>ch \<in> set chs. chunk_ok ch \<Longrightarrow> n \<le> length (concat (map chunk_bytes chs)) \<Longrightarrow> d = length (concat (map chunk_bytes chs)) \<Longrightarrow>
   sum_list (map (\<lambda>c. CHUNK_ALLOC_SIZE (ch_memlen c)) chs) \<le> total_bytes_allocated_in_chunks e \<Longrightarrow>
     \<exists>chs' e'. drain_loop n d chs e = Some (d - n, chs', e') \<and> (\<forall>ch \<in> set chs'. chunk_ok ch)
       \<and> concat (map chunk_bytes chs') = drop n (concat (map chunk_bytes chs))
       \<and> total_bytes_allocated_in_chunks e' + sum_list (map (\<lambda>c. CHUNK_ALLOC_SIZE (ch_memlen c)) chs)
         = total_bytes_allocated_in_chunks e + sum_list (map (\<lambda>c. CHUNK_ALLOC_SIZE (ch_memlen c)) chs')
       \<and> coarse_stamp e' = coarse_stamp e \<and> junk e' = junk e \<and> (no_holes chs \<longrightarrow> no_holes chs')"
proof (induction chs arbitrary: n d e)
  case Nil
  then show ?case by (subst drain_loop.simps) simp
next
  case (Cons ch chs)
  have ok: "chunk_ok ch" using Cons.prems(1) by simp
  show ?case
  proof (cases "n = 0")
    case True
    then show ?thesis using Cons.prems by (subst drain_loop.simps) simp
  next
    case n: False
    show ?thesis
    proof (cases "ch_datalen ch > n")
      case True
      then show ?thesis
        using n Cons.prems ok chunk_drop [OF ok True]
        by (subst drain_loop.simps) (auto simp: no_holes_def split: if_splits)
    next
      case False
      let ?e = "e\<lparr>total_bytes_allocated_in_chunks := total_bytes_allocated_in_chunks e - CHUNK_ALLOC_SIZE (ch_memlen ch)\<rparr>"
      have step: "drain_loop n d (ch # chs) e = drain_loop (n - ch_datalen ch) (d - ch_datalen ch) chs ?e"
        using n False Cons.prems(4) ok by (subst drain_loop.simps) simp
      have h: "\<forall>ch \<in> set chs. chunk_ok ch" "n - ch_datalen ch \<le> length (concat (map chunk_bytes chs))"
        "d - ch_datalen ch = length (concat (map chunk_bytes chs))"
        "sum_list (map (\<lambda>c. CHUNK_ALLOC_SIZE (ch_memlen c)) chs) \<le> total_bytes_allocated_in_chunks ?e"
        using Cons.prems ok by auto
      from Cons.IH [OF h] obtain chs' e' where
        "drain_loop (n - ch_datalen ch) (d - ch_datalen ch) chs ?e = Some (d - ch_datalen ch - (n - ch_datalen ch), chs', e')"
        "\<forall>ch \<in> set chs'. chunk_ok ch" "concat (map chunk_bytes chs') = drop (n - ch_datalen ch) (concat (map chunk_bytes chs))"
        "total_bytes_allocated_in_chunks e' + sum_list (map (\<lambda>c. CHUNK_ALLOC_SIZE (ch_memlen c)) chs)
          = total_bytes_allocated_in_chunks ?e + sum_list (map (\<lambda>c. CHUNK_ALLOC_SIZE (ch_memlen c)) chs')"
        "coarse_stamp e' = coarse_stamp ?e" "junk e' = junk ?e" "no_holes chs \<longrightarrow> no_holes chs'" by blast
      then show ?thesis using step ok False Cons.prems(4) no_holes_Cons [of ch chs] by auto
    qed
  qed
qed

lemma buf_drain_spec:
  assumes "buf_inv buf" "alloc_ok buf e" "n \<le> length (buf_content buf)"
  shows "\<exists>buf' e'. buf_drain buf n e = Some (buf', e') \<and> becomes buf e (drop n (buf_content buf)) buf' e'"
proof -
  have chs: "\<forall>ch \<in> set (b_chunks buf). chunk_ok ch" "b_datalen buf = length (concat (map chunk_bytes (b_chunks buf)))"
    using assms(1) by (auto simp: buf_inv_def buf_content_def)
  from drain_loop_spec [OF chs(1) _ chs(2), of n e] assms obtain chs' e' where
    r: "drain_loop n (b_datalen buf) (b_chunks buf) e = Some (b_datalen buf - n, chs', e')" "\<forall>ch \<in> set chs'. chunk_ok ch"
      "concat (map chunk_bytes chs') = drop n (buf_content buf)"
      "total_bytes_allocated_in_chunks e' + buf_allocation buf
        = total_bytes_allocated_in_chunks e + sum_list (map (\<lambda>c. CHUNK_ALLOC_SIZE (ch_memlen c)) chs')"
      "coarse_stamp e' = coarse_stamp e" "junk e' = junk e" "no_holes (b_chunks buf) \<longrightarrow> no_holes chs'"
    by (auto simp: alloc_ok_def buf_allocation_def buf_content_def)
  then show ?thesis
    using assms by (auto simp: buf_drain_def becomes_def buf_inv_def buf_content_def accounted_def buf_allocation_def)
qed

lemma buf_peek_spec: "buf_inv buf \<Longrightarrow> n \<le> length (buf_content buf) \<Longrightarrow> buf_peek buf n = Some (take n (buf_content buf))"
  using peek_loop_spec [of "b_chunks buf" n] by (auto simp: buf_peek_def buf_inv_def buf_content_def)

lemma buf_get_bytes_spec:
  assumes "buf_inv buf" "alloc_ok buf e" "n \<le> length (buf_content buf)"
  shows "\<exists>buf' e'. buf_get_bytes buf n e = Some (take n (buf_content buf), buf', e') \<and> becomes buf e (drop n (buf_content buf)) buf' e'"
proof -
  from buf_drain_spec [OF assms] obtain buf' e' where
    r: "buf_drain buf n e = Some (buf', e')" and b: "becomes buf e (drop n (buf_content buf)) buf' e'" by blast
  have "b_datalen buf' \<le> BUF_MAX_LEN" using b by (rule becomes_max)
  then show ?thesis using r b buf_peek_spec [OF assms(1,3)] by (simp add: buf_get_bytes_def)
qed

section \<open>Moving data\<close>

lemma becomes_trans:
  "becomes b e c b' e' \<Longrightarrow> becomes b' e' c' b'' e'' \<Longrightarrow> becomes b e c' b'' e''"
  unfolding becomes_def using accounted_trans by metis

text \<open>Operations on two buffers share one environment: only the sum of the allocations is tracked.\<close>

definition both_accounted :: "buf_t \<Rightarrow> buf_t \<Rightarrow> buf_env \<Rightarrow> buf_t \<Rightarrow> buf_t \<Rightarrow> buf_env \<Rightarrow> bool" where
  "both_accounted o1 i1 e o2 i2 e' \<longleftrightarrow>
     total_bytes_allocated_in_chunks e' + (buf_allocation o1 + buf_allocation i1)
       = total_bytes_allocated_in_chunks e + (buf_allocation o2 + buf_allocation i2)"

definition both_alloc_ok :: "buf_t \<Rightarrow> buf_t \<Rightarrow> buf_env \<Rightarrow> bool" where
  "both_alloc_ok o1 i1 e \<longleftrightarrow> buf_allocation o1 + buf_allocation i1 \<le> total_bytes_allocated_in_chunks e"

lemma move_loop_spec:
  "buf_inv o1 \<Longrightarrow> buf_inv i1 \<Longrightarrow> both_alloc_ok o1 i1 e \<Longrightarrow> len \<le> length (buf_content i1) \<Longrightarrow>
   length (buf_content o1) + len \<le> BUF_MAX_LEN \<Longrightarrow>
     \<exists>o2 i2 e'. move_loop o1 i1 len e = Some (o2, i2, e') \<and> buf_inv o2 \<and> buf_inv i2
       \<and> buf_content o2 = buf_content o1 @ take len (buf_content i1) \<and> buf_content i2 = drop len (buf_content i1)
       \<and> both_accounted o1 i1 e o2 i2 e'"
proof (induction o1 i1 len e rule: move_loop.induct)
  case (1 o1 i1 len e)
  show ?case
  proof (cases "len = 0")
    case True
    then show ?thesis using 1(2,3) by (subst move_loop.simps) (simp add: both_accounted_def)
  next
    case False
    define n where "n = (if len > MOVE_BUF_LEN then MOVE_BUF_LEN else len)"
    have n: "n \<le> len" "0 < n" using False by (auto simp: n_def MOVE_BUF_LEN_def)
    have "alloc_ok i1 e" using 1(4) by (simp add: alloc_ok_def both_alloc_ok_def)
    from buf_get_bytes_spec [OF 1(3) this, of n] 1(5) n obtain i2 e1 where
      g: "buf_get_bytes i1 n e = Some (take n (buf_content i1), i2, e1)" "becomes i1 e (drop n (buf_content i1)) i2 e1" by auto
    have "length (buf_content o1) + length (take n (buf_content i1)) \<le> BUF_MAX_LEN" using 1(5,6) n by simp
    from buf_add_spec [OF 1(2) this, of e1] obtain o2 e2 where
      a: "buf_add o1 (take n (buf_content i1)) e1 = Some (Some (b_datalen o2), o2, e2)"
        "becomes o1 e1 (buf_content o1 @ take n (buf_content i1)) o2 e2" by auto
    have inv: "buf_inv o2" "buf_inv i2" "buf_content o2 = buf_content o1 @ take n (buf_content i1)"
      "buf_content i2 = drop n (buf_content i1)" using g(2) a(2) by (auto simp: becomes_def)
    have acc: "both_accounted o1 i1 e o2 i2 e2" using g(2) a(2) by (auto simp: becomes_def accounted_def both_accounted_def)
    then have al: "both_alloc_ok o2 i2 e2" using 1(4) by (auto simp: both_alloc_ok_def both_accounted_def)
    have step: "move_loop o1 i1 len e = move_loop o2 i2 (len - n) e2"
      using False g(1) a(1) by (subst move_loop.simps) (simp add: n_def [symmetric])
    have IH: "\<exists>o3 i3 e'. move_loop o2 i2 (len - n) e2 = Some (o3, i3, e') \<and> buf_inv o3 \<and> buf_inv i3
        \<and> buf_content o3 = buf_content o2 @ take (len - n) (buf_content i2) \<and> buf_content i3 = drop (len - n) (buf_content i2)
        \<and> both_accounted o2 i2 e2 o3 i3 e'"
      using 1(1)[OF False n_def g(1) refl refl a(1) refl refl inv(1,2) al] inv(3,4) n 1(5,6) by simp
    have "take n (buf_content i1) @ take (len - n) (drop n (buf_content i1)) = take len (buf_content i1)"
      using n take_add [of n "len - n" "buf_content i1"] by simp
    then show ?thesis using IH step inv(3,4) acc n by (auto simp: both_accounted_def)
  qed
qed

lemma buf_move_to_buf_spec:
  assumes "buf_inv o1" "buf_inv i1" "both_alloc_ok o1 i1 e" "length (buf_content o1) + fl \<le> BUF_MAX_LEN"
  defines "cp \<equiv> min fl (length (buf_content i1))"
  shows "\<exists>o2 i2 e'. buf_move_to_buf o1 i1 fl e = Some (Some cp, fl - cp, o2, i2, e') \<and> buf_inv o2 \<and> buf_inv i2
    \<and> buf_content o2 = buf_content o1 @ take cp (buf_content i1) \<and> buf_content i2 = drop cp (buf_content i1)
    \<and> both_accounted o1 i1 e o2 i2 e'"
proof -
  have d: "b_datalen i1 = length (buf_content i1)" "b_datalen o1 = length (buf_content o1)" using assms(1,2) by (auto simp: buf_inv_def)
  have len: "(if fl > b_datalen i1 then b_datalen i1 else fl) = cp" by (auto simp: cp_def d)
  have "\<not> exceeds_max (b_datalen o1) fl" using exceeds_max_eq [of fl "b_datalen o1"] assms(4) d by simp
  moreover have "cp \<le> BUF_MAX_LEN" "length (buf_content o1) + cp \<le> BUF_MAX_LEN" "cp \<le> length (buf_content i1)"
    using assms(4) by (auto simp: cp_def)
  ultimately show ?thesis
    using move_loop_spec [OF assms(1-3), of cp] assms(4) d len by (auto simp: buf_move_to_buf_def)
qed

lemma buf_move_all_spec:
  assumes "buf_inv o1" "buf_inv i1" "length (buf_content o1) + length (buf_content i1) \<le> BUF_MAX_LEN"
  shows "\<exists>o2 i2. buf_move_all o1 i1 = (length (buf_content i1), o2, i2) \<and> buf_inv o2 \<and> buf_inv i2
    \<and> buf_content o2 = buf_content o1 @ buf_content i1 \<and> buf_content i2 = []
    \<and> buf_allocation o2 + buf_allocation i2 = buf_allocation o1 + buf_allocation i1"
proof (cases "buf_content i1 = []")
  case True
  then show ?thesis using assms by (auto simp: buf_move_all_def buf_datalen_def buf_inv_def)
next
  case False
  have d: "b_datalen i1 = length (buf_content i1)" "b_datalen o1 = length (buf_content o1)" using assms by (auto simp: buf_inv_def)
  have "\<not> exceeds_max (b_datalen o1) (b_datalen i1)" using exceeds_max_eq [of "b_datalen i1" "b_datalen o1"] assms(3) d by simp
  then show ?thesis
    using False assms d
    by (auto simp: buf_move_all_def buf_datalen_def buf_inv_def buf_content_def buf_allocation_def)
qed

section \<open>Pulling up\<close>

lemma chunk_repack_spec:
  assumes "chunk_ok ch"
  shows "\<exists>ch'. chunk_repack ch = Some ch' \<and> chunk_ok ch' \<and> chunk_bytes ch' = chunk_bytes ch \<and> ch_data ch' = 0
    \<and> ch_memlen ch' = ch_memlen ch \<and> ch_datalen ch' = ch_datalen ch"
proof (cases "ch_datalen ch \<noteq> 0 \<and> ch_data ch \<noteq> 0")
  case True
  have "mem_read (ch_mem ch) (ch_data ch) (ch_datalen ch) = Some (chunk_bytes ch)"
    using mem_read_bytes [OF assms order_refl] chunk_bytes_length [OF assms] by simp
  moreover have "length (chunk_bytes ch) \<le> length (ch_mem ch)" using assms by (auto simp: chunk_ok_def chunk_bytes_def)
  ultimately show ?thesis
    using True assms chunk_bytes_length [OF assms]
    by (auto simp: chunk_repack_def mem_write_def chunk_ok_def chunk_bytes_def)
qed (use assms in \<open>auto simp: chunk_repack_def chunk_ok_def chunk_bytes_def\<close>)

abbreviation chunks_alloc :: "chunk_t list \<Rightarrow> nat" where
  "chunks_alloc chs \<equiv> sum_list (map (\<lambda>c. CHUNK_ALLOC_SIZE (ch_memlen c)) chs)"

abbreviation chunks_bytes :: "chunk_t list \<Rightarrow> string" where
  "chunks_bytes chs \<equiv> concat (map chunk_bytes chs)"

lemma pullup_loop_spec:
  "chunk_ok dest \<Longrightarrow> \<forall>ch \<in> set rest. chunk_ok ch \<Longrightarrow> bytes \<le> length (chunks_bytes (dest # rest)) \<Longrightarrow>
   bytes - ch_datalen dest \<le> CHUNK_REMAINING_CAPACITY dest \<Longrightarrow> chunks_alloc rest \<le> total_bytes_allocated_in_chunks e \<Longrightarrow>
     \<exists>d' chs' e'. pullup_loop bytes dest rest e = Some (d' # chs', e') \<and> (\<forall>ch \<in> set (d' # chs'). chunk_ok ch)
       \<and> chunks_bytes (d' # chs') = chunks_bytes (dest # rest) \<and> bytes \<le> ch_datalen d'
       \<and> total_bytes_allocated_in_chunks e' + chunks_alloc (dest # rest) = total_bytes_allocated_in_chunks e + chunks_alloc (d' # chs')
       \<and> coarse_stamp e' = coarse_stamp e \<and> junk e' = junk e"
proof (induction rest arbitrary: dest e)
  case Nil
  then show ?case by (subst pullup_loop.simps) simp
next
  case (Cons src rest)
  show ?case
  proof (cases "ch_datalen dest < bytes")
    case False
    then show ?thesis using Cons.prems by (subst pullup_loop.simps) simp
  next
    case lt: True
    let ?n = "bytes - ch_datalen dest"
    have src: "chunk_ok src" using Cons.prems(2) by simp
    show ?thesis
    proof (cases "?n \<ge> ch_datalen src")
      case True
      let ?e = "e\<lparr>total_bytes_allocated_in_chunks := total_bytes_allocated_in_chunks e - CHUNK_ALLOC_SIZE (ch_memlen src)\<rparr>"
      have rd: "mem_read (ch_mem src) (ch_data src) (ch_datalen src) = Some (chunk_bytes src)"
        using mem_read_bytes [OF src order_refl] chunk_bytes_length [OF src] by simp
      from chunk_append [OF Cons.prems(1), of "chunk_bytes src"] True Cons.prems(4) src obtain mem where
        m: "mem_write (ch_mem dest) (CHUNK_WRITE_PTR dest) (chunk_bytes src) = Some mem"
          "chunk_ok (dest\<lparr>ch_mem := mem, ch_datalen := ch_datalen dest + ch_datalen src\<rparr>)"
          "chunk_bytes (dest\<lparr>ch_mem := mem, ch_datalen := ch_datalen dest + ch_datalen src\<rparr>) = chunk_bytes dest @ chunk_bytes src"
        by auto
      let ?d = "dest\<lparr>ch_mem := mem, ch_datalen := ch_datalen dest + ch_datalen src\<rparr>"
      have step: "pullup_loop bytes dest (src # rest) e = pullup_loop bytes ?d rest ?e"
        using lt True rd m(1) Cons.prems(5) src by (subst pullup_loop.simps) (simp add: Let_def)
      have h: "\<forall>ch \<in> set rest. chunk_ok ch" "bytes \<le> length (chunks_bytes (?d # rest))"
          "bytes - ch_datalen ?d \<le> CHUNK_REMAINING_CAPACITY ?d" "chunks_alloc rest \<le> total_bytes_allocated_in_chunks ?e"
        using Cons.prems src m(3) by (auto simp: CHUNK_REMAINING_CAPACITY_def)
      from Cons.IH [OF m(2) h] obtain d' chs' e' where
        r: "pullup_loop bytes ?d rest ?e = Some (d' # chs', e')" "\<forall>ch \<in> set (d' # chs'). chunk_ok ch"
          "chunks_bytes (d' # chs') = chunks_bytes (?d # rest)" "bytes \<le> ch_datalen d'"
          "total_bytes_allocated_in_chunks e' + chunks_alloc (?d # rest) = total_bytes_allocated_in_chunks ?e + chunks_alloc (d' # chs')"
          "coarse_stamp e' = coarse_stamp ?e" "junk e' = junk ?e" by blast
      show ?thesis
        by (intro exI [of _ d'] exI [of _ chs'] exI [of _ e'])
          (use step r m(3) Cons.prems(5) in auto)
    next
      case False
      then have n: "?n < ch_datalen src" by simp
      have rd: "mem_read (ch_mem src) (ch_data src) ?n = Some (take ?n (chunk_bytes src))"
        using mem_read_bytes [OF src] n by simp
      have "length (take ?n (chunk_bytes src)) = ?n" using n src by simp
      with chunk_append [OF Cons.prems(1), of "take ?n (chunk_bytes src)"] Cons.prems(4) obtain mem where
        m: "mem_write (ch_mem dest) (CHUNK_WRITE_PTR dest) (take ?n (chunk_bytes src)) = Some mem"
          "chunk_ok (dest\<lparr>ch_mem := mem, ch_datalen := ch_datalen dest + ?n\<rparr>)"
          "chunk_bytes (dest\<lparr>ch_mem := mem, ch_datalen := ch_datalen dest + ?n\<rparr>) = chunk_bytes dest @ take ?n (chunk_bytes src)"
        by auto
      let ?d = "dest\<lparr>ch_mem := mem, ch_datalen := ch_datalen dest + ?n\<rparr>"
      let ?s = "src\<lparr>ch_data := ch_data src + ?n, ch_datalen := ch_datalen src - ?n\<rparr>"
      have s: "chunk_ok ?s" "chunk_bytes ?s = drop ?n (chunk_bytes src)"
        using src n by (auto simp: chunk_ok_def chunk_bytes_def drop_take add.commute)
      have "pullup_loop bytes dest (src # rest) e = Some (?d # ?s # rest, e)"
        using lt False rd m(1) by (subst pullup_loop.simps) (simp add: Let_def)
      then show ?thesis
        using m s Cons.prems lt by (intro exI [of _ ?d] exI [of _ "?s # rest"] exI [of _ e]) auto
    qed
  qed
qed

lemma pullup_head_spec:
  assumes "chunk_ok head" "ch_datalen head < bytes" "bytes \<le> BUF_MAX_LEN"
  shows "\<exists>h' e'.
    (if ch_memlen head \<ge> bytes then do {
        let needed = bytes - ch_datalen head;
        head \<leftarrow> (if CHUNK_REMAINING_CAPACITY head < needed then chunk_repack head else Some head);
        tor_assert (CHUNK_REMAINING_CAPACITY head \<ge> needed);
        Some (head, e)
      } else do {
        head \<leftarrow> chunk_repack head;
        sz \<leftarrow> buf_preferred_chunk_size bytes;
        (head, e) \<leftarrow> chunk_grow head (CHUNK_SIZE_WITH_ALLOC sz) e;
        tor_assert (ch_memlen head \<ge> bytes);
        Some (head, e)
      }) = Some (h', e')
    \<and> chunk_ok h' \<and> chunk_bytes h' = chunk_bytes head \<and> bytes - ch_datalen h' \<le> CHUNK_REMAINING_CAPACITY h'
    \<and> total_bytes_allocated_in_chunks e' + CHUNK_ALLOC_SIZE (ch_memlen head)
      = total_bytes_allocated_in_chunks e + CHUNK_ALLOC_SIZE (ch_memlen h')
    \<and> coarse_stamp e' = coarse_stamp e \<and> junk e' = junk e"
proof -
  from chunk_repack_spec [OF assms(1)] obtain h1 where h1: "chunk_repack head = Some h1" "chunk_ok h1"
    "chunk_bytes h1 = chunk_bytes head" "ch_data h1 = 0" "ch_memlen h1 = ch_memlen head" "ch_datalen h1 = ch_datalen head" by blast
  show ?thesis
  proof (cases "ch_memlen head \<ge> bytes")
    case True
    then show ?thesis using h1 assms by (auto simp: CHUNK_REMAINING_CAPACITY_def Let_def)
  next
    case False
    have "bytes \<le> SIZE_CEILING - CHUNK_OVERHEAD" using assms(3) by (simp add: BUF_MAX_LEN_def SIZE_CEILING_def overhead_defs)
    from preferred_size [OF this] obtain sz where sz: "buf_preferred_chunk_size bytes = Some sz" "bytes \<le> CHUNK_SIZE_WITH_ALLOC sz" by blast
    let ?s = "CHUNK_SIZE_WITH_ALLOC sz"
    let ?h = "h1\<lparr>ch_memlen := ?s, ch_DBG_alloc := CHUNK_ALLOC_SIZE ?s, ch_mem := ch_mem h1 @ fresh_mem e (?s - ch_memlen h1)\<rparr>"
    have "chunk_ok ?h \<and> chunk_bytes ?h = chunk_bytes h1"
      using h1(2,4) False sz(2) h1(5) by (auto simp: chunk_ok_def chunk_bytes_def fresh_mem_def)
    then show ?thesis
      using False h1 sz by (auto simp: chunk_ok_def chunk_grow_def CHUNK_REMAINING_CAPACITY_def CHUNK_ALLOC_SIZE_def Let_def)
  qed
qed

lemma buf_pullup_spec:
  assumes "buf_inv buf" "alloc_ok buf e"
  shows "\<exists>out buf' e'. buf_pullup buf bytes e = Some (out, buf', e') \<and> buf_inv buf' \<and> buf_content buf' = buf_content buf
    \<and> accounted buf e buf' e' \<and> (\<exists>rest. buf_content buf = out @ rest) \<and> min bytes (length (buf_content buf)) \<le> length out"
proof (cases "b_chunks buf")
  case Nil
  then show ?thesis using assms by (simp add: buf_pullup_def buf_content_def)
next
  case (Cons head rest)
  define n where "n = (if b_datalen buf < bytes then b_datalen buf else bytes)"
  have n: "n = min bytes (length (buf_content buf))" "n \<le> BUF_MAX_LEN" "n \<le> length (chunks_bytes (head # rest))"
    using assms(1) Cons by (auto simp: n_def buf_inv_def buf_content_def)
  have ok: "chunk_ok head" "\<forall>ch \<in> set rest. chunk_ok ch" using assms(1) Cons by (auto simp: buf_inv_def)
  have al: "chunks_alloc (head # rest) \<le> total_bytes_allocated_in_chunks e"
    using assms(2) Cons by (simp add: alloc_ok_def buf_allocation_def)
  define step where "step = (if ch_datalen head \<ge> n then Some (head # rest, e)
      else do {
        (head, e) \<leftarrow>
          (if ch_memlen head \<ge> n then do {
             let needed = n - ch_datalen head;
             head \<leftarrow> (if CHUNK_REMAINING_CAPACITY head < needed then chunk_repack head else Some head);
             tor_assert (CHUNK_REMAINING_CAPACITY head \<ge> needed);
             Some (head, e)
           } else do {
             head \<leftarrow> chunk_repack head;
             sz \<leftarrow> buf_preferred_chunk_size n;
             (head, e) \<leftarrow> chunk_grow head (CHUNK_SIZE_WITH_ALLOC sz) e;
             tor_assert (ch_memlen head \<ge> n);
             Some (head, e)
           });
        pullup_loop n head rest e
      })"
  have def: "buf_pullup buf bytes e = do {
      (chunks, e) \<leftarrow> step;
      out \<leftarrow> mem_read (ch_mem (hd chunks)) (ch_data (hd chunks)) (ch_datalen (hd chunks));
      Some (out, buf\<lparr>b_chunks := chunks\<rparr>, e)
    }"
    unfolding buf_pullup_def step_def Let_def n_def Cons by simp
  have "\<exists>h' chs' e'. step = Some (h' # chs', e') \<and> (\<forall>ch \<in> set (h' # chs'). chunk_ok ch)
      \<and> chunks_bytes (h' # chs') = chunks_bytes (head # rest) \<and> n \<le> ch_datalen h'
      \<and> total_bytes_allocated_in_chunks e' + chunks_alloc (head # rest) = total_bytes_allocated_in_chunks e + chunks_alloc (h' # chs')
      \<and> coarse_stamp e' = coarse_stamp e \<and> junk e' = junk e"
  proof (cases "ch_datalen head \<ge> n")
    case True
    then show ?thesis using ok by (simp add: step_def)
  next
    case False
    then have lt: "ch_datalen head < n" by simp
    from pullup_head_spec [OF ok(1) lt n(2), of e] obtain h1 e1 where
      h1: "step = pullup_loop n h1 rest e1" "chunk_ok h1" "chunk_bytes h1 = chunk_bytes head"
        "n - ch_datalen h1 \<le> CHUNK_REMAINING_CAPACITY h1"
        "total_bytes_allocated_in_chunks e1 + CHUNK_ALLOC_SIZE (ch_memlen head) = total_bytes_allocated_in_chunks e + CHUNK_ALLOC_SIZE (ch_memlen h1)"
        "coarse_stamp e1 = coarse_stamp e" "junk e1 = junk e"
      unfolding step_def using False by auto
    have "n \<le> length (chunks_bytes (h1 # rest))" "chunks_alloc rest \<le> total_bytes_allocated_in_chunks e1"
      using n(3) h1(3,5) al by simp_all
    from pullup_loop_spec [OF h1(2) ok(2) this(1) h1(4) this(2)] h1 show ?thesis by fastforce
  qed
  then obtain h' chs' e' where s: "step = Some (h' # chs', e')" "\<forall>ch \<in> set (h' # chs'). chunk_ok ch"
      "chunks_bytes (h' # chs') = chunks_bytes (head # rest)" "n \<le> ch_datalen h'"
      "total_bytes_allocated_in_chunks e' + chunks_alloc (head # rest) = total_bytes_allocated_in_chunks e + chunks_alloc (h' # chs')"
      "coarse_stamp e' = coarse_stamp e" "junk e' = junk e" by blast
  have rd: "mem_read (ch_mem h') (ch_data h') (ch_datalen h') = Some (chunk_bytes h')"
    using mem_read_bytes [of h', OF _ order_refl] s(2) chunk_bytes_length [of h'] by simp
  let ?b = "buf\<lparr>b_chunks := h' # chs'\<rparr>"
  have content: "buf_content ?b = buf_content buf" using s(3) Cons by (simp add: buf_content_def)
  moreover have "buf_inv ?b" using assms(1) s(2) content by (simp add: buf_inv_def)
  moreover have "accounted buf e ?b e'" using s(5-7) Cons by (simp add: accounted_def buf_allocation_def)
  moreover have "\<exists>r. buf_content buf = chunk_bytes h' @ r"
    using s(3) Cons by (intro exI [of _ "chunks_bytes chs'"]) (simp add: buf_content_def)
  moreover have "min bytes (length (buf_content buf)) \<le> length (chunk_bytes h')" using s(2,4) n(1) by simp
  ultimately show ?thesis using def s(1) rd by (intro exI [of _ "chunk_bytes h'"] exI [of _ ?b] exI [of _ e']) simp
qed

section \<open>Searching\<close>

lemma chunk_memchr_spec:
  assumes "chunk_ok ch" "pos \<le> ch_datalen ch"
  shows "chunk_memchr ch pos c = Some (let v = drop pos (chunk_bytes ch)
     in if c \<in> set v then Some (pos + length (takeWhile (\<lambda>x. x \<noteq> c) v)) else None)"
proof -
  have "mem_read (ch_mem ch) (ch_data ch + pos) (ch_datalen ch - pos) = Some (drop pos (chunk_bytes ch))"
    using assms by (auto simp: mem_read_def chunk_ok_def chunk_bytes_def drop_take add.commute)
  then show ?thesis by (simp add: chunk_memchr_def Let_def)
qed

lemma find_offset_loop_spec:
  "\<forall>ch \<in> set chs. chunk_ok ch \<Longrightarrow> find_offset_loop c chs off = Some (map_option (\<lambda>k. off + k) (index_of c (chunks_bytes chs)))"
proof (induction chs arbitrary: off)
  case (Cons ch chs)
  then show ?case
    using chunk_memchr_spec [of ch 0 c]
    by (simp add: index_of_append option.map_comp comp_def add.assoc) (simp add: index_of_def Let_def comp_def split: option.split)
qed (simp add: index_of_def)

lemma buf_find_offset_of_char_spec:
  "buf_inv buf \<Longrightarrow> buf_find_offset_of_char buf c = Some (index_of c (buf_content buf))"
  using find_offset_loop_spec [of "b_chunks buf" c 0]
  by (auto simp: buf_find_offset_of_char_def buf_inv_def buf_content_def option.map_id0 [unfolded id_def])

lemma buf_get_line_spec:
  assumes "buf_inv buf" "alloc_ok buf e"
  shows "case index_of (CHR 0x0A) (buf_content buf) of
      None \<Rightarrow> buf_get_line buf data_len e = Some (No_Line, buf, e)
    | Some k \<Rightarrow>
        if k + 2 > data_len then buf_get_line buf data_len e = Some (Line_Too_Long (k + 2), buf, e)
        else \<exists>buf' e'. buf_get_line buf data_len e = Some (Line (take (k + 1) (buf_content buf)), buf', e')
               \<and> becomes buf e (drop (k + 1) (buf_content buf)) buf' e'"
proof (cases "index_of (CHR 0x0A) (buf_content buf)")
  case None
  then show ?thesis using buf_find_offset_of_char_spec [OF assms(1)] by (simp add: buf_get_line_def)
next
  case (Some k)
  then have k: "CHR 0x0A \<in> set (buf_content buf)" "k = length (takeWhile (\<lambda>x. x \<noteq> CHR 0x0A) (buf_content buf))"
    by (auto simp: index_of_def split: if_splits)
  then have "k < length (buf_content buf)"
    by (metis (full_types) length_takeWhile_le le_neq_implies_less takeWhile_eq_all_conv takeWhile_eq_take take_all order_refl)
  then have "k + 1 \<le> length (buf_content buf)" by simp
  from buf_get_bytes_spec [OF assms this] show ?thesis
    using Some k(1) buf_find_offset_of_char_spec [OF assms(1), of "CHR 0x0A"]
    by (cases "b_chunks buf = []") (auto simp: buf_get_line_def buf_content_def)
qed

lemma buf_peek_startswith_spec:
  assumes "buf_inv buf" "length cmd \<le> PEEK_BUF_STARTSWITH_MAX"
  shows "buf_peek_startswith buf cmd = Some (take (length cmd) (buf_content buf) = cmd)"
proof (cases "length cmd \<le> length (buf_content buf)")
  case True
  then show ?thesis using buf_peek_spec [OF assms(1) True] assms by (auto simp: buf_peek_startswith_def buf_inv_def)
next
  case False
  then show ?thesis using assms by (auto simp: buf_peek_startswith_def buf_inv_def)
qed

subsection \<open>Searching for a string\<close>

text \<open>The data from a position on, and its offset in the buffer.\<close>

definition view :: "buf_pos_t \<Rightarrow> string" where
  "view p = drop (bp_pos p) (chunks_bytes (bp_chunk p))"

definition offset_of :: "buf_pos_t \<Rightarrow> nat" where
  "offset_of p = bp_chunk_pos p + bp_pos p"

text \<open>A position in a chain of non-empty chunks, at some byte of its first chunk.\<close>

definition pos_ok :: "buf_pos_t \<Rightarrow> bool" where
  "pos_ok p \<longleftrightarrow> (\<forall>ch \<in> set (bp_chunk p). chunk_ok ch \<and> ch_datalen ch \<noteq> 0)
     \<and> (case bp_chunk p of [] \<Rightarrow> bp_pos p = 0 | ch # _ \<Rightarrow> bp_pos p < ch_datalen ch)
     \<and> bp_chunk_pos p + length (chunks_bytes (bp_chunk p)) \<le> BUF_MAX_LEN"

lemma view_Cons:
  "pos_ok p \<Longrightarrow> bp_chunk p = ch # chs \<Longrightarrow> view p = drop (bp_pos p) (chunk_bytes ch) @ chunks_bytes chs"
  by (simp add: pos_ok_def view_def)

lemma view_nonempty: "pos_ok p \<Longrightarrow> view p \<noteq> [] \<longleftrightarrow> bp_chunk p \<noteq> []"
  by (cases "bp_chunk p") (auto simp: pos_ok_def view_def)

lemma find_pos_loop_spec:
  assumes "pos_ok \<lparr>bp_chunk = chs, bp_pos = pos, bp_chunk_pos = cpos\<rparr>"
  shows "case index_of c (view \<lparr>bp_chunk = chs, bp_pos = pos, bp_chunk_pos = cpos\<rparr>) of
      None \<Rightarrow> \<exists>p'. find_pos_loop c chs pos cpos = Some (None, p')
    | Some k \<Rightarrow> \<exists>p'. find_pos_loop c chs pos cpos = Some (Some (cpos + pos + k), p') \<and> pos_ok p'
        \<and> view p' = drop k (view \<lparr>bp_chunk = chs, bp_pos = pos, bp_chunk_pos = cpos\<rparr>) \<and> offset_of p' = cpos + pos + k"
  using assms
proof (induction chs arbitrary: pos cpos)
  case Nil
  then show ?case by (simp add: view_def index_of_def)
next
  case (Cons ch chs)
  let ?p = "\<lparr>bp_chunk = ch # chs, bp_pos = pos, bp_chunk_pos = cpos\<rparr>"
  let ?d = "drop pos (chunk_bytes ch)"
  have ch: "chunk_ok ch" "pos < ch_datalen ch" "ch_datalen ch \<noteq> 0" using Cons.prems by (auto simp: pos_ok_def)
  have v: "view ?p = ?d @ chunks_bytes chs" using view_Cons [OF Cons.prems] by simp
  have mc: "chunk_memchr ch pos c = Some (map_option (\<lambda>k. pos + k) (index_of c ?d))"
    using chunk_memchr_spec [OF ch(1), of pos c] ch(2) by (simp add: index_of_def Let_def)
  show ?case
  proof (cases "index_of c ?d")
    case (Some k)
    then have k: "k < ch_datalen ch - pos" using index_of_less [OF Some] ch by simp
    have mx: "cpos + ch_datalen ch \<le> BUF_MAX_LEN" using Cons.prems ch by (simp add: pos_ok_def)
    let ?q = "\<lparr>bp_chunk = ch # chs, bp_pos = pos + k, bp_chunk_pos = cpos\<rparr>"
    have q: "pos_ok ?q" using Cons.prems k by (auto simp: pos_ok_def)
    have "view ?q = drop k (view ?p)" by (simp add: view_def add.commute del: drop_append)
    then show ?thesis using Some mc q mx k v by (simp add: index_of_append offset_of_def add.assoc)
  next
    case None
    let ?q = "\<lparr>bp_chunk = chs, bp_pos = 0, bp_chunk_pos = cpos + ch_datalen ch\<rparr>"
    have q: "pos_ok ?q" using Cons.prems ch by (auto simp: pos_ok_def split: list.splits)
    have step: "find_pos_loop c (ch # chs) pos cpos = find_pos_loop c chs 0 (cpos + ch_datalen ch)" using mc None by simp
    have vq: "view ?q = chunks_bytes chs" by (simp add: view_def)
    have ix: "index_of c (view ?p) = map_option (\<lambda>k. ch_datalen ch - pos + k) (index_of c (view ?q))"
      unfolding v vq using None ch by (cases "index_of c (chunks_bytes chs)") (simp_all add: index_of_append)
    note IH = Cons.IH [OF q, unfolded vq]
    show ?thesis
    proof (cases "index_of c (chunks_bytes chs)")
      case None
      then show ?thesis using IH ix vq step by simp
    next
      case (Some k)
      then have "index_of c (view ?p) = Some (ch_datalen ch - pos + k)" using ix vq by simp
      moreover have "drop (ch_datalen ch - pos + k) (view ?p) = drop k (chunks_bytes chs)" using v ch by simp
      ultimately show ?thesis using IH Some step ch by (simp add: add.assoc)
    qed
  qed
qed

lemma buf_find_pos_of_char_spec:
  assumes "pos_ok p"
  shows "case index_of c (view p) of
      None \<Rightarrow> \<exists>p'. buf_find_pos_of_char c p = Some (None, p')
    | Some k \<Rightarrow> \<exists>p'. buf_find_pos_of_char c p = Some (Some (offset_of p + k), p') \<and> pos_ok p'
        \<and> view p' = drop k (view p) \<and> offset_of p' = offset_of p + k"
proof -
  have "case bp_chunk p of [] \<Rightarrow> True | ch # _ \<Rightarrow> if ch_datalen ch \<noteq> 0 then bp_pos p < ch_datalen ch else bp_pos p = 0"
    using assms by (auto simp: pos_ok_def split: list.splits)
  moreover have eta: "\<lparr>bp_chunk = bp_chunk p, bp_pos = bp_pos p, bp_chunk_pos = bp_chunk_pos p\<rparr> = p" by simp
  ultimately show ?thesis
    using find_pos_loop_spec [of "bp_chunk p" "bp_pos p" "bp_chunk_pos p" c, unfolded eta, OF assms]
    by (auto simp: buf_find_pos_of_char_def offset_of_def split: option.splits)
qed

lemma buf_pos_inc_spec:
  assumes "pos_ok p" "view p = x # xs"
  shows "if xs = [] then buf_pos_inc p = Some None
    else \<exists>p'. buf_pos_inc p = Some (Some p') \<and> pos_ok p' \<and> view p' = xs \<and> offset_of p' = offset_of p + 1"
proof -
  obtain ch chs where chs: "bp_chunk p = ch # chs" using assms view_nonempty [OF assms(1)] by (cases "bp_chunk p") auto
  have ok: "chunk_ok ch" "bp_pos p < ch_datalen ch" "bp_pos p < BUF_MAX_LEN" using assms(1) chs by (auto simp: pos_ok_def)
  have tl: "xs = drop (Suc (bp_pos p)) (chunks_bytes (ch # chs))"
    using assms(2) chs by (metis drop_Suc drop_tl list.sel(3) view_def)
  show ?thesis
  proof (cases "Suc (bp_pos p) = ch_datalen ch")
    case True
    then have xs: "xs = chunks_bytes chs" using tl ok by simp
    have q: "pos_ok \<lparr>bp_chunk = chs, bp_pos = 0, bp_chunk_pos = bp_chunk_pos p + ch_datalen ch\<rparr>"
      using assms(1) chs ok by (auto simp: pos_ok_def split: list.splits)
    have "xs = [] \<longleftrightarrow> chs = []" using view_nonempty [OF q] xs by (auto simp: view_def)
    then show ?thesis using True chs ok q xs by (auto simp: buf_pos_inc_def view_def offset_of_def)
  next
    case False
    then have lt: "Suc (bp_pos p) < ch_datalen ch" using ok by simp
    then have q: "pos_ok (p\<lparr>bp_pos := bp_pos p + 1\<rparr>)" using assms(1) chs by (auto simp: pos_ok_def)
    have "xs \<noteq> []" using tl lt ok by simp
    then show ?thesis using lt chs ok q tl by (simp add: buf_pos_inc_def view_def offset_of_def)
  qed
qed

lemma chunk_byte_spec:
  assumes "pos_ok p" "view p = x # xs" "bp_chunk p = ch # chs"
  shows "chunk_byte ch (bp_pos p) = Some x"
proof -
  have ok: "chunk_ok ch" "bp_pos p < ch_datalen ch" using assms(1,3) by (auto simp: pos_ok_def)
  have "chunk_bytes ch ! bp_pos p = x"
    using view_Cons [OF assms(1,3)] assms(2) ok by (metis append_Cons chunk_bytes_length hd_append2 hd_drop_conv_nth list.sel(1) drop_eq_Nil not_le)
  then show ?thesis using ok by (auto simp: chunk_byte_def chunk_ok_def chunk_bytes_def Let_def)
qed

lemma buf_matches_at_pos_spec:
  "pos_ok p \<Longrightarrow> view p \<noteq> [] \<Longrightarrow> buf_matches_at_pos p s = Some (take (length s) (view p) = s)"
proof (induction s arbitrary: p)
  case (Cons c s)
  obtain x xs where v: "view p = x # xs" using Cons.prems(2) by (cases "view p") auto
  obtain ch chs where chs: "bp_chunk p = ch # chs" using Cons.prems view_nonempty [OF Cons.prems(1)] by (cases "bp_chunk p") auto
  note byte = chunk_byte_spec [OF Cons.prems(1) v chs]
  have inc: "if xs = [] then buf_pos_inc p = Some None
      else \<exists>p'. buf_pos_inc p = Some (Some p') \<and> pos_ok p' \<and> view p' = xs"
    using buf_pos_inc_spec [OF Cons.prems(1) v] by auto
  show ?case
  proof (cases "x = c \<and> s \<noteq> [] \<and> xs \<noteq> []")
    case True
    then obtain p' where p': "buf_pos_inc p = Some (Some p')" "pos_ok p'" "view p' = xs" using inc by auto
    then show ?thesis using Cons.IH [OF p'(2)] True byte chs v by auto
  next
    case False
    then show ?thesis using byte chs v inc by (auto split: if_splits)
  qed
qed simp

lemma plus_Suc: "(+) (Suc k) = (\<lambda>x. Suc (k + x))"
  by auto

lemma str_find_skip:
  "s \<noteq> [] \<Longrightarrow> str_find s xs = (case index_of (hd s) xs of None \<Rightarrow> None | Some k \<Rightarrow> map_option (\<lambda>j. k + j) (str_find s (drop k xs)))"
proof (induction xs)
  case (Cons x xs)
  show ?case
  proof (cases "x = hd s")
    case True
    then show ?thesis by (cases "str_find s (x # xs)") (auto simp: index_of_def)
  next
    case False
    have ix: "index_of (hd s) (x # xs) = map_option Suc (index_of (hd s) xs)" using False by (auto simp: index_of_def)
    have "take (length s) (x # xs) \<noteq> s" using False Cons.prems by (cases s) auto
    then show ?thesis
      using Cons by (cases "index_of (hd s) xs") (simp_all add: ix option.map_comp comp_def plus_Suc)
  qed
qed (simp add: index_of_def)

lemma find_string_loop_spec:
  assumes "pos_ok p" "s \<noteq> []"
  shows "find_string_loop s p = Some (map_option (\<lambda>k. offset_of p + k) (str_find s (view p)))"
  using assms(1)
proof (induction "length (view p)" arbitrary: p rule: less_induct)
  case less
  note skip = str_find_skip [OF assms(2), of "view p"]
  note find = buf_find_pos_of_char_spec [OF less.prems, of "hd s"]
  show ?case
  proof (cases "index_of (hd s) (view p)")
    case None
    then show ?thesis using find skip by (subst find_string_loop.simps) auto
  next
    case (Some k)
    then obtain p1 where p1: "buf_find_pos_of_char (hd s) p = Some (Some (offset_of p + k), p1)" "pos_ok p1"
      "view p1 = drop k (view p)" "offset_of p1 = offset_of p + k" using find by auto
    obtain ys where v1: "view p1 = hd s # ys" using index_of_drop [OF Some] p1(3) by auto
    have m: "buf_matches_at_pos p1 s = Some (take (length s) (view p1) = s)" using buf_matches_at_pos_spec [OF p1(2)] v1 by simp
    have mx: "bp_chunk_pos p1 + bp_pos p1 \<le> BUF_MAX_LEN"
      using p1(2) v1 view_nonempty [OF p1(2)] by (auto simp: pos_ok_def split: list.splits)
    have sf: "str_find s (view p) = map_option (\<lambda>j. k + j) (str_find s (view p1))" using skip Some p1(3) by simp
    show ?thesis
    proof (cases "take (length s) (view p1) = s")
      case True
      then have "str_find s (view p1) = Some 0" using v1 by simp
      then show ?thesis using True p1 m mx sf by (subst find_string_loop.simps) (simp add: offset_of_def)
    next
      case nm: False
      then have sf1: "str_find s (view p1) = map_option Suc (str_find s ys)" using v1 by simp
      show ?thesis
      proof (cases "ys = []")
        case True
        then have "buf_pos_inc p1 = Some None" using buf_pos_inc_spec [OF p1(2) v1] by simp
        then show ?thesis using nm p1(1) m sf sf1 True assms(2) by (subst find_string_loop.simps) simp
      next
        case False
        then obtain p2 where p2: "buf_pos_inc p1 = Some (Some p2)" "pos_ok p2" "view p2 = ys" "offset_of p2 = offset_of p1 + 1"
          using buf_pos_inc_spec [OF p1(2) v1] by auto
        have "length (view p2) < length (view p)" using p2(3) v1 p1(3) by (metis length_Cons length_drop less_add_Suc1 less_imp_diff_less not_less_eq diff_le_self le_less_trans lessI)
        note IH = less.hyps [OF this p2(2)]
        have "find_string_loop s p = find_string_loop s p2"
          using nm p1(1) m p2(1) by (subst find_string_loop.simps) simp
        then show ?thesis using IH p2 p1(4) sf sf1 by (cases "str_find s ys") simp_all
      qed
    qed
  qed
qed

section \<open>The byte queue\<close>

datatype buf_op =
    Op_Add string | Op_Get nat | Op_Peek nat | Op_Drain nat | Op_Pullup nat | Op_Line nat
  | Op_Startswith string | Op_Datalen | Op_Clear

datatype buf_out =
    Added nat | Refused | Bytes string | Got_Line line_result | Flag bool | Len nat | Done

text \<open>What the operations do to the plain sequence of bytes; \<open>None\<close> where a caller breaks the contract.\<close>

fun queue_spec :: "string \<Rightarrow> buf_op \<Rightarrow> (buf_out \<times> string) option" where
  "queue_spec c (Op_Add s) =
     (if length c + length s \<le> BUF_MAX_LEN then Some (Added (length c + length s), c @ s)
      else if length s \<le> BUF_MAX_LEN then Some (Refused, c) else None)"
| "queue_spec c (Op_Get n) = (if n \<le> length c then Some (Bytes (take n c), drop n c) else None)"
| "queue_spec c (Op_Peek n) = (if n \<le> length c then Some (Bytes (take n c), c) else None)"
| "queue_spec c (Op_Drain n) = (if n \<le> length c then Some (Done, drop n c) else None)"
| "queue_spec c (Op_Pullup n) = Some (Done, c)"
| "queue_spec c (Op_Line data_len) =
     Some (case index_of (CHR 0x0A) c of
         None \<Rightarrow> (Got_Line No_Line, c)
       | Some k \<Rightarrow> if k + 2 > data_len then (Got_Line (Line_Too_Long (k + 2)), c)
                   else (Got_Line (Line (take (k + 1) c)), drop (k + 1) c))"
| "queue_spec c (Op_Startswith cmd) =
     (if length cmd \<le> PEEK_BUF_STARTSWITH_MAX then Some (Flag (take (length cmd) c = cmd), c) else None)"
| "queue_spec c Op_Datalen = Some (Len (length c), c)"
| "queue_spec c Op_Clear = Some (Done, [])"

text \<open>The same operations on a buffer and its environment.\<close>

fun buf_step :: "buf_t \<times> buf_env \<Rightarrow> buf_op \<Rightarrow> (buf_out \<times> buf_t \<times> buf_env) option" where
  "buf_step (buf, e) (Op_Add s) = do {
     (r, buf, e) \<leftarrow> buf_add buf s e;
     Some (case r of Some n \<Rightarrow> Added n | None \<Rightarrow> Refused, buf, e)
   }"
| "buf_step (buf, e) (Op_Get n) = do { (bs, buf, e) \<leftarrow> buf_get_bytes buf n e; Some (Bytes bs, buf, e) }"
| "buf_step (buf, e) (Op_Peek n) = do { bs \<leftarrow> buf_peek buf n; Some (Bytes bs, buf, e) }"
| "buf_step (buf, e) (Op_Drain n) = do { (buf, e) \<leftarrow> buf_drain buf n e; Some (Done, buf, e) }"
| "buf_step (buf, e) (Op_Pullup n) = do { (_, buf, e) \<leftarrow> buf_pullup buf n e; Some (Done, buf, e) }"
| "buf_step (buf, e) (Op_Line n) = do { (r, buf, e) \<leftarrow> buf_get_line buf n e; Some (Got_Line r, buf, e) }"
| "buf_step (buf, e) (Op_Startswith cmd) = do { r \<leftarrow> buf_peek_startswith buf cmd; Some (Flag r, buf, e) }"
| "buf_step (buf, e) Op_Datalen = Some (Len (buf_datalen buf), buf, e)"
| "buf_step (buf, e) Op_Clear = do { (buf, e) \<leftarrow> buf_clear buf e; Some (Done, buf, e) }"

fun queue_ok :: "buf_t \<times> buf_env \<Rightarrow> bool" where
  "queue_ok (buf, e) \<longleftrightarrow> buf_inv buf \<and> alloc_ok buf e"

lemma becomes_ok: "becomes buf e c buf' e' \<Longrightarrow> alloc_ok buf e \<Longrightarrow> queue_ok (buf', e') \<and> buf_content buf' = c"
  using accounted_alloc by (auto simp: becomes_def)

lemma free_chunks_spec:
  "\<forall>ch \<in> set chs. chunk_ok ch \<Longrightarrow> chunks_alloc chs \<le> total_bytes_allocated_in_chunks e \<Longrightarrow>
     free_chunks chs e = Some (e\<lparr>total_bytes_allocated_in_chunks := total_bytes_allocated_in_chunks e - chunks_alloc chs\<rparr>)"
  by (induction chs arbitrary: e) auto

lemma buf_clear_spec:
  assumes "buf_inv buf" "alloc_ok buf e"
  shows "\<exists>buf' e'. buf_clear buf e = Some (buf', e') \<and> becomes buf e [] buf' e'"
  using free_chunks_spec [of "b_chunks buf" e] assms
  by (auto simp: buf_clear_def becomes_def buf_inv_def buf_content_def alloc_ok_def accounted_def buf_allocation_def no_holes_def)

lemma buf_add_full:
  assumes "buf_inv buf" "BUF_MAX_LEN < length (buf_content buf) + length s" "length s \<le> BUF_MAX_LEN"
  shows "buf_add buf s e = Some (None, buf, e)"
proof -
  have "s \<noteq> []" using assms by (auto simp: buf_inv_def)
  then show ?thesis using assms exceeds_max_eq [of "length s" "b_datalen buf"] by (simp add: buf_add_def buf_inv_def)
qed

lemma buf_step_refines:
  assumes "queue_ok (buf, e)" "queue_spec (buf_content buf) opn = Some (out, c)"
  shows "\<exists>s'. buf_step (buf, e) opn = Some (out, s') \<and> queue_ok s' \<and> buf_content (fst s') = c"
proof -
  have inv: "buf_inv buf" "alloc_ok buf e" using assms(1) by auto
  have bec: "\<exists>s'. Some (out, buf', e') = Some (out, s') \<and> queue_ok s' \<and> buf_content (fst s') = c"
    if "becomes buf e c buf' e'" for buf' e'
    using becomes_ok [OF that inv(2)] by auto
  show ?thesis
  proof (cases opn)
    case (Op_Add s)
    show ?thesis
    proof (cases "length (buf_content buf) + length s \<le> BUF_MAX_LEN")
      case True
      then obtain buf' e' where r: "buf_add buf s e = Some (Some (b_datalen buf'), buf', e')"
        "becomes buf e (buf_content buf @ s) buf' e'" using buf_add_spec [OF inv(1)] by blast
      have "b_datalen buf' = length (buf_content buf) + length s" using r(2) by (simp add: becomes_def buf_inv_def)
      then show ?thesis using Op_Add True r assms(2) becomes_ok [OF r(2) inv(2)] by auto
    next
      case False
      then show ?thesis using Op_Add assms buf_add_full [OF inv(1), of s e] by (auto split: if_splits)
    qed
  next
    case (Op_Get n)
    then show ?thesis using assms(2) buf_get_bytes_spec [OF inv, of n] becomes_ok [OF _ inv(2)] by (fastforce split: if_splits)
  next
    case (Op_Peek n)
    then show ?thesis using assms buf_peek_spec [OF inv(1), of n] by (auto split: if_splits)
  next
    case (Op_Drain n)
    then show ?thesis using assms(2) buf_drain_spec [OF inv, of n] becomes_ok [OF _ inv(2)] by (fastforce split: if_splits)
  next
    case (Op_Pullup n)
    then show ?thesis using assms(2) buf_pullup_spec [OF inv, of n] accounted_alloc [OF _ inv(2)] by fastforce
  next
    case (Op_Line n)
    show ?thesis
    proof (cases "index_of (CHR 0x0A) (buf_content buf)")
      case None
      then show ?thesis using Op_Line assms buf_get_line_spec [OF inv, of n] by simp
    next
      case (Some k)
      then show ?thesis
        using Op_Line assms buf_get_line_spec [OF inv, of n] becomes_ok [OF _ inv(2)] by (fastforce split: if_splits)
    qed
  next
    case (Op_Startswith cmd)
    then show ?thesis using assms buf_peek_startswith_spec [OF inv(1), of cmd] by (auto split: if_splits)
  next
    case Op_Datalen
    then show ?thesis using assms by (auto simp: buf_datalen_def buf_inv_def)
  next
    case Op_Clear
    then show ?thesis using assms(2) buf_clear_spec [OF inv] becomes_ok [OF _ inv(2)] by fastforce
  qed
qed

interpretation byte_queue: op_refinement buf_step queue_spec queue_ok "buf_content \<circ> fst"
proof
  fix s opn out a
  assume "queue_ok s" "queue_spec ((buf_content \<circ> fst) s) opn = Some (out, a)"
  then show "\<exists>s'. buf_step s opn = Some (out, s') \<and> queue_ok s' \<and> (buf_content \<circ> fst) s' = a"
    using buf_step_refines [of "fst s" "snd s"] by simp
qed

lemma buf_inv_assert_ok: "buf_inv buf \<Longrightarrow> buf_assert_ok buf"
proof -
  assume inv: "buf_inv buf"
  have sum: "b_datalen buf = sum_list (map ch_datalen (b_chunks buf))"
    using inv content_length [of "b_chunks buf"] by (simp add: buf_inv_def buf_content_def)
  have "ch_datalen ch \<le> sum_list (map ch_datalen (b_chunks buf))" if "ch \<in> set (b_chunks buf)" for ch
    using that by (simp add: member_le_sum_list)
  then show ?thesis
    using inv sum by (fastforce simp: buf_assert_ok_def buf_inv_def buf_content_def chunk_ok_def)
qed

text \<open>C25 Any sequence of operations that a plain byte queue allows runs on a fresh buffer without
  failing an assertion or touching memory outside a chunk, returns exactly what the queue returns,
  and leaves a buffer that holds the bytes of the queue, passes \<open>buf_assert_ok\<close> and is fully
  covered by the allocation counter.
\<close>

theorem buf_refines_queue:
  assumes "run_ops queue_spec [] ops = Some (outs, c)"
  shows "\<exists>buf e'. run_ops buf_step (buf_new, e) ops = Some (outs, buf, e') \<and> buf_content buf = c
    \<and> buf_assert_ok buf \<and> buf_allocation buf \<le> total_bytes_allocated_in_chunks e'"
proof -
  have "queue_ok (buf_new, e)" using buf_new_inv by simp
  moreover have "(buf_content \<circ> fst) (buf_new, e) = []" using buf_new_inv by simp
  ultimately obtain s where "run_ops buf_step (buf_new, e) ops = Some (outs, s)" "queue_ok s" "(buf_content \<circ> fst) s = c"
    using byte_queue.run_refines [of "(buf_new, e)" ops outs c] assms by auto
  then show ?thesis using buf_inv_assert_ok by (cases s) (auto simp: alloc_ok_def)
qed

lemmas queue_eval = index_of_def BUF_MAX_LEN_def PEEK_BUF_STARTSWITH_MAX_def

theorem buf_refines_queue_witness:
  "\<exists>buf e'. run_ops buf_step (buf_new, \<lparr>total_bytes_allocated_in_chunks = 0, coarse_stamp = 7, junk = \<lambda>_. CHR ''x''\<rparr>)
      [Op_Add ''GET /'', Op_Add (''tor'' @ [CHR 0x0A] @ ''ok''), Op_Startswith ''GET'', Op_Line 100, Op_Line 100, Op_Get 1, Op_Datalen]
    = Some ([Added 5, Added 11, Flag True, Got_Line (Line (''GET /tor'' @ [CHR 0x0A])), Got_Line No_Line, Bytes ''o'', Len 1], buf, e')
    \<and> buf_content buf = ''k'' \<and> buf_assert_ok buf \<and> buf_allocation buf \<le> total_bytes_allocated_in_chunks e'"
  by (rule buf_refines_queue) (simp add: queue_eval)

lemma copy_chunks_spec:
  "\<forall>ch \<in> set chs. chunk_ok ch \<Longrightarrow>
     copy_chunks chs e = (chs, e\<lparr>total_bytes_allocated_in_chunks := total_bytes_allocated_in_chunks e + chunks_alloc chs\<rparr>)"
proof (induction chs arbitrary: e)
  case (Cons ch chs)
  then have "ch\<lparr>ch_DBG_alloc := CHUNK_ALLOC_SIZE (ch_memlen ch)\<rparr> = ch" by (cases ch) (simp add: chunk_ok_def)
  then show ?case using Cons by (simp add: chunk_copy_def add.assoc)
qed simp

lemma buf_copy_spec:
  assumes "buf_inv buf"
  shows "\<exists>out e'. buf_copy buf e = (out, e') \<and> buf_inv out \<and> buf_content out = buf_content buf
    \<and> total_bytes_allocated_in_chunks e' = total_bytes_allocated_in_chunks e + buf_allocation out"
  using assms copy_chunks_spec [of "b_chunks buf" e]
  by (auto simp: buf_copy_def buf_new_def buf_inv_def buf_content_def buf_allocation_def)

text \<open>\<open>buf_move_to_buf\<close> moves exactly the first \<open>min(*buf_flushlen, datalen)\<close> bytes of the input to
  the end of the output, no byte is lost or duplicated across its 4096-byte steps, and the
  allocation counter follows both buffers.
\<close>

theorem buf_move_to_buf_conserves:
  assumes "buf_inv o1" "buf_inv i1" "both_alloc_ok o1 i1 e" "length (buf_content o1) + fl \<le> BUF_MAX_LEN"
  shows "\<exists>cp o2 i2 e'. buf_move_to_buf o1 i1 fl e = Some (Some cp, fl - cp, o2, i2, e') \<and> buf_inv o2 \<and> buf_inv i2
    \<and> cp = min fl (length (buf_content i1))
    \<and> buf_content o2 = buf_content o1 @ take cp (buf_content i1) \<and> buf_content i2 = drop cp (buf_content i1)
    \<and> both_accounted o1 i1 e o2 i2 e'"
  using buf_move_to_buf_spec [OF assms] by blast

lemma small_buf_ok:
  "b = \<lparr>b_magic = BUFFER_MAGIC, b_datalen = 3, b_default_chunk_size = 4096,
     b_chunks = [\<lparr>ch_datalen = 2, ch_memlen = 3, ch_DBG_alloc = 51, ch_data = 1, ch_inserted_time = 0, ch_mem = ''.ab''\<rparr>,
                 \<lparr>ch_datalen = 1, ch_memlen = 4, ch_DBG_alloc = 52, ch_data = 0, ch_inserted_time = 0, ch_mem = ''c...''\<rparr>]\<rparr> \<Longrightarrow>
   buf_inv b \<and> buf_content b = ''abc'' \<and> buf_allocation b = 103"
  by (simp add: buf_inv_def buf_content_def chunk_ok_def chunk_bytes_def buf_allocation_def CHUNK_ALLOC_SIZE_def overhead_defs
      BUF_MAX_LEN_def)

definition small_buf :: buf_t where
  "small_buf = \<lparr>b_magic = BUFFER_MAGIC, b_datalen = 3, b_default_chunk_size = 4096,
     b_chunks = [\<lparr>ch_datalen = 2, ch_memlen = 3, ch_DBG_alloc = 51, ch_data = 1, ch_inserted_time = 0, ch_mem = ''.ab''\<rparr>,
                 \<lparr>ch_datalen = 1, ch_memlen = 4, ch_DBG_alloc = 52, ch_data = 0, ch_inserted_time = 0, ch_mem = ''c...''\<rparr>]\<rparr>"

definition small_env :: buf_env where
  "small_env = \<lparr>total_bytes_allocated_in_chunks = 1000, coarse_stamp = 7, junk = \<lambda>_. CHR ''x''\<rparr>"

lemma small_buf: "buf_inv small_buf" "buf_content small_buf = ''abc''" "buf_allocation small_buf = 103"
  using small_buf_ok [OF refl] by (simp_all add: small_buf_def)

theorem buf_move_to_buf_conserves_witness:
  "\<exists>cp o2 i2 e'. buf_move_to_buf buf_new small_buf 2 small_env = Some (Some cp, 2 - cp, o2, i2, e') \<and> buf_inv o2 \<and> buf_inv i2
    \<and> cp = 2 \<and> buf_content o2 = ''ab'' \<and> buf_content i2 = ''c''"
  using buf_move_to_buf_conserves [of buf_new small_buf small_env 2] small_buf buf_new_inv
  by (auto simp: both_alloc_ok_def small_env_def BUF_MAX_LEN_def buf_allocation_def buf_new_def)

text \<open>\<open>buf_pullup\<close> leaves the contents of the buffer unchanged and returns a contiguous prefix of
  them of at least the requested length (or all of them), whether it repacks or grows the head.
\<close>

theorem buf_pullup_contiguous:
  assumes "buf_inv buf" "alloc_ok buf e"
  shows "\<exists>out rest buf' e'. buf_pullup buf bytes e = Some (out, buf', e') \<and> buf_inv buf' \<and> buf_content buf' = buf_content buf
    \<and> accounted buf e buf' e' \<and> buf_content buf = out @ rest \<and> min bytes (length (buf_content buf)) \<le> length out"
  using buf_pullup_spec [OF assms] by blast

theorem buf_pullup_contiguous_witness:
  "\<exists>out rest buf' e'. buf_pullup small_buf 3 small_env = Some (out, buf', e') \<and> buf_inv buf' \<and> buf_content buf' = ''abc''
    \<and> accounted small_buf small_env buf' e' \<and> ''abc'' = out @ rest \<and> 3 \<le> length out"
  using buf_pullup_contiguous [of small_buf small_env 3] small_buf by (auto simp: alloc_ok_def small_env_def)

text \<open>If no chunk is empty, \<open>buf_find_string_offset\<close> returns the first position of a non-empty
  string in the contents, or -1 if it does not occur, whatever the chunk boundaries.
\<close>

theorem buf_find_string_offset_first:
  assumes "buf_inv buf" "\<forall>ch \<in> set (b_chunks buf). ch_datalen ch \<noteq> 0" "s \<noteq> []"
  shows "buf_find_string_offset buf s = Some (str_find s (buf_content buf))"
proof -
  have "pos_ok (buf_pos_init buf)"
    using assms(1,2) by (auto simp: pos_ok_def buf_pos_init_def buf_inv_def buf_content_def split: list.splits)
  from find_string_loop_spec [OF this assms(3)] show ?thesis
    by (simp add: buf_find_string_offset_def view_def offset_of_def buf_pos_init_def buf_content_def option.map_ident)
qed

theorem buf_find_string_offset_first_witness:
  "buf_find_string_offset small_buf ''bc'' = Some (Some 1) \<and> buf_find_string_offset small_buf ''ca'' = Some None"
  using buf_find_string_offset_first [of small_buf "''bc''"] buf_find_string_offset_first [of small_buf "''ca''"] small_buf
  by (simp add: small_buf_def)

lemma str_find_too_long: "length xs < length s \<Longrightarrow> str_find s xs = None"
proof -
  assume a: "length xs < length s"
  then show ?thesis using str_find_Some [of s xs] by (cases "str_find s xs") auto
qed

lemma str_find_no_pair: "a \<notin> set xs \<Longrightarrow> str_find [a, b] (xs @ [a]) = None"
  by (induction xs) auto

lemma takeWhile_upto: "a \<notin> set xs \<Longrightarrow> takeWhile (\<lambda>x. x \<noteq> a) (xs @ a # ys) = xs"
  by (induction xs) auto

text \<open>C28 An empty tail chunk, which the representation allows and a blocked read leaves behind, breaks
  the search: the byte of old memory at its start counts as the next byte of the buffer, so a
  string that is not in the contents is found.
\<close>

theorem buf_find_string_offset_stale:
  assumes "buf_inv buf" "b_chunks buf = [ch, ch']" "chunk_bytes ch = pre @ [a]" "a \<notin> set pre"
    "ch_datalen ch' = 0" "ch_data ch' < ch_memlen ch'" "ch_mem ch' ! ch_data ch' = b"
  shows "buf_find_string_offset buf [a, b] = Some (Some (length pre)) \<and> str_find [a, b] (buf_content buf) = None"
proof -
  have ok: "chunk_ok ch" "chunk_ok ch'" using assms(1,2) by (auto simp: buf_inv_def)
  have len: "ch_datalen ch = Suc (length pre)" using chunk_bytes_length [OF ok(1)] assms(3) by simp
  have mx: "length pre < BUF_MAX_LEN"
    using assms(1,2,3) by (simp add: buf_inv_def buf_content_def)
  have "chunk_memchr ch 0 a = Some (Some (length pre))"
    using chunk_memchr_spec [OF ok(1), of 0 a] assms(3,4) by (simp add: takeWhile_upto)
  then have find: "buf_find_pos_of_char a (buf_pos_init buf) =
      Some (Some (length pre), \<lparr>bp_chunk = [ch, ch'], bp_pos = length pre, bp_chunk_pos = 0\<rparr>)"
    using mx len by (simp add: buf_find_pos_of_char_def buf_pos_init_def assms(2))
  have b1: "chunk_byte ch (length pre) = Some a"
  proof -
    have "chunk_bytes ch ! length pre = a" using assms(3) by simp
    then show ?thesis using ok(1) len by (auto simp: chunk_byte_def chunk_ok_def chunk_bytes_def Let_def)
  qed
  have b2: "chunk_byte ch' 0 = Some b" using ok(2) assms(6,7) by (simp add: chunk_byte_def chunk_ok_def)
  have "buf_find_string_offset buf [a, b] = Some (Some (length pre))"
    unfolding buf_find_string_offset_def
    by (subst find_string_loop.simps) (use find b1 b2 mx len in \<open>simp add: buf_pos_inc_def\<close>)
  moreover have "buf_content buf = pre @ [a]" using assms(2,3,5) by (simp add: buf_content_def chunk_bytes_def)
  ultimately show ?thesis using str_find_no_pair [OF assms(4)] by simp
qed

definition stale_buf :: buf_t where
  "stale_buf = \<lparr>b_magic = BUFFER_MAGIC, b_datalen = 3, b_default_chunk_size = 4096,
     b_chunks = [\<lparr>ch_datalen = 3, ch_memlen = 3, ch_DBG_alloc = 51, ch_data = 0, ch_inserted_time = 0, ch_mem = ''ab'' @ [CHR 0x0D]\<rparr>,
                 \<lparr>ch_datalen = 0, ch_memlen = 2, ch_DBG_alloc = 50, ch_data = 0, ch_inserted_time = 0, ch_mem = [CHR 0x0A, CHR ''z'']\<rparr>]\<rparr>"

theorem buf_find_string_offset_stale_witness:
  "buf_find_string_offset stale_buf [CHR 0x0D, CHR 0x0A] = Some (Some 2)"
  using buf_find_string_offset_stale [of stale_buf "b_chunks stale_buf ! 0" "b_chunks stale_buf ! 1" "''ab''" "CHR 0x0D" "CHR 0x0A"]
  by (simp add: stale_buf_def buf_inv_def buf_content_def chunk_ok_def chunk_bytes_def BUF_MAX_LEN_def CHUNK_ALLOC_SIZE_def overhead_defs)

lemma append_to_tail_datalen: "append_to_tail buf bs = Some buf' \<Longrightarrow> b_datalen buf' = b_datalen buf + length bs"
  by (auto simp: append_to_tail_def Let_def split: if_splits bind_splits)

lemma add_chunk_datalen: "buf_add_chunk_with_capacity buf n c e = Some (buf', e') \<Longrightarrow> b_datalen buf' = b_datalen buf"
  by (auto simp: buf_add_chunk_with_capacity_def Let_def split: if_splits bind_splits prod.splits)

lemma buf_add_loop_datalen:
  assumes "buf_add_loop buf s e = Some r"
  shows "b_datalen (fst r) = b_datalen buf + length s"
proof (rule buf_add_loop.raw_induct [OF _ assms], goal_cases)
  case (1 loop buf s e r)
  show ?case
  proof (cases "s = []")
    case True
    then show ?thesis using 1(2) by auto
  next
    case False
    with 1(2) obtain buf1 e1 buf2 k where
      s: "(if b_chunks buf = [] \<or> CHUNK_REMAINING_CAPACITY (last (b_chunks buf)) = 0
           then buf_add_chunk_with_capacity buf (length s) True e else Some (buf, e)) = Some (buf1, e1)"
        "append_to_tail buf1 (take k s) = Some buf2" "loop buf2 (drop k s) e1 = Some r"
        "k = min (CHUNK_REMAINING_CAPACITY (last (b_chunks buf1))) (length s)"
      by (auto simp: Let_def split: bind_splits)
    have "b_datalen buf1 = b_datalen buf" using s(1) add_chunk_datalen by (auto split: if_splits)
    then show ?thesis using 1(1) [OF s(3)] append_to_tail_datalen [OF s(2)] s(4) by simp
  qed
qed

text \<open>The overflow guard of \<open>buf_add\<close> does not cover strings longer than \<open>BUF_MAX_LEN\<close> itself: the
  subtraction wraps, the bytes are added and the final assertion aborts, instead of returning -1.
\<close>

theorem buf_add_oversize:
  assumes "buf_inv buf" "BUF_MAX_LEN < length s" "length s < 2 ^ 63"
  shows "buf_add buf s e = None"
proof -
  have "(int BUF_MAX_LEN - int (length s)) mod 2 ^ 64 = int BUF_MAX_LEN - int (length s) + 2 ^ 64"
    using assms(2,3) by (subst mod_add_self2 [symmetric], intro mod_pos_pos_trivial) (auto simp: BUF_MAX_LEN_def)
  then have "\<not> exceeds_max (b_datalen buf) (length s)"
    using assms by (auto simp: exceeds_max_def buf_inv_def BUF_MAX_LEN_def)
  moreover have "b_datalen buf' > BUF_MAX_LEN" if "buf_add_loop buf s e = Some (buf', e')" for buf' e'
    using buf_add_loop_datalen [OF that] assms(2) by simp
  ultimately show ?thesis
    using assms(1,2) by (cases "buf_add_loop buf s e") (auto simp: buf_add_def buf_inv_def)
qed

theorem buf_add_oversize_witness: "buf_add buf_new (replicate 2147483647 CHR ''a'') small_env = None"
  using buf_add_oversize [OF buf_new_inv(1), of "replicate 2147483647 CHR ''a''" small_env] by (simp add: BUF_MAX_LEN_def)

end
