(* ===== verification/Buffers_Net.thy ===== *)
theory Buffers_Net
  imports Buffers_Queue
begin

text \<open>
  \<open>lib/net/buffers_net.c\<close>: filling a buffer from and flushing it to a socket or pipe.  The system
  calls are parameters; \<open>recv_ok\<close> and \<open>send_ok\<close> state what POSIX promises of them.
\<close>

section \<open>Reading\<close>

text \<open>
  What \<open>tor_socket_recv()\<close> or \<open>read()\<close> can return: an error other than \<open>EAGAIN\<close>, \<open>EAGAIN\<close>, end of
  file, or bytes.  The system call is a parameter, a function of the state of the outside world and
  of the number of bytes asked for.
\<close>

datatype read_outcome = Read_Error int | Read_Block | Read_Eof | Read_Bytes string

type_synonym 'w recv = "'w \<Rightarrow> nat \<Rightarrow> read_outcome \<times> 'w"

definition MIN_READ_LEN :: nat where "MIN_READ_LEN = 8"

record 'w read_state =
  rd_buf :: buf_t
  rd_env :: buf_env
  rd_world :: 'w
  rd_eof :: bool

text \<open>Results are \<open>Inl\<close> of the socket error (return value \<open>-1\<close>) or \<open>Inr\<close> of the number of bytes.\<close>

definition read_to_chunk :: "'w recv \<Rightarrow> nat \<Rightarrow> 'w read_state \<Rightarrow> ((int + nat) \<times> 'w read_state) option" where
  "read_to_chunk recv at_most s = do {
     let chunk = last (b_chunks (rd_buf s));
     let at_most = min at_most (CHUNK_REMAINING_CAPACITY chunk);
     case recv (rd_world s) at_most of
       (Read_Error e, w) \<Rightarrow> Some (Inl e, s\<lparr>rd_world := w\<rparr>)
     | (Read_Block, w) \<Rightarrow> Some (Inr 0, s\<lparr>rd_world := w\<rparr>)
     | (Read_Eof, w) \<Rightarrow> Some (Inr 0, s\<lparr>rd_world := w, rd_eof := True\<rparr>)
     | (Read_Bytes bs, w) \<Rightarrow> do {
         buf \<leftarrow> append_to_tail (rd_buf s) bs;
         tor_assert (length bs \<le> BUF_MAX_LEN);
         Some (Inr (length bs), s\<lparr>rd_world := w, rd_buf := buf\<rparr>)
       }
   }"

definition read_prepare :: "nat \<Rightarrow> nat \<Rightarrow> 'w read_state \<Rightarrow> (nat \<times> 'w read_state) option" where
  "read_prepare at_most readlen s =
     (if b_chunks (rd_buf s) = [] \<or> CHUNK_REMAINING_CAPACITY (last (b_chunks (rd_buf s))) < MIN_READ_LEN
      then do {
        (buf, e) \<leftarrow> buf_add_chunk_with_capacity (rd_buf s) at_most True (rd_env s);
        Some (min readlen (ch_memlen (last (b_chunks buf))), s\<lparr>rd_buf := buf, rd_env := e\<rparr>)
      }
      else Some (min readlen (CHUNK_REMAINING_CAPACITY (last (b_chunks (rd_buf s)))), s))"

partial_function (option) buf_read_loop ::
  "'w recv \<Rightarrow> nat \<Rightarrow> nat \<Rightarrow> 'w read_state \<Rightarrow> ((int + nat) \<times> 'w read_state) option" where
  "buf_read_loop recv at_most total_read s =
     (if \<not> at_most > total_read then Some (Inr total_read, s)
      else do {
        (readlen, s) \<leftarrow> read_prepare at_most (at_most - total_read) s;
        (r, s) \<leftarrow> read_to_chunk recv readlen s;
        case r of
          Inl e \<Rightarrow> Some (Inl e, s)
        | Inr r \<Rightarrow> do {
            tor_assert (total_read + r \<le> BUF_MAX_LEN);
            if r < readlen then Some (Inr (total_read + r), s) else buf_read_loop recv at_most (total_read + r) s
          }
      })"

text \<open>The two \<open>BUG\<close> exits return \<open>-1\<close> with no socket error: \<open>Inl 0\<close>.\<close>

definition buf_read_from_fd :: "'w recv \<Rightarrow> nat \<Rightarrow> 'w read_state \<Rightarrow> ((int + nat) \<times> 'w read_state) option" where
  "buf_read_from_fd recv at_most s =
     (if b_datalen (rd_buf s) > BUF_MAX_LEN then Some (Inl 0, s)
      else if exceeds_max (b_datalen (rd_buf s)) at_most then Some (Inl 0, s)
      else buf_read_loop recv at_most 0 s)"

section \<open>Writing\<close>

datatype send_outcome = Send_Error | Send_Block | Sent nat

type_synonym 'w send = "'w \<Rightarrow> string \<Rightarrow> send_outcome \<times> 'w"

definition flush_chunk :: "'w send \<Rightarrow> nat \<Rightarrow> buf_t \<Rightarrow> buf_env \<Rightarrow> 'w \<Rightarrow> (nat option \<times> buf_t \<times> buf_env \<times> 'w) option" where
  "flush_chunk send sz buf e w =
     (case b_chunks buf of
        [] \<Rightarrow> None
      | chunk # _ \<Rightarrow> do {
          let sz = min sz (ch_datalen chunk);
          bs \<leftarrow> mem_read (ch_mem chunk) (ch_data chunk) sz;
          case send w bs of
            (Send_Error, w) \<Rightarrow> Some (None, buf, e, w)
          | (Send_Block, w) \<Rightarrow> Some (Some 0, buf, e, w)
          | (Sent n, w) \<Rightarrow> do {
              (buf, e) \<leftarrow> buf_drain buf n e;
              tor_assert (n \<le> BUF_MAX_LEN);
              Some (Some n, buf, e, w)
            }
        })"

partial_function (option) buf_flush_loop ::
  "'w send \<Rightarrow> nat \<Rightarrow> nat \<Rightarrow> buf_t \<Rightarrow> buf_env \<Rightarrow> 'w \<Rightarrow> (nat option \<times> buf_t \<times> buf_env \<times> 'w) option" where
  "buf_flush_loop send sz flushed buf e w =
     (if sz = 0 then Some (Some flushed, buf, e, w)
      else case b_chunks buf of
        [] \<Rightarrow> None
      | head # _ \<Rightarrow> do {
          let flushlen0 = (if ch_datalen head \<ge> sz then sz else ch_datalen head);
          (r, buf, e, w) \<leftarrow> flush_chunk send flushlen0 buf e w;
          case r of
            None \<Rightarrow> Some (None, buf, e, w)
          | Some r \<Rightarrow>
              if r = 0 \<or> r < flushlen0 then Some (Some (flushed + r), buf, e, w)
              else buf_flush_loop send (sz - r) (flushed + r) buf e w
        })"

definition buf_flush_to_fd :: "'w send \<Rightarrow> nat \<Rightarrow> buf_t \<Rightarrow> buf_env \<Rightarrow> 'w \<Rightarrow> (nat option \<times> buf_t \<times> buf_env \<times> 'w) option" where
  "buf_flush_to_fd send sz buf e w = do {
     let sz = (if sz > b_datalen buf then b_datalen buf else sz);
     (r, buf, e, w) \<leftarrow> buf_flush_loop send sz 0 buf e w;
     tor_assert (case r of None \<Rightarrow> True | Some flushed \<Rightarrow> flushed \<le> BUF_MAX_LEN);
     Some (r, buf, e, w)
   }"

section \<open>What the system calls promise\<close>

text \<open>\<open>pending\<close> is the bytes still to come: a read returns at most what was asked for, from the front.\<close>

definition recv_ok :: "'w recv \<Rightarrow> ('w \<Rightarrow> string) \<Rightarrow> bool" where
  "recv_ok recv pending \<longleftrightarrow> (\<forall>w n. case recv w n of
       (Read_Bytes bs, w') \<Rightarrow> bs \<noteq> [] \<and> length bs \<le> n \<and> pending w = bs @ pending w'
     | (_, w') \<Rightarrow> pending w' = pending w)"

text \<open>\<open>sent\<close> is the bytes the kernel has taken.\<close>

definition send_ok :: "'w send \<Rightarrow> ('w \<Rightarrow> string) \<Rightarrow> bool" where
  "send_ok send sent \<longleftrightarrow> (\<forall>w bs. case send w bs of
       (Sent n, w') \<Rightarrow> n \<le> length bs \<and> sent w' = sent w @ take n bs
     | (_, w') \<Rightarrow> sent w' = sent w)"

section \<open>Reading is lossless\<close>

definition read_result :: "('w \<Rightarrow> string) \<Rightarrow> nat \<Rightarrow> nat \<Rightarrow> 'w read_state \<Rightarrow> (int + nat) \<times> 'w read_state \<Rightarrow> bool" where
  "read_result pending at_most total_read s = (\<lambda>(r, s').
     \<exists>bs. buf_inv (rd_buf s') \<and> buf_content (rd_buf s') = buf_content (rd_buf s) @ bs
       \<and> pending (rd_world s) = bs @ pending (rd_world s')
       \<and> total_read + length bs \<le> at_most \<and> (\<forall>n. r = Inr n \<longrightarrow> n = total_read + length bs)
       \<and> accounted (rd_buf s) (rd_env s) (rd_buf s') (rd_env s'))"

lemma read_prepare_spec:
  assumes "buf_inv (rd_buf s)" "at_most \<le> BUF_MAX_LEN" "0 < want" "want \<le> at_most"
  shows "\<exists>readlen s'. read_prepare at_most want s = Some (readlen, s') \<and> buf_inv (rd_buf s')
    \<and> buf_content (rd_buf s') = buf_content (rd_buf s) \<and> accounted (rd_buf s) (rd_env s) (rd_buf s') (rd_env s')
    \<and> rd_world s' = rd_world s \<and> 0 < readlen \<and> readlen \<le> want
    \<and> (\<exists>chs ch. b_chunks (rd_buf s') = chs @ [ch] \<and> readlen \<le> CHUNK_REMAINING_CAPACITY ch)"
proof (cases "b_chunks (rd_buf s) = [] \<or> CHUNK_REMAINING_CAPACITY (last (b_chunks (rd_buf s))) < MIN_READ_LEN")
  case True
  have "0 < at_most" using assms by simp
  from add_chunk_spec [OF assms(1,2) this, of True "rd_env s"] obtain buf' e' ch where
    a: "buf_add_chunk_with_capacity (rd_buf s) at_most True (rd_env s) = Some (buf', e')"
    "buf' = (rd_buf s)\<lparr>b_chunks := b_chunks (rd_buf s) @ [ch]\<rparr>" "chunk_ok ch" "ch_datalen ch = 0" "ch_data ch = 0" "0 < ch_memlen ch"
    "accounted (rd_buf s) (rd_env s) buf' e'" by blast
  have "chunk_bytes ch = []" using a(4) by (simp add: chunk_bytes_def)
  then have "buf_inv buf' \<and> buf_content buf' = buf_content (rd_buf s)" using a assms(1) by (auto simp: buf_inv_def buf_content_def)
  then show ?thesis using True a assms by (simp add: read_prepare_def CHUNK_REMAINING_CAPACITY_def)
next
  case False
  then obtain chs ch where "b_chunks (rd_buf s) = chs @ [ch]" by (cases "b_chunks (rd_buf s)" rule: rev_cases) auto
  then show ?thesis using False assms by (auto simp: read_prepare_def MIN_READ_LEN_def)
qed

lemma read_to_chunk_spec:
  assumes "recv_ok recv pending" "buf_inv (rd_buf s)" "b_chunks (rd_buf s) = chs @ [ch]"
    "n \<le> CHUNK_REMAINING_CAPACITY ch" "length (buf_content (rd_buf s)) + n \<le> BUF_MAX_LEN"
  shows "\<exists>r s'. read_to_chunk recv n s = Some (r, s') \<and> read_result pending n 0 s (r, s')"
proof -
  have cap: "min n (CHUNK_REMAINING_CAPACITY ch) = n" using assms(4) by simp
  obtain out w where o: "recv (rd_world s) n = (out, w)" by fastforce
  have ok: "case (out, w) of (Read_Bytes bs, w') \<Rightarrow> bs \<noteq> [] \<and> length bs \<le> n \<and> pending (rd_world s) = bs @ pending w'
      | (_, w') \<Rightarrow> pending w' = pending (rd_world s)" using assms(1) [unfolded recv_ok_def, rule_format, of "rd_world s" n] o by simp
  show ?thesis
  proof (cases out)
    case (Read_Bytes bs)
    have len: "length bs \<le> n" "pending (rd_world s) = bs @ pending w" using ok Read_Bytes by auto
    then have fit: "length bs \<le> CHUNK_REMAINING_CAPACITY ch" "b_datalen (rd_buf s) + length bs \<le> BUF_MAX_LEN"
      using assms(2,4,5) by (auto simp: buf_inv_def)
    from append_to_tail_spec [OF assms(2,3) fit] obtain ch' where
      c: "append_to_tail (rd_buf s) bs = Some ((rd_buf s)\<lparr>b_datalen := b_datalen (rd_buf s) + length bs, b_chunks := chs @ [ch']\<rparr>)"
        "ch_memlen ch' = ch_memlen ch"
        "buf_inv ((rd_buf s)\<lparr>b_datalen := b_datalen (rd_buf s) + length bs, b_chunks := chs @ [ch']\<rparr>)"
        "buf_content ((rd_buf s)\<lparr>b_datalen := b_datalen (rd_buf s) + length bs, b_chunks := chs @ [ch']\<rparr>) = buf_content (rd_buf s) @ bs"
      by blast
    have "accounted (rd_buf s) (rd_env s) ((rd_buf s)\<lparr>b_datalen := b_datalen (rd_buf s) + length bs, b_chunks := chs @ [ch']\<rparr>) (rd_env s)"
      using c(2) assms(3) by (simp add: accounted_def buf_allocation_def)
    then show ?thesis
      using o Read_Bytes c len assms(3,5) cap by (auto simp: read_to_chunk_def read_result_def)
  qed (use o ok assms(2,3) cap in \<open>auto simp: read_to_chunk_def read_result_def\<close>)
qed

lemma buf_read_loop_spec:
  assumes "recv_ok recv pending" "at_most \<le> BUF_MAX_LEN"
  shows "buf_inv (rd_buf s) \<Longrightarrow> tot \<le> at_most \<Longrightarrow> length (buf_content (rd_buf s)) + (at_most - tot) \<le> BUF_MAX_LEN \<Longrightarrow>
    \<exists>r s'. buf_read_loop recv at_most tot s = Some (r, s') \<and> read_result pending at_most tot s (r, s')"
proof (induction "at_most - tot" arbitrary: tot s rule: less_induct)
  case less
  show ?case
  proof (cases "at_most > tot")
    case False
    then show ?thesis using less.prems by (subst buf_read_loop.simps) (auto simp: read_result_def)
  next
    case True
    from read_prepare_spec [OF less.prems(1) assms(2), of "at_most - tot"] True obtain n s1 chs ch where
      p: "read_prepare at_most (at_most - tot) s = Some (n, s1)" "buf_inv (rd_buf s1)"
        "buf_content (rd_buf s1) = buf_content (rd_buf s)" "accounted (rd_buf s) (rd_env s) (rd_buf s1) (rd_env s1)"
        "rd_world s1 = rd_world s" "0 < n" "n \<le> at_most - tot"
        "b_chunks (rd_buf s1) = chs @ [ch]" "n \<le> CHUNK_REMAINING_CAPACITY ch" by auto
    have "length (buf_content (rd_buf s1)) + n \<le> BUF_MAX_LEN" using p less.prems(3) by simp
    from read_to_chunk_spec [OF assms(1) p(2,8,9) this] obtain r s2 bs where
      r: "read_to_chunk recv n s1 = Some (r, s2)" "buf_inv (rd_buf s2)" "buf_content (rd_buf s2) = buf_content (rd_buf s1) @ bs"
        "pending (rd_world s1) = bs @ pending (rd_world s2)" "length bs \<le> n" "\<forall>k. r = Inr k \<longrightarrow> k = length bs"
        "accounted (rd_buf s1) (rd_env s1) (rd_buf s2) (rd_env s2)"
      by (auto simp: read_result_def)
    have acc: "accounted (rd_buf s) (rd_env s) (rd_buf s2) (rd_env s2)" using accounted_trans [OF p(4) r(7)] .
    show ?thesis
    proof (cases "\<exists>e. r = Inl e \<or> length bs < n")
      case stop: True
      have "\<exists>r'. buf_read_loop recv at_most tot s = Some (r', s2) \<and> (\<forall>k. r' = Inr k \<longrightarrow> k = tot + length bs)"
        using stop True p(1,7) r(1,5,6) assms(2) by (subst buf_read_loop.simps) (cases r; auto)
      then show ?thesis using p r acc True by (auto simp: read_result_def)
    next
      case False
      then have full: "length bs = n" "r = Inr n" using r(5,6) by (cases r; auto)+
      have le: "tot + n \<le> at_most" using p(7) True by simp
      then have "tot + n \<le> BUF_MAX_LEN" using assms(2) by simp
      then have step: "buf_read_loop recv at_most tot s = buf_read_loop recv at_most (tot + n) s2"
        using True p(1,7) r(1) full assms(2) by (subst buf_read_loop.simps) simp
      have "length (buf_content (rd_buf s2)) + (at_most - (tot + n)) \<le> BUF_MAX_LEN"
        using p(3) r(3) full(1) le less.prems(3) by simp
      moreover have "at_most - (tot + n) < at_most - tot" using True p(6) by simp
      ultimately obtain r3 s3 where
        l: "buf_read_loop recv at_most (tot + n) s2 = Some (r3, s3)" "read_result pending at_most (tot + n) s2 (r3, s3)"
        using less.hyps [OF _ r(2) le] by blast
      from l(2) obtain bs2 where "buf_inv (rd_buf s3)" "buf_content (rd_buf s3) = buf_content (rd_buf s2) @ bs2"
        "pending (rd_world s2) = bs2 @ pending (rd_world s3)" "tot + n + length bs2 \<le> at_most"
        "\<forall>k. r3 = Inr k \<longrightarrow> k = tot + n + length bs2"
        "accounted (rd_buf s2) (rd_env s2) (rd_buf s3) (rd_env s3)" by (auto simp: read_result_def)
      then have "read_result pending at_most tot s (r3, s3)"
        using p(3,5) r(3,4) full accounted_trans [OF acc]
        by (auto simp: read_result_def intro!: exI [of _ "bs @ bs2"] split: sum.splits)
      then show ?thesis using step l(1) by simp
    qed
  qed
qed


section \<open>Flushing is lossless\<close>

definition flush_result :: "('w \<Rightarrow> string) \<Rightarrow> nat \<Rightarrow> nat \<Rightarrow> buf_t \<Rightarrow> buf_env \<Rightarrow> 'w \<Rightarrow> nat option \<times> buf_t \<times> buf_env \<times> 'w \<Rightarrow> bool" where
  "flush_result sent sz flushed buf e w = (\<lambda>(r, buf', e', w').
     \<exists>bs. buf_content buf = bs @ buf_content buf' \<and> sent w' = sent w @ bs \<and> length bs \<le> sz
       \<and> (\<forall>n. r = Some n \<longrightarrow> n = flushed + length bs)
       \<and> buf_inv buf' \<and> alloc_ok buf' e' \<and> accounted buf e buf' e')"

lemma flush_chunk_spec:
  assumes "send_ok send sent" "buf_inv buf" "alloc_ok buf e" "b_chunks buf = ch # chs" "sz \<le> ch_datalen ch"
  shows "\<exists>r. flush_chunk send sz buf e w = Some r \<and> flush_result sent sz 0 buf e w r"
proof -
  have ok: "chunk_ok ch" using assms(2,4) by (simp add: buf_inv_def)
  have rd: "mem_read (ch_mem ch) (ch_data ch) sz = Some (take sz (chunk_bytes ch))" using mem_read_bytes [OF ok assms(5)] .
  obtain out w' where o: "send w (take sz (chunk_bytes ch)) = (out, w')" by fastforce
  have s: "case (out, w') of (Sent n, w') \<Rightarrow> n \<le> length (take sz (chunk_bytes ch)) \<and> sent w' = sent w @ take n (take sz (chunk_bytes ch))
      | (_, w') \<Rightarrow> sent w' = sent w" using assms(1) [unfolded send_ok_def, rule_format, of w "take sz (chunk_bytes ch)"] o by simp
  show ?thesis
  proof (cases out)
    case (Sent n)
    then have n: "n \<le> sz" "n \<le> ch_datalen ch" "sent w' = sent w @ take n (chunk_bytes ch)" using s ok assms(5) by (auto simp: min_absorb1 split: if_splits)
    have c: "buf_content buf = chunk_bytes ch @ chunks_bytes chs" using assms(4) by (simp add: buf_content_def)
    have "n \<le> length (buf_content buf)" using c n ok by simp
    from buf_drain_spec [OF assms(2,3) this] obtain buf' e' where
      d: "buf_drain buf n e = Some (buf', e')" "becomes buf e (drop n (buf_content buf)) buf' e'" by blast
    have "take n (chunk_bytes ch) = take n (buf_content buf)" using c n ok by simp
    moreover have "n \<le> BUF_MAX_LEN" using \<open>n \<le> length (buf_content buf)\<close> assms(2) by (simp add: buf_inv_def)
    ultimately show ?thesis
      using Sent o rd d n assms(4,5) becomes_ok [OF d(2) assms(3)] \<open>n \<le> length (buf_content buf)\<close>
      by (auto simp: flush_chunk_def flush_result_def becomes_def min_def intro!: exI [of _ "take n (buf_content buf)"])
  qed (use o s rd assms in \<open>auto simp: flush_chunk_def flush_result_def min_def\<close>)
qed

lemma buf_flush_loop_spec:
  assumes "send_ok send sent"
  shows "buf_inv buf \<Longrightarrow> alloc_ok buf e \<Longrightarrow> sz \<le> length (buf_content buf) \<Longrightarrow>
    \<exists>r. buf_flush_loop send sz flushed buf e w = Some r \<and> flush_result sent sz flushed buf e w r"
proof (induction sz arbitrary: flushed buf e w rule: less_induct)
  case (less sz)
  show ?case
  proof (cases "sz = 0")
    case True
    then show ?thesis using less.prems by (subst buf_flush_loop.simps) (auto simp: flush_result_def)
  next
    case False
    then obtain ch chs where chs: "b_chunks buf = ch # chs" using less.prems(3) by (cases "b_chunks buf") (auto simp: buf_content_def)
    define n where "n = (if ch_datalen ch \<ge> sz then sz else ch_datalen ch)"
    have n: "n \<le> ch_datalen ch" "n \<le> sz" by (auto simp: n_def)
    from flush_chunk_spec [OF assms less.prems(1,2) chs n(1), of w] obtain r buf1 e1 w1 bs where
      f: "flush_chunk send n buf e w = Some (r, buf1, e1, w1)" "buf_content buf = bs @ buf_content buf1" "sent w1 = sent w @ bs"
        "length bs \<le> n" "\<forall>k. r = Some k \<longrightarrow> k = length bs" "buf_inv buf1" "alloc_ok buf1 e1"
        "accounted buf e buf1 e1"
      by (auto simp: flush_result_def)
    show ?thesis
    proof (cases "r = None \<or> bs = [] \<or> length bs < n")
      case True
      then show ?thesis
        using f n chs False less.prems by (subst buf_flush_loop.simps) (cases r; auto simp: flush_result_def n_def [symmetric])
    next
      case go: False
      then have full: "r = Some (length bs)" "bs \<noteq> []" "length bs = n" using f(4,5) by (cases r; auto)+
      have step: "buf_flush_loop send sz flushed buf e w = buf_flush_loop send (sz - n) (flushed + n) buf1 e1 w1"
        using False chs f(1) full by (subst buf_flush_loop.simps) (auto simp: n_def [symmetric])
      have "sz - n < sz" using full(2,3) False by (cases bs) auto
      moreover have "sz - n \<le> length (buf_content buf1)" using f(2) full less.prems(3) by simp
      ultimately obtain r2 buf2 e2 w2 bs2 where
        l: "buf_flush_loop send (sz - n) (flushed + n) buf1 e1 w1 = Some (r2, buf2, e2, w2)"
          "buf_content buf1 = bs2 @ buf_content buf2" "sent w2 = sent w1 @ bs2" "length bs2 \<le> sz - n"
          "\<forall>k. r2 = Some k \<longrightarrow> k = flushed + n + length bs2" "buf_inv buf2" "alloc_ok buf2 e2" "accounted buf1 e1 buf2 e2"
        using less.IH [of "sz - n" buf1 e1 "flushed + n" w1] f(6,7) by (auto simp: flush_result_def)
      then show ?thesis
        using step f(2,3) full n accounted_trans [OF f(8) l(8)]
        by (auto simp: flush_result_def intro!: exI [of _ "bs @ bs2"] split: option.splits)
    qed
  qed
qed

text \<open>C26 \<open>buf_read_from_fd\<close> returns, whatever the kernel answers, and the bytes it appends to the
  buffer are exactly the bytes taken from the descriptor: none is lost on end of file, \<open>EAGAIN\<close> or
  error, no more than \<open>at_most\<close> are read, and a non-negative result is their number.
\<close>

theorem buf_read_lossless:
  assumes "recv_ok recv pending" "buf_inv (rd_buf s)" "length (buf_content (rd_buf s)) + at_most \<le> BUF_MAX_LEN"
  shows "\<exists>r s' bs. buf_read_from_fd recv at_most s = Some (r, s') \<and> buf_inv (rd_buf s')
    \<and> buf_content (rd_buf s') = buf_content (rd_buf s) @ bs \<and> pending (rd_world s) = bs @ pending (rd_world s')
    \<and> length bs \<le> at_most \<and> (\<forall>n. r = Inr n \<longrightarrow> n = length bs)"
proof -
  have "\<not> exceeds_max (b_datalen (rd_buf s)) at_most" "\<not> b_datalen (rd_buf s) > BUF_MAX_LEN"
    using exceeds_max_eq [of at_most "b_datalen (rd_buf s)"] assms(2,3) by (auto simp: buf_inv_def)
  moreover obtain r s' where "buf_read_loop recv at_most 0 s = Some (r, s')" "read_result pending at_most 0 s (r, s')"
    using buf_read_loop_spec [OF assms(1) _ assms(2), of at_most 0] assms(3) by auto
  ultimately show ?thesis by (auto simp: buf_read_from_fd_def read_result_def split: sum.splits)
qed

text \<open>A world for the examples: the bytes still to come, at most three of them at a time, then \<open>EAGAIN\<close>.\<close>

definition toy_recv :: "string recv" where
  "toy_recv w n = (if w = [] \<or> n = 0 then (Read_Block, w) else (Read_Bytes (take (min 3 n) w), drop (min 3 n) w))"

lemma toy_recv_ok: "recv_ok toy_recv id"
  by (auto simp: recv_ok_def toy_recv_def)

theorem buf_read_lossless_witness:
  "\<exists>r s' bs. buf_read_from_fd toy_recv 5 \<lparr>rd_buf = small_buf, rd_env = small_env, rd_world = ''defghi'', rd_eof = False\<rparr> = Some (r, s')
    \<and> buf_content (rd_buf s') = ''abc'' @ bs \<and> ''defghi'' = bs @ rd_world s' \<and> length bs \<le> 5"
  using buf_read_lossless [OF toy_recv_ok, of "\<lparr>rd_buf = small_buf, rd_env = small_env, rd_world = ''defghi'', rd_eof = False\<rparr>" 5] small_buf
  by (auto simp: BUF_MAX_LEN_def)

text \<open>C27 \<open>buf_flush_to_fd\<close> returns, and the bytes it removes from the front of the buffer are exactly
  the bytes the kernel took, also after partial writes, \<open>EAGAIN\<close> and errors.
\<close>

theorem buf_flush_lossless:
  assumes "send_ok send sent" "buf_inv buf" "alloc_ok buf e"
  shows "\<exists>r buf' e' w' bs. buf_flush_to_fd send sz buf e w = Some (r, buf', e', w') \<and> buf_inv buf' \<and> alloc_ok buf' e'
    \<and> buf_content buf = bs @ buf_content buf' \<and> sent w' = sent w @ bs \<and> length bs \<le> sz
    \<and> (\<forall>n. r = Some n \<longrightarrow> n = length bs)"
proof -
  define m where "m = (if sz > b_datalen buf then b_datalen buf else sz)"
  have m: "m \<le> length (buf_content buf)" "m \<le> sz" "m \<le> BUF_MAX_LEN" using assms(2) by (auto simp: m_def buf_inv_def)
  from buf_flush_loop_spec [OF assms m(1), of 0 w] obtain r buf' e' w' bs where
    "buf_flush_loop send m 0 buf e w = Some (r, buf', e', w')" "buf_content buf = bs @ buf_content buf'" "sent w' = sent w @ bs"
    "length bs \<le> m" "\<forall>n. r = Some n \<longrightarrow> n = length bs" "buf_inv buf'" "alloc_ok buf' e'"
    by (auto simp: flush_result_def)
  then show ?thesis using m by (auto simp: buf_flush_to_fd_def m_def [symmetric] split: option.splits)
qed

definition toy_send :: "string send" where
  "toy_send w bs = (Sent (min 2 (length bs)), w @ take 2 bs)"

lemma toy_send_ok: "send_ok toy_send id"
  by (auto simp: send_ok_def toy_send_def min_def)

theorem buf_flush_lossless_witness:
  "\<exists>r buf' e' w' bs. buf_flush_to_fd toy_send 3 small_buf small_env ''>'' = Some (r, buf', e', w')
    \<and> ''abc'' = bs @ buf_content buf' \<and> w' = ''>'' @ bs \<and> length bs \<le> 3 \<and> (\<forall>n. r = Some n \<longrightarrow> n = length bs)"
  using buf_flush_lossless [OF toy_send_ok, of small_buf small_env 3 "''>''"] small_buf
  by (auto simp: alloc_ok_def small_env_def)

end
