(* ===== verification/Smartlist_Core.thy ===== *)
theory Smartlist_Core
  imports Prelude "HOL-Library.Multiset"
begin

text \<open>
  \<open>lib/smartlist_core/smartlist_core.c\<close>: resizeable arrays of pointers.  The record has the fields of
  \<open>smartlist_t\<close>; the array is the list of all its \<open>capacity\<close> slots, and every access outside it is
  \<open>None\<close>, like a failed assertion.  The invariant \<open>sl_inv\<close> is established by \<open>smartlist_new\<close> and kept
  by every operation; the effect of each operation on the used slots is stated as a list, and
  \<open>op_refinement\<close> is interpreted for the whole set.
\<close>

section \<open>State\<close>

text \<open>A pointer to an \<open>'a\<close>; \<open>None\<close> is \<open>NULL\<close>.\<close>

record 'a smartlist_t =
  sl_list :: "'a option list"
  sl_num_used :: nat
  sl_capacity :: nat

definition SMARTLIST_DEFAULT_CAPACITY :: nat where "SMARTLIST_DEFAULT_CAPACITY = 16"
definition MAX_CAPACITY :: nat where "MAX_CAPACITY = 2147483647"

text \<open>Array accesses fail outside the allocated slots.\<close>

definition slot_get :: "'a smartlist_t \<Rightarrow> nat \<Rightarrow> 'a option option" where
  "slot_get sl i = (if i < length (sl_list sl) then Some (sl_list sl ! i) else None)"

definition slot_set :: "'a smartlist_t \<Rightarrow> nat \<Rightarrow> 'a option \<Rightarrow> 'a smartlist_t option" where
  "slot_set sl i v = (if i < length (sl_list sl) then Some (sl\<lparr>sl_list := (sl_list sl)[i := v]\<rparr>) else None)"

definition smartlist_new :: "'a smartlist_t" where
  "smartlist_new = \<lparr>sl_list = replicate SMARTLIST_DEFAULT_CAPACITY None, sl_num_used = 0, sl_capacity = SMARTLIST_DEFAULT_CAPACITY\<rparr>"

definition smartlist_clear :: "'a smartlist_t \<Rightarrow> 'a smartlist_t" where
  "smartlist_clear sl = sl\<lparr>sl_list := replicate (sl_num_used sl) None @ drop (sl_num_used sl) (sl_list sl), sl_num_used := 0\<rparr>"

text \<open>\<open>None\<close> is a doubling loop that does not end.\<close>

partial_function (option) double_loop :: "nat \<Rightarrow> nat \<Rightarrow> nat option" where
  "double_loop sz higher = (if sz > higher then double_loop sz (higher * 2) else Some higher)"

definition smartlist_ensure_capacity :: "'a smartlist_t \<Rightarrow> nat \<Rightarrow> 'a smartlist_t option" where
  "smartlist_ensure_capacity sl sz = do {
     tor_assert (sz \<le> MAX_CAPACITY);
     if sz > sl_capacity sl then do {
       higher \<leftarrow> (if sz > MAX_CAPACITY div 2 then Some MAX_CAPACITY else double_loop sz (sl_capacity sl));
       Some (sl\<lparr>sl_list := sl_list sl @ replicate (higher - sl_capacity sl) None, sl_capacity := higher\<rparr>)
     } else Some sl
   }"

definition smartlist_grow :: "'a smartlist_t \<Rightarrow> nat \<Rightarrow> 'a smartlist_t option" where
  "smartlist_grow sl new_size = do {
     sl \<leftarrow> smartlist_ensure_capacity sl new_size;
     if new_size > sl_num_used sl then
       Some (sl\<lparr>sl_list := take (sl_num_used sl) (sl_list sl) @ replicate (new_size - sl_num_used sl) None @ drop new_size (sl_list sl),
                sl_num_used := new_size\<rparr>)
     else Some sl
   }"

definition smartlist_add :: "'a smartlist_t \<Rightarrow> 'a option \<Rightarrow> 'a smartlist_t option" where
  "smartlist_add sl element = do {
     sl \<leftarrow> smartlist_ensure_capacity sl (sl_num_used sl + 1);
     sl \<leftarrow> slot_set sl (sl_num_used sl) element;
     Some (sl\<lparr>sl_num_used := sl_num_used sl + 1\<rparr>)
   }"

text \<open>The copy fails if it would read or write outside the two arrays.\<close>

definition smartlist_add_all :: "'a smartlist_t \<Rightarrow> 'a smartlist_t \<Rightarrow> 'a smartlist_t option" where
  "smartlist_add_all s1 s2 = do {
     let new_size = sl_num_used s1 + sl_num_used s2;
     s1 \<leftarrow> smartlist_ensure_capacity s1 new_size;
     tor_assert (sl_num_used s2 \<le> length (sl_list s2) \<and> new_size \<le> length (sl_list s1));
     let s1 = s1\<lparr>sl_list := take (sl_num_used s1) (sl_list s1) @ take (sl_num_used s2) (sl_list s2) @ drop new_size (sl_list s1)\<rparr>;
     tor_assert (new_size \<le> 2147483647);
     Some (s1\<lparr>sl_num_used := new_size\<rparr>)
   }"

text \<open>Overwrite slot \<open>i\<close> with the last used one, which becomes \<open>NULL\<close>.\<close>

definition swap_with_end :: "'a smartlist_t \<Rightarrow> nat \<Rightarrow> 'a smartlist_t option" where
  "swap_with_end sl i = do {
     tor_assert (0 < sl_num_used sl);
     let n = sl_num_used sl - 1;
     v \<leftarrow> slot_get sl n;
     sl \<leftarrow> slot_set sl i v;
     sl \<leftarrow> slot_set sl n None;
     Some (sl\<lparr>sl_num_used := n\<rparr>)
   }"

lemma swap_with_end_num_used: "swap_with_end sl i = Some sl' \<Longrightarrow> sl_num_used sl' < sl_num_used sl"
  by (auto simp: swap_with_end_def slot_get_def slot_set_def Let_def split: if_splits bind_splits)

function remove_loop :: "'a option \<Rightarrow> nat \<Rightarrow> 'a smartlist_t \<Rightarrow> 'a smartlist_t option" where
  "remove_loop element i sl =
     (if i < sl_num_used sl then do {
        v \<leftarrow> slot_get sl i;
        if v = element then do { sl \<leftarrow> swap_with_end sl i; remove_loop element i sl }
        else remove_loop element (i + 1) sl
      } else Some sl)"
  by pat_completeness auto
termination
  by (relation "measure (\<lambda>(_, i, sl). sl_num_used sl - i)") (auto dest: swap_with_end_num_used)

declare remove_loop.simps [simp del]

definition smartlist_remove :: "'a smartlist_t \<Rightarrow> 'a option \<Rightarrow> 'a smartlist_t option" where
  "smartlist_remove sl element = (if element = None then Some sl else remove_loop element 0 sl)"

text \<open>\<open>i\<close> is the next slot to fill, \<open>j\<close> the next to look at, \<open>k\<close> the slots left to look at.\<close>

fun keeporder_loop :: "'a option \<Rightarrow> nat \<Rightarrow> nat \<Rightarrow> nat \<Rightarrow> 'a smartlist_t \<Rightarrow> 'a smartlist_t option" where
  "keeporder_loop element i j 0 sl = Some sl"
| "keeporder_loop element i j (Suc k) sl = do {
     v \<leftarrow> slot_get sl j;
     if v = element then keeporder_loop element i (j + 1) k (sl\<lparr>sl_num_used := sl_num_used sl - 1\<rparr>)
     else do { sl \<leftarrow> slot_set sl i v; keeporder_loop element (i + 1) (j + 1) k sl }
   }"

definition smartlist_remove_keeporder :: "'a smartlist_t \<Rightarrow> 'a option \<Rightarrow> 'a smartlist_t option" where
  "smartlist_remove_keeporder sl element =
     (if element = None then Some sl
      else do {
        let num_used_orig = sl_num_used sl;
        sl \<leftarrow> keeporder_loop element 0 0 num_used_orig sl;
        Some (sl\<lparr>sl_list := take (sl_num_used sl) (sl_list sl) @ replicate (num_used_orig - sl_num_used sl) None
                   @ drop num_used_orig (sl_list sl)\<rparr>)
      })"

text \<open>The result \<open>None\<close> of the inner option is also the answer for an empty list.\<close>

definition smartlist_pop_last :: "'a smartlist_t \<Rightarrow> ('a option \<times> 'a smartlist_t) option" where
  "smartlist_pop_last sl =
     (if sl_num_used sl \<noteq> 0 then do {
        let n = sl_num_used sl - 1;
        tmp \<leftarrow> slot_get sl n;
        sl \<leftarrow> slot_set sl n None;
        Some (tmp, sl\<lparr>sl_num_used := n\<rparr>)
      } else Some (None, sl))"

definition smartlist_contains :: "'a smartlist_t \<Rightarrow> 'a option \<Rightarrow> bool" where
  "smartlist_contains sl element \<longleftrightarrow> element \<in> set (take (sl_num_used sl) (sl_list sl))"

definition smartlist_del :: "'a smartlist_t \<Rightarrow> int \<Rightarrow> 'a smartlist_t option" where
  "smartlist_del sl idx = do {
     tor_assert (idx \<ge> 0);
     tor_assert (idx < int (sl_num_used sl));
     swap_with_end sl (nat idx)
   }"

definition smartlist_del_keeporder :: "'a smartlist_t \<Rightarrow> int \<Rightarrow> 'a smartlist_t option" where
  "smartlist_del_keeporder sl idx = do {
     tor_assert (idx \<ge> 0);
     tor_assert (idx < int (sl_num_used sl));
     let n = sl_num_used sl - 1;
     tor_assert (n < length (sl_list sl));
     let l = (if nat idx < n then take (nat idx) (sl_list sl) @ take (n - nat idx) (drop (nat idx + 1) (sl_list sl)) @ drop n (sl_list sl)
              else sl_list sl);
     Some (sl\<lparr>sl_list := l[n := None], sl_num_used := n\<rparr>)
   }"

definition smartlist_insert :: "'a smartlist_t \<Rightarrow> int \<Rightarrow> 'a option \<Rightarrow> 'a smartlist_t option" where
  "smartlist_insert sl idx val = do {
     tor_assert (idx \<ge> 0);
     tor_assert (idx \<le> int (sl_num_used sl));
     if idx = int (sl_num_used sl) then smartlist_add sl val
     else do {
       sl \<leftarrow> smartlist_ensure_capacity sl (sl_num_used sl + 1);
       let n = sl_num_used sl;
       tor_assert (n < length (sl_list sl));
       let l = take (nat idx + 1) (sl_list sl) @ take (n - nat idx) (drop (nat idx) (sl_list sl)) @ drop (n + 1) (sl_list sl);
       slot_set (sl\<lparr>sl_list := l, sl_num_used := n + 1\<rparr>) (nat idx) val
     }
   }"

definition smartlist_swap :: "'a smartlist_t \<Rightarrow> nat \<Rightarrow> nat \<Rightarrow> 'a smartlist_t option" where
  "smartlist_swap sl idx1 idx2 =
     (if idx1 \<noteq> idx2 then do {
        elt \<leftarrow> slot_get sl idx1;
        v \<leftarrow> slot_get sl idx2;
        sl \<leftarrow> slot_set sl idx1 v;
        slot_set sl idx2 elt
      } else Some sl)"

section \<open>Invariant\<close>

definition sl_inv :: "'a smartlist_t \<Rightarrow> bool" where
  "sl_inv sl \<longleftrightarrow> length (sl_list sl) = sl_capacity sl \<and> sl_num_used sl \<le> sl_capacity sl
     \<and> 0 < sl_capacity sl \<and> sl_capacity sl \<le> MAX_CAPACITY \<and> set (drop (sl_num_used sl) (sl_list sl)) \<subseteq> {None}"

definition items :: "'a smartlist_t \<Rightarrow> 'a option list" where
  "items sl = take (sl_num_used sl) (sl_list sl)"

text \<open>The effect of an operation on the items.\<close>

definition yields :: "'a smartlist_t option \<Rightarrow> 'a option list \<Rightarrow> bool" where
  "yields r xs \<longleftrightarrow> (\<exists>sl. r = Some sl \<and> sl_inv sl \<and> items sl = xs)"

lemma set_None: "set xs \<subseteq> {None} \<longleftrightarrow> xs = replicate (length xs) None"
  by (induction xs) auto

text \<open>A list that satisfies the invariant is its items followed by \<open>NULL\<close> slots.\<close>

lemma sl_shape:
  "sl_inv sl \<longleftrightarrow> (\<exists>xs k. sl = \<lparr>sl_list = xs @ replicate k None, sl_num_used = length xs, sl_capacity = length xs + k\<rparr>
     \<and> 0 < length xs + k \<and> length xs + k \<le> MAX_CAPACITY)"
proof
  assume inv: "sl_inv sl"
  then have "sl_list sl = take (sl_num_used sl) (sl_list sl) @ replicate (sl_capacity sl - sl_num_used sl) None"
    by (metis append_take_drop_id length_drop set_None sl_inv_def)
  then show "\<exists>xs k. sl = \<lparr>sl_list = xs @ replicate k None, sl_num_used = length xs, sl_capacity = length xs + k\<rparr>
     \<and> 0 < length xs + k \<and> length xs + k \<le> MAX_CAPACITY"
    using inv by (intro exI [of _ "take (sl_num_used sl) (sl_list sl)"] exI [of _ "sl_capacity sl - sl_num_used sl"])
      (cases sl, auto simp: sl_inv_def)
qed (auto simp: sl_inv_def)

abbreviation mk_sl :: "'a option list \<Rightarrow> nat \<Rightarrow> 'a smartlist_t" where
  "mk_sl xs k \<equiv> \<lparr>sl_list = xs @ replicate k None, sl_num_used = length xs, sl_capacity = length xs + k\<rparr>"

lemma sl_cases:
  assumes "sl_inv sl"
  obtains k where "sl = mk_sl (items sl) k" "0 < length (items sl) + k" "length (items sl) + k \<le> MAX_CAPACITY"
  using assms unfolding sl_shape by (auto simp: items_def)

lemma items_mk [simp]: "items (mk_sl xs k) = xs"
  by (simp add: items_def)

lemma inv_mk: "sl_inv (mk_sl xs k) \<longleftrightarrow> 0 < length xs + k \<and> length xs + k \<le> MAX_CAPACITY"
  by (auto simp: sl_inv_def)

lemma yieldsI: "r = Some (mk_sl xs k) \<Longrightarrow> 0 < length xs + k \<Longrightarrow> length xs + k \<le> MAX_CAPACITY \<Longrightarrow> yields r xs"
  by (auto simp: yields_def inv_mk)

lemma double_loop_spec:
  "0 < higher \<Longrightarrow> \<exists>h. double_loop sz higher = Some h \<and> sz \<le> h \<and> higher \<le> h \<and> (h = higher \<or> h < 2 * sz)"
proof (induction "sz - higher" arbitrary: higher rule: less_induct)
  case less
  show ?case
  proof (cases "sz > higher")
    case True
    then have "sz - higher * 2 < sz - higher" using less.prems by simp
    with less.hyps [of "higher * 2"] less.prems obtain h where
      "double_loop sz (higher * 2) = Some h" "sz \<le> h" "higher * 2 \<le> h" "h = higher * 2 \<or> h < 2 * sz" by auto
    then show ?thesis using True less.prems by (subst double_loop.simps) auto
  qed (subst double_loop.simps, simp)
qed

lemma ensure_capacity_spec:
  assumes "0 < length xs + k" "length xs + k \<le> MAX_CAPACITY" "n \<le> MAX_CAPACITY"
  shows "\<exists>k'. smartlist_ensure_capacity (mk_sl xs k) n = Some (mk_sl xs k') \<and> k \<le> k' \<and> n \<le> length xs + k' \<and> length xs + k' \<le> MAX_CAPACITY"
proof (cases "n > length xs + k")
  case True
  obtain h where h: "(if n > MAX_CAPACITY div 2 then Some MAX_CAPACITY else double_loop n (length xs + k)) = Some h"
      "n \<le> h" "h \<le> MAX_CAPACITY"
    using double_loop_spec [OF assms(1), of n] assms(3) True by (cases "n > MAX_CAPACITY div 2") fastforce+
  then have "smartlist_ensure_capacity (mk_sl xs k) n = Some (mk_sl xs (h - length xs))"
    using True assms by (auto simp: smartlist_ensure_capacity_def replicate_add [symmetric] split: if_splits)
  then show ?thesis using h True by (intro exI [of _ "h - length xs"]) simp
next
  case False
  then show ?thesis using assms by (auto simp: smartlist_ensure_capacity_def)
qed


section \<open>Operations on the items\<close>

lemma slot_get_mk [simp]: "i < length xs \<Longrightarrow> slot_get (mk_sl xs k) i = Some (xs ! i)"
  by (simp add: slot_get_def nth_append)

lemma smartlist_new_spec: "sl_inv smartlist_new" "items smartlist_new = []"
  by (simp_all add: sl_inv_def items_def smartlist_new_def SMARTLIST_DEFAULT_CAPACITY_def MAX_CAPACITY_def)

lemma smartlist_clear_spec: "sl_inv sl \<Longrightarrow> sl_inv (smartlist_clear sl) \<and> items (smartlist_clear sl) = []"
  by (auto simp: sl_inv_def items_def smartlist_clear_def)

lemma mk_sl_snoc: "(xs @ replicate (Suc k) None)[length xs := v] = (xs @ [v]) @ replicate k None"
  by (simp add: list_update_append)

lemma smartlist_add_spec:
  assumes "sl_inv sl" "length (items sl) < MAX_CAPACITY"
  shows "yields (smartlist_add sl v) (items sl @ [v])"
proof (rule sl_cases [OF assms(1)])
  fix k
  assume k: "sl = mk_sl (items sl) k" "0 < length (items sl) + k" "length (items sl) + k \<le> MAX_CAPACITY"
  let ?xs = "items sl"
  have "length ?xs + 1 \<le> MAX_CAPACITY" using assms(2) by simp
  from ensure_capacity_spec [OF k(2,3) this] obtain k' where
    e: "smartlist_ensure_capacity (mk_sl ?xs k) (length ?xs + 1) = Some (mk_sl ?xs k')" "0 < k'" "length ?xs + k' \<le> MAX_CAPACITY" by auto
  then obtain j where j: "k' = Suc j" by (cases k') auto
  have "smartlist_add (mk_sl ?xs k) v = Some (mk_sl (?xs @ [v]) j)"
    using e j by (simp add: smartlist_add_def slot_set_def mk_sl_snoc)
  then show ?thesis using k(1) e(3) j by (intro yieldsI [of _ _ j]) simp_all
qed

lemma smartlist_grow_spec:
  assumes "sl_inv sl" "n \<le> MAX_CAPACITY"
  shows "yields (smartlist_grow sl n) (items sl @ replicate (n - length (items sl)) None)"
proof (rule sl_cases [OF assms(1)])
  fix k
  assume k: "sl = mk_sl (items sl) k" "0 < length (items sl) + k" "length (items sl) + k \<le> MAX_CAPACITY"
  let ?xs = "items sl"
  from ensure_capacity_spec [OF k(2,3) assms(2)] obtain k' where
    e: "smartlist_ensure_capacity (mk_sl ?xs k) n = Some (mk_sl ?xs k')" "k \<le> k'" "n \<le> length ?xs + k'" "length ?xs + k' \<le> MAX_CAPACITY" by auto
  define d where "d = n - length ?xs"
  have d: "d \<le> k'" using e(3) by (simp add: d_def)
  have "smartlist_grow (mk_sl ?xs k) n = Some (mk_sl (?xs @ replicate d None) (k' - d))"
    using e d by (auto simp: smartlist_grow_def d_def replicate_add [symmetric])
  then show ?thesis using k e d unfolding d_def [symmetric] by (intro yieldsI [of _ _ "k' - d"]) auto
qed

lemma smartlist_add_all_spec:
  assumes "sl_inv s1" "sl_inv s2" "length (items s1) + length (items s2) \<le> MAX_CAPACITY"
  shows "yields (smartlist_add_all s1 s2) (items s1 @ items s2)"
proof (rule sl_cases [OF assms(1)], rule sl_cases [OF assms(2)])
  fix k m
  assume k: "s1 = mk_sl (items s1) k" "0 < length (items s1) + k" "length (items s1) + k \<le> MAX_CAPACITY"
    and m: "s2 = mk_sl (items s2) m"
  let ?xs = "items s1" and ?ys = "items s2"
  from ensure_capacity_spec [OF k(2,3) assms(3)] obtain k' where
    e: "smartlist_ensure_capacity (mk_sl ?xs k) (length ?xs + length ?ys) = Some (mk_sl ?xs k')" "k \<le> k'" "length ?ys \<le> k'"
      "length ?xs + k' \<le> MAX_CAPACITY" by auto
  have "smartlist_add_all (mk_sl ?xs k) (mk_sl ?ys m) = Some (mk_sl (?xs @ ?ys) (k' - length ?ys))"
    using e assms(3) by (simp add: smartlist_add_all_def MAX_CAPACITY_def)
  then show ?thesis using k m e by (intro yieldsI [of _ _ "k' - length ?ys"]) auto
qed

text \<open>Deleting by swapping with the end, on lists.\<close>

definition del_swap :: "nat \<Rightarrow> 'b list \<Rightarrow> 'b list" where
  "del_swap i xs = (butlast xs)[i := last xs]"

lemma del_swap_length [simp]: "length (del_swap i xs) = length xs - 1"
  by (simp add: del_swap_def)

lemma del_swap_nth: "j < length xs - 1 \<Longrightarrow> del_swap i xs ! j = (if j = i then last xs else xs ! j)"
  by (auto simp: del_swap_def nth_list_update nth_butlast)

lemma mset_del_swap: "i < length xs \<Longrightarrow> add_mset (xs ! i) (mset (del_swap i xs)) = mset xs"
proof (cases xs rule: rev_cases)
  case (snoc ys y)
  assume "i < length xs"
  then show ?thesis
    using snoc by (cases "i < length ys") (auto simp: del_swap_def mset_update nth_append list_update_beyond)
qed simp

lemma swap_with_end_mk:
  assumes "i < length xs"
  shows "swap_with_end (mk_sl xs k) i = Some (mk_sl (del_swap i xs) (Suc k))"
proof -
  obtain ys y where xs: "xs = ys @ [y]" using assms by (cases xs rule: rev_cases) auto
  show ?thesis
    using assms unfolding xs
    by (cases "i = length ys")
      (auto simp: swap_with_end_def slot_get_def slot_set_def del_swap_def nth_append list_update_append list_update_beyond Let_def)
qed

lemma smartlist_del_spec:
  assumes "sl_inv sl" "0 \<le> idx" "idx < int (length (items sl))"
  shows "yields (smartlist_del sl idx) (del_swap (nat idx) (items sl))"
proof (rule sl_cases [OF assms(1)])
  fix k
  assume k: "sl = mk_sl (items sl) k" "length (items sl) + k \<le> MAX_CAPACITY"
  have "smartlist_del (mk_sl (items sl) k) idx = Some (mk_sl (del_swap (nat idx) (items sl)) (Suc k))"
    using assms swap_with_end_mk [of "nat idx" "items sl" k] by (simp add: smartlist_del_def)
  then show ?thesis using k assms by (intro yieldsI [of _ _ "Suc k"]) simp_all
qed

lemma smartlist_del_keeporder_spec:
  assumes "sl_inv sl" "0 \<le> idx" "idx < int (length (items sl))"
  shows "yields (smartlist_del_keeporder sl idx) (take (nat idx) (items sl) @ drop (nat idx + 1) (items sl))"
proof (rule sl_cases [OF assms(1)])
  fix k
  assume k: "sl = mk_sl (items sl) k" "length (items sl) + k \<le> MAX_CAPACITY"
  define i where "i = nat idx"
  let ?xs = "items sl"
  have i: "i < length ?xs" using assms by (simp add: i_def)
  then obtain ys y where xs: "?xs = ys @ [y]" by (cases ?xs rule: rev_cases) auto
  have "smartlist_del_keeporder (mk_sl ?xs k) idx = Some (mk_sl (take i ?xs @ drop (i + 1) ?xs) (Suc k))"
    using assms i unfolding xs
    by (cases "i < length ys") (auto simp: smartlist_del_keeporder_def i_def [symmetric] list_update_append Let_def)
  then show ?thesis using k i unfolding i_def [symmetric] by (intro yieldsI [of _ _ "Suc k"]) simp_all
qed

lemma smartlist_insert_spec:
  assumes "sl_inv sl" "0 \<le> idx" "idx \<le> int (length (items sl))" "length (items sl) < MAX_CAPACITY"
  shows "yields (smartlist_insert sl idx v) (take (nat idx) (items sl) @ v # drop (nat idx) (items sl))"
proof (cases "idx = int (length (items sl))")
  case True
  have "sl_num_used sl = length (items sl)" using assms(1) by (auto simp: sl_inv_def items_def)
  then show ?thesis using True smartlist_add_spec [OF assms(1,4)] by (simp add: smartlist_insert_def)
next
  case False
  show ?thesis
  proof (rule sl_cases [OF assms(1)])
    fix k
    assume k: "sl = mk_sl (items sl) k" "0 < length (items sl) + k" "length (items sl) + k \<le> MAX_CAPACITY"
    define i where "i = nat idx"
    let ?xs = "items sl"
    have i: "i < length ?xs" using assms False by (simp add: i_def)
    have "length ?xs + 1 \<le> MAX_CAPACITY" using assms(4) by simp
    from ensure_capacity_spec [OF k(2,3) this] obtain k' where
      e: "smartlist_ensure_capacity (mk_sl ?xs k) (length ?xs + 1) = Some (mk_sl ?xs k')" "0 < k'" "length ?xs + k' \<le> MAX_CAPACITY" by auto
    then obtain j where j: "k' = Suc j" by (cases k') auto
    have "smartlist_insert (mk_sl ?xs k) idx v = Some (mk_sl (take i ?xs @ v # drop i ?xs) j)"
      using assms False e i unfolding j
      by (auto simp: smartlist_insert_def i_def [symmetric] slot_set_def list_update_append take_Suc_conv_app_nth min_def Let_def)
    then show ?thesis using k(1) e(3) j i unfolding i_def [symmetric] by (intro yieldsI [of _ _ j]) simp_all
  qed
qed

lemma smartlist_pop_last_spec:
  assumes "sl_inv sl"
  shows "\<exists>r sl'. smartlist_pop_last sl = Some (r, sl') \<and> sl_inv sl' \<and> items sl' = butlast (items sl)
    \<and> r = (if items sl = [] then None else last (items sl))"
proof (rule sl_cases [OF assms])
  fix k
  assume k: "sl = mk_sl (items sl) k" "0 < length (items sl) + k" "length (items sl) + k \<le> MAX_CAPACITY"
  show ?thesis
  proof (cases "items sl" rule: rev_cases)
    case Nil
    then show ?thesis using assms by (auto simp: smartlist_pop_last_def sl_inv_def items_def)
  next
    case (snoc ys y)
    have "smartlist_pop_last (mk_sl (ys @ [y]) k) = Some (y, mk_sl ys (Suc k))"
      by (simp add: Let_def smartlist_pop_last_def slot_get_def slot_set_def nth_append list_update_append)
    moreover have "sl_inv (mk_sl ys (Suc k))" using k(3) snoc by (simp only: inv_mk) simp
    moreover have "sl = mk_sl (ys @ [y]) k" using k(1) snoc by simp
    ultimately show ?thesis using snoc items_mk [of ys "Suc k"] by (metis butlast_snoc last_snoc snoc_eq_iff_butlast)
  qed
qed


function del_swap_loop :: "('b \<Rightarrow> bool) \<Rightarrow> nat \<Rightarrow> 'b list \<Rightarrow> 'b list" where
  "del_swap_loop P i xs =
     (if i < length xs then if P (xs ! i) then del_swap_loop P i (del_swap i xs) else del_swap_loop P (i + 1) xs else xs)"
  by pat_completeness auto
termination
  by (relation "measure (\<lambda>(_, i, xs). length xs - i)") auto

declare del_swap_loop.simps [simp del]

lemma del_swap_take: "take i (del_swap i xs) = take i (butlast xs)"
  by (simp add: del_swap_def)

text \<open>The loop keeps what is before the first removed element and removes exactly the elements that satisfy \<open>P\<close>.\<close>

lemma del_swap_loop_spec:
  "i \<le> length xs \<Longrightarrow>
     mset (del_swap_loop P i xs) = mset (take i xs) + filter_mset (\<lambda>x. \<not> P x) (mset (drop i xs))
     \<and> take i (del_swap_loop P i xs) = take i xs"
proof (induction P i xs rule: del_swap_loop.induct)
  case (1 P i xs)
  show ?case
  proof (cases "i < length xs")
    case False
    then show ?thesis using 1(3) by (subst (1 2) del_swap_loop.simps) simp
  next
    case i: True
    have dr: "drop i xs = xs ! i # drop (Suc i) xs" using i by (simp add: Cons_nth_drop_Suc)
    show ?thesis
    proof (cases "P (xs ! i)")
      case True
      have tk: "take i (del_swap i xs) = take i xs" using i by (simp add: del_swap_take take_butlast)
      have "mset (del_swap i xs) = mset (take i xs) + mset (drop i (del_swap i xs))"
        using tk by (metis append_take_drop_id mset_append)
      moreover have "mset xs = mset (take i xs) + add_mset (xs ! i) (mset (drop (Suc i) xs))"
        using dr by (metis append_take_drop_id mset.simps(2) mset_append)
      ultimately have "mset (drop i (del_swap i xs)) = mset (drop (Suc i) xs)"
        using mset_del_swap [OF i] by simp
      then show ?thesis
        using 1(1)[OF i True] i True tk dr by (subst (1 2) del_swap_loop.simps) (simp add: mset_filter)
    next
      case False
      have tk: "take (i + 1) xs = take i xs @ [xs ! i]" using i by (simp add: take_Suc_conv_app_nth)
      have IH: "mset (del_swap_loop P (i + 1) xs) = mset (take (i + 1) xs) + filter_mset (\<lambda>x. \<not> P x) (mset (drop (i + 1) xs))"
          "take (i + 1) (del_swap_loop P (i + 1) xs) = take (i + 1) xs"
        using 1(2)[OF i False] i by auto
      have "take i (del_swap_loop P (i + 1) xs) = take i (take (i + 1) (del_swap_loop P (i + 1) xs))" by simp
      also have "\<dots> = take i xs" unfolding IH(2) by simp
      finally show ?thesis
        using IH(1) i False dr tk by (subst (1 2) del_swap_loop.simps) simp
    qed
  qed
qed

lemma remove_loop_mk:
  "i \<le> length xs \<Longrightarrow> \<exists>k'. remove_loop e i (mk_sl xs k) = Some (mk_sl (del_swap_loop (\<lambda>v. v = e) i xs) k')
     \<and> length (del_swap_loop (\<lambda>v. v = e) i xs) + k' = length xs + k"
proof (induction "\<lambda>v. v = e" i xs arbitrary: k rule: del_swap_loop.induct)
  case (1 i xs)
  show ?case
  proof (cases "i < length xs")
    case False
    then have "del_swap_loop (\<lambda>v. v = e) i xs = xs" by (subst del_swap_loop.simps) simp
    then show ?thesis using False by (subst remove_loop.simps) simp
  next
    case True
    show ?thesis
    proof (cases "xs ! i = e")
      case eq: True
      have "remove_loop e i (mk_sl xs k) = remove_loop e i (mk_sl (del_swap i xs) (Suc k))"
        using True eq swap_with_end_mk [OF True, of k] by (subst remove_loop.simps) simp
      moreover have "del_swap_loop (\<lambda>v. v = e) i xs = del_swap_loop (\<lambda>v. v = e) i (del_swap i xs)"
        using True eq by (subst del_swap_loop.simps) simp
      ultimately show ?thesis using 1(1)[OF True eq, of "Suc k"] True by fastforce
    next
      case False
      have "remove_loop e i (mk_sl xs k) = remove_loop e (i + 1) (mk_sl xs k)"
        using True False by (subst remove_loop.simps) simp
      moreover have "del_swap_loop (\<lambda>v. v = e) i xs = del_swap_loop (\<lambda>v. v = e) (i + 1) xs"
        using True False by (subst del_swap_loop.simps) simp
      ultimately show ?thesis using 1(2)[OF True False, of k] True by simp
    qed
  qed
qed

lemma smartlist_remove_spec:
  assumes "sl_inv sl" "e \<noteq> None"
  shows "yields (smartlist_remove sl e) (del_swap_loop (\<lambda>v. v = e) 0 (items sl))"
proof (rule sl_cases [OF assms(1)])
  fix k
  assume k: "sl = mk_sl (items sl) k" "0 < length (items sl) + k" "length (items sl) + k \<le> MAX_CAPACITY"
  from remove_loop_mk [of 0 "items sl" e k] obtain k' where
    r: "remove_loop e 0 (mk_sl (items sl) k) = Some (mk_sl (del_swap_loop (\<lambda>v. v = e) 0 (items sl)) k')"
      "length (del_swap_loop (\<lambda>v. v = e) 0 (items sl)) + k' = length (items sl) + k" by auto
  show ?thesis
    by (rule yieldsI [of _ _ k']) (use r k assms(2) in \<open>auto simp: smartlist_remove_def\<close>)
qed

lemma keeporder_loop_mk:
  "length a = i \<Longrightarrow> i + length g = j \<Longrightarrow>
   \<exists>g'. keeporder_loop e i j (length zs) \<lparr>sl_list = a @ g @ zs @ r, sl_num_used = u + length zs, sl_capacity = c\<rparr>
     = Some \<lparr>sl_list = a @ filter (\<lambda>v. v \<noteq> e) zs @ g' @ r, sl_num_used = u + length (filter (\<lambda>v. v \<noteq> e) zs), sl_capacity = c\<rparr>
     \<and> length (filter (\<lambda>v. v \<noteq> e) zs) + length g' = length g + length zs"
proof (induction zs arbitrary: a i j g u)
  case (Cons z zs)
  let ?sl = "\<lparr>sl_list = a @ g @ (z # zs) @ r, sl_num_used = u + length (z # zs), sl_capacity = c\<rparr>"
  have get: "slot_get ?sl j = Some z"
    using Cons.prems by (auto simp: slot_get_def nth_append)
  show ?case
  proof (cases "z = e")
    case True
    then show ?thesis using get Cons.IH [of a i "g @ [z]" "j + 1" u] Cons.prems by simp
  next
    case False
    obtain h where h: "slot_set ?sl i z = Some \<lparr>sl_list = (a @ [z]) @ h @ zs @ r, sl_num_used = Suc u + length zs, sl_capacity = c\<rparr>"
        "length h = length g"
    proof (cases g)
      case Nil
      then show ?thesis using that [of "[]"] Cons.prems by (simp add: slot_set_def list_update_append)
    next
      case (Cons y g')
      then show ?thesis using that [of "g' @ [z]"] Cons.prems by (auto simp: slot_set_def list_update_append)
    qed
    then show ?thesis using get False Cons.IH [of "a @ [z]" "i + 1" h "j + 1" "Suc u"] Cons.prems by simp
  qed
qed simp

lemma smartlist_remove_keeporder_spec:
  assumes "sl_inv sl" "e \<noteq> None"
  shows "yields (smartlist_remove_keeporder sl e) (filter (\<lambda>v. v \<noteq> e) (items sl))"
proof (rule sl_cases [OF assms(1)])
  fix k
  assume k: "sl = mk_sl (items sl) k" "0 < length (items sl) + k" "length (items sl) + k \<le> MAX_CAPACITY"
  let ?xs = "items sl" and ?f = "filter (\<lambda>v. v \<noteq> e) (items sl)"
  from keeporder_loop_mk [of "[]" 0 "[]" 0 e ?xs "replicate k None" 0 "length ?xs + k"] obtain g where
    r: "keeporder_loop e 0 0 (length ?xs) (mk_sl ?xs k)
        = Some \<lparr>sl_list = ?f @ g @ replicate k None, sl_num_used = length ?f, sl_capacity = length ?xs + k\<rparr>"
      "length ?f + length g = length ?xs" by auto
  have gl: "length ?xs = length ?f + length g" using r(2) by simp
  have "smartlist_remove_keeporder (mk_sl ?xs k) e = Some (mk_sl ?f (length g + k))"
    using r(1) assms(2) gl by (auto simp: smartlist_remove_keeporder_def replicate_add Let_def)
  then show ?thesis using k r(2) by (intro yieldsI [of _ _ "length g + k"]) auto
qed


section \<open>The sequence a smartlist implements\<close>

datatype 'a sl_op =
    Sl_Add "'a option" | Sl_Insert int "'a option" | Sl_Del int | Sl_Del_Keeporder int
  | Sl_Remove "'a option" | Sl_Remove_Keeporder "'a option" | Sl_Pop | Sl_Grow nat | Sl_Clear | Sl_Contains "'a option"

datatype 'a sl_out = Sl_Done | Sl_Got "'a option" | Sl_Is bool

fun seq_spec :: "'a option list \<Rightarrow> 'a sl_op \<Rightarrow> ('a sl_out \<times> 'a option list) option" where
  "seq_spec xs (Sl_Add v) = (if length xs < MAX_CAPACITY then Some (Sl_Done, xs @ [v]) else None)"
| "seq_spec xs (Sl_Insert i v) =
     (if 0 \<le> i \<and> i \<le> int (length xs) \<and> length xs < MAX_CAPACITY then Some (Sl_Done, take (nat i) xs @ v # drop (nat i) xs) else None)"
| "seq_spec xs (Sl_Del i) = (if 0 \<le> i \<and> i < int (length xs) then Some (Sl_Done, (butlast xs)[nat i := last xs]) else None)"
| "seq_spec xs (Sl_Del_Keeporder i) =
     (if 0 \<le> i \<and> i < int (length xs) then Some (Sl_Done, take (nat i) xs @ drop (nat i + 1) xs) else None)"
| "seq_spec xs (Sl_Remove v) = Some (Sl_Done, if v = None then xs else del_swap_loop (\<lambda>w. w = v) 0 xs)"
| "seq_spec xs (Sl_Remove_Keeporder v) = Some (Sl_Done, if v = None then xs else filter (\<lambda>w. w \<noteq> v) xs)"
| "seq_spec xs Sl_Pop = Some (Sl_Got (if xs = [] then None else last xs), butlast xs)"
| "seq_spec xs (Sl_Grow n) = (if n \<le> MAX_CAPACITY then Some (Sl_Done, xs @ replicate (n - length xs) None) else None)"
| "seq_spec xs Sl_Clear = Some (Sl_Done, [])"
| "seq_spec xs (Sl_Contains v) = Some (Sl_Is (v \<in> set xs), xs)"

definition sl_done :: "'a smartlist_t option \<Rightarrow> ('a sl_out \<times> 'a smartlist_t) option" where
  "sl_done r = map_option (\<lambda>sl. (Sl_Done, sl)) r"

fun sl_step :: "'a smartlist_t \<Rightarrow> 'a sl_op \<Rightarrow> ('a sl_out \<times> 'a smartlist_t) option" where
  "sl_step sl (Sl_Add v) = sl_done (smartlist_add sl v)"
| "sl_step sl (Sl_Insert i v) = sl_done (smartlist_insert sl i v)"
| "sl_step sl (Sl_Del i) = sl_done (smartlist_del sl i)"
| "sl_step sl (Sl_Del_Keeporder i) = sl_done (smartlist_del_keeporder sl i)"
| "sl_step sl (Sl_Remove v) = sl_done (smartlist_remove sl v)"
| "sl_step sl (Sl_Remove_Keeporder v) = sl_done (smartlist_remove_keeporder sl v)"
| "sl_step sl Sl_Pop = do { (v, sl) \<leftarrow> smartlist_pop_last sl; Some (Sl_Got v, sl) }"
| "sl_step sl (Sl_Grow n) = sl_done (smartlist_grow sl n)"
| "sl_step sl Sl_Clear = Some (Sl_Done, smartlist_clear sl)"
| "sl_step sl (Sl_Contains v) = Some (Sl_Is (smartlist_contains sl v), sl)"

lemma yields_done: "yields r xs \<Longrightarrow> \<exists>sl. sl_done r = Some (Sl_Done, sl) \<and> sl_inv sl \<and> items sl = xs"
  by (auto simp: yields_def sl_done_def)

lemma sl_step_refines:
  assumes "sl_inv sl" "seq_spec (items sl) opn = Some (out, xs)"
  shows "\<exists>sl'. sl_step sl opn = Some (out, sl') \<and> sl_inv sl' \<and> items sl' = xs"
proof (cases opn)
  case (Sl_Add v)
  then show ?thesis using assms yields_done [OF smartlist_add_spec [OF assms(1), of v]] by (auto split: if_splits)
next
  case (Sl_Insert i v)
  then show ?thesis using assms yields_done [OF smartlist_insert_spec [OF assms(1), of i v]] by (auto split: if_splits)
next
  case (Sl_Del i)
  then show ?thesis using assms yields_done [OF smartlist_del_spec [OF assms(1), of i]] by (auto simp: del_swap_def split: if_splits)
next
  case (Sl_Del_Keeporder i)
  then show ?thesis using assms yields_done [OF smartlist_del_keeporder_spec [OF assms(1), of i]] by (auto split: if_splits)
next
  case (Sl_Remove v)
  then show ?thesis
    using assms yields_done [OF smartlist_remove_spec [OF assms(1), of v]]
    by (cases "v = None") (auto simp: smartlist_remove_def sl_done_def)
next
  case (Sl_Remove_Keeporder v)
  then show ?thesis
    using assms yields_done [OF smartlist_remove_keeporder_spec [OF assms(1), of v]]
    by (cases "v = None") (auto simp: smartlist_remove_keeporder_def sl_done_def)
next
  case Sl_Pop
  then show ?thesis using assms smartlist_pop_last_spec [OF assms(1)] by auto
next
  case (Sl_Grow n)
  then show ?thesis using assms yields_done [OF smartlist_grow_spec [OF assms(1), of n]] by (auto split: if_splits)
next
  case Sl_Clear
  then show ?thesis using assms smartlist_clear_spec [OF assms(1)] by auto
next
  case (Sl_Contains v)
  then show ?thesis using assms by (auto simp: smartlist_contains_def items_def)
qed

interpretation sequence: op_refinement sl_step seq_spec sl_inv items
  by unfold_locales (rule sl_step_refines)

text \<open>C30 Any sequence of operations that a plain sequence allows runs on a new smartlist without failing
  an assertion, accessing a slot outside the array or looping, returns what the sequence returns, and
  leaves a smartlist that holds the sequence, with its unused slots \<open>NULL\<close>.\<close>

theorem smartlist_refines_sequence:
  assumes "run_ops seq_spec [] ops = Some (outs, xs)"
  shows "\<exists>sl. run_ops sl_step smartlist_new ops = Some (outs, sl) \<and> items sl = xs
    \<and> sl_num_used sl \<le> sl_capacity sl \<and> length (sl_list sl) = sl_capacity sl \<and> set (drop (sl_num_used sl) (sl_list sl)) \<subseteq> {None}"
proof -
  obtain sl where "run_ops sl_step smartlist_new ops = Some (outs, sl)" "sl_inv sl" "items sl = xs"
    using sequence.run_refines [OF smartlist_new_spec(1), of ops outs xs] assms smartlist_new_spec(2) by metis
  then show ?thesis by (auto simp: sl_inv_def)
qed

theorem smartlist_refines_sequence_witness:
  "\<exists>sl. run_ops sl_step smartlist_new
      [Sl_Add (Some (1 :: nat)), Sl_Add (Some 2), Sl_Insert 0 (Some 3), Sl_Add (Some 4), Sl_Del 0, Sl_Del_Keeporder 1, Sl_Grow 3, Sl_Remove_Keeporder (Some 2), Sl_Pop]
    = Some ([Sl_Done, Sl_Done, Sl_Done, Sl_Done, Sl_Done, Sl_Done, Sl_Done, Sl_Done, Sl_Got None], sl) \<and> items sl = [Some 4]
    \<and> sl_num_used sl \<le> sl_capacity sl \<and> length (sl_list sl) = sl_capacity sl \<and> set (drop (sl_num_used sl) (sl_list sl)) \<subseteq> {None}"
  by (rule smartlist_refines_sequence) (simp add: MAX_CAPACITY_def)

lemma del_swap_loop_skip:
  "i \<le> n \<Longrightarrow> n \<le> length xs \<Longrightarrow> \<forall>j. i \<le> j \<and> j < n \<longrightarrow> \<not> P (xs ! j) \<Longrightarrow> del_swap_loop P i xs = del_swap_loop P n xs"
proof (induction "n - i" arbitrary: i)
  case (Suc d)
  have i: "i < n" "i < length xs" "\<not> P (xs ! i)" using Suc.hyps(2) Suc.prems by auto
  then have "del_swap_loop P i xs = del_swap_loop P (i + 1) xs" by (subst del_swap_loop.simps) simp
  also have "\<dots> = del_swap_loop P n xs" using Suc.hyps(2) Suc.prems by (intro Suc.hyps(1)) auto
  finally show ?case .
qed simp

text \<open>Removing keeps everything before the first match in place and removes exactly the matches.\<close>

lemma smartlist_remove_exact:
  assumes "sl_inv sl" "e \<noteq> None"
  shows "\<exists>sl'. smartlist_remove sl e = Some sl' \<and> sl_inv sl' \<and> mset (items sl') = filter_mset (\<lambda>v. v \<noteq> e) (mset (items sl))
    \<and> take (length (takeWhile (\<lambda>v. v \<noteq> e) (items sl))) (items sl') = takeWhile (\<lambda>v. v \<noteq> e) (items sl)"
proof -
  let ?xs = "items sl" and ?P = "\<lambda>v. v = e"
  let ?n = "length (takeWhile (\<lambda>v. v \<noteq> e) ?xs)"
  from smartlist_remove_spec [OF assms] obtain sl' where
    r: "smartlist_remove sl e = Some sl'" "sl_inv sl'" "items sl' = del_swap_loop ?P 0 ?xs" by (auto simp: yields_def)
  have n: "?n \<le> length ?xs" by (rule length_takeWhile_le)
  have "\<not> ?P (?xs ! j)" if "j < ?n" for j
  proof -
    have "takeWhile (\<lambda>v. v \<noteq> e) ?xs ! j \<in> set (takeWhile (\<lambda>v. v \<noteq> e) ?xs)" using that by (rule nth_mem)
    then show ?thesis using takeWhile_nth [OF that] set_takeWhileD by fastforce
  qed
  then have "del_swap_loop ?P 0 ?xs = del_swap_loop ?P ?n ?xs"
    using n by (intro del_swap_loop_skip) blast+
  then have "take ?n (items sl') = take ?n ?xs"
    using r(3) del_swap_loop_spec [OF n, of ?P] by simp
  also have "\<dots> = takeWhile (\<lambda>v. v \<noteq> e) ?xs" by (rule takeWhile_eq_take [symmetric])
  finally have "take ?n (items sl') = takeWhile (\<lambda>v. v \<noteq> e) ?xs" .
  moreover have "mset (items sl') = filter_mset (\<lambda>v. v \<noteq> e) (mset ?xs)"
    using r(3) del_swap_loop_spec [of 0 ?xs ?P] by simp
  ultimately show ?thesis using r by blast
qed



end
