(* ===== verification/Di_Ops.thy ===== *)
theory Di_Ops
  imports Prelude
begin

text \<open>
  \<open>lib/ctime/di_ops.c\<close>: data-independent operations on byte strings.  The arithmetic is that of the
  C types (32-bit \<open>int\<close> with an arithmetic right shift, \<open>uint32_t\<close>, 64-bit pointers); \<open>None\<close> is a
  failed assertion or a read past the end of an argument.  The lemmas relate each branch-free
  routine to the plain definition it replaces.
\<close>

unbundle bit_operations_syntax

section \<open>Definitions\<close>

text \<open>One round of the loop: the two bytes, promoted to \<open>int\<close>, and the running result.\<close>

definition memcmp_step :: "u8 \<Rightarrow> u8 \<Rightarrow> i32 \<Rightarrow> i32" where
  "memcmp_step x y retval =
     (let v1 = ucast x; v2 = ucast y;
          equal_p = v1 XOR v2;
          equal_p = equal_p - 1;
          equal_p = signed_drop_bit 8 equal_p;
          retval = retval AND equal_p
      in retval + (v1 - v2))"

primrec memcmp_loop :: "nat \<Rightarrow> u8 list \<Rightarrow> u8 list \<Rightarrow> i32 \<Rightarrow> i32" where
  "memcmp_loop 0 x y retval = retval"
| "memcmp_loop (Suc i) x y retval = memcmp_loop i x y (memcmp_step (x ! i) (y ! i) retval)"

text \<open>\<open>None\<close> is a read past the end of an argument.\<close>

definition tor_memcmp :: "u8 list \<Rightarrow> u8 list \<Rightarrow> nat \<Rightarrow> i32 option" where
  "tor_memcmp a b len =
     (if len \<le> length a \<and> len \<le> length b then Some (memcmp_loop len a b 0) else None)"

primrec memeq_loop :: "nat \<Rightarrow> u8 list \<Rightarrow> u8 list \<Rightarrow> u32 \<Rightarrow> u32 option" where
  "memeq_loop 0 ba bb any_difference = Some any_difference"
| "memeq_loop (Suc sz) ba bb any_difference =
     (case (ba, bb) of
        (x # ba, y # bb) \<Rightarrow> memeq_loop sz ba bb (any_difference OR ucast (x XOR y))
      | _ \<Rightarrow> None)"

definition tor_memeq :: "u8 list \<Rightarrow> u8 list \<Rightarrow> nat \<Rightarrow> u32 option" where
  "tor_memeq a b sz = do {
     any_difference \<leftarrow> memeq_loop sz a b 0;
     Some (1 AND drop_bit 8 (any_difference - 1))
   }"

text \<open>A map is the list of its entries, newest first; values are pointers, 0 is \<open>NULL\<close>.\<close>

type_synonym dimap = "(u8 list \<times> u64) list"

primrec dimap_search_loop :: "dimap \<Rightarrow> u8 list \<Rightarrow> u64 \<Rightarrow> u64 option" where
  "dimap_search_loop [] key result = Some result"
| "dimap_search_loop (ent # m) key result = do {
     eq \<leftarrow> tor_memeq (fst ent) key 32;
     let r = ucast eq - 1;
     let result = result AND r;
     let result = result OR (snd ent AND NOT r);
     dimap_search_loop m key result
   }"

definition dimap_search :: "dimap \<Rightarrow> u8 list \<Rightarrow> u64 \<Rightarrow> u64 option" where
  "dimap_search m key dflt_val = dimap_search_loop m key dflt_val"

definition dimap_add_entry :: "dimap \<Rightarrow> u8 list \<Rightarrow> u64 \<Rightarrow> dimap option" where
  "dimap_add_entry m key val = do {
     old_val \<leftarrow> dimap_search m key 0;
     tor_assert (old_val = 0);
     tor_assert (val \<noteq> 0);
     Some ((take 32 key, val) # m)
   }"

text \<open>The values handed to \<open>free_fn\<close>, in order.\<close>

definition dimap_free :: "dimap \<Rightarrow> u64 list" where
  "dimap_free m = map snd m"

primrec zero_loop :: "nat \<Rightarrow> u8 list \<Rightarrow> u32 \<Rightarrow> u32 option" where
  "zero_loop 0 ptr tot = Some tot"
| "zero_loop (Suc sz) ptr tot =
     (case ptr of x # ptr \<Rightarrow> zero_loop sz ptr (tot OR ucast x) | [] \<Rightarrow> None)"

definition safe_mem_is_zero :: "u8 list \<Rightarrow> nat \<Rightarrow> u32 option" where
  "safe_mem_is_zero mem sz = do {
     tot \<leftarrow> zero_loop sz mem 0;
     Some (1 AND drop_bit 8 (tot - 1))
   }"

definition INT64_MAX :: u64 where "INT64_MAX = 0x7fffffffffffffff"

text \<open>On 64-bit platforms the comparison is the plain one.\<close>

definition gt_i64_timei :: "u64 \<Rightarrow> u64 \<Rightarrow> bool" where
  "gt_i64_timei a b \<longleftrightarrow> a > b"

primrec select_loop :: "u64 list \<Rightarrow> nat \<Rightarrow> u64 \<Rightarrow> u64 \<Rightarrow> int \<Rightarrow> nat \<Rightarrow> u64 \<times> int \<times> nat" where
  "select_loop [] i total_so_far rand_val i_chosen n_chosen = (total_so_far, i_chosen, n_chosen)"
| "select_loop (entry # entries) i total_so_far rand_val i_chosen n_chosen =
     (let total_so_far = total_so_far + entry in
      if gt_i64_timei total_so_far rand_val
      then select_loop entries (i + 1) total_so_far INT64_MAX (int i) (n_chosen + 1)
      else select_loop entries (i + 1) total_so_far rand_val i_chosen n_chosen)"

definition select_array_member_cumulative_timei :: "u64 list \<Rightarrow> u64 \<Rightarrow> u64 \<Rightarrow> int option" where
  "select_array_member_cumulative_timei entries tot rand_val = do {
     let (total_so_far, i_chosen, n_chosen) = select_loop entries 0 0 rand_val (-1) 0;
     tor_assert (total_so_far = tot);
     tor_assert (n_chosen = 1);
     tor_assert (i_chosen \<ge> 0);
     tor_assert (i_chosen < int (length entries));
     Some i_chosen
   }"

text \<open>\<open>(char) -(signed char)s\<close> is all ones or all zeros.\<close>

definition memcpy_if_true_timei :: "bool \<Rightarrow> u8 list \<Rightarrow> u8 list \<Rightarrow> nat \<Rightarrow> u8 list option" where
  "memcpy_if_true_timei s dest src n =
     (let mask = - (if s then 1 else 0) in
      if n \<le> length dest \<and> n \<le> length src
      then Some (map2 (\<lambda>d x. (d AND NOT mask) OR (x AND mask)) (take n dest) (take n src) @ drop n dest)
      else None)"

section \<open>Comparison\<close>

text \<open>The plain comparison: the difference of the first bytes that differ.\<close>

fun memcmp :: "u8 list \<Rightarrow> u8 list \<Rightarrow> int" where
  "memcmp (x # xs) (y # ys) = (if x = y then memcmp xs ys else uint x - uint y)"
| "memcmp _ _ = 0"

lemma uint_ucast_8_32: "uint (ucast (x :: 8 word) :: 32 word) = uint x"
  by (rule uint_up_ucast) (simp add: is_up)

lemma uint_byte: "0 \<le> uint (x :: 8 word)" "uint (x :: 8 word) < 256"
  using uint_lt2p [of x] by simp_all

lemma byte_pos: "(e :: 8 word) \<noteq> 0 \<Longrightarrow> 0 < uint e"
  using uint_byte(1) [of e] by (metis less_le uint_0_iff)

lemma byte_pred_div: "(e :: 8 word) \<noteq> 0 \<Longrightarrow> (uint e - 1) div 256 = 0"
  by (intro div_pos_pos_trivial) (use byte_pos [of e] uint_byte [of e] in linarith)+

lemma ucast_pred:
  fixes e :: "8 word"
  assumes "e \<noteq> 0"
  shows "uint (ucast e - 1 :: 32 word) = uint e - 1"
proof -
  have e: "0 < uint e" using assms by (rule byte_pos)
  have "uint (ucast e - 1 :: 32 word) = (uint e - 1) mod 2 ^ 32"
    by (simp add: uint_word_ariths uint_ucast_8_32)
  then show ?thesis using e uint_byte [of e] by simp
qed

lemma ucast_pred_drop:
  fixes e :: "8 word"
  shows "drop_bit 8 (ucast e - 1 :: 32 word) = (if e = 0 then 0x00ffffff else 0)"
proof (cases "e = 0")
  case False
  have "uint (drop_bit 8 (ucast e - 1 :: 32 word)) = (uint e - 1) div 256"
    by (simp add: drop_bit_eq_div uint_div_distrib ucast_pred [OF False])
  also have "\<dots> = 0" using byte_pred_div [OF False] .
  finally show ?thesis using False by (simp add: uint_0_iff)
qed (simp add: mask_eq_exp_minus_1)

lemma ucast_pred_signed_drop:
  fixes e :: "8 word"
  shows "signed_drop_bit 8 (ucast e - 1 :: 32 word) = (if e = 0 then -1 else 0)"
proof (cases "e = 0")
  case False
  let ?w = "ucast e - 1 :: 32 word"
  have u: "uint ?w = uint e - 1" using ucast_pred [OF False] .
  have w: "word_of_int (uint e - 1) = ?w" using u by (metis word_of_int_uint)
  have "sint ?w = uint e - 1" unfolding w [symmetric] by (intro sint_word_of_int32) (use uint_byte [of e] in linarith)+
  then have "sint (signed_drop_bit 8 ?w) = (uint e - 1) div 256"
    by (simp add: sint_signed_drop_bit_eq drop_bit_eq_div)
  also have "\<dots> = 0" using byte_pred_div [OF False] .
  finally have "sint (signed_drop_bit 8 ?w) = 0" .
  then have "signed_drop_bit 8 ?w = 0" by (simp only: signed_eq_0_iff)
  then show ?thesis using False by simp
qed simp

lemma xor_0_iff: "(x :: 'a :: len word) XOR y = 0 \<longleftrightarrow> x = y"
  by (auto simp: bit_eq_iff bit_xor_iff)

lemma or_0_iff: "(x :: 'a :: len word) OR y = 0 \<longleftrightarrow> x = 0 \<and> y = 0"
  by (auto simp: bit_eq_iff bit_or_iff)

lemma memcmp_step_eq: "memcmp_step x y r = (if x = y then r else ucast x - ucast y)"
proof -
  have "(ucast x XOR ucast y :: 32 word) = ucast (x XOR y)" by (simp add: unsigned_xor_eq)
  moreover have "x XOR y = 0 \<longleftrightarrow> x = y" by (rule xor_0_iff)
  ultimately show ?thesis by (simp add: memcmp_step_def Let_def ucast_pred_signed_drop)
qed

lemma sint_byte_diff: "sint (ucast (x :: 8 word) - ucast (y :: 8 word) :: 32 word) = uint x - uint y"
proof -
  have w: "(ucast x - ucast y :: 32 word) = word_of_int (uint x - uint y)"
    by (simp only: ucast_eq of_int_diff)
  show ?thesis unfolding w by (intro sint_word_of_int32) (use uint_byte [of x] uint_byte [of y] in linarith)+
qed

lemma memcmp_snoc: "length xs = length ys \<Longrightarrow>
  memcmp (xs @ [x]) (ys @ [y]) = (if xs = ys then uint x - uint y else memcmp xs ys)"
  by (induction xs ys rule: list_induct2) auto

lemma memcmp_refl: "memcmp xs xs = 0" by (induction xs) auto

lemma memcmp_loop_eq:
  "i \<le> length a \<Longrightarrow> i \<le> length b \<Longrightarrow>
     sint (memcmp_loop i a b r) = (if take i a = take i b then sint r else memcmp (take i a) (take i b))"
proof (induction i arbitrary: r)
  case (Suc i)
  have "take (Suc i) a = take i a @ [a ! i]" "take (Suc i) b = take i b @ [b ! i]"
    using Suc.prems by (simp_all add: take_Suc_conv_app_nth)
  then show ?case
    using Suc memcmp_snoc [of "take i a" "take i b" "a ! i" "b ! i"] by (simp add: memcmp_step_eq sint_byte_diff)
qed simp

lemma memcmp_zero_iff: "length xs = length ys \<Longrightarrow> memcmp xs ys = 0 \<longleftrightarrow> xs = ys"
  by (induction xs ys rule: list_induct2) (auto simp: word_uint_eq_iff)

lemma memcmp_lexord:
  "length xs = length ys \<Longrightarrow> memcmp xs ys < 0 \<longleftrightarrow> (xs, ys) \<in> lexord {(x, y). x < y}"
  by (induction xs ys rule: list_induct2) (auto simp: word_less_iff_unsigned word_less_def)

text \<open>C29 The constant-time \<open>tor_memcmp\<close>, built from masks and an arithmetic shift on 32-bit integers,
  returns the difference of the first differing bytes; its sign is the lexicographic order and it is
  zero exactly on equal bytes.\<close>

theorem tor_memcmp_lexicographic:
  assumes "len \<le> length a" "len \<le> length b"
  shows "\<exists>r. tor_memcmp a b len = Some r \<and> sint r = memcmp (take len a) (take len b)
    \<and> (sint r < 0 \<longleftrightarrow> (take len a, take len b) \<in> lexord {(x, y). x < y}) \<and> (sint r = 0 \<longleftrightarrow> take len a = take len b)"
proof -
  have l: "length (take len a) = length (take len b)" using assms by simp
  have "sint (memcmp_loop len a b 0) = memcmp (take len a) (take len b)"
    using memcmp_loop_eq [OF assms, of 0] by (auto simp: memcmp_refl)
  then show ?thesis using assms memcmp_lexord [OF l] memcmp_zero_iff [OF l] by (simp add: tor_memcmp_def)
qed

theorem tor_memcmp_lexicographic_witness:
  "\<exists>r. tor_memcmp [1, 2, 200] [1, 200, 2] 3 = Some r \<and> sint r = -198"
  using tor_memcmp_lexicographic [of 3 "[1, 2, 200]" "[1, 200, 2]"] by auto

section \<open>Equality\<close>

lemma memeq_loop_eq:
  fixes d :: u8
  shows "n \<le> length a \<Longrightarrow> n \<le> length b \<Longrightarrow>
     \<exists>e :: u8. memeq_loop n a b (ucast d) = Some (ucast e) \<and> (e = 0 \<longleftrightarrow> d = 0 \<and> take n a = take n b)"
proof (induction n arbitrary: a b d)
  case (Suc n)
  obtain x a' y b' where ab: "a = x # a'" "b = y # b'" using Suc.prems by (cases a; cases b) auto
  have u: "(ucast d OR ucast (x XOR y) :: 32 word) = ucast (d OR (x XOR y))" by (simp add: unsigned_or_eq)
  have z: "d OR (x XOR y) = 0 \<longleftrightarrow> d = 0 \<and> x = y" by (simp add: or_0_iff xor_0_iff)
  show ?case using Suc.IH [of a' b' "d OR (x XOR y)"] Suc.prems ab u z by auto
qed auto

lemma tor_memeq_eq:
  assumes "sz \<le> length a" "sz \<le> length b"
  shows "tor_memeq a b sz = Some (if take sz a = take sz b then 1 else 0)"
proof -
  from memeq_loop_eq [OF assms, of 0] obtain e :: u8 where
    "memeq_loop sz a b 0 = Some (ucast e)" "e = 0 \<longleftrightarrow> take sz a = take sz b" by auto
  then show ?thesis by (simp add: tor_memeq_def ucast_pred_drop)
qed


lemma zero_loop_eq:
  fixes d :: u8
  shows "n \<le> length a \<Longrightarrow> \<exists>e :: u8. zero_loop n a (ucast d) = Some (ucast e) \<and> (e = 0 \<longleftrightarrow> d = 0 \<and> set (take n a) \<subseteq> {0})"
proof (induction n arbitrary: a d)
  case (Suc n)
  obtain x a' where a: "a = x # a'" using Suc.prems by (cases a) auto
  have u: "(ucast d OR ucast x :: 32 word) = ucast (d OR x)" by (simp add: unsigned_or_eq)
  show ?case using Suc.IH [of a' "d OR x"] Suc.prems a u by (auto simp: or_0_iff)
qed auto

lemma safe_mem_is_zero_eq:
  assumes "sz \<le> length a"
  shows "safe_mem_is_zero a sz = Some (if set (take sz a) \<subseteq> {0} then 1 else 0)"
proof -
  from zero_loop_eq [OF assms, of 0] obtain e :: u8 where
    "zero_loop sz a 0 = Some (ucast e)" "e = 0 \<longleftrightarrow> set (take sz a) \<subseteq> {0}" by auto
  then show ?thesis by (simp add: safe_mem_is_zero_def ucast_pred_drop)
qed

section \<open>The map\<close>

definition dimap_ok :: "dimap \<Rightarrow> bool" where
  "dimap_ok m \<longleftrightarrow> (\<forall>(k, v) \<in> set m. length k = 32 \<and> v \<noteq> 0) \<and> distinct (map fst m)"

lemma dimap_search_step:
  assumes "length k = 32" "length key = 32"
  shows "dimap_search_loop ((k, v) # m) key d = dimap_search_loop m key (if k = key then v else d)"
  using assms by (simp add: tor_memeq_eq)

lemma dimap_search_loop_eq:
  "dimap_ok m \<Longrightarrow> length key = 32 \<Longrightarrow> dimap_search_loop m key d = Some (case map_of m key of Some v \<Rightarrow> v | None \<Rightarrow> d)"
proof (induction m arbitrary: d)
  case (Cons e m)
  obtain k v where e: "e = (k, v)" by (cases e)
  have ok: "dimap_ok m" "length k = 32" "k \<notin> fst ` set m" using Cons.prems e by (auto simp: dimap_ok_def)
  have "map_of m k = None" using ok(3) by (simp add: map_of_eq_None_iff)
  then show ?case
    using Cons.IH [OF ok(1) Cons.prems(2)] e dimap_search_step [OF ok(2) Cons.prems(2)] by (simp del: dimap_search_loop.simps)
qed simp

text \<open>Adding a new key with a non-null value to a well-formed map never trips an assertion and changes
  the result of the constant-time search for that key only, whatever the default value.\<close>

theorem dimap_add_search:
  assumes "dimap_ok m" "length key = 32" "key \<notin> fst ` set m" "val \<noteq> 0"
  shows "\<exists>m'. dimap_add_entry m key val = Some m' \<and> dimap_ok m'
    \<and> (\<forall>key' dflt. length key' = 32 \<longrightarrow>
          dimap_search m' key' dflt = (if key' = key then Some val else dimap_search m key' dflt))"
proof -
  have "map_of m key = None" using assms(3) by (simp add: map_of_eq_None_iff)
  then have add: "dimap_add_entry m key val = Some ((key, val) # m)"
    using assms by (simp add: dimap_add_entry_def dimap_search_def dimap_search_loop_eq)
  have ok: "dimap_ok ((key, val) # m)" using assms by (auto simp: dimap_ok_def)
  show ?thesis
    using add ok assms(1) by (simp add: dimap_search_def dimap_search_loop_eq del: dimap_search_loop.simps)
qed

theorem dimap_add_search_witness:
  "\<exists>m'. dimap_add_entry [(replicate 32 7, 5)] (replicate 32 8) 9 = Some m'
    \<and> dimap_search m' (replicate 32 8) 0 = Some 9"
proof -
  have "dimap_ok [(replicate 32 7, 5)]" by (simp add: dimap_ok_def)
  moreover have "replicate 32 (8 :: u8) \<notin> fst ` set [(replicate 32 7 :: u8 list, 5 :: u64)]" by (simp add: numeral_eq_Suc)
  ultimately show ?thesis using dimap_add_search [of "[(replicate 32 7, 5)]" "replicate 32 8" 9] by fastforce
qed

section \<open>Weighted choice\<close>

lemma select_loop_rest:
  "uint t + sum_list (map uint es) < 2 ^ 63 \<Longrightarrow>
     select_loop es i t INT64_MAX c n = (t + sum_list es, c, n)"
proof (induction es arbitrary: i t)
  case (Cons e es)
  have nn: "0 \<le> sum_list (map uint es)" by (intro sum_list_nonneg) auto
  have "uint (t + e) = uint t + uint e"
    using Cons.prems nn by (simp add: uint_word_ariths)
  then show ?case
    using Cons nn by (simp add: gt_i64_timei_def word_less_def INT64_MAX_def add.assoc)
qed simp

lemma select_loop_eq:
  "uint t + sum_list (map uint es) < 2 ^ 63 \<Longrightarrow> uint t \<le> uint r \<Longrightarrow> uint r < uint t + sum_list (map uint es) \<Longrightarrow>
     \<exists>k. select_loop es i t r c n = (t + sum_list es, int (i + k), n + 1) \<and> k < length es
       \<and> uint t + sum_list (map uint (take k es)) \<le> uint r \<and> uint r < uint t + sum_list (map uint (take (k + 1) es))"
proof (induction es arbitrary: i t c n)
  case (Cons e es)
  have nn: "0 \<le> sum_list (map uint es)" by (intro sum_list_nonneg) auto
  have u: "uint (t + e) = uint t + uint e" using Cons.prems nn by (simp add: uint_word_ariths)
  show ?case
  proof (cases "r < t + e")
    case True
    then show ?thesis
      using select_loop_rest [of "t + e" es] u Cons.prems
      by (intro exI [of _ 0]) (simp add: gt_i64_timei_def word_less_def add.assoc)
  next
    case False
    then have "uint (t + e) \<le> uint r" by (simp add: word_less_def)
    moreover have "uint r < uint (t + e) + sum_list (map uint es)" "uint (t + e) + sum_list (map uint es) < 2 ^ 63"
      using Cons.prems u by simp_all
    ultimately obtain k where "select_loop es (i + 1) (t + e) r c n = (t + e + sum_list es, int (i + 1 + k), n + 1)" "k < length es"
      "uint (t + e) + sum_list (map uint (take k es)) \<le> uint r" "uint r < uint (t + e) + sum_list (map uint (take (k + 1) es))"
      using Cons.IH by blast
    then show ?thesis
      using False u by (intro exI [of _ "Suc k"]) (simp add: gt_i64_timei_def add.assoc)
  qed
qed simp

text \<open>The constant-time selection picks the one entry whose interval of the cumulative sums contains
  the random value, so each entry is chosen by exactly its weight's share of the values, and none of
  the four assertions can fail as long as the sum stays below 2^63.\<close>

theorem select_array_member_proportional:
  assumes "sum_list (map uint entries) < 2 ^ 63" "uint rand_val < sum_list (map uint entries)"
  shows "\<exists>i. select_array_member_cumulative_timei entries (sum_list entries) rand_val = Some (int i) \<and> i < length entries
    \<and> sum_list (map uint (take i entries)) \<le> uint rand_val \<and> uint rand_val < sum_list (map uint (take (i + 1) entries))"
  using select_loop_eq [of 0 entries rand_val 0 "-1" 0] assms
  by (auto simp: select_array_member_cumulative_timei_def)

theorem select_array_member_proportional_witness:
  "\<exists>i. select_array_member_cumulative_timei [5, 0, 7] 12 5 = Some (int i) \<and> i < 3 \<and> i = 2"
proof -
  from select_array_member_proportional [of "[5, 0, 7]" 5] obtain i where
    *: "select_array_member_cumulative_timei [5, 0, 7] 12 5 = Some (int i)" "i < 3"
    and "sum_list (map uint (take i [5, 0, 7 :: u64])) \<le> 5" "5 < sum_list (map uint (take (i + 1) [5, 0, 7 :: u64]))" by auto
  moreover have "i = 0 \<or> i = 1 \<or> i = 2" using \<open>i < 3\<close> by auto
  ultimately have "i = 2" by (elim disjE) simp_all
  with * show ?thesis by blast
qed

section \<open>Conditional copy\<close>

text \<open>The branch-free copy is the plain conditional \<open>memcpy\<close>.\<close>

theorem memcpy_if_true_conditional:
  assumes "n \<le> length dest" "n \<le> length src"
  shows "memcpy_if_true_timei s dest src n = Some (if s then take n src @ drop n dest else dest)"
proof -
  have "map2 (\<lambda>d x. x) (take n dest) (take n src) = take n src" "map2 (\<lambda>d x. d) (take n dest) (take n src) = take n dest"
    using assms by (auto simp: map_snd_zip map_fst_zip case_prod_unfold)
  then show ?thesis using assms by (simp add: memcpy_if_true_timei_def)
qed

theorem memcpy_if_true_conditional_witness:
  "memcpy_if_true_timei True [1, 2, 3] [9, 8] 2 = Some [9, 8, 3] \<and> memcpy_if_true_timei False [1, 2, 3] [9, 8] 2 = Some [1, 2, 3]"
  using memcpy_if_true_conditional [of 2 "[1, 2, 3]" "[9, 8]" True] memcpy_if_true_conditional [of 2 "[1, 2, 3]" "[9, 8]" False] by simp

end
