(* ===== verification/Smartlist.thy ===== *)
theory Smartlist
  imports Smartlist_Core Smartlist_Split Di_Ops
begin

text \<open>
  \<open>lib/container/smartlist.c\<close>: searching, set operations, removal of duplicates and binary search on
  smartlists.  What the code asks of a comparison function is the locale \<open>comparison\<close>, interpreted for
  the comparison functions of the file.
\<close>

section \<open>Comparison functions\<close>

text \<open>\<open>strcmp\<close> compares as unsigned characters; the end of a string reads as NUL.\<close>

fun strcmp :: "string \<Rightarrow> string \<Rightarrow> int" where
  "strcmp [] [] = 0"
| "strcmp [] (y # ys) = - int (ord y)"
| "strcmp (x # xs) [] = int (ord x)"
| "strcmp (x # xs) (y # ys) =
     (if x \<noteq> y then int (ord x) - int (ord y) else if x = NUL then 0 else strcmp xs ys)"

definition compare_string_ptrs :: "string \<Rightarrow> string \<Rightarrow> int" where
  "compare_string_ptrs a b = strcmp a b"

definition compare_ptrs :: "u64 \<Rightarrow> u64 \<Rightarrow> int" where
  "compare_ptrs a b = (if a < b then -1 else if a = b then 0 else 1)"

definition to_lower :: "char \<Rightarrow> char" where
  "to_lower c = (if TOR_ISUPPER c then chr (ord c + 32) else c)"

definition strcasecmp :: "string \<Rightarrow> string \<Rightarrow> int" where
  "strcasecmp a b = strcmp (map to_lower a) (map to_lower b)"

section \<open>Operations\<close>

text \<open>
  A smartlist is the list of its used slots; the vacated slots and the growth of the array are the
  matter of \<open>smartlist_core.c\<close>.  A \<open>NULL\<close> list argument is \<open>None\<close> where the code tests for it.
\<close>

function reverse_loop :: "int \<Rightarrow> int \<Rightarrow> 'a list \<Rightarrow> 'a list" where
  "reverse_loop i j sl =
     (if i < j then reverse_loop (i + 1) (j - 1) (sl[nat i := sl ! nat j, nat j := sl ! nat i]) else sl)"
  by pat_completeness auto
termination by (relation "measure (\<lambda>(i, j, _). nat (j - i))") auto

declare reverse_loop.simps [simp del]

definition smartlist_reverse :: "'a list \<Rightarrow> 'a list" where
  "smartlist_reverse sl = reverse_loop 0 (int (length sl) - 1) sl"

definition smartlist_string_remove :: "string list \<Rightarrow> string \<Rightarrow> string list" where
  "smartlist_string_remove sl element = del_swap_loop (\<lambda>s. strcmp element s = 0) 0 sl"

fun pos_loop :: "('a \<Rightarrow> bool) \<Rightarrow> 'a list \<Rightarrow> int \<Rightarrow> int" where
  "pos_loop P [] i = -1"
| "pos_loop P (x # sl) i = (if P x then i else pos_loop P sl (i + 1))"

definition smartlist_contains_string :: "string list option \<Rightarrow> string \<Rightarrow> bool" where
  "smartlist_contains_string sl element = (case sl of None \<Rightarrow> False | Some sl \<Rightarrow> list_ex (\<lambda>s. strcmp s element = 0) sl)"

definition smartlist_string_pos :: "string list option \<Rightarrow> string \<Rightarrow> int" where
  "smartlist_string_pos sl element = (case sl of None \<Rightarrow> -1 | Some sl \<Rightarrow> pos_loop (\<lambda>s. strcmp s element = 0) sl 0)"

definition smartlist_pos :: "'a list option \<Rightarrow> 'a \<Rightarrow> int" where
  "smartlist_pos sl element = (case sl of None \<Rightarrow> -1 | Some sl \<Rightarrow> pos_loop (\<lambda>x. element = x) sl 0)"

definition smartlist_contains_string_case :: "string list option \<Rightarrow> string \<Rightarrow> bool" where
  "smartlist_contains_string_case sl element =
     (case sl of None \<Rightarrow> False | Some sl \<Rightarrow> list_ex (\<lambda>s. strcasecmp s element = 0) sl)"

definition smartlist_contains_int_as_string :: "string list option \<Rightarrow> int \<Rightarrow> bool" where
  "smartlist_contains_int_as_string sl num = smartlist_contains_string sl (show_int num)"

definition smartlist_strings_eq :: "string list option \<Rightarrow> string list option \<Rightarrow> bool" where
  "smartlist_strings_eq sl1 sl2 =
     (case sl1 of None \<Rightarrow> sl2 = None
      | Some a \<Rightarrow> (case sl2 of None \<Rightarrow> False
          | Some b \<Rightarrow> length a = length b \<and> list_all (\<lambda>i. strcmp (a ! i) (b ! i) = 0) [0..<length a]))"

definition smartlist_ints_eq :: "int list option \<Rightarrow> int list option \<Rightarrow> bool" where
  "smartlist_ints_eq sl1 sl2 =
     (case sl1 of None \<Rightarrow> sl2 = None
      | Some a \<Rightarrow> (case sl2 of None \<Rightarrow> False
          | Some b \<Rightarrow> length a = length b \<and> list_all (\<lambda>i. a ! i = b ! i) [0..<length a]))"

definition smartlist_ptrs_eq :: "'a list option \<Rightarrow> 'a list option \<Rightarrow> bool" where
  "smartlist_ptrs_eq s1 s2 =
     (if s1 = s2 then True
      else case (s1, s2) of
        (Some a, Some b) \<Rightarrow> length a = length b \<and> list_all (\<lambda>i. a ! i = b ! i) [0..<length a]
      | _ \<Rightarrow> False)"

definition DIGEST_LEN :: nat where "DIGEST_LEN = 20"

fun contains_digest_loop :: "u8 list list \<Rightarrow> u8 list \<Rightarrow> bool option" where
  "contains_digest_loop [] element = Some False"
| "contains_digest_loop (d # sl) element = do {
     eq \<leftarrow> tor_memeq d element DIGEST_LEN;
     if eq \<noteq> 0 then Some True else contains_digest_loop sl element
   }"

definition smartlist_contains_digest :: "u8 list list option \<Rightarrow> u8 list \<Rightarrow> bool option" where
  "smartlist_contains_digest sl element = (case sl of None \<Rightarrow> Some False | Some sl \<Rightarrow> contains_digest_loop sl element)"

definition smartlist_overlap :: "'a list \<Rightarrow> 'a list \<Rightarrow> bool" where
  "smartlist_overlap sl1 sl2 = list_ex (\<lambda>x. x \<in> set sl1) sl2"

definition smartlist_intersect :: "'a list \<Rightarrow> 'a list \<Rightarrow> 'a list" where
  "smartlist_intersect sl1 sl2 = del_swap_loop (\<lambda>x. x \<notin> set sl2) 0 sl1"

definition smartlist_subtract :: "'a list \<Rightarrow> 'a list \<Rightarrow> 'a list" where
  "smartlist_subtract sl1 sl2 = fold (\<lambda>x sl. del_swap_loop (\<lambda>y. y = x) 0 sl) sl2 sl1"

definition smartlist_join_strings :: "string list \<Rightarrow> string \<Rightarrow> bool \<Rightarrow> string option" where
  "smartlist_join_strings sl join terminate = smartlist_join_strings2 sl join terminate"

text \<open>\<open>qsort\<close> is a parameter: the C library leaves the order of equal members open.\<close>

definition smartlist_sort :: "(('a \<Rightarrow> 'a \<Rightarrow> int) \<Rightarrow> 'a list \<Rightarrow> 'a list) \<Rightarrow> 'a list \<Rightarrow> ('a \<Rightarrow> 'a \<Rightarrow> int) \<Rightarrow> 'a list" where
  "smartlist_sort qsort sl compare = (if sl = [] then sl else qsort compare sl)"

fun most_frequent_loop :: "('a \<Rightarrow> 'a \<Rightarrow> int) \<Rightarrow> 'a list \<Rightarrow> 'a option \<Rightarrow> nat \<Rightarrow> 'a option \<Rightarrow> nat \<Rightarrow> 'a option \<times> nat" where
  "most_frequent_loop compare [] cur cnt best best_count =
     (if cur \<noteq> None \<and> cnt \<ge> best_count then (cur, cnt) else (best, best_count))"
| "most_frequent_loop compare (item # sl) cur cnt best best_count =
     (if cur \<noteq> None \<and> compare (the cur) item = 0
      then most_frequent_loop compare sl cur (cnt + 1) best best_count
      else let (best, best_count) = (if cur \<noteq> None \<and> cnt \<ge> best_count then (cur, cnt) else (best, best_count))
           in most_frequent_loop compare sl (Some item) 1 best best_count)"

definition smartlist_get_most_frequent :: "'a list \<Rightarrow> ('a \<Rightarrow> 'a \<Rightarrow> int) \<Rightarrow> 'a option \<times> nat" where
  "smartlist_get_most_frequent sl compare =
     (if sl = [] then (None, 0) else most_frequent_loop compare sl None 0 None 0)"

text \<open>\<open>smartlist_del_keeporder\<close> on the used slots.\<close>

function uniq_loop :: "('a \<Rightarrow> 'a \<Rightarrow> int) \<Rightarrow> nat \<Rightarrow> 'a list \<Rightarrow> 'a list" where
  "uniq_loop compare i sl =
     (if i < length sl then
        if compare (sl ! (i - 1)) (sl ! i) = 0 then uniq_loop compare i (take i sl @ drop (i + 1) sl)
        else uniq_loop compare (i + 1) sl
      else sl)"
  by pat_completeness auto
termination by (relation "measure (\<lambda>(_, i, sl). length sl - i)") auto

declare uniq_loop.simps [simp del]

definition smartlist_uniq :: "'a list \<Rightarrow> ('a \<Rightarrow> 'a \<Rightarrow> int) \<Rightarrow> 'a list" where
  "smartlist_uniq sl compare = uniq_loop compare 1 sl"

text \<open>The result is the index and \<open>*found_out\<close>.\<close>

function bsearch_loop :: "'a list \<Rightarrow> 'k \<Rightarrow> ('k \<Rightarrow> 'a \<Rightarrow> int) \<Rightarrow> int \<Rightarrow> int \<Rightarrow> (int \<times> bool) option" where
  "bsearch_loop sl key compare lo hi =
     (if lo \<le> hi then do {
        let diff = hi - lo;
        let mid = lo + diff div 2;
        tor_assert (0 \<le> mid \<and> mid < int (length sl));
        let cmp = compare key (sl ! nat mid);
        if cmp = 0 then Some (mid, True)
        else if cmp > 0 then do {
          tor_assert (mid < int (length sl));
          bsearch_loop sl key compare (mid + 1) hi
        } else do {
          tor_assert (cmp < 0);
          if mid > 0 then bsearch_loop sl key compare lo (mid - 1)
          else do {
            tor_assert (mid = lo);
            tor_assert (mid = 0);
            Some (0, False)
          }
        }
      } else do {
        let len = int (length sl);
        tor_assert (lo = hi + 1);
        tor_assert (lo \<ge> 0);
        tor_assert (lo \<le> len);
        tor_assert (hi \<ge> 0);
        tor_assert (hi \<le> len);
        (if lo < len then tor_assert (compare key (sl ! nat lo) < 0)
         else tor_assert (compare key (sl ! nat (len - 1)) > 0));
        Some (lo, False)
      })"
  by pat_completeness auto
termination by (relation "measure (\<lambda>(_, _, _, lo, hi). nat (hi - lo + 1))") auto

declare bsearch_loop.simps [simp del]

definition smartlist_bsearch_idx :: "'a list \<Rightarrow> 'k \<Rightarrow> ('k \<Rightarrow> 'a \<Rightarrow> int) \<Rightarrow> (int \<times> bool) option" where
  "smartlist_bsearch_idx sl key compare =
     (if length sl = 0 then Some (0, False)
      else bsearch_loop sl key compare 0 (int (length sl) - 1))"

definition smartlist_bsearch :: "'a list \<Rightarrow> 'k \<Rightarrow> ('k \<Rightarrow> 'a \<Rightarrow> int) \<Rightarrow> 'a option option" where
  "smartlist_bsearch sl key compare = do {
     (idx, found) \<leftarrow> smartlist_bsearch_idx sl key compare;
     Some (if found then Some (sl ! nat idx) else None)
   }"

definition smartlist_sort_strings :: "((string \<Rightarrow> string \<Rightarrow> int) \<Rightarrow> string list \<Rightarrow> string list) \<Rightarrow> string list \<Rightarrow> string list" where
  "smartlist_sort_strings qsort sl = smartlist_sort qsort sl compare_string_ptrs"

definition smartlist_get_most_frequent_string :: "string list \<Rightarrow> string option \<times> nat" where
  "smartlist_get_most_frequent_string sl = smartlist_get_most_frequent sl compare_string_ptrs"

definition smartlist_uniq_strings :: "string list \<Rightarrow> string list" where
  "smartlist_uniq_strings sl = smartlist_uniq sl compare_string_ptrs"

definition smartlist_sort_pointers :: "((u64 \<Rightarrow> u64 \<Rightarrow> int) \<Rightarrow> u64 list \<Rightarrow> u64 list) \<Rightarrow> u64 list \<Rightarrow> u64 list" where
  "smartlist_sort_pointers qsort sl = smartlist_sort qsort sl compare_ptrs"

section \<open>Comparisons as orders\<close>

locale comparison =
  fixes compare :: "'a \<Rightarrow> 'a \<Rightarrow> int"
  assumes flip: "sgn (compare a b) = - sgn (compare b a)"
    and trans: "compare a b \<le> 0 \<Longrightarrow> compare b c \<le> 0 \<Longrightarrow> compare a c \<le> 0"
begin

lemma refl: "compare a a = 0"
  using flip [of a a] by (simp add: sgn_if split: if_splits)

lemma flip_iff: "compare a b < 0 \<longleftrightarrow> 0 < compare b a" "compare a b = 0 \<longleftrightarrow> compare b a = 0" "compare a b \<le> 0 \<longleftrightarrow> 0 \<le> compare b a"
  using flip [of a b] by (auto simp: sgn_if split: if_splits)

lemma eq_trans:
  assumes "compare a b = 0" "compare b c = 0"
  shows "compare a c = 0"
proof -
  have "compare c b \<le> 0" "compare b a \<le> 0" using assms flip_iff(2) [of a b] flip_iff(2) [of b c] by simp_all
  then have "compare c a \<le> 0" by (rule trans)
  then have "0 \<le> compare a c" using flip_iff(3) [of c a] by simp
  moreover have "compare a c \<le> 0" using assms by (intro trans [of a b c]) simp_all
  ultimately show ?thesis by simp
qed

lemma le_less_trans:
  assumes "compare a b \<le> 0" "compare b c < 0"
  shows "compare a c < 0"
proof (rule ccontr)
  assume "\<not> compare a c < 0"
  then have "compare c a \<le> 0" using flip_iff(3) [of c a] by simp
  from trans [OF this assms(1)] have "0 \<le> compare b c" using flip_iff(3) [of c b] by simp
  then show False using assms(2) by simp
qed

lemma less_le_trans:
  assumes "compare a b < 0" "compare b c \<le> 0"
  shows "compare a c < 0"
proof (rule ccontr)
  assume "\<not> compare a c < 0"
  then have "compare c a \<le> 0" using flip_iff(3) [of c a] by simp
  from trans [OF assms(2) this] have "0 \<le> compare a b" using flip_iff(3) [of b a] by simp
  then show False using assms(1) by simp
qed

end


section \<open>Reversing\<close>

lemma reverse_loop_nth:
  "0 \<le> i \<Longrightarrow> i + j = int (length sl) - 1 \<Longrightarrow> k < length sl \<Longrightarrow>
     reverse_loop i j sl ! k = (if i \<le> int k \<and> int k \<le> j then sl ! (length sl - 1 - k) else sl ! k)"
proof (induction i j sl rule: reverse_loop.induct)
  case (1 i j sl)
  show ?case
  proof (cases "i < j")
    case False
    then show ?thesis using 1(2-) by (subst reverse_loop.simps) (auto intro!: arg_cong [of _ _ "(!) sl"])
  next
    case True
    let ?sl = "sl[nat i := sl ! nat j, nat j := sl ! nat i]"
    have ij: "nat i < length sl" "nat j < length sl" "length sl - 1 - nat i = nat j" "length sl - 1 - nat j = nat i" "nat i \<noteq> nat j"
      using True 1(2-) by auto
    have "reverse_loop i j sl = reverse_loop (i + 1) (j - 1) ?sl" using True by (subst reverse_loop.simps) simp
    also have "\<dots> ! k = (if i + 1 \<le> int k \<and> int k \<le> j - 1 then ?sl ! (length sl - 1 - k) else ?sl ! k)"
      using 1(1)[OF True] 1(2-) by simp
    also have "\<dots> = (if i \<le> int k \<and> int k \<le> j then sl ! (length sl - 1 - k) else sl ! k)"
    proof -
      consider "k = nat i" | "k = nat j" | "k \<noteq> nat i" "k \<noteq> nat j" by blast
      then show ?thesis
      proof cases
        case 3
        then have "length sl - 1 - k \<noteq> nat i" "length sl - 1 - k \<noteq> nat j" using ij(3,4) 1(2-) True by auto
        then show ?thesis using 3 1(2-) True by auto
      qed (use ij 1(2-) True in auto)
    qed
    finally show ?thesis .
  qed
qed

lemma reverse_loop_length: "length (reverse_loop i j sl) = length sl"
  by (induction i j sl rule: reverse_loop.induct) (subst reverse_loop.simps, simp)

text \<open>The exchange loop reverses the list.\<close>

lemma smartlist_reverse_rev: "smartlist_reverse sl = rev sl"
proof (rule nth_equalityI)
  show "length (smartlist_reverse sl) = length (rev sl)" by (simp add: smartlist_reverse_def reverse_loop_length)
  fix k
  assume "k < length (smartlist_reverse sl)"
  then have "k < length sl" by (simp add: smartlist_reverse_def reverse_loop_length)
  then show "smartlist_reverse sl ! k = rev sl ! k"
    using reverse_loop_nth [of 0 "int (length sl) - 1" sl k] by (auto simp: smartlist_reverse_def rev_nth)
qed

section \<open>Strings and sets\<close>

lemma ord_inj: "ord c = (ord d :: nat) \<longleftrightarrow> c = d"
  by (metis char_of_char)

lemma ord_0: "ord c = (0 :: nat) \<longleftrightarrow> c = NUL"
proof
  assume "ord c = (0 :: nat)"
  then have "ord c = (ord NUL :: nat)" by (simp add: NUL_def)
  then show "c = NUL" by (simp only: ord_inj)
qed (simp add: NUL_def)

lemma strcmp_eq_0: "NUL \<notin> set a \<Longrightarrow> NUL \<notin> set b \<Longrightarrow> strcmp a b = 0 \<longleftrightarrow> a = b"
  by (induction a b rule: strcmp.induct) (auto simp: ord_0 ord_inj)

text \<open>The set operations, up to the order they leave the members in.\<close>

lemma smartlist_intersect_subtract:
  "mset (smartlist_intersect sl1 sl2) = filter_mset (\<lambda>x. x \<in> set sl2) (mset sl1)
   \<and> mset (smartlist_subtract sl1 sl2) = filter_mset (\<lambda>x. x \<notin> set sl2) (mset sl1)
   \<and> (smartlist_overlap sl1 sl2 \<longleftrightarrow> set sl1 \<inter> set sl2 \<noteq> {})"
proof -
  have "mset (fold (\<lambda>x sl. del_swap_loop (\<lambda>y. y = x) 0 sl) sl2 sl) = filter_mset (\<lambda>x. x \<notin> set sl2) (mset sl)" for sl
  proof (induction sl2 arbitrary: sl)
    case (Cons x sl2)
    have "mset (del_swap_loop (\<lambda>y. y = x) 0 sl) = filter_mset (\<lambda>y. y \<noteq> x) (mset sl)"
      using del_swap_loop_spec [of 0 sl "\<lambda>y. y = x"] by simp
    then show ?case using Cons by (auto simp: filter_filter_mset intro!: filter_mset_cong)
  qed simp
  then show ?thesis
    using del_swap_loop_spec [of 0 sl1 "\<lambda>x. x \<notin> set sl2"]
    by (auto simp: smartlist_intersect_def smartlist_subtract_def smartlist_overlap_def list_ex_iff)
qed

lemma contains_digest_loop_spec:
  "\<forall>d \<in> set sl. length d = DIGEST_LEN \<Longrightarrow> length e = DIGEST_LEN \<Longrightarrow> contains_digest_loop sl e = Some (e \<in> set sl)"
  by (induction sl) (auto simp: tor_memeq_eq)

section \<open>Binary search\<close>

text \<open>The members are in order with respect to the key.\<close>

definition in_order :: "('k \<Rightarrow> 'a \<Rightarrow> int) \<Rightarrow> 'k \<Rightarrow> 'a list \<Rightarrow> bool" where
  "in_order compare key sl \<longleftrightarrow> sorted_wrt (\<lambda>a b. sgn (compare key b) \<le> sgn (compare key a)) sl"

lemma in_order_nth: "in_order compare key sl \<Longrightarrow> i \<le> j \<Longrightarrow> j < length sl \<Longrightarrow> sgn (compare key (sl ! j)) \<le> sgn (compare key (sl ! i))"
  unfolding in_order_def sorted_wrt_iff_nth_less by (cases "i = j") auto

definition bsearch_result :: "'a list \<Rightarrow> 'k \<Rightarrow> ('k \<Rightarrow> 'a \<Rightarrow> int) \<Rightarrow> int \<times> bool \<Rightarrow> bool" where
  "bsearch_result sl key compare = (\<lambda>(idx, found). 0 \<le> idx \<and> idx \<le> int (length sl)
     \<and> (if found then idx < int (length sl) \<and> compare key (sl ! nat idx) = 0
        else (\<forall>i < length sl. if int i < idx then 0 < compare key (sl ! i) else compare key (sl ! i) < 0)))"

lemma bsearch_loop_spec:
  assumes "in_order compare key sl" "sl \<noteq> []"
  shows "0 \<le> lo \<Longrightarrow> lo \<le> hi + 1 \<Longrightarrow> 0 \<le> hi \<Longrightarrow> hi < int (length sl) \<Longrightarrow>
    \<forall>i < nat lo. 0 < compare key (sl ! i) \<Longrightarrow> \<forall>i < length sl. hi < int i \<longrightarrow> compare key (sl ! i) < 0 \<Longrightarrow>
    \<exists>r. bsearch_loop sl key compare lo hi = Some r \<and> bsearch_result sl key compare r"
proof (induction "nat (hi - lo + 1)" arbitrary: lo hi rule: less_induct)
  case less
  show ?case
  proof (cases "lo \<le> hi")
    case False
    then have lo: "lo = hi + 1" using less.prems by simp
    have "0 < compare key (sl ! nat hi)" using less.prems lo by auto
    then have "bsearch_loop sl key compare lo hi = Some (lo, False)"
      using less.prems lo by (subst bsearch_loop.simps) (auto simp: nat_diff_distrib Let_def)
    then show ?thesis using less.prems lo by (auto simp: bsearch_result_def)
  next
    case True
    define mid where "mid = lo + (hi - lo) div 2"
    have mid: "lo \<le> mid" "mid \<le> hi" using True by (auto simp: mid_def)
    have m: "0 \<le> mid" "mid < int (length sl)" "nat mid < length sl" using mid less.prems by auto
    let ?c = "compare key (sl ! nat mid)"
    consider (eq) "?c = 0" | (gt) "?c > 0" | (lt) "?c < 0" "mid > 0" | (first) "?c < 0" "mid = 0" using m(1) by linarith
    then show ?thesis
    proof cases
      case eq
      then have "bsearch_loop sl key compare lo hi = Some (mid, True)"
        using True m by (subst bsearch_loop.simps) (simp add: mid_def [symmetric])
      then show ?thesis using eq m by (auto simp: bsearch_result_def)
    next
      case gt
      have step: "bsearch_loop sl key compare lo hi = bsearch_loop sl key compare (mid + 1) hi"
        using True gt m by (subst bsearch_loop.simps) (simp add: mid_def [symmetric])
      have "\<forall>i < nat (mid + 1). 0 < compare key (sl ! i)"
      proof (intro allI impI)
        fix i assume "i < nat (mid + 1)"
        then have "i \<le> nat mid" using m by linarith
        from in_order_nth [OF assms(1) this m(3)] gt show "0 < compare key (sl ! i)" by (simp add: sgn_if split: if_splits)
      qed
      then show ?thesis using less.hyps [of hi "mid + 1"] less.prems step mid m by auto
    next
      case lt
      have step: "bsearch_loop sl key compare lo hi = bsearch_loop sl key compare lo (mid - 1)"
        using True lt m by (subst bsearch_loop.simps) (simp add: mid_def [symmetric])
      have "\<forall>i < length sl. mid - 1 < int i \<longrightarrow> compare key (sl ! i) < 0"
      proof (intro allI impI)
        fix i assume "i < length sl" "mid - 1 < int i"
        then have "nat mid \<le> i" "i < length sl" using m by linarith+
        from in_order_nth [OF assms(1) this] lt show "compare key (sl ! i) < 0" by (simp add: sgn_if split: if_splits)
      qed
      then show ?thesis using less.hyps [of "mid - 1" lo] less.prems step mid m lt by auto
    next
      case first
      then have "mid = lo" using mid less.prems by simp
      then have "bsearch_loop sl key compare lo hi = Some (0, False)"
        unfolding bsearch_loop.simps [of sl key compare lo hi] Let_def mid_def [symmetric] using True first m by simp
      moreover have "compare key (sl ! i) < 0" if "i < length sl" for i
        using in_order_nth [OF assms(1), of "nat mid" i] first that by (simp add: sgn_if split: if_splits)
      ultimately show ?thesis by (auto simp: bsearch_result_def)
    qed
  qed
qed

text \<open>C32 On a list in order with respect to the key, \<open>smartlist_bsearch_idx\<close> ends, trips none of its
  assertions, finds a matching member exactly if there is one, and otherwise returns the index of the
  first member greater than the key (or the length).\<close>

theorem smartlist_bsearch_idx_correct:
  assumes "in_order compare key sl"
  shows "\<exists>idx found. smartlist_bsearch_idx sl key compare = Some (int idx, found) \<and> idx \<le> length sl
    \<and> (found \<longleftrightarrow> (\<exists>x \<in> set sl. compare key x = 0))
    \<and> (if found then idx < length sl \<and> compare key (sl ! idx) = 0
       else (\<forall>i < length sl. if i < idx then 0 < compare key (sl ! i) else compare key (sl ! i) < 0))"
proof (cases "sl = []")
  case True
  then show ?thesis by (auto simp: smartlist_bsearch_idx_def intro!: exI [of _ 0])
next
  case False
  from bsearch_loop_spec [OF assms False, of 0 "int (length sl) - 1"] False obtain idx found where
    r: "smartlist_bsearch_idx sl key compare = Some (idx, found)" "bsearch_result sl key compare (idx, found)"
    by (auto simp: smartlist_bsearch_idx_def Suc_leI)
  have "\<exists>x \<in> set sl. compare key x = 0" if found using r(2) that by (auto simp: bsearch_result_def intro!: bexI [of _ "sl ! nat idx"])
  moreover have "compare key x \<noteq> 0" if "\<not> found" "x \<in> set sl" for x
    using r(2) that by (auto simp: bsearch_result_def in_set_conv_nth split: if_splits)
  ultimately show ?thesis
    using r by (intro exI [of _ "nat idx"] exI [of _ found]) (auto simp: bsearch_result_def split: if_splits)
qed

theorem smartlist_bsearch_idx_correct_witness:
  "\<exists>idx found. smartlist_bsearch_idx [''ant'', ''cat'', ''dog''] ''bat'' strcmp = Some (int idx, found) \<and> \<not> found \<and> idx = 1"
proof -
  have "in_order strcmp ''bat'' [''ant'', ''cat'', ''dog'']" by (simp add: in_order_def)
  from smartlist_bsearch_idx_correct [OF this] obtain idx found where
    r: "smartlist_bsearch_idx [''ant'', ''cat'', ''dog''] ''bat'' strcmp = Some (int idx, found)" "idx \<le> 3"
      "\<not> found" "\<forall>i < 3. if i < idx then 0 < strcmp ''bat'' ([''ant'', ''cat'', ''dog''] ! i) else strcmp ''bat'' ([''ant'', ''cat'', ''dog''] ! i) < 0"
    by auto
  have "idx = 1" using r(4)[rule_format, of 0] r(4)[rule_format, of 1] by (auto split: if_splits)
  then show ?thesis using r by blast
qed


section \<open>Sorted lists\<close>

fun dedup_from :: "('a \<Rightarrow> 'a \<Rightarrow> int) \<Rightarrow> 'a \<Rightarrow> 'a list \<Rightarrow> 'a list" where
  "dedup_from compare p [] = []"
| "dedup_from compare p (x # xs) = (if compare p x = 0 then dedup_from compare p xs else x # dedup_from compare x xs)"

lemma uniq_loop_dedup:
  "0 < i \<Longrightarrow> i \<le> length sl \<Longrightarrow> uniq_loop compare i sl = take i sl @ dedup_from compare (sl ! (i - 1)) (drop i sl)"
proof (induction compare i sl rule: uniq_loop.induct)
  case (1 compare i sl)
  show ?case
  proof (cases "i < length sl")
    case False
    then show ?thesis using 1(4) by (subst uniq_loop.simps) simp
  next
    case True
    have dr: "drop i sl = sl ! i # drop (i + 1) sl" using True by (simp add: Cons_nth_drop_Suc)
    let ?sl = "take i sl @ drop (i + 1) sl"
    show ?thesis
    proof (cases "compare (sl ! (i - 1)) (sl ! i) = 0")
      case eq: True
      have "?sl ! (i - 1) = sl ! (i - 1)" using True 1(3) by (simp add: nth_append)
      then show ?thesis
        using 1(1)[OF True eq] 1(3) True eq dr by (subst uniq_loop.simps) simp
    next
      case False
      have "take (i + 1) sl = take i sl @ [sl ! i]" using True by (simp add: take_Suc_conv_app_nth)
      then show ?thesis using 1(2)[OF True False] True False dr by (subst uniq_loop.simps) simp
    qed
  qed
qed

text \<open>How often a member occurs, and the member that occurs most often, the last one on a tie.\<close>

definition occurs :: "('a \<Rightarrow> 'a \<Rightarrow> int) \<Rightarrow> 'a \<Rightarrow> 'a list \<Rightarrow> nat" where
  "occurs compare x sl = length (filter (\<lambda>y. compare x y = 0) sl)"

definition best_of :: "('a \<Rightarrow> 'a \<Rightarrow> int) \<Rightarrow> 'a list \<Rightarrow> 'a option \<times> nat \<Rightarrow> bool" where
  "best_of compare sl = (\<lambda>(b, m). (sl = [] \<and> b = None \<and> m = 0) \<or>
     (\<exists>z \<in> set sl. b = Some z \<and> m = occurs compare z sl
        \<and> (\<forall>y \<in> set sl. occurs compare y sl \<le> m \<and> (occurs compare y sl = m \<longrightarrow> compare y z \<le> 0))))"

lemma best_ofI:
  "z \<in> set sl \<Longrightarrow> m = occurs compare z sl \<Longrightarrow>
   (\<And>y. y \<in> set sl \<Longrightarrow> occurs compare y sl \<le> m \<and> (occurs compare y sl = m \<longrightarrow> compare y z \<le> 0)) \<Longrightarrow>
     best_of compare sl (Some z, m)"
  by (auto simp: best_of_def)

context comparison
begin

lemma strict_distinct: "sorted_wrt (\<lambda>a b. compare a b < 0) xs \<Longrightarrow> distinct xs"
  using refl by (induction xs) force+

lemma dedup_spec:
  "sorted_wrt (\<lambda>a b. compare a b \<le> 0) (p # xs) \<Longrightarrow>
     sorted_wrt (\<lambda>a b. compare a b < 0) (p # dedup_from compare p xs) \<and> set (dedup_from compare p xs) \<subseteq> set xs
     \<and> (\<forall>x \<in> set xs. \<exists>y \<in> set (p # dedup_from compare p xs). compare y x = 0)"
proof (induction xs arbitrary: p)
  case (Cons x xs)
  have px: "sorted_wrt (\<lambda>a b. compare a b \<le> 0) (p # xs)" "sorted_wrt (\<lambda>a b. compare a b \<le> 0) (x # xs)" "compare p x \<le> 0"
    using Cons.prems by auto
  show ?case
  proof (cases "compare p x = 0")
    case True
    then show ?thesis using Cons.IH [OF px(1)] by auto
  next
    case False
    then have lt: "compare p x < 0" using px(3) by simp
    have IH: "sorted_wrt (\<lambda>a b. compare a b < 0) (x # dedup_from compare x xs)" "set (dedup_from compare x xs) \<subseteq> set xs"
      "\<forall>y \<in> set xs. \<exists>z \<in> set (x # dedup_from compare x xs). compare z y = 0" using Cons.IH [OF px(2)] by auto
    have "compare p y < 0" if "y \<in> set (dedup_from compare x xs)" for y
      using lt IH(2) px(2) that less_le_trans [OF lt, of y] by auto
    then show ?thesis using IH False lt refl [of x] by auto
  qed
qed simp

lemma uniq_sorted:
  assumes "sorted_wrt (\<lambda>a b. compare a b \<le> 0) sl"
  shows "sorted_wrt (\<lambda>a b. compare a b < 0) (smartlist_uniq sl compare) \<and> set (smartlist_uniq sl compare) \<subseteq> set sl
    \<and> (\<forall>x \<in> set sl. \<exists>y \<in> set (smartlist_uniq sl compare). compare y x = 0)"
proof (cases sl)
  case Nil
  then show ?thesis by (simp add: smartlist_uniq_def uniq_loop.simps)
next
  case (Cons p xs)
  then have "smartlist_uniq sl compare = p # dedup_from compare p xs"
    using uniq_loop_dedup [of 1 sl compare] by (simp add: smartlist_uniq_def)
  then show ?thesis using dedup_spec [of p xs] assms Cons refl [of p] by auto
qed

lemma occurs_group:
  assumes "\<forall>y \<in> set g. compare c y = 0" "\<forall>y \<in> set d. compare y c < 0"
  shows "y \<in> set d \<Longrightarrow> occurs compare y (d @ g) = occurs compare y d"
    "compare c x = 0 \<Longrightarrow> occurs compare x (d @ g) = length g"
proof -
  assume y: "y \<in> set d"
  have "compare y x \<noteq> 0" if "x \<in> set g" for x
    using less_le_trans [of y c x] assms y that by fastforce
  then show "occurs compare y (d @ g) = occurs compare y d" by (auto simp: occurs_def)
next
  assume x: "compare c x = 0"
  have "compare x y \<noteq> 0" if "y \<in> set d" for y
    using less_le_trans [of y c x] assms(2) x that flip_iff(1) [of y x] by fastforce
  moreover have "compare x y = 0" if "y \<in> set g" for y
    using assms(1) that x eq_trans [of x c y] flip_iff(2) [of x c] by simp
  ultimately show "occurs compare x (d @ g) = length g" by (simp add: occurs_def filter_False filter_True)
qed

lemma best_of_group:
  assumes "best_of compare d (b, m)" "\<forall>y \<in> set g. compare c y = 0" "\<forall>y \<in> set d. compare y c < 0" "c \<in> set g"
  shows "best_of compare (d @ g) (if m \<le> length g then (Some c, length g) else (b, m))"
proof -
  note oc = occurs_group [OF assms(2,3)]
  have g: "occurs compare y (d @ g) = length g \<and> compare y c \<le> 0" if "y \<in> set g" for y
    using oc(2) [of y] assms(2) that flip_iff(2) [of c y] by simp
  have d: "occurs compare y (d @ g) \<le> m \<and> compare y c \<le> 0" if "y \<in> set d" for y
    using oc(1) [OF that] assms(1,3) that by (auto simp: best_of_def)
  show ?thesis
  proof (cases "m \<le> length g")
    case True
    have "occurs compare c (d @ g) = length g" using oc(2) refl by blast
    moreover have "occurs compare y (d @ g) \<le> length g \<and> compare y c \<le> 0" if "y \<in> set (d @ g)" for y
      using that g [of y] d [of y] True by auto
    ultimately have "best_of compare (d @ g) (Some c, length g)" using assms(4) by (intro best_ofI) auto
    then show ?thesis using True by simp
  next
    case False
    with assms(1) obtain z where z: "z \<in> set d" "b = Some z" "m = occurs compare z d"
      "\<forall>y \<in> set d. occurs compare y d \<le> m \<and> (occurs compare y d = m \<longrightarrow> compare y z \<le> 0)"
      by (auto simp: best_of_def)
    then show ?thesis using False g oc(1) unfolding best_of_def by (auto intro!: bexI [of _ z])
  qed
qed

lemma most_frequent_loop_spec:
  "sorted_wrt (\<lambda>a b. compare a b \<le> 0) (c # xs) \<Longrightarrow> best_of compare d (b, m) \<Longrightarrow> \<forall>y \<in> set g. compare c y = 0 \<Longrightarrow>
   \<forall>y \<in> set d. compare y c < 0 \<Longrightarrow> c \<in> set g \<Longrightarrow>
     best_of compare (d @ g @ xs) (most_frequent_loop compare xs (Some c) (length g) b m)"
proof (induction xs arbitrary: c d g b m)
  case Nil
  then show ?case using best_of_group [of d b m g c] by simp
next
  case (Cons x xs)
  have sx: "sorted_wrt (\<lambda>a b. compare a b \<le> 0) (c # xs)" "sorted_wrt (\<lambda>a b. compare a b \<le> 0) (x # xs)" "compare c x \<le> 0"
    using Cons.prems(1) by auto
  show ?case
  proof (cases "compare c x = 0")
    case True
    then show ?thesis using Cons.IH [OF sx(1) Cons.prems(2), of "g @ [x]"] Cons.prems by simp
  next
    case False
    then have lt: "compare c x < 0" using sx(3) by simp
    have below: "\<forall>y \<in> set (d @ g). compare y x < 0"
    proof
      fix y assume "y \<in> set (d @ g)"
      then have "compare y c \<le> 0" using Cons.prems(3,4) flip_iff(2) [of c y] by auto
      then show "compare y x < 0" using lt by (rule le_less_trans)
    qed
    obtain b' m' where bm: "(if m \<le> length g then (Some c, length g) else (b, m)) = (b', m')" by fastforce
    have "best_of compare (d @ g) (b', m')" using best_of_group [OF Cons.prems(2-5)] bm by simp
    from Cons.IH [OF sx(2) this, of "[x]"] below refl show ?thesis using False bm by simp
  qed
qed

lemma most_frequent_sorted:
  assumes "sorted_wrt (\<lambda>a b. compare a b \<le> 0) sl"
  shows "best_of compare sl (smartlist_get_most_frequent sl compare)"
proof (cases sl)
  case (Cons x xs)
  then show ?thesis
    using most_frequent_loop_spec [of x xs "[]" None 0 "[x]"] assms refl [of x]
    by (simp add: smartlist_get_most_frequent_def best_of_def)
qed (simp add: smartlist_get_most_frequent_def best_of_def)

end


lemma strcmp_flip: "sgn (strcmp a b) = - sgn (strcmp b a)"
  by (induction a b rule: strcmp.induct) (auto simp: sgn_if split: if_splits)

lemma strcmp_Cons_le: "strcmp (x # xs) (y # ys) \<le> 0 \<longleftrightarrow> (ord x :: nat) < ord y \<or> x = y \<and> (x = NUL \<or> strcmp xs ys \<le> 0)"
  using ord_inj [of x y] by (auto simp: le_less)

lemma ord_pos: "c \<noteq> NUL \<Longrightarrow> (0 :: nat) < ord c"
  using ord_0 [of c] by (metis gr0I)

lemma strcmp_Nil_le: "strcmp (x # xs) [] \<le> 0 \<longleftrightarrow> x = NUL"
  using ord_0 [of x] by auto

lemma strcmp_trans: "strcmp a b \<le> 0 \<Longrightarrow> strcmp b c \<le> 0 \<Longrightarrow> strcmp a c \<le> 0"
proof (induction a b arbitrary: c rule: strcmp.induct)
  case (1 c)
  then show ?case by simp
next
  case (2 y ys c)
  then show ?case by (cases c) auto
next
  case (3 x xs c)
  then have "x = NUL" by (simp only: strcmp_Nil_le)
  moreover have "(ord NUL :: nat) = 0" by (simp add: ord_0)
  ultimately show ?case by (cases c) (simp_all only: strcmp_Nil_le strcmp_Cons_le, auto intro: ord_pos)
next
  case (4 x xs y ys c)
  show ?case
  proof (cases c)
    case Nil
    then have "y = NUL" using 4(3) by (simp only: strcmp_Nil_le)
    moreover have "(ord NUL :: nat) = 0" by (simp add: ord_0)
    ultimately have "x = NUL" using 4(2) by (simp only: strcmp_Cons_le) auto
    then show ?thesis using Nil by (simp only: strcmp_Nil_le)
  next
    case (Cons z zs)
    then have yz: "(ord y :: nat) < ord z \<or> y = z \<and> (y = NUL \<or> strcmp ys zs \<le> 0)" using 4(3) by (simp only: strcmp_Cons_le)
    have xy: "(ord x :: nat) < ord y \<or> x = y \<and> (x = NUL \<or> strcmp xs ys \<le> 0)" using 4(2) by (simp only: strcmp_Cons_le)
    have IH: "strcmp xs zs \<le> 0" if "x = y" "x \<noteq> NUL" "strcmp xs ys \<le> 0" "strcmp ys zs \<le> 0"
      using 4(1) that by blast
    have "(ord x :: nat) < ord z \<or> x = z \<and> (x = NUL \<or> strcmp xs zs \<le> 0)"
      using xy yz IH by (metis order.strict_trans)
    then show ?thesis using Cons by (simp only: strcmp_Cons_le)
  qed
qed

interpretation strings: comparison compare_string_ptrs
proof
  fix a b c
  show "sgn (compare_string_ptrs a b) = - sgn (compare_string_ptrs b a)"
    unfolding compare_string_ptrs_def by (rule strcmp_flip)
  show "compare_string_ptrs a b \<le> 0 \<Longrightarrow> compare_string_ptrs b c \<le> 0 \<Longrightarrow> compare_string_ptrs a c \<le> 0"
    unfolding compare_string_ptrs_def by (rule strcmp_trans)
qed

interpretation ptrs: comparison compare_ptrs
  by unfold_locales (auto simp: compare_ptrs_def split: if_splits)


definition qsort_ok :: "(('a \<Rightarrow> 'a \<Rightarrow> int) \<Rightarrow> 'a list \<Rightarrow> 'a list) \<Rightarrow> ('a \<Rightarrow> 'a \<Rightarrow> int) \<Rightarrow> bool" where
  "qsort_ok qsort compare \<longleftrightarrow> (\<forall>sl. mset (qsort compare sl) = mset sl \<and> sorted_wrt (\<lambda>a b. compare a b \<le> 0) (qsort compare sl))"

lemma sort_ok:
  "qsort_ok qsort compare \<Longrightarrow> sorted_wrt (\<lambda>a b. compare a b \<le> 0) (smartlist_sort qsort sl compare)
     \<and> mset (smartlist_sort qsort sl compare) = mset sl"
  by (auto simp: smartlist_sort_def qsort_ok_def)

text \<open>Sorting with any \<open>qsort\<close> that does what the C standard says and then calling
  \<open>smartlist_uniq_strings\<close> leaves exactly the strings of the list, once each, in ascending order.\<close>

theorem sort_uniq_strings:
  assumes "qsort_ok qsort compare_string_ptrs" "\<forall>s \<in> set sl. NUL \<notin> set s"
  shows "set (smartlist_uniq_strings (smartlist_sort_strings qsort sl)) = set sl
    \<and> sorted_wrt (\<lambda>a b. strcmp a b < 0) (smartlist_uniq_strings (smartlist_sort_strings qsort sl))
    \<and> distinct (smartlist_uniq_strings (smartlist_sort_strings qsort sl))"
proof -
  define s where "s = smartlist_sort_strings qsort sl"
  define u where "u = smartlist_uniq_strings s"
  have s: "sorted_wrt (\<lambda>a b. compare_string_ptrs a b \<le> 0) s" "mset s = mset sl"
    using sort_ok [OF assms(1), of sl] by (simp_all add: s_def smartlist_sort_strings_def)
  have set: "set s = set sl" using s(2) by (metis set_mset_mset)
  note uq = strings.uniq_sorted [OF s(1), folded smartlist_uniq_strings_def, folded u_def]
  have "x \<in> set u" if x: "x \<in> set sl" for x
  proof -
    have "x \<in> set s" using x set by simp
    then obtain y where y: "y \<in> set u" "strcmp y x = 0" using uq unfolding compare_string_ptrs_def by blast
    then have "y \<in> set sl" using uq set by blast
    then have "NUL \<notin> set y" "NUL \<notin> set x" using assms(2) x by auto
    then show ?thesis using y strcmp_eq_0 by blast
  qed
  then have "set u = set sl" using uq set by blast
  moreover have "distinct u" using uq by (intro strings.strict_distinct) blast
  ultimately show ?thesis using uq unfolding u_def [symmetric] s_def [symmetric] compare_string_ptrs_def by blast
qed

text \<open>One possible \<open>qsort\<close>: insertion sort.\<close>

primrec insert_by :: "('a \<Rightarrow> 'a \<Rightarrow> int) \<Rightarrow> 'a \<Rightarrow> 'a list \<Rightarrow> 'a list" where
  "insert_by compare x [] = [x]"
| "insert_by compare x (y # ys) = (if compare x y \<le> 0 then x # y # ys else y # insert_by compare x ys)"

definition insertion_sort :: "('a \<Rightarrow> 'a \<Rightarrow> int) \<Rightarrow> 'a list \<Rightarrow> 'a list" where
  "insertion_sort compare sl = foldr (insert_by compare) sl []"

context comparison
begin

lemma insert_by_spec:
  "sorted_wrt (\<lambda>a b. compare a b \<le> 0) ys \<Longrightarrow>
     sorted_wrt (\<lambda>a b. compare a b \<le> 0) (insert_by compare x ys) \<and> mset (insert_by compare x ys) = add_mset x (mset ys)"
proof (induction ys)
  case (Cons y ys)
  then have IH: "sorted_wrt (\<lambda>a b. compare a b \<le> 0) (insert_by compare x ys)" "mset (insert_by compare x ys) = add_mset x (mset ys)" by auto
  have "set (insert_by compare x ys) = insert x (set ys)" using IH(2) by (metis set_mset_add_mset_insert set_mset_mset)
  then show ?case using Cons.prems IH trans [of x y] flip_iff(3) [of y x] by (auto simp: linorder_not_le)
qed simp

lemma insertion_sort_ok: "qsort_ok insertion_sort compare"
proof -
  have "mset (insertion_sort compare sl) = mset sl \<and> sorted_wrt (\<lambda>a b. compare a b \<le> 0) (insertion_sort compare sl)" for sl
    by (induction sl) (use insert_by_spec in \<open>auto simp: insertion_sort_def\<close>)
  then show ?thesis by (simp add: qsort_ok_def)
qed

end

theorem sort_uniq_strings_witness:
  "set (smartlist_uniq_strings (smartlist_sort_strings insertion_sort [''b'', ''a'', ''b''])) = {''a'', ''b''}
   \<and> distinct (smartlist_uniq_strings (smartlist_sort_strings insertion_sort [''b'', ''a'', ''b'']))"
  using sort_uniq_strings [OF strings.insertion_sort_ok, of "[''b'', ''a'', ''b'']"] by (auto simp: NUL_def)

text \<open>On a sorted list \<open>smartlist_get_most_frequent_string\<close> returns a member with the highest number
  of occurrences, that number, and on a tie the last such member.\<close>

theorem most_frequent_string_correct:
  assumes "sorted_wrt (\<lambda>a b. strcmp a b \<le> 0) sl" "sl \<noteq> []" "\<forall>s \<in> set sl. NUL \<notin> set s"
  shows "\<exists>z n. smartlist_get_most_frequent_string sl = (Some z, n) \<and> z \<in> set sl \<and> n = count_list sl z
    \<and> (\<forall>y \<in> set sl. count_list sl y \<le> n \<and> (count_list sl y = n \<longrightarrow> strcmp y z \<le> 0))"
proof -
  have eq: "occurs compare_string_ptrs x sl = count_list sl x" if "x \<in> set sl" for x
  proof -
    have "filter (\<lambda>y. compare_string_ptrs x y = 0) sl = filter (\<lambda>y. x = y) sl"
      using strcmp_eq_0 [of x] assms(3) that by (auto intro!: filter_cong simp: compare_string_ptrs_def)
    then show ?thesis by (simp add: occurs_def count_list_eq_length_filter)
  qed
  have "best_of compare_string_ptrs sl (smartlist_get_most_frequent_string sl)"
    using strings.most_frequent_sorted [of sl] assms(1) by (simp add: smartlist_get_most_frequent_string_def compare_string_ptrs_def)
  then obtain z n where r: "smartlist_get_most_frequent_string sl = (Some z, n)" "z \<in> set sl" "n = occurs compare_string_ptrs z sl"
    "\<forall>y \<in> set sl. occurs compare_string_ptrs y sl \<le> n \<and> (occurs compare_string_ptrs y sl = n \<longrightarrow> compare_string_ptrs y z \<le> 0)"
    using assms(2) by (auto simp: best_of_def split: prod.splits)
  then show ?thesis using eq by (auto simp: compare_string_ptrs_def)
qed

theorem most_frequent_string_correct_witness:
  "\<exists>z n. smartlist_get_most_frequent_string [''a'', ''b'', ''b'', ''c'', ''c''] = (Some z, n) \<and> n = 2 \<and> z = ''c''"
  using most_frequent_string_correct [of "[''a'', ''b'', ''b'', ''c'', ''c'']"] by (auto simp: NUL_def split: if_splits)

end
