(* ===== verification/Util_String.thy ===== *)
theory Util_String
  imports Smartlist
begin

text \<open>
  The rest of \<open>lib/string\<close>: the character tables of \<open>compat_ctype.c\<close>, shown to be the character classes of
  \<open>Tor_Strings\<close>, and the comparing and scanning functions of \<open>util_string.c\<close>.
\<close>

unbundle bit_operations_syntax

section \<open>Character classes\<close>

text \<open>The tables of \<open>compat_ctype.c\<close>: 256 bits each.\<close>

definition TOR_ISALPHA_TABLE :: "u32 list" where "TOR_ISALPHA_TABLE = [0, 0, 0x7fffffe, 0x7fffffe, 0, 0, 0, 0]"
definition TOR_ISALNUM_TABLE :: "u32 list" where "TOR_ISALNUM_TABLE = [0, 0x3ff0000, 0x7fffffe, 0x7fffffe, 0, 0, 0, 0]"
definition TOR_ISSPACE_TABLE :: "u32 list" where "TOR_ISSPACE_TABLE = [0x3e00, 0x1, 0, 0, 0, 0, 0, 0]"
definition TOR_ISXDIGIT_TABLE :: "u32 list" where "TOR_ISXDIGIT_TABLE = [0, 0x3ff0000, 0x7e, 0x7e, 0, 0, 0, 0]"
definition TOR_ISDIGIT_TABLE :: "u32 list" where "TOR_ISDIGIT_TABLE = [0, 0x3ff0000, 0, 0, 0, 0, 0, 0]"
definition TOR_ISPRINT_TABLE :: "u32 list" where "TOR_ISPRINT_TABLE = [0, 0xffffffff, 0xffffffff, 0x7fffffff, 0, 0, 0, 0x0]"
definition TOR_ISUPPER_TABLE :: "u32 list" where "TOR_ISUPPER_TABLE = [0, 0, 0x7fffffe, 0, 0, 0, 0, 0]"
definition TOR_ISLOWER_TABLE :: "u32 list" where "TOR_ISLOWER_TABLE = [0, 0, 0, 0x7fffffe, 0, 0, 0, 0]"

text \<open>The accessor that \<open>DECLARE_CTYPE_FN\<close> declares for each of them.\<close>

definition ctype_fn :: "u32 list \<Rightarrow> char \<Rightarrow> bool" where
  "ctype_fn table c =
     (let u = (of_nat (ord c) :: u8)
      in table ! unat (drop_bit 5 u AND 7) AND push_bit (unat (u AND 31)) 1 \<noteq> 0)"

definition TOR_ISXDIGIT :: "char \<Rightarrow> bool" where "TOR_ISXDIGIT = ctype_fn TOR_ISXDIGIT_TABLE"
definition TOR_ISPRINT :: "char \<Rightarrow> bool" where "TOR_ISPRINT = ctype_fn TOR_ISPRINT_TABLE"

definition TOR_TOUPPER :: "char \<Rightarrow> char" where
  "TOR_TOUPPER c = chr (([0..<97] @ [65..<91] @ [123..<256]) ! ord c)"
definition TOR_TOLOWER :: "char \<Rightarrow> char" where
  "TOR_TOLOWER c = chr (([0..<65] @ [97..<123] @ [91..<256]) ! ord c)"

lemma word_and_exp: "(w AND push_bit k 1 \<noteq> 0) \<longleftrightarrow> bit (w :: u32) k"
proof -
  have "w AND push_bit k 1 = 0 \<longleftrightarrow> \<not> bit w k"
  proof
    assume "w AND push_bit k 1 = 0"
    then have "\<not> bit (w AND push_bit k 1) k" by simp
    then show "\<not> bit w k" using bit_imp_le_length [of w k] by (auto simp: bit_and_iff bit_exp_iff possible_bit_def)
  next
    assume "\<not> bit w k"
    then show "w AND push_bit k 1 = 0" by (intro bit_word_eqI) (auto simp: bit_and_iff bit_exp_iff)
  qed
  then show ?thesis by simp
qed

lemma ctype_fn_bit: "ctype_fn table c \<longleftrightarrow> bit (table ! (ord c div 32)) (ord c mod 32)"
proof -
  let ?n = "ord c :: nat" and ?u = "of_nat (ord c) :: u8"
  have n: "?n < 256" by simp
  then have u: "unat ?u = ?n" by (simp add: unsigned_of_nat take_bit_nat_eq_self)
  have "?u AND 31 = take_bit 5 ?u" "drop_bit 5 ?u AND 7 = take_bit 3 (drop_bit 5 ?u)"
    by (simp_all add: take_bit_eq_mask mask_eq_exp_minus_1)
  moreover have "?n div 32 < 8" using n by linarith
  ultimately have "unat (?u AND 31) = ?n mod 32" "unat (drop_bit 5 ?u AND 7) = ?n div 32"
    using u n by (simp_all add: unsigned_take_bit_eq unat_drop_bit_eq take_bit_eq_mod drop_bit_eq_div unat_mod unat_div)
  then show ?thesis by (simp only: ctype_fn_def Let_def word_and_exp)
qed

lemma range_bits:
  "bit (0x7fffffe :: int) k \<longleftrightarrow> 1 \<le> k \<and> k \<le> 26" "bit (0x3ff0000 :: int) k \<longleftrightarrow> 16 \<le> k \<and> k \<le> 25"
  "bit (0x3e00 :: int) k \<longleftrightarrow> 9 \<le> k \<and> k \<le> 13" "bit (0x7e :: int) k \<longleftrightarrow> 1 \<le> k \<and> k \<le> 6"
  "bit (0xffffffff :: int) k \<longleftrightarrow> k < 32" "bit (0x7fffffff :: int) k \<longleftrightarrow> k < 31"
proof -
  have m: "(0x7fffffe :: int) = push_bit 1 (mask 26)" "(0x3ff0000 :: int) = push_bit 16 (mask 10)" "(0x3e00 :: int) = push_bit 9 (mask 5)"
    "(0x7e :: int) = push_bit 1 (mask 6)" "(0xffffffff :: int) = mask 32" "(0x7fffffff :: int) = mask 31"
    by (simp_all add: mask_eq_exp_minus_1)
  show "bit (0x7fffffe :: int) k \<longleftrightarrow> 1 \<le> k \<and> k \<le> 26" unfolding m by (simp only: bit_push_bit_iff bit_mask_iff) auto
  show "bit (0x3ff0000 :: int) k \<longleftrightarrow> 16 \<le> k \<and> k \<le> 25" unfolding m by (simp only: bit_push_bit_iff bit_mask_iff) auto
  show "bit (0x3e00 :: int) k \<longleftrightarrow> 9 \<le> k \<and> k \<le> 13" unfolding m by (simp only: bit_push_bit_iff bit_mask_iff) auto
  show "bit (0x7e :: int) k \<longleftrightarrow> 1 \<le> k \<and> k \<le> 6" unfolding m by (simp only: bit_push_bit_iff bit_mask_iff) auto
  show "bit (0xffffffff :: int) k \<longleftrightarrow> k < 32" unfolding m by (auto simp: bit_mask_iff)
  show "bit (0x7fffffff :: int) k \<longleftrightarrow> k < 31" unfolding m by (auto simp: bit_mask_iff)
qed

lemma ord_blocks: obtains q r where "(ord c :: nat) = 32 * q + r" "q < 8" "r < 32"
proof -
  have "(ord c :: nat) < 256" using of_char_mod_256 [of c, where ?'a = nat] by (metis mod_less_divisor zero_less_numeral)
  then have "(ord c :: nat) div 32 < 8" by linarith
  then show ?thesis using that [of "ord c div 32" "ord c mod 32"] by simp
qed

lemma block_cases: "(q :: nat) < 8 \<Longrightarrow> q = 0 \<or> q = 1 \<or> q = 2 \<or> q = 3 \<or> q = 4 \<or> q = 5 \<or> q = 6 \<or> q = 7"
  by linarith

lemma ctype_tables:
  "ctype_fn TOR_ISALPHA_TABLE c \<longleftrightarrow> TOR_ISALPHA c"
  "ctype_fn TOR_ISALNUM_TABLE c \<longleftrightarrow> TOR_ISALNUM c"
  "ctype_fn TOR_ISSPACE_TABLE c \<longleftrightarrow> TOR_ISSPACE c"
  "ctype_fn TOR_ISDIGIT_TABLE c \<longleftrightarrow> TOR_ISDIGIT c"
  "ctype_fn TOR_ISUPPER_TABLE c \<longleftrightarrow> TOR_ISUPPER c"
  "ctype_fn TOR_ISLOWER_TABLE c \<longleftrightarrow> TOR_ISLOWER c"
  "TOR_ISPRINT c \<longleftrightarrow> 32 \<le> ord c \<and> ord c \<le> (126 :: nat)"
  "TOR_ISXDIGIT c \<longleftrightarrow> TOR_ISDIGIT c \<or> (65 \<le> ord c \<and> ord c \<le> (70 :: nat)) \<or> (97 \<le> ord c \<and> ord c \<le> (102 :: nat))"
proof -
  obtain q r where qr: "(ord c :: nat) = 32 * q + r" "q < 8" "r < 32" by (rule ord_blocks)
  have d: "ord c div 32 = q" "ord c mod 32 = r" using qr by simp_all
  have ct: "ctype_fn t c \<longleftrightarrow> bit (t ! q) r" for t using ctype_fn_bit [of t c] by (simp only: d)
  note defs = ct range_bits TOR_ISALPHA_def TOR_ISALNUM_def TOR_ISSPACE_def TOR_ISDIGIT_def TOR_ISUPPER_def TOR_ISLOWER_def qr(1)
  show "ctype_fn TOR_ISALPHA_TABLE c \<longleftrightarrow> TOR_ISALPHA c"
    using block_cases [OF qr(2)] qr(3) by (elim disjE; simp add: defs TOR_ISALPHA_TABLE_def; linarith?)
  show "ctype_fn TOR_ISALNUM_TABLE c \<longleftrightarrow> TOR_ISALNUM c"
    using block_cases [OF qr(2)] qr(3) by (elim disjE; simp add: defs TOR_ISALNUM_TABLE_def; linarith?)
  show "ctype_fn TOR_ISSPACE_TABLE c \<longleftrightarrow> TOR_ISSPACE c"
    using block_cases [OF qr(2)] qr(3) by (elim disjE; simp add: defs TOR_ISSPACE_TABLE_def; (linarith | auto simp: bit_1_iff)?)
  show "ctype_fn TOR_ISDIGIT_TABLE c \<longleftrightarrow> TOR_ISDIGIT c"
    using block_cases [OF qr(2)] qr(3) by (elim disjE; simp add: defs TOR_ISDIGIT_TABLE_def; linarith?)
  show "ctype_fn TOR_ISUPPER_TABLE c \<longleftrightarrow> TOR_ISUPPER c"
    using block_cases [OF qr(2)] qr(3) by (elim disjE; simp add: defs TOR_ISUPPER_TABLE_def; linarith?)
  show "ctype_fn TOR_ISLOWER_TABLE c \<longleftrightarrow> TOR_ISLOWER c"
    using block_cases [OF qr(2)] qr(3) by (elim disjE; simp add: defs TOR_ISLOWER_TABLE_def; linarith?)
  show "TOR_ISPRINT c \<longleftrightarrow> 32 \<le> ord c \<and> ord c \<le> (126 :: nat)"
    using block_cases [OF qr(2)] qr(3) by (elim disjE; simp add: defs TOR_ISPRINT_def TOR_ISPRINT_TABLE_def; linarith?)
  show "TOR_ISXDIGIT c \<longleftrightarrow> TOR_ISDIGIT c \<or> (65 \<le> ord c \<and> ord c \<le> (70 :: nat)) \<or> (97 \<le> ord c \<and> ord c \<le> (102 :: nat))"
    using block_cases [OF qr(2)] qr(3) by (elim disjE; simp add: defs TOR_ISXDIGIT_def TOR_ISXDIGIT_TABLE_def; linarith?)
qed

lemma case_tables: "TOR_TOLOWER c = to_lower c" "TOR_TOUPPER c = (if TOR_ISLOWER c then chr (ord c - 32) else c)"
proof -
  have n: "(ord c :: nat) < 256" by simp
  consider "(ord c :: nat) < 65" | "65 \<le> (ord c :: nat)" "(ord c :: nat) \<le> 90" | "90 < (ord c :: nat)" by linarith
  then show "TOR_TOLOWER c = to_lower c"
    by cases (use n in \<open>auto simp: TOR_TOLOWER_def to_lower_def TOR_ISUPPER_def nth_append simp del: upt_rec_numeral\<close>)
  consider "(ord c :: nat) < 97" | "97 \<le> (ord c :: nat)" "(ord c :: nat) \<le> 122" | "122 < (ord c :: nat)" by linarith
  then show "TOR_TOUPPER c = (if TOR_ISLOWER c then chr (ord c - 32) else c)"
    by cases (use n in \<open>auto simp: TOR_TOUPPER_def TOR_ISLOWER_def nth_append simp del: upt_rec_numeral\<close>)
qed

section \<open>Comparing and scanning\<close>

text \<open>\<open>strncmp\<close>: at most \<open>n\<close> characters; the end of a string reads as NUL.\<close>

definition strncmp :: "string \<Rightarrow> string \<Rightarrow> nat \<Rightarrow> int" where
  "strncmp a b n = strcmp (take n a) (take n b)"

definition strncasecmp :: "string \<Rightarrow> string \<Rightarrow> nat \<Rightarrow> int" where
  "strncasecmp a b n = strcasecmp (take n a) (take n b)"

definition strcmp_opt :: "string option \<Rightarrow> string option \<Rightarrow> int" where
  "strcmp_opt s1 s2 =
     (case s1 of
        None \<Rightarrow> (case s2 of None \<Rightarrow> 0 | Some _ \<Rightarrow> -1)
      | Some s1 \<Rightarrow> (case s2 of None \<Rightarrow> 1 | Some s2 \<Rightarrow> strcmp s1 s2))"

definition strcmpstart :: "string \<Rightarrow> string \<Rightarrow> int" where
  "strcmpstart s1 s2 = strncmp s1 s2 (length s2)"

definition strcasecmpstart :: "string \<Rightarrow> string \<Rightarrow> int" where
  "strcasecmpstart s1 s2 = strncasecmp s1 s2 (length s2)"

definition fast_memcmpstart :: "u8 list \<Rightarrow> u8 list \<Rightarrow> int" where
  "fast_memcmpstart mem prefix =
     (if length mem < length prefix then -1 else memcmp (take (length prefix) mem) prefix)"

definition strcmpend :: "string \<Rightarrow> string \<Rightarrow> int" where
  "strcmpend s1 s2 =
     (if length s2 > length s1 then strcmp s1 s2
      else strncmp (drop (length s1 - length s2) s1) s2 (length s2))"

definition strcasecmpend :: "string \<Rightarrow> string \<Rightarrow> int" where
  "strcasecmpend s1 s2 =
     (if length s2 > length s1 then strcasecmp s1 s2
      else strncasecmp (drop (length s1 - length s2) s1) s2 (length s2))"

definition tor_strlower :: "string \<Rightarrow> string" where "tor_strlower s = map TOR_TOLOWER s"
definition tor_strupper :: "string \<Rightarrow> string" where "tor_strupper s = map TOR_TOUPPER s"

text \<open>The loop over the occurrences that \<open>strchr\<close> finds.\<close>

function tor_strreplacechar :: "string \<Rightarrow> char \<Rightarrow> char \<Rightarrow> string" where
  "tor_strreplacechar s fnd replacement =
     (case index_of fnd s of
        None \<Rightarrow> s
      | Some k \<Rightarrow> take k s @ [replacement] @ tor_strreplacechar (drop (k + 1) s) fnd replacement)"
  by pat_completeness auto
termination by (relation "measure (\<lambda>(s, _, _). length s)") (auto dest!: index_of_less)

declare tor_strreplacechar.simps [simp del]

fun tor_strisprint :: "string \<Rightarrow> bool" where
  "tor_strisprint [] = True"
| "tor_strisprint (c # s) = (if \<not> TOR_ISPRINT c then False else tor_strisprint s)"

fun tor_strisnonupper :: "string \<Rightarrow> bool" where
  "tor_strisnonupper [] = True"
| "tor_strisnonupper (c # s) = (if TOR_ISUPPER c then False else tor_strisnonupper s)"

fun tor_strisspace :: "string \<Rightarrow> bool" where
  "tor_strisspace [] = True"
| "tor_strisspace (c # s) = (if \<not> TOR_ISSPACE c then False else tor_strisspace s)"

definition is_ws :: "char \<Rightarrow> bool" where
  "is_ws c \<longleftrightarrow> c = CHR '' '' \<or> c = CHR 0x09 \<or> c = CHR 0x0A \<or> c = CHR 0x0D"

function eat_whitespace :: "string \<Rightarrow> string" where
  "eat_whitespace [] = []"
| "eat_whitespace (c # s) =
     (if is_ws c then eat_whitespace s
      else if c = CHR ''#'' then eat_whitespace (dropWhile (\<lambda>x. x \<noteq> CHR 0x0A) s)
      else c # s)"
  by pat_completeness auto
termination by (relation "measure length") (auto simp: less_Suc_eq_le length_dropWhile_le)

text \<open>
  The variants with an end pointer: the text up to \<open>eos\<close> and what follows it.  A NUL in the text ends
  the scan.
\<close>

function eat_whitespace_eos :: "string \<Rightarrow> string" where
  "eat_whitespace_eos [] = []"
| "eat_whitespace_eos (c # s) =
     (if c = NUL then c # s
      else if is_ws c then eat_whitespace_eos s
      else if c = CHR ''#'' then eat_whitespace_eos (dropWhile (\<lambda>x. x \<noteq> NUL \<and> x \<noteq> CHR 0x0A) s)
      else c # s)"
  by pat_completeness auto
termination by (relation "measure length") (auto simp: less_Suc_eq_le length_dropWhile_le)

definition eat_whitespace_no_nl :: "string \<Rightarrow> string" where
  "eat_whitespace_no_nl s = dropWhile (\<lambda>c. c = CHR '' '' \<or> c = CHR 0x09 \<or> c = CHR 0x0D) s"

definition find_whitespace :: "string \<Rightarrow> string" where
  "find_whitespace s = dropWhile (\<lambda>c. \<not> (c = CHR ''#'' \<or> is_ws c)) s"

definition find_whitespace_eos :: "string \<Rightarrow> string" where
  "find_whitespace_eos s = dropWhile (\<lambda>c. \<not> (c = NUL \<or> c = CHR ''#'' \<or> is_ws c)) s"

function find_str_at_start_of_line :: "string \<Rightarrow> string \<Rightarrow> string option" where
  "find_str_at_start_of_line haystack needle =
     (if strncmp haystack needle (length needle) = 0 then Some haystack
      else case index_of (CHR 0x0A) haystack of
        None \<Rightarrow> None
      | Some k \<Rightarrow>
          let haystack = drop (k + 1) haystack
          in if haystack \<noteq> [] then find_str_at_start_of_line haystack needle else None)"
  by pat_completeness auto
termination by (relation "measure (\<lambda>(s, _). length s)") (auto dest!: index_of_less)

declare find_str_at_start_of_line.simps [simp del]

fun c_identifier_loop :: "nat \<Rightarrow> string \<Rightarrow> bool" where
  "c_identifier_loop iter [] = True"
| "c_identifier_loop iter (c # s) =
     (if iter = 0 then (if \<not> (TOR_ISALPHA c \<or> c = CHR ''_'') then False else c_identifier_loop (iter + 1) s)
      else (if \<not> (TOR_ISALPHA c \<or> TOR_ISDIGIT c \<or> c = CHR ''_'') then False else c_identifier_loop (iter + 1) s))"

definition string_is_C_identifier :: "string \<Rightarrow> bool" where
  "string_is_C_identifier string = (if length string = 0 then False else c_identifier_loop 0 string)"

text \<open>The portable branch of \<open>tor_memmem\<close>: the offset of the match, and \<open>None\<close> outside for the assertion.\<close>

function memmem_loop :: "u8 list \<Rightarrow> u8 list \<Rightarrow> nat \<Rightarrow> nat option" where
  "memmem_loop haystack needle p =
     (if p + length needle > length haystack then None
      else let window = take (length haystack - length needle + 1 - p) (drop p haystack) in
        if hd needle \<notin> set window then None
        else let p = p + length (takeWhile (\<lambda>b. b \<noteq> hd needle) window) in
          if take (length needle) (drop p haystack) = needle then Some p
          else memmem_loop haystack needle (p + 1))"
  by pat_completeness auto
termination by (relation "measure (\<lambda>(h, _, p). length h + 1 - p)") auto

declare memmem_loop.simps [simp del]

definition tor_memmem :: "u8 list \<Rightarrow> u8 list \<Rightarrow> nat option option" where
  "tor_memmem haystack needle = do {
     tor_assert (length needle \<noteq> 0);
     if length needle > length haystack then Some None else Some (memmem_loop haystack needle 0)
   }"

definition tor_memstr :: "u8 list \<Rightarrow> u8 list \<Rightarrow> nat option option" where
  "tor_memstr haystack needle = tor_memmem haystack needle"

function fast_mem_is_zero :: "u8 list \<Rightarrow> bool" where
  "fast_mem_is_zero mem =
     (if length mem \<ge> 32
      then (if memcmp (take 32 mem) (replicate 32 0) \<noteq> 0 then False else fast_mem_is_zero (drop 32 mem))
      else if length mem \<noteq> 0 then mem = take (length mem) (replicate 32 0)
      else True)"
  by pat_completeness auto
termination by (relation "measure length") auto

declare fast_mem_is_zero.simps [simp del]

section \<open>What the scanning functions compute\<close>

lemma replicate_zero_iff: "length xs = n \<Longrightarrow> xs = replicate n 0 \<longleftrightarrow> (\<forall>b \<in> set xs. b = 0)"
  by (metis in_set_replicate replicate_eqI)

lemma takeWhile_stops: "x \<in> set xs \<Longrightarrow> \<not> P x \<Longrightarrow> length (takeWhile P xs) < length xs"
  by (induction xs) auto

lemma fast_mem_is_zero_iff: "fast_mem_is_zero mem \<longleftrightarrow> (\<forall>b \<in> set mem. b = 0)"
proof (induction mem rule: fast_mem_is_zero.induct)
  case (1 mem)
  show ?case
  proof (cases "length mem \<ge> 32")
    case True
    have set: "set mem = set (take 32 mem) \<union> set (drop 32 mem)" by (metis append_take_drop_id set_append)
    have len: "length (take 32 mem) = 32" using True by simp
    have "memcmp (take 32 mem) (replicate 32 0) = 0 \<longleftrightarrow> (\<forall>b \<in> set (take 32 mem). b = 0)"
      using memcmp_zero_iff [of "take 32 mem" "replicate 32 0"] replicate_zero_iff [OF len] len by (simp only: length_replicate)
    moreover have "fast_mem_is_zero mem = (if memcmp (take 32 mem) (replicate 32 0) \<noteq> 0 then False else fast_mem_is_zero (drop 32 mem))"
      by (subst fast_mem_is_zero.simps) (simp only: True if_True)
    ultimately show ?thesis using 1 [OF True] set by (metis Un_iff)
  next
    case False
    then have "take (length mem) (replicate 32 0) = replicate (length mem) (0 :: u8)" by (simp only: take_replicate not_le min.absorb1 less_imp_le)
    then show ?thesis using False replicate_zero_iff [of mem "length mem"]
      by (subst fast_mem_is_zero.simps) (cases "mem = []"; simp only: if_False; simp)
  qed
qed

lemma string_is_C_identifier_iff:
  "string_is_C_identifier s \<longleftrightarrow> s \<noteq> [] \<and> (TOR_ISALPHA (hd s) \<or> hd s = CHR ''_'')
     \<and> (\<forall>c \<in> set (tl s). TOR_ISALNUM c \<or> c = CHR ''_'')"
proof -
  have "c_identifier_loop (Suc i) s \<longleftrightarrow> (\<forall>c \<in> set s. TOR_ISALNUM c \<or> c = CHR ''_'')" for i s
    by (induction s arbitrary: i) (auto simp: TOR_ISALNUM_def)
  then show ?thesis by (cases s) (auto simp: string_is_C_identifier_def)
qed

lemma eat_whitespace_start: "eat_whitespace s = [] \<or> (\<not> is_ws (hd (eat_whitespace s)) \<and> hd (eat_whitespace s) \<noteq> CHR ''#'')"
  by (induction s rule: eat_whitespace.induct) auto

definition match_at :: "u8 list \<Rightarrow> u8 list \<Rightarrow> nat \<Rightarrow> bool" where
  "match_at haystack needle k \<longleftrightarrow> k + length needle \<le> length haystack \<and> take (length needle) (drop k haystack) = needle"

lemma match_at_first: "match_at haystack needle k \<Longrightarrow> needle \<noteq> [] \<Longrightarrow> haystack ! k = hd needle"
  by (cases needle) (auto simp: match_at_def take_Suc hd_drop_conv_nth)

lemma match_at_window:
  assumes "match_at haystack needle k" "needle \<noteq> []" "p \<le> k"
  defines "w \<equiv> take (length haystack - length needle + 1 - p) (drop p haystack)"
  shows "k - p < length w" "w ! (k - p) = hd needle"
proof -
  have k: "k + length needle \<le> length haystack" using assms(1) by (simp add: match_at_def)
  have n: "0 < length needle" using assms(2) by simp
  have "length w = min (length haystack - p) (length haystack - length needle + 1 - p)" unfolding w_def by (simp only: length_take length_drop min.commute)
  then show l: "k - p < length w" using assms(3) k n by linarith
  then have "w ! (k - p) = haystack ! k" using assms(3) k by (simp add: w_def)
  then show "w ! (k - p) = hd needle" using match_at_first [OF assms(1,2)] by simp
qed

lemma no_match_before:
  assumes "needle \<noteq> []" "p \<le> j"
    "j < p + length (takeWhile (\<lambda>b. b \<noteq> hd needle) (take (length haystack - length needle + 1 - p) (drop p haystack)))"
  shows "\<not> match_at haystack needle j"
proof
  assume m: "match_at haystack needle j"
  let ?w = "take (length haystack - length needle + 1 - p) (drop p haystack)"
  have j: "j - p < length (takeWhile (\<lambda>b. b \<noteq> hd needle) ?w)" using assms(2,3) by simp
  then have "takeWhile (\<lambda>b. b \<noteq> hd needle) ?w ! (j - p) = hd needle"
    using takeWhile_nth [OF j] match_at_window(2) [OF m assms(1,2)] by simp
  then show False using nth_mem [OF j] set_takeWhileD by fastforce
qed

lemma no_match_window:
  assumes "needle \<noteq> []" "p \<le> k" "hd needle \<notin> set (take (length haystack - length needle + 1 - p) (drop p haystack))"
  shows "\<not> match_at haystack needle k"
proof
  assume m: "match_at haystack needle k"
  show False using nth_mem [OF match_at_window(1) [OF m assms(1,2)]] match_at_window(2) [OF m assms(1,2)] assms(3) by metis
qed

lemma first_from:
  assumes "case r of None \<Rightarrow> \<forall>k \<ge> q. \<not> M k | Some k \<Rightarrow> q \<le> k \<and> M k \<and> (\<forall>j. q \<le> j \<and> j < k \<longrightarrow> \<not> M j)"
    and "\<And>j. p \<le> j \<Longrightarrow> j < q \<Longrightarrow> \<not> M j" "p \<le> (q :: nat)"
  shows "case r of None \<Rightarrow> \<forall>k \<ge> p. \<not> M k | Some k \<Rightarrow> p \<le> k \<and> M k \<and> (\<forall>j. p \<le> j \<and> j < k \<longrightarrow> \<not> M j)"
proof (cases r)
  case None
  then show ?thesis using assms by (simp, metis not_less)
next
  case (Some k)
  then show ?thesis using assms by (simp, metis not_less order_trans)
qed

lemma memmem_loop_correct:
  assumes "needle \<noteq> []"
  shows "case memmem_loop haystack needle p of
      None \<Rightarrow> \<forall>k \<ge> p. \<not> match_at haystack needle k
    | Some k \<Rightarrow> p \<le> k \<and> match_at haystack needle k \<and> (\<forall>j. p \<le> j \<and> j < k \<longrightarrow> \<not> match_at haystack needle j)"
  using assms
proof (induction haystack needle p rule: memmem_loop.induct)
  case (1 haystack needle p)
  let ?w = "take (length haystack - length needle + 1 - p) (drop p haystack)"
  define q where "q = p + length (takeWhile (\<lambda>b. b \<noteq> hd needle) ?w)"
  note unf = memmem_loop.simps [of haystack needle p, unfolded Let_def, folded q_def]
  have pq: "p \<le> q" by (simp add: q_def)
  have before: "\<not> match_at haystack needle j" if "p \<le> j" "j < q" for j
    using no_match_before [OF 1(2) that(1)] that(2) unfolding q_def .
  show ?case
  proof (cases "p + length needle > length haystack")
    case True
    then have "memmem_loop haystack needle p = None" unfolding unf by (rule if_P)
    then show ?thesis using True by (auto simp: match_at_def)
  next
    case r: False
    show ?thesis
    proof (cases "hd needle \<in> set ?w")
      case False
      then have "memmem_loop haystack needle p = None" unfolding unf using r by (simp only: if_False not_False_eq_True if_True)
      then show ?thesis using no_match_window [OF 1(2) _ False] by simp
    next
      case h: True
      have "length (takeWhile (\<lambda>b. b \<noteq> hd needle) ?w) < length ?w" using h by (intro takeWhile_stops) auto
      moreover have "length ?w \<le> length haystack - length needle + 1 - p" by simp
      ultimately have fit: "q + length needle \<le> length haystack" using r unfolding q_def by linarith
      show ?thesis
      proof (cases "take (length needle) (drop q haystack) = needle")
        case True
        then have "memmem_loop haystack needle p = Some q" unfolding unf using r h by (simp only: if_False if_True simp_thms)
        then show ?thesis using True fit before pq by (simp add: match_at_def)
      next
        case miss: False
        then have eq: "memmem_loop haystack needle p = memmem_loop haystack needle (q + 1)"
          unfolding unf using r h by (simp only: if_False if_True not_True_eq_False)
        have "\<not> match_at haystack needle q" using miss by (simp only: match_at_def simp_thms)
        then have no: "\<not> match_at haystack needle j" if "p \<le> j" "j < q + 1" for j
        proof (cases "j = q")
          case False
          then show ?thesis using that by (intro before) linarith+
        qed (use \<open>\<not> match_at haystack needle q\<close> in blast)
        have "case memmem_loop haystack needle (q + 1) of
            None \<Rightarrow> \<forall>k \<ge> q + 1. \<not> match_at haystack needle k
          | Some k \<Rightarrow> q + 1 \<le> k \<and> match_at haystack needle k \<and> (\<forall>j. q + 1 \<le> j \<and> j < k \<longrightarrow> \<not> match_at haystack needle j)"
          by (rule 1(1) [OF r HOL.refl _ q_def miss 1(2)]) (use h in blast)
        from first_from [OF this no] pq show ?thesis unfolding eq by (simp only: trans_le_add1)
      qed
    qed
  qed
qed

end
