(* ===== verification/Utf8.thy ===== *)
theory Utf8
  imports Util_String
begin

text \<open>
  The UTF-8 validation of \<open>lib/string/util_string.c\<close> and its equivalence with RFC 3629: the accepted byte
  strings are exactly the encodings of sequences of Unicode scalar values.
\<close>

unbundle bit_operations_syntax

section \<open>Validation\<close>

definition TOP_BITS :: "nat \<Rightarrow> u8" where "TOP_BITS x = push_bit (8 - x) 0xFF"
definition LOW_BITS :: "nat \<Rightarrow> u8" where "LOW_BITS x = drop_bit (8 - x) 0xFF"

definition bytes_in_char :: "u8 \<Rightarrow> nat" where
  "bytes_in_char b =
     (if TOP_BITS 1 AND b = 0x00 then 1
      else if TOP_BITS 3 AND b = TOP_BITS 2 then 2
      else if TOP_BITS 4 AND b = TOP_BITS 3 then 3
      else if TOP_BITS 5 AND b = TOP_BITS 4 then 4
      else 0)"

definition is_continuation_byte :: "u8 \<Rightarrow> bool" where
  "is_continuation_byte b = (b AND TOP_BITS 2 = TOP_BITS 1)"

fun codepoint_loop :: "u8 list \<Rightarrow> u32 \<Rightarrow> u32 option" where
  "codepoint_loop [] codepoint = Some codepoint"
| "codepoint_loop (b # c) codepoint =
     (if \<not> is_continuation_byte b then None
      else codepoint_loop c (push_bit 6 codepoint OR ucast (b AND LOW_BITS 6)))"

definition validate_char :: "u8 list \<Rightarrow> nat \<Rightarrow> bool" where
  "validate_char c len =
     (if len = 1 then True
      else case codepoint_loop (take (len - 1) (tl c)) (ucast (hd c AND LOW_BITS (7 - len))) of
        None \<Rightarrow> False
      | Some codepoint \<Rightarrow>
          if len = 2 \<and> codepoint \<le> 0x7f then False
          else if len = 3 \<and> codepoint \<le> 0x7ff then False
          else if len = 4 \<and> codepoint \<le> 0xffff then False
          else if codepoint \<ge> 0xd800 \<and> codepoint \<le> 0xdfff then False
          else codepoint \<le> 0x10ffff)"

function utf8_loop :: "u8 list \<Rightarrow> bool" where
  "utf8_loop str =
     (if str = [] then True
      else let num_bytes = bytes_in_char (hd str) in
        if num_bytes = 0 then False
        else if num_bytes > length str then False
        else if \<not> validate_char str num_bytes then False
        else utf8_loop (drop num_bytes str))"
  by pat_completeness auto
termination by (relation "measure length") auto

declare utf8_loop.simps [simp del]

text \<open>\<open>None\<close> is the NULL pointer; otherwise \<open>str\<close> holds at least \<open>len\<close> bytes.\<close>

definition string_is_utf8 :: "u8 list option \<Rightarrow> nat \<Rightarrow> bool" where
  "string_is_utf8 str len = (case str of None \<Rightarrow> \<not> (len \<noteq> 0) | Some str \<Rightarrow> utf8_loop (take len str))"

definition u8_starts :: "u8 list \<Rightarrow> u8 list \<Rightarrow> bool" where
  "u8_starts str prefix \<longleftrightarrow> take (length prefix) str = prefix"

text \<open>The byte order marks U+FEFF and U+FFFE as the compiler encodes them; neither holds a NUL.\<close>

definition string_is_utf8_no_bom :: "u8 list option \<Rightarrow> nat \<Rightarrow> bool" where
  "string_is_utf8_no_bom str len =
     (case str of
        None \<Rightarrow> string_is_utf8 str len
      | Some s \<Rightarrow> if len \<ge> 3 \<and> (u8_starts s [0xEF, 0xBB, 0xBF] \<or> u8_starts s [0xEF, 0xBF, 0xBE]) then False
                  else string_is_utf8 str len)"

section \<open>The bytes of a UTF-8 character\<close>

lemma TOP_BITS_values [simp]:
  "TOP_BITS 1 = 0x80" "TOP_BITS 2 = 0xC0" "TOP_BITS 3 = 0xE0" "TOP_BITS 4 = 0xF0" "TOP_BITS 5 = 0xF8"
  by (simp_all add: TOP_BITS_def)

lemma TOP_BITS_Suc [simp]: "TOP_BITS (Suc 0) = 0x80"
  by (simp add: TOP_BITS_def)

lemma LOW_BITS_mask: "LOW_BITS 3 = mask 3" "LOW_BITS 4 = mask 4" "LOW_BITS 5 = mask 5" "LOW_BITS 6 = mask 6"
  by (simp_all add: LOW_BITS_def mask_eq_exp_minus_1)

text \<open>The top bits of a byte decide the value of \<open>b div 2 ^ n\<close>.\<close>

lemma lead_bits_div:
  assumes "m = NOT (mask n)" "take_bit n v = 0"
  shows "(m AND b :: u8) = v \<longleftrightarrow> unat b div 2 ^ n = unat v div 2 ^ n"
proof -
  have len: "i < 8" if "bit b i" for i using bit_imp_le_length [OF that] by simp
  have v: "\<not> bit v i" if "i < n" for i
    using assms(2) that by (metis bit_take_bit_iff bit_0_eq bot_apply bot_bool_def)
  have "m AND b = v \<longleftrightarrow> drop_bit n b = drop_bit n v"
  proof
    assume "m AND b = v"
    then show "drop_bit n b = drop_bit n v"
      unfolding assms(1) by (intro bit_word_eqI) (auto simp: bit_drop_bit_eq bit_and_iff bit_mask_iff bit_not_iff dest: len)
  next
    assume d: "drop_bit n b = drop_bit n v"
    have "bit b i = bit v i" if "n \<le> i" for i using arg_cong [OF d, of "\<lambda>w. bit w (i - n)"] that by (simp add: bit_drop_bit_eq)
    moreover have "n \<le> i" if "bit v i" for i using v that not_le by blast
    ultimately show "m AND b = v" unfolding assms(1)
      by (intro bit_word_eqI) (simp add: bit_and_iff bit_mask_iff bit_not_iff, metis not_le)
  qed
  also have "\<dots> \<longleftrightarrow> unat b div 2 ^ n = unat v div 2 ^ n"
    by (metis drop_bit_eq_div unat_drop_bit_eq unsigned_word_eqI)
  finally show ?thesis .
qed

lemma lead_bits:
  "0x80 AND (b :: u8) = 0 \<longleftrightarrow> unat b < 128"
  "0xE0 AND b = 0xC0 \<longleftrightarrow> 192 \<le> unat b \<and> unat b < 224"
  "0xF0 AND b = 0xE0 \<longleftrightarrow> 224 \<le> unat b \<and> unat b < 240"
  "0xF8 AND b = 0xF0 \<longleftrightarrow> 240 \<le> unat b \<and> unat b < 248"
  "b AND 0xC0 = 0x80 \<longleftrightarrow> 128 \<le> unat b \<and> unat b < 192"
proof -
  have b: "unat b < 256" using unsigned_less [of b, where ?'a = nat] by simp
  show "0x80 AND b = 0 \<longleftrightarrow> unat b < 128" using b by (subst lead_bits_div [where n = 7]) (auto simp: mask_eq_exp_minus_1)
  show "0xE0 AND b = 0xC0 \<longleftrightarrow> 192 \<le> unat b \<and> unat b < 224" using b by (subst lead_bits_div [where n = 5]) (auto simp: mask_eq_exp_minus_1)
  show "0xF0 AND b = 0xE0 \<longleftrightarrow> 224 \<le> unat b \<and> unat b < 240" using b by (subst lead_bits_div [where n = 4]) (auto simp: mask_eq_exp_minus_1)
  show "0xF8 AND b = 0xF0 \<longleftrightarrow> 240 \<le> unat b \<and> unat b < 248" using b by (subst lead_bits_div [where n = 3]) (auto simp: mask_eq_exp_minus_1)
  show "b AND 0xC0 = 0x80 \<longleftrightarrow> 128 \<le> unat b \<and> unat b < 192" using b by (subst and.commute, subst lead_bits_div [where n = 6]) (auto simp: mask_eq_exp_minus_1)
qed


lemma byte_less: "unat (b :: u8) < 256"
  using unsigned_less [of b, where ?'a = nat] by simp

lemma low_bits: "k \<le> 6 \<Longrightarrow> 3 \<le> k \<Longrightarrow> unat ((b :: u8) AND LOW_BITS k) = unat b mod 2 ^ k"
proof -
  assume "k \<le> 6" "3 \<le> k"
  then have "k = 3 \<or> k = 4 \<or> k = 5 \<or> k = 6" by linarith
  then have "LOW_BITS k = mask k" by (auto simp: LOW_BITS_mask)
  then show ?thesis by (simp add: take_bit_eq_mask [symmetric] unsigned_take_bit_eq take_bit_nat_def)
qed

lemma shift_or:
  assumes "unat a < 2 ^ 26" "unat x < 64"
  shows "unat (push_bit 6 a OR ucast (x :: u8) :: u32) = unat a * 64 + unat x"
proof -
  have x: "take_bit 6 (ucast x :: u32) = ucast x"
    using assms(2) by (simp add: word_unat_eq_iff unsigned_take_bit_eq unsigned_ucast_eq take_bit_nat_eq_self)
  have "push_bit 6 a AND ucast x = 0"
    by (subst x [symmetric]) (intro bit_word_eqI, auto simp: bit_and_iff bit_push_bit_iff bit_take_bit_iff)
  then have "push_bit 6 a OR ucast x = push_bit 6 a + ucast x" by (simp add: disjunctive_add_eq_or)
  moreover have "unat (64 * a + ucast x :: u32) = 64 * unat a + unat x"
    using assms by (simp add: unat_word_ariths unsigned_ucast_eq take_bit_nat_eq_self)
  ultimately show ?thesis by (simp add: push_bit_eq_mult mult.commute)
qed


section \<open>Reference definition\<close>

text \<open>Unicode scalar values and their encoding, as RFC 3629 has them.\<close>

definition scalar_value :: "nat \<Rightarrow> bool" where
  "scalar_value v \<longleftrightarrow> v \<le> 0x10FFFF \<and> \<not> (0xD800 \<le> v \<and> v \<le> 0xDFFF)"

definition utf8_bytes :: "nat \<Rightarrow> nat list" where
  "utf8_bytes v =
     (if v < 0x80 then [v]
      else if v < 0x800 then [0xC0 + v div 64, 0x80 + v mod 64]
      else if v < 0x10000 then [0xE0 + v div 4096, 0x80 + v div 64 mod 64, 0x80 + v mod 64]
      else [0xF0 + v div 262144, 0x80 + v div 4096 mod 64, 0x80 + v div 64 mod 64, 0x80 + v mod 64])"

definition utf8_encode :: "nat \<Rightarrow> u8 list" where
  "utf8_encode v = map of_nat (utf8_bytes v)"

lemma bytes_in_char_cases:
  "bytes_in_char b =
     (if unat b < 128 then 1 else if 192 \<le> unat b \<and> unat b < 224 then 2
      else if 224 \<le> unat b \<and> unat b < 240 then 3 else if 240 \<le> unat b \<and> unat b < 248 then 4 else 0)"
  by (simp add: bytes_in_char_def lead_bits)

lemma continuation: "is_continuation_byte b \<longleftrightarrow> 128 \<le> unat b \<and> unat b < 192"
  by (simp add: is_continuation_byte_def lead_bits)

text \<open>The code point that the loop accumulates.\<close>

fun code_value :: "nat \<Rightarrow> u8 list \<Rightarrow> nat" where
  "code_value v [] = v"
| "code_value v (b # bs) = code_value (v * 64 + unat b mod 64) bs"

lemma codepoint_loop_value:
  "(unat cp + 1) * 64 ^ length bs \<le> 2 ^ 26 \<Longrightarrow>
     map_option unat (codepoint_loop bs cp) = (if list_all is_continuation_byte bs then Some (code_value (unat cp) bs) else None)"
proof (induction bs arbitrary: cp)
  case (Cons b bs)
  let ?x = "b AND LOW_BITS 6"
  have x: "unat ?x = unat b mod 64" using low_bits [of 6 b] by simp
  then have "unat ?x < 64" by simp
  moreover have cp: "unat cp < 2 ^ 26"
  proof -
    have "(unat cp + 1) * 1 \<le> (unat cp + 1) * 64 ^ length (b # bs)" by (intro mult_le_mono2) simp
    from order_trans [OF this Cons.prems] show ?thesis by simp
  qed
  ultimately have v: "unat (push_bit 6 cp OR ucast ?x :: u32) = unat cp * 64 + unat b mod 64" using shift_or x by simp
  have "(unat cp * 64 + unat b mod 64 + 1) * 64 ^ length bs \<le> ((unat cp + 1) * 64) * 64 ^ length bs" by (intro mult_right_mono) auto
  also have "\<dots> \<le> 2 ^ 26" using Cons.prems by (simp only: list.size power_Suc mult.assoc add_Suc_right add_0_right)
  finally have "map_option unat (codepoint_loop bs (push_bit 6 cp OR ucast ?x))
      = (if list_all is_continuation_byte bs then Some (code_value (unat cp * 64 + unat b mod 64) bs) else None)"
    using Cons.IH [of "push_bit 6 cp OR ucast ?x"] v by simp
  then show ?case by (cases "list_all is_continuation_byte bs") simp_all
qed simp

lemma scalar_bytes: "scalar_value v \<Longrightarrow> b \<in> set (utf8_bytes v) \<Longrightarrow> b < 256"
  by (auto simp: utf8_bytes_def scalar_value_def split: if_splits)

lemma utf8_encode_eq:
  assumes "scalar_value v"
  shows "utf8_encode v = bs \<longleftrightarrow> utf8_bytes v = map unat bs"
proof
  assume "utf8_encode v = bs"
  then have "map unat bs = map (\<lambda>b. unat (of_nat b :: u8)) (utf8_bytes v)" by (auto simp: utf8_encode_def)
  also have "\<dots> = utf8_bytes v"
    using scalar_bytes [OF assms] by (intro map_idI) (simp add: unsigned_of_nat take_bit_nat_eq_self)
  finally show "utf8_bytes v = map unat bs" ..
next
  assume "utf8_bytes v = map unat bs"
  then show "utf8_encode v = bs" by (simp add: utf8_encode_def comp_def)
qed

lemma unat_ucast_byte: "unat (ucast (x :: u8) :: u32) = unat x"
  using byte_less [of x] by (simp add: unsigned_ucast_eq take_bit_nat_eq_self)

definition overlong :: "nat \<Rightarrow> nat" where
  "overlong n = (if n = 2 then 0x7f else if n = 3 then 0x7ff else 0xffff)"

lemma validate_char_value:
  assumes "n \<in> {2, 3, 4}" "length cs = n - 1"
  shows "validate_char (b0 # cs @ str) n \<longleftrightarrow> list_all is_continuation_byte cs
    \<and> overlong n < code_value (unat b0 mod 2 ^ (7 - n)) cs \<and> scalar_value (code_value (unat b0 mod 2 ^ (7 - n)) cs)"
proof -
  let ?c = "ucast (b0 AND LOW_BITS (7 - n)) :: u32"
  have c: "unat ?c = unat b0 mod 2 ^ (7 - n)" using low_bits [of "7 - n" b0] assms(1) by (auto simp: unat_ucast_byte)
  have "unat ?c + 1 \<le> 2 ^ (7 - n)" unfolding c by (simp add: Suc_leI)
  then have "(unat ?c + 1) * 64 ^ length cs \<le> 2 ^ (7 - n) * 64 ^ length cs" by (rule mult_le_mono1)
  also have "\<dots> \<le> 2 ^ 26" using assms by auto
  finally have l: "map_option unat (codepoint_loop cs ?c)
      = (if list_all is_continuation_byte cs then Some (code_value (unat b0 mod 2 ^ (7 - n)) cs) else None)"
    using codepoint_loop_value c by simp
  have "n \<noteq> 1" "take (n - 1) (cs @ str) = cs" using assms by auto
  then show ?thesis using l assms(1)
    by (cases "codepoint_loop cs ?c")
       (auto simp: validate_char_def overlong_def scalar_value_def word_le_nat_alt word_less_nat_alt split: if_splits)
qed

text \<open>One character: the check accepts exactly the encodings of scalar values.\<close>

lemma digits:
  assumes "r < (64 :: nat)"
  shows "(q * 64 + r) div 64 = q" "(q * 64 + r) mod 64 = r"
  using assms by simp_all

lemma div_64: "(a :: nat) div 4096 = a div 64 div 64" "a div 262144 = a div 64 div 64 div 64"
  by (simp_all add: div_mult2_eq [symmetric])

lemma utf8_bytes_digits:
  assumes "r < 64" "m < 64" "l < 64"
  shows "0x80 \<le> q * 64 + r \<Longrightarrow> q * 64 + r < 0x800 \<Longrightarrow> utf8_bytes (q * 64 + r) = [0xC0 + q, 0x80 + r]"
    "0x800 \<le> (q * 64 + m) * 64 + r \<Longrightarrow> (q * 64 + m) * 64 + r < 0x10000 \<Longrightarrow>
       utf8_bytes ((q * 64 + m) * 64 + r) = [0xE0 + q, 0x80 + m, 0x80 + r]"
    "0x10000 \<le> ((q * 64 + l) * 64 + m) * 64 + r \<Longrightarrow>
       utf8_bytes (((q * 64 + l) * 64 + m) * 64 + r) = [0xF0 + q, 0x80 + l, 0x80 + m, 0x80 + r]"
proof -
  have u: "utf8_bytes v = (if v < 0x80 then [v]
      else if v < 0x800 then [0xC0 + v div 64, 0x80 + v mod 64]
      else if v < 0x10000 then [0xE0 + v div 64 div 64, 0x80 + v div 64 mod 64, 0x80 + v mod 64]
      else [0xF0 + v div 64 div 64 div 64, 0x80 + v div 64 div 64 mod 64, 0x80 + v div 64 mod 64, 0x80 + v mod 64])" for v
    unfolding utf8_bytes_def div_64 ..
  note d = digits [OF assms(1)] digits [OF assms(2)] digits [OF assms(3)]
  show "utf8_bytes (q * 64 + r) = [0xC0 + q, 0x80 + r]" if "0x80 \<le> q * 64 + r" "q * 64 + r < 0x800"
    unfolding u d using that by auto
  show "utf8_bytes ((q * 64 + m) * 64 + r) = [0xE0 + q, 0x80 + m, 0x80 + r]"
    if "0x800 \<le> (q * 64 + m) * 64 + r" "(q * 64 + m) * 64 + r < 0x10000"
    unfolding u d using that by auto
  show "utf8_bytes (((q * 64 + l) * 64 + m) * 64 + r) = [0xF0 + q, 0x80 + l, 0x80 + m, 0x80 + r]"
    if "0x10000 \<le> ((q * 64 + l) * 64 + m) * 64 + r"
    unfolding u d using that by auto
qed

lemma code_value_digits:
  "code_value q [b1] = q * 64 + unat b1 mod 64"
  "code_value q [b1, b2] = (q * 64 + unat b1 mod 64) * 64 + unat b2 mod 64"
  "code_value q [b1, b2, b3] = ((q * 64 + unat b1 mod 64) * 64 + unat b2 mod 64) * 64 + unat b3 mod 64"
  by simp_all

lemma mod_offset:
  assumes "c mod m = 0" "c \<le> n" "n < c + (m :: nat)"
  shows "c + n mod m = n"
proof -
  obtain k where k: "n = c + k" "k < m" using assms(2,3) by (auto simp: le_iff_add)
  have "(c + k) mod m = k" using assms(1) k(2) by (metis add_0 mod_add_left_eq mod_less)
  then show ?thesis using k(1) by simp
qed

lemma continuation_value: "is_continuation_byte b \<Longrightarrow> 0x80 + unat b mod 64 = unat b"
  unfolding continuation by (rule mod_offset) auto

lemma lead_value:
  "192 \<le> unat b \<Longrightarrow> unat b < 224 \<Longrightarrow> 0xC0 + unat b mod 32 = unat b"
  "224 \<le> unat b \<Longrightarrow> unat b < 240 \<Longrightarrow> 0xE0 + unat b mod 16 = unat b"
  "240 \<le> unat b \<Longrightarrow> unat b < 248 \<Longrightarrow> 0xF0 + unat b mod 8 = unat b"
  by (rule mod_offset; simp)+

text \<open>One character: what the check accepts is the encoding of its code point.\<close>

lemma accepted_char:
  assumes "n \<in> {2, 3, 4}" "length cs = n - 1" "bytes_in_char b0 = n" "validate_char (b0 # cs @ str) n"
  shows "\<exists>v. scalar_value v \<and> b0 # cs = utf8_encode v"
proof -
  let ?v = "code_value (unat b0 mod 2 ^ (7 - n)) cs"
  have v: "list_all is_continuation_byte cs" "overlong n < ?v" "scalar_value ?v"
    using validate_char_value [OF assms(1,2)] assms(4) by auto
  consider "n = 2" | "n = 3" | "n = 4" using assms(1) by blast
  then have "utf8_bytes ?v = map unat (b0 # cs)"
  proof cases
    case 1
    then obtain b1 where "cs = [b1]" using assms(2) by (auto simp: length_Suc_conv)
    then show ?thesis using 1 v assms(3) utf8_bytes_digits(1) [of "unat b1 mod 64" 0 0 "unat b0 mod 32"]
      by (simp add: bytes_in_char_cases continuation_value lead_value overlong_def split: if_splits)
  next
    case 2
    then obtain b1 b2 where "cs = [b1, b2]" using assms(2) by (auto simp: length_Suc_conv numeral_3_eq_3)
    then show ?thesis using 2 v assms(3) utf8_bytes_digits(2) [of "unat b2 mod 64" "unat b1 mod 64" 0 "unat b0 mod 16"]
      by (simp add: bytes_in_char_cases continuation_value lead_value overlong_def split: if_splits)
  next
    case 3
    then obtain b1 b2 b3 where "cs = [b1, b2, b3]" using assms(2) by (auto simp: length_Suc_conv eval_nat_numeral)
    then show ?thesis using 3 v assms(3) utf8_bytes_digits(3) [of "unat b3 mod 64" "unat b2 mod 64" "unat b1 mod 64" "unat b0 mod 8"]
      by (simp add: bytes_in_char_cases continuation_value lead_value overlong_def split: if_splits)
  qed
  then show ?thesis using utf8_encode_eq [OF v(3)] v(3) by metis
qed

lemma mod_lead: "c mod m = 0 \<Longrightarrow> q < m \<Longrightarrow> (c + q) mod m = (q :: nat)"
  by (metis add_0 mod_add_left_eq mod_less)

lemma validate_from_value:
  assumes "n \<in> {2, 3, 4}" "length cs = n - 1" "list_all is_continuation_byte cs"
    "code_value (unat b0 mod 2 ^ (7 - n)) cs = v" "overlong n < v" "scalar_value v"
  shows "validate_char (b0 # cs @ str) n"
  using validate_char_value [OF assms(1,2)] assms(3-6) by blast

lemma char_ok:
  "bs \<noteq> [] \<Longrightarrow> length bs = n \<Longrightarrow> bytes_in_char (hd bs) = n \<Longrightarrow> validate_char (bs @ str) n \<Longrightarrow>
     bs \<noteq> [] \<and> bytes_in_char (hd bs) = length bs \<and> validate_char (bs @ str) (length bs)"
  by simp

lemma bytes_in_char_values: "bytes_in_char b \<in> {0, 1, 2, 3, 4}"
  by (simp add: bytes_in_char_def)

lemma encoded_char:
  assumes "scalar_value v"
  shows "utf8_encode v \<noteq> [] \<and> bytes_in_char (hd (utf8_encode v)) = length (utf8_encode v)
    \<and> validate_char (utf8_encode v @ str) (length (utf8_encode v))"
proof -
  define bs where "bs = utf8_encode v"
  then have u: "utf8_bytes v = map unat bs" using utf8_encode_eq [OF assms] by blast
  consider "v < 0x80" | "0x80 \<le> v" "v < 0x800" | "0x800 \<le> v" "v < 0x10000" | "0x10000 \<le> v" by linarith
  then show ?thesis unfolding bs_def [symmetric]
  proof cases
    case 1
    then obtain b0 where "bs = [b0]" "unat b0 = v" using u by (auto simp: utf8_bytes_def map_eq_Cons_conv)
    then show "bs \<noteq> [] \<and> bytes_in_char (hd bs) = length bs \<and> validate_char (bs @ str) (length bs)"
      using 1 by (simp add: bytes_in_char_cases validate_char_def)
  next
    case 2
    then obtain b0 b1 where b: "bs = [b0, b1]" "unat b0 = 0xC0 + v div 64" "unat b1 = 0x80 + v mod 64"
      using u by (auto simp: utf8_bytes_def map_eq_Cons_conv eq_commute [of "_ # _" "map _ _"])
    have "v div 64 < 32" using 2 by (simp add: less_mult_imp_div_less)
    then have cv: "code_value (unat b0 mod 32) [b1] = v" unfolding code_value_digits b(2,3) by (simp add: mod_lead)
    have "list_all is_continuation_byte [b1]" by (simp add: continuation b(3))
    then have "validate_char (b0 # [b1] @ str) 2"
      by (rule validate_from_value [rotated 2, where v = v]) (use cv 2 assms in \<open>simp_all only: overlong_def\<close>, simp_all)
    moreover have "bytes_in_char b0 = 2" using b(2) \<open>v div 64 < 32\<close> by (simp add: bytes_in_char_cases)
    ultimately show "bs \<noteq> [] \<and> bytes_in_char (hd bs) = length bs \<and> validate_char (bs @ str) (length bs)"
      by (intro char_ok [where n = 2]) (simp_all add: b(1))
  next
    case 3
    then obtain b0 b1 b2 where b: "bs = [b0, b1, b2]" "unat b0 = 0xE0 + v div 64 div 64" "unat b1 = 0x80 + v div 64 mod 64" "unat b2 = 0x80 + v mod 64"
      using u by (auto simp: utf8_bytes_def map_eq_Cons_conv div_64 eq_commute [of "_ # _" "map _ _"])
    have q: "v div 64 div 64 < 16" using 3 by (simp add: less_mult_imp_div_less)
    then have cv: "code_value (unat b0 mod 16) [b1, b2] = v" unfolding code_value_digits b(2-4) by (simp add: mod_lead)
    have "list_all is_continuation_byte [b1, b2]" by (simp add: continuation b(3,4))
    then have "validate_char (b0 # [b1, b2] @ str) 3"
      by (rule validate_from_value [rotated 2, where v = v]) (use cv 3 assms in \<open>simp_all only: overlong_def\<close>, simp_all)
    moreover have "bytes_in_char b0 = 3" using b(2) q by (simp add: bytes_in_char_cases)
    ultimately show "bs \<noteq> [] \<and> bytes_in_char (hd bs) = length bs \<and> validate_char (bs @ str) (length bs)"
      by (intro char_ok [where n = 3]) (simp_all add: b(1))
  next
    case 4
    then obtain b0 b1 b2 b3 where b: "bs = [b0, b1, b2, b3]" "unat b0 = 0xF0 + v div 64 div 64 div 64" "unat b1 = 0x80 + v div 64 div 64 mod 64"
      "unat b2 = 0x80 + v div 64 mod 64" "unat b3 = 0x80 + v mod 64"
      using u by (auto simp: utf8_bytes_def map_eq_Cons_conv div_64 eq_commute [of "_ # _" "map _ _"])
    have q: "v div 64 div 64 div 64 < 8" using assms by (simp add: less_mult_imp_div_less scalar_value_def)
    then have cv: "code_value (unat b0 mod 8) [b1, b2, b3] = v" unfolding code_value_digits b(2-5) by (simp add: mod_lead)
    have "list_all is_continuation_byte [b1, b2, b3]" by (simp add: continuation b(3-5))
    then have "validate_char (b0 # [b1, b2, b3] @ str) 4"
      by (rule validate_from_value [rotated 2, where v = v]) (use cv 4 assms in \<open>simp_all only: overlong_def\<close>, simp_all)
    moreover have "bytes_in_char b0 = 4" using b(2) q by (simp add: bytes_in_char_cases)
    ultimately show "bs \<noteq> [] \<and> bytes_in_char (hd bs) = length bs \<and> validate_char (bs @ str) (length bs)"
      by (intro char_ok [where n = 4]) (simp_all add: b(1))
  qed
qed

lemma utf8_loop_step:
  assumes "str \<noteq> []" "bytes_in_char (hd str) = n" "n \<noteq> 0" "n \<le> length str" "validate_char str n"
  shows "utf8_loop str = utf8_loop (drop n str)"
  using assms by (subst utf8_loop.simps) (simp add: Let_def)

lemma utf8_loop_encoded: "\<forall>v \<in> set vs. scalar_value v \<Longrightarrow> utf8_loop (concat (map utf8_encode vs))"
proof (induction vs)
  case (Cons v vs)
  let ?rest = "concat (map utf8_encode vs)" and ?bs = "utf8_encode v"
  have "scalar_value v" using Cons.prems by simp
  from encoded_char [OF this, of ?rest]
  have e: "?bs \<noteq> []" "bytes_in_char (hd ?bs) = length ?bs" "validate_char (?bs @ ?rest) (length ?bs)" by blast+
  have "utf8_loop (?bs @ ?rest) = utf8_loop (drop (length ?bs) (?bs @ ?rest))"
    by (rule utf8_loop_step [OF _ _ _ _ e(3)]) (use e(1,2) in simp_all)
  then show ?case using Cons by simp
qed (simp add: utf8_loop.simps)

lemma ascii_char:
  assumes "bytes_in_char b = 1"
  shows "scalar_value (unat b)" "utf8_encode (unat b) = [b]"
proof -
  have b: "unat b < 128" using assms unfolding bytes_in_char_cases by presburger
  then show sv: "scalar_value (unat b)" by (simp add: scalar_value_def)
  have "utf8_bytes (unat b) = map unat [b]" using b by (simp add: utf8_bytes_def)
  then show "utf8_encode (unat b) = [b]" using utf8_encode_eq [OF sv] by blast
qed

lemma first_char:
  assumes "str \<noteq> []" "bytes_in_char (hd str) = n" "n \<noteq> 0" "n \<le> length str" "validate_char str n"
  shows "\<exists>v. scalar_value v \<and> take n str = utf8_encode v"
proof -
  obtain b0 rest where s: "str = b0 # rest" using assms(1) by (cases str) auto
  show ?thesis
  proof (cases "n = 1")
    case True
    have "bytes_in_char b0 = 1" using assms(2) True unfolding s list.sel by (rule trans)
    then have a: "scalar_value (unat b0)" "utf8_encode (unat b0) = [b0]" by (rule ascii_char)+
    have "take n str = [b0]" using s True by simp
    then show ?thesis using a by metis
  next
    case False
    then have n: "n \<in> {2, 3, 4}" using assms(3) bytes_in_char_values [of "hd str"] unfolding assms(2) by blast
    let ?cs = "take (n - 1) rest"
    have val: "validate_char (b0 # ?cs @ drop (n - 1) rest) n" using assms(5) unfolding s append_take_drop_id .
    have len: "length ?cs = n - 1" using assms(4) s by simp
    have b0: "bytes_in_char b0 = n" using assms(2) unfolding s list.sel .
    have "take n str = b0 # ?cs" unfolding s using assms(3) by (cases n) simp_all
    then show ?thesis using accepted_char [OF n len b0 val] by metis
  qed
qed

lemma utf8_loop_decoded: "utf8_loop str \<Longrightarrow> \<exists>vs. (\<forall>v \<in> set vs. scalar_value v) \<and> str = concat (map utf8_encode vs)"
proof (induction str rule: utf8_loop.induct)
  case (1 str)
  show ?case
  proof (cases "str = []")
    case True
    then show ?thesis by (intro exI [of _ "[]"]) simp
  next
    case False
    let ?n = "bytes_in_char (hd str)"
    have l: "?n \<noteq> 0" "?n \<le> length str" "validate_char str ?n" "utf8_loop (drop ?n str)"
      using 1(2) False by (subst (asm) utf8_loop.simps, simp add: Let_def split: if_splits)+
    then obtain vs where vs: "\<forall>v \<in> set vs. scalar_value v" "drop ?n str = concat (map utf8_encode vs)"
      using 1(1) [OF False HOL.refl] by auto
    obtain v where "scalar_value v" "take ?n str = utf8_encode v" using first_char [OF False HOL.refl l(1-3)] by blast
    moreover from this have "str = utf8_encode v @ concat (map utf8_encode vs)" using vs(2) append_take_drop_id [of ?n str] by simp
    ultimately show ?thesis using vs(1) by (intro exI [of _ "v # vs"]) simp
  qed
qed

text \<open>C37 \<open>string_is_utf8\<close> accepts a byte string exactly when it is the UTF-8 encoding of a sequence of Unicode
  scalar values: no overlong forms, no surrogates, nothing above U+10FFFF, no truncated character.\<close>

theorem string_is_utf8_correct:
  "string_is_utf8 (Some str) (length str) \<longleftrightarrow> str \<in> {concat (map utf8_encode vs) | vs. list_all scalar_value vs}"
  using utf8_loop_encoded utf8_loop_decoded [of str] by (auto simp: string_is_utf8_def list_all_iff)

end
