(* ===== verification/Protover.thy ===== *)
theory Protover
  imports Smartlist
begin

text \<open>
  \<open>core/or/protover.c\<close>: lists of subprotocol versions such as \<open>Link=3-5 Relay=2,4\<close>.  An entry is a
  name and a 64-bit mask of versions.  An outer \<open>None\<close> stands for undefined behaviour (a shift by 64 or
  more, \<open>__builtin_ctzll(0)\<close>) or a failed assertion; the inner option is the error return of the
  function.  This theory holds the definitions of the file, the correctness of the range arithmetic on
  masks, and the round trip between entries and strings.
\<close>

unbundle bit_operations_syntax

section \<open>Protocols\<close>

datatype protocol_type_t =
    PRT_LINK | PRT_LINKAUTH | PRT_RELAY | PRT_DIRCACHE | PRT_HSDIR | PRT_HSINTRO | PRT_HSREND | PRT_DESC
  | PRT_MICRODESC | PRT_CONS | PRT_PADDING | PRT_FLOWCTRL | PRT_CONFLUX

record proto_entry_t =
  pe_name :: string
  pe_bitmask :: u64

definition PROTOCOL_NAMES :: "(protocol_type_t \<times> string) list" where
  "PROTOCOL_NAMES =
     [(PRT_LINK, ''Link''), (PRT_LINKAUTH, ''LinkAuth''), (PRT_RELAY, ''Relay''), (PRT_DIRCACHE, ''DirCache''),
      (PRT_HSDIR, ''HSDir''), (PRT_HSINTRO, ''HSIntro''), (PRT_HSREND, ''HSRend''), (PRT_DESC, ''Desc''),
      (PRT_MICRODESC, ''Microdesc''), (PRT_PADDING, ''Padding''), (PRT_CONS, ''Cons''), (PRT_FLOWCTRL, ''FlowCtrl''),
      (PRT_CONFLUX, ''Conflux'')]"

definition MAX_PROTOCOL_NAME_LENGTH :: nat where "MAX_PROTOCOL_NAME_LENGTH = 100"
definition MAX_PROTOCOL_VERSION :: nat where "MAX_PROTOCOL_VERSION = 63"

definition protocol_type_to_str :: "protocol_type_t \<Rightarrow> string" where
  "protocol_type_to_str pr = (case map_of PROTOCOL_NAMES pr of Some name \<Rightarrow> name | None \<Rightarrow> ''UNKNOWN'')"

section \<open>Parsing\<close>

text \<open>
  A pointer into a string is the rest of the string from there on, up to the terminating NUL; an end
  pointer is its distance from the start.  \<open>None\<close> is the return value \<open>-1\<close>.
\<close>

definition parse_version_range :: "string \<Rightarrow> nat \<Rightarrow> (nat \<times> nat) option" where
  "parse_version_range s end_of_range =
     (if \<not> TOR_ISDIGIT (deref s) then None
      else let (low, ok, nxt) = tor_parse_ulong s 0 (int MAX_PROTOCOL_VERSION) True in
        if \<not> ok then None
        else if length s - length nxt > end_of_range then None
        else if length s - length nxt = end_of_range then Some (nat low, nat low)
        else if deref nxt \<noteq> CHR ''-'' then None
        else let s2 = tl nxt in
          if \<not> TOR_ISDIGIT (deref s2) then None
          else let (high, ok, nxt) = tor_parse_ulong s2 0 (int MAX_PROTOCOL_VERSION) True in
            if \<not> ok then None
            else if length s - length nxt \<noteq> end_of_range then None
            else if low > high then None
            else Some (nat low, nat high))"

definition is_valid_keyword :: "string \<Rightarrow> bool" where
  "is_valid_keyword s = list_all (\<lambda>c. TOR_ISALNUM c \<or> c = CHR ''-'') s"

definition BIT :: "nat \<Rightarrow> u64" where
  "BIT x = push_bit x 1"

text \<open>\<open>None\<close> is a shift by 64 or more, which C leaves undefined.\<close>

definition bitmask_for_range :: "nat \<Rightarrow> nat \<Rightarrow> u64 option" where
  "bitmask_for_range low high =
     (if 63 < high \<or> 63 < 63 - high + low then None
      else let mask = NOT 0;
               mask = push_bit (63 - high) mask;
               mask = drop_bit (63 - high + low) mask
           in Some (push_bit low mask))"

text \<open>The loop over the ranges: \<open>s\<close> and the distance to \<open>end_of_entry\<close>.  Outer \<open>None\<close>: undefined shift; inner: error.\<close>

lemma version_range_comma: "parse_version_range (CHR '','' # s) e = None"
  by (simp add: parse_version_range_def deref_def TOR_ISDIGIT_def)

function ranges_loop :: "string \<Rightarrow> nat \<Rightarrow> u64 \<Rightarrow> u64 option option" where
  "ranges_loop s e bitmask =
     (if e = 0 then Some (Some bitmask)
      else let comma = (case index_of (CHR '','') (take e s) of Some k \<Rightarrow> k | None \<Rightarrow> e) in
        case parse_version_range s comma of
          None \<Rightarrow> Some None
        | Some (low, high) \<Rightarrow> do {
            m \<leftarrow> bitmask_for_range low high;
            let bitmask = bitmask OR m;
            let s = drop comma s;
            let e = e - comma;
            if e > 1 then ranges_loop (drop 1 s) (e - 1) bitmask else ranges_loop s e bitmask
          })"
  by pat_completeness auto
termination
proof (relation "measure (\<lambda>(s, e, _). e)", goal_cases)
  case (3 s e bitmask comma x low high m bm s1 e1)
  have "comma \<noteq> 0"
  proof
    assume "comma = 0"
    then have "index_of (CHR '','') (take e s) = Some 0" using 3 by (auto split: option.splits)
    then obtain ys where "take e s = CHR '','' # ys" using index_of_drop by fastforce
    then obtain zs where "s = CHR '','' # zs" by (cases s; cases e) auto
    then show False using 3 version_range_comma by simp
  qed
  then show ?case using 3 by auto
qed auto

declare ranges_loop.simps [simp del]

definition parse_single_entry :: "string \<Rightarrow> nat \<Rightarrow> proto_entry_t option option" where
  "parse_single_entry s end_of_entry =
     (case index_of (CHR ''='') (take end_of_entry s) of
        None \<Rightarrow> Some None
      | Some equals \<Rightarrow>
          if equals = 0 then Some None
          else if equals > MAX_PROTOCOL_NAME_LENGTH then Some None
          else if \<not> is_valid_keyword (take equals s) then Some None
          else do {
            r \<leftarrow> ranges_loop (drop (equals + 1) s) (end_of_entry - (equals + 1)) 0;
            Some (map_option (\<lambda>bitmask. \<lparr>pe_name = take equals s, pe_bitmask = bitmask\<rparr>) r)
          })"

function parse_protocol_list :: "string \<Rightarrow> proto_entry_t list option option" where
  "parse_protocol_list s =
     (if s = [] then Some (Some [])
      else let end_of_entry = (case index_of (CHR '' '') s of Some k \<Rightarrow> k | None \<Rightarrow> length s) in
        do {
          entry \<leftarrow> parse_single_entry s end_of_entry;
          case entry of
            None \<Rightarrow> Some None
          | Some ent \<Rightarrow> do {
              rest \<leftarrow> parse_protocol_list (dropWhile (\<lambda>c. c = CHR '' '') (drop end_of_entry s));
              Some (map_option (\<lambda>es. ent # es) rest)
            }
        })"
  by pat_completeness auto
termination
proof (relation "measure length", goal_cases)
  case (2 s e entry ent)
  have "e \<noteq> 0" using 2 by (auto simp: parse_single_entry_def index_of_def)
  have "length (dropWhile (\<lambda>c. c = CHR '' '') (drop e s)) \<le> length (drop e s)" by (rule length_dropWhile_le)
  also have "\<dots> < length s" using \<open>e \<noteq> 0\<close> 2(1) by (cases s) auto
  finally show ?case by simp
qed simp

declare parse_protocol_list.simps [simp del]

definition protover_list_is_invalid :: "string \<Rightarrow> bool option" where
  "protover_list_is_invalid s = do { l \<leftarrow> parse_protocol_list s; Some (l = None) }"

section \<open>Queries\<close>

fun find_entry_by_name :: "proto_entry_t list \<Rightarrow> string \<Rightarrow> proto_entry_t option" where
  "find_entry_by_name [] name = None"
| "find_entry_by_name (ent # protos) name =
     (if strcmp (pe_name ent) name = 0 then Some ent else find_entry_by_name protos name)"

definition protocol_list_contains :: "proto_entry_t list \<Rightarrow> protocol_type_t \<Rightarrow> nat \<Rightarrow> bool" where
  "protocol_list_contains protos pr ver =
     (if ver > MAX_PROTOCOL_VERSION then False
      else case find_entry_by_name protos (protocol_type_to_str pr) of
        Some ent \<Rightarrow> pe_bitmask ent AND BIT ver \<noteq> 0
      | None \<Rightarrow> False)"

definition protocol_list_supports_protocol :: "string \<Rightarrow> protocol_type_t \<Rightarrow> nat \<Rightarrow> bool option" where
  "protocol_list_supports_protocol l tp version = do {
     protocols \<leftarrow> parse_protocol_list l;
     Some (case protocols of None \<Rightarrow> False | Some protocols \<Rightarrow> protocol_list_contains protocols tp version)
   }"

definition protocol_list_supports_protocol_or_later :: "string \<Rightarrow> protocol_type_t \<Rightarrow> nat \<Rightarrow> bool option" where
  "protocol_list_supports_protocol_or_later l tp version = do {
     protocols \<leftarrow> parse_protocol_list l;
     case protocols of
       None \<Rightarrow> Some False
     | Some protocols \<Rightarrow> do {
         mask \<leftarrow> bitmask_for_range version 63;
         Some (list_ex (\<lambda>proto. strcasecmp (pe_name proto) (protocol_type_to_str tp) = 0 \<and> pe_bitmask proto AND mask \<noteq> 0) protocols)
       }
   }"

section \<open>The lists of this version\<close>

definition protover_get_supported :: "protocol_type_t \<Rightarrow> string" where
  "protover_get_supported type = (case type of
     PRT_CONFLUX \<Rightarrow> ''1'' | PRT_CONS \<Rightarrow> ''1-2'' | PRT_DESC \<Rightarrow> ''1-4'' | PRT_DIRCACHE \<Rightarrow> ''2'' | PRT_FLOWCTRL \<Rightarrow> ''1-2''
   | PRT_HSDIR \<Rightarrow> ''2'' | PRT_HSINTRO \<Rightarrow> ''4-5'' | PRT_HSREND \<Rightarrow> ''1-2'' | PRT_LINK \<Rightarrow> ''3-5'' | PRT_LINKAUTH \<Rightarrow> ''3''
   | PRT_MICRODESC \<Rightarrow> ''1-3'' | PRT_PADDING \<Rightarrow> ''2'' | PRT_RELAY \<Rightarrow> ''2-6'')"

definition protover_get_supported_protocols :: string where
  "protover_get_supported_protocols =
     ''Conflux='' @ protover_get_supported PRT_CONFLUX @ '' ''
     @ ''Cons='' @ protover_get_supported PRT_CONS @ '' ''
     @ ''Desc='' @ protover_get_supported PRT_DESC @ '' ''
     @ ''DirCache='' @ protover_get_supported PRT_DIRCACHE @ '' ''
     @ ''FlowCtrl='' @ protover_get_supported PRT_FLOWCTRL @ '' ''
     @ ''HSDir='' @ protover_get_supported PRT_HSDIR @ '' ''
     @ ''HSIntro='' @ protover_get_supported PRT_HSINTRO @ '' ''
     @ ''HSRend='' @ protover_get_supported PRT_HSREND @ '' ''
     @ ''Link='' @ protover_get_supported PRT_LINK @ '' ''
     @ ''LinkAuth='' @ protover_get_supported PRT_LINKAUTH @ '' ''
     @ ''Microdesc='' @ protover_get_supported PRT_MICRODESC @ '' ''
     @ ''Padding='' @ protover_get_supported PRT_PADDING @ '' ''
     @ ''Relay='' @ protover_get_supported PRT_RELAY"

definition protover_get_recommended_client_protocols :: string where
  "protover_get_recommended_client_protocols =
     ''Cons=2 Desc=2 DirCache=2 FlowCtrl=1-2 HSDir=2 HSIntro=4 HSRend=2 '' @ ''Link=4-5 Microdesc=2 Relay=2-4''"

definition protover_get_recommended_relay_protocols :: string where
  "protover_get_recommended_relay_protocols =
     ''Cons=2 Desc=2 DirCache=2 FlowCtrl=1-2 HSDir=2 HSIntro=4-5 HSRend=2 '' @ ''Link=4-5 LinkAuth=3 Microdesc=2 Relay=2-4''"

definition protover_get_required_client_protocols :: string where
  "protover_get_required_client_protocols = ''Cons=2 Desc=2 FlowCtrl=1 Link=4 Microdesc=2 Relay=2''"

definition protover_get_required_relay_protocols :: string where
  "protover_get_required_relay_protocols =
     ''Cons=2 Desc=2 DirCache=2 FlowCtrl=1-2 HSDir=2 HSIntro=4-5 HSRend=2 '' @ ''Link=4-5 LinkAuth=3 Microdesc=2 Relay=2-4''"

definition get_supported_protocol_list :: "proto_entry_t list option option" where
  "get_supported_protocol_list = parse_protocol_list protover_get_supported_protocols"

definition protover_is_supported_here :: "protocol_type_t \<Rightarrow> nat \<Rightarrow> bool option" where
  "protover_is_supported_here pr ver = do {
     ours \<leftarrow> get_supported_protocol_list;
     Some (case ours of None \<Rightarrow> False | Some ours \<Rightarrow> protocol_list_contains ours pr ver)
   }"

section \<open>Encoding\<close>

text \<open>\<open>__builtin_ctzll\<close>: undefined for 0.\<close>

definition trailing_zeros :: "u64 \<Rightarrow> nat option" where
  "trailing_zeros x = (if x = 0 then None else Some (length (takeWhile (\<lambda>i. \<not> bit x i) [0..<64])))"

text \<open>\<open>None\<close> also stands for a loop that does not end.\<close>

partial_function (option) encode_ranges :: "u64 \<Rightarrow> nat \<Rightarrow> bool \<Rightarrow> string list option" where
  "encode_ranges bits shift first =
     (if bits = 0 then Some []
      else do {
        let comma = (if first then [] else '','');
        zeros \<leftarrow> trailing_zeros bits;
        let bits = drop_bit zeros bits;
        let shift = shift + zeros;
        ones \<leftarrow> (if bits = 0 then Some 64 else trailing_zeros (NOT bits));
        let chunk = (if ones = 1 then comma @ show_dec shift
                     else comma @ show_dec shift @ ''-'' @ show_dec (shift + ones - 1));
        if ones = 64 then Some [chunk]
        else do {
          chunks \<leftarrow> encode_ranges (drop_bit ones bits) (shift + ones) False;
          Some (chunk # chunks)
        }
      })"

definition proto_entry_encode_into :: "string list \<Rightarrow> proto_entry_t \<Rightarrow> string list option" where
  "proto_entry_encode_into chunks entry = do {
     ranges \<leftarrow> encode_ranges (pe_bitmask entry) 0 True;
     Some (chunks @ [pe_name entry @ ''=''] @ ranges)
   }"

fun encode_entries :: "string list \<Rightarrow> string \<Rightarrow> proto_entry_t list \<Rightarrow> string list option" where
  "encode_entries chunks separator [] = Some chunks"
| "encode_entries chunks separator (ent # sl) = do {
     chunks \<leftarrow> proto_entry_encode_into (chunks @ [separator]) ent;
     encode_entries chunks '' '' sl
   }"

definition encode_protocol_list :: "proto_entry_t list \<Rightarrow> string option" where
  "encode_protocol_list sl = do {
     chunks \<leftarrow> encode_entries [] [] sl;
     smartlist_join_strings chunks [] False
   }"

section \<open>Voting\<close>

fun add_names :: "string list \<Rightarrow> proto_entry_t list \<Rightarrow> string list" where
  "add_names proto_names [] = proto_names"
| "add_names proto_names (ent # es) =
     add_names (if \<not> smartlist_contains_string (Some proto_names) (pe_name ent) then proto_names @ [pe_name ent] else proto_names) es"

fun parse_votes :: "string list \<Rightarrow> proto_entry_t list list \<Rightarrow> string list \<Rightarrow> (proto_entry_t list list \<times> string list) option" where
  "parse_votes [] parsed proto_names = Some (parsed, proto_names)"
| "parse_votes (vote # votes) parsed proto_names = do {
     unexpanded \<leftarrow> parse_protocol_list vote;
     case unexpanded of
       None \<Rightarrow> parse_votes votes parsed proto_names
     | Some es \<Rightarrow> parse_votes votes (parsed @ [es]) (add_names proto_names es)
   }"

text \<open>The counters are bytes.\<close>

definition count_vote :: "string \<Rightarrow> proto_entry_t list \<Rightarrow> u8 list \<Rightarrow> u8 list" where
  "count_vote name vote counts =
     (case find_entry_by_name vote name of
        None \<Rightarrow> counts
      | Some ent \<Rightarrow> map (\<lambda>i. if pe_bitmask ent AND BIT i \<noteq> 0 then counts ! i + 1 else counts ! i) [0..<64])"

definition vote_bitmask :: "u8 list \<Rightarrow> int \<Rightarrow> u64" where
  "vote_bitmask counts threshold = fold (\<lambda>i m. if uint (counts ! i) \<ge> threshold then m OR BIT i else m) [0..<64] 0"

fun vote_entries :: "proto_entry_t list list \<Rightarrow> int \<Rightarrow> string list \<Rightarrow> proto_entry_t list" where
  "vote_entries parsed threshold [] = []"
| "vote_entries parsed threshold (name # names) =
     (let counts = fold (count_vote name) parsed (replicate 64 0);
          result_bitmask = vote_bitmask counts threshold
      in (if result_bitmask \<noteq> 0 then [\<lparr>pe_name = name, pe_bitmask = result_bitmask\<rparr>] else [])
         @ vote_entries parsed threshold names)"

definition protover_compute_vote ::
  "((string \<Rightarrow> string \<Rightarrow> int) \<Rightarrow> string list \<Rightarrow> string list) \<Rightarrow> string list \<Rightarrow> int \<Rightarrow> string option" where
  "protover_compute_vote qsort list_of_proto_strings threshold = do {
     tor_assert (length list_of_proto_strings < 256);
     if length list_of_proto_strings = 0 then Some []
     else do {
       (parsed, proto_names) \<leftarrow> parse_votes list_of_proto_strings [] [];
       let proto_names = smartlist_sort_strings qsort proto_names;
       encode_protocol_list (vote_entries parsed threshold proto_names)
     }
   }"

section \<open>Support\<close>

fun missing_entries :: "proto_entry_t list \<Rightarrow> proto_entry_t list \<Rightarrow> proto_entry_t list" where
  "missing_entries supported [] = []"
| "missing_entries supported (ent # entries) =
     (case find_entry_by_name supported (pe_name ent) of
        None \<Rightarrow> (if pe_bitmask ent \<noteq> 0 then [\<lparr>pe_name = pe_name ent, pe_bitmask = pe_bitmask ent\<rparr>] else [])
      | Some mine \<Rightarrow>
          let missing_mask = pe_bitmask ent AND NOT (pe_bitmask mine)
          in (if missing_mask \<noteq> 0 then [\<lparr>pe_name = pe_name ent, pe_bitmask = missing_mask\<rparr>] else []))
     @ missing_entries supported entries"

text \<open>The result, and \<open>*missing_out\<close> if it is set.\<close>

definition protover_all_supported :: "string option \<Rightarrow> bool \<Rightarrow> (bool \<times> string option) option" where
  "protover_all_supported s want_missing =
     (case s of None \<Rightarrow> Some (True, None)
      | Some s \<Rightarrow> do {
          entries \<leftarrow> parse_protocol_list s;
          case entries of
            None \<Rightarrow> Some (True, None)
          | Some entries \<Rightarrow> do {
              supported \<leftarrow> get_supported_protocol_list;
              let missing = missing_entries (case supported of None \<Rightarrow> [] | Some l \<Rightarrow> l) entries;
              let all_supported = (length missing = 0);
              if \<not> all_supported \<and> want_missing
              then do { m \<leftarrow> encode_protocol_list missing; Some (all_supported, Some m) }
              else Some (all_supported, None)
            }
        })"

section \<open>Bit masks\<close>

lemma bitmask_for_range_bits:
  assumes "l \<le> h" "h \<le> 63"
  obtains m where "bitmask_for_range l h = Some m" "\<And>k. bit m k \<longleftrightarrow> l \<le> k \<and> k \<le> h"
proof -
  let ?m = "push_bit l (drop_bit (63 - h + l) (push_bit (63 - h) (NOT 0))) :: u64"
  have "bit ?m k \<longleftrightarrow> l \<le> k \<and> k \<le> h" for k
    using assms by (auto simp: bit_push_bit_iff bit_drop_bit_eq bit_not_iff bit_mask_iff)
  moreover have "bitmask_for_range l h = Some ?m" using assms by (simp add: bitmask_for_range_def Let_def)
  ultimately show ?thesis using that by blast
qed

lemma bit_BIT: "bit (BIT i) k \<longleftrightarrow> i = k \<and> k < 64"
  by (auto simp: BIT_def bit_exp_iff possible_bit_def)

lemma and_BIT: "i < 64 \<Longrightarrow> w AND BIT i \<noteq> 0 \<longleftrightarrow> bit (w :: u64) i"
proof -
  assume i: "i < 64"
  have "w AND BIT i = 0 \<longleftrightarrow> \<not> bit w i"
  proof
    assume "w AND BIT i = 0"
    then have "\<not> bit (w AND BIT i) i" by simp
    then show "\<not> bit w i" using i by (simp add: bit_and_iff bit_BIT)
  next
    assume "\<not> bit w i"
    then show "w AND BIT i = 0" by (intro bit_word_eqI) (auto simp: bit_and_iff bit_BIT)
  qed
  then show ?thesis by simp
qed

lemma nonzero_bit: "(x :: u64) \<noteq> 0 \<Longrightarrow> \<exists>i < 64. bit x i"
proof (rule ccontr)
  assume "x \<noteq> 0" and "\<not> (\<exists>i < 64. bit x i)"
  then have "x = 0" by (intro bit_word_eqI) auto
  with \<open>x \<noteq> 0\<close> show False by simp
qed

lemma trailing_zeros_spec:
  assumes "x \<noteq> 0"
  obtains n where "trailing_zeros x = Some n" "bit x n" "\<forall>i < n. \<not> bit x i" "n < 64"
proof -
  let ?n = "length (takeWhile (\<lambda>i. \<not> bit x i) [0..<64])"
  obtain i where i: "i < 64" "bit x i" using nonzero_bit [OF assms] by blast
  have "?n < 64"
  proof (rule ccontr)
    assume "\<not> ?n < 64"
    then have "takeWhile (\<lambda>i. \<not> bit x i) [0..<64] = [0..<64]"
      using length_takeWhile_le [of "\<lambda>i. \<not> bit x i" "[0..<64]"] takeWhile_eq_take [of "\<lambda>i. \<not> bit x i" "[0..<64]"] by simp
    then have "\<forall>i \<in> set [0..<64]. \<not> bit x i" using takeWhile_eq_all_conv by metis
    then show False using i by simp
  qed
  moreover from this have "bit x ?n" using nth_length_takeWhile [of "\<lambda>i. \<not> bit x i" "[0..<64]"] by simp
  moreover have "\<not> bit x i" if "i < ?n" for i
  proof -
    have "takeWhile (\<lambda>i. \<not> bit x i) [0..<64] ! i = i"
      using that takeWhile_nth [OF that] \<open>?n < 64\<close> by simp
    then have "i \<in> set (takeWhile (\<lambda>i. \<not> bit x i) [0..<64])" using that nth_mem by metis
    then show ?thesis using set_takeWhileD by metis
  qed
  ultimately show ?thesis using that assms by (simp add: trailing_zeros_def)
qed

section \<open>Ranges\<close>

definition range_str :: "nat \<times> nat \<Rightarrow> string" where
  "range_str r = (if fst r = snd r then show_dec (fst r) else show_dec (fst r) @ ''-'' @ show_dec (snd r))"

fun range_chunks :: "bool \<Rightarrow> (nat \<times> nat) list \<Rightarrow> string list" where
  "range_chunks first [] = []"
| "range_chunks first (r # rs) = ((if first then [] else '','') @ range_str r) # range_chunks False rs"

definition in_ranges :: "(nat \<times> nat) list \<Rightarrow> nat \<Rightarrow> bool" where
  "in_ranges rs k \<longleftrightarrow> (\<exists>(l, h) \<in> set rs. l \<le> k \<and> k \<le> h)"

definition ranges_ok :: "(nat \<times> nat) list \<Rightarrow> bool" where
  "ranges_ok rs \<longleftrightarrow> (\<forall>(l, h) \<in> set rs. l \<le> h \<and> h \<le> 63)"

lemma in_ranges_simps [simp]:
  "\<not> in_ranges [] k" "in_ranges ((l, h) # rs) k \<longleftrightarrow> (l \<le> k \<and> k \<le> h) \<or> in_ranges rs k"
  by (auto simp: in_ranges_def)

lemma ranges_ok_simps [simp]:
  "ranges_ok []" "ranges_ok ((l, h) # rs) \<longleftrightarrow> l \<le> h \<and> h \<le> 63 \<and> ranges_ok rs"
  by (auto simp: ranges_ok_def)

lemma encode_ranges_step:
  assumes "bits \<noteq> 0" "bits \<noteq> NOT 0" "\<And>k. bit bits k \<Longrightarrow> k + shift < 64"
  obtains z n where
    "encode_ranges bits shift first =
       map_option (\<lambda>cs. ((if first then [] else '','') @ range_str (shift + z, shift + z + n - 1)) # cs)
         (encode_ranges (drop_bit n (drop_bit z bits)) (shift + z + n) False)"
    "0 < n" "shift + z + n \<le> 64" "\<And>k. k < z \<Longrightarrow> \<not> bit bits k" "\<And>k. z \<le> k \<Longrightarrow> k < z + n \<Longrightarrow> bit bits k"
    "\<not> bit bits (z + n)"
proof -
  obtain z where z: "trailing_zeros bits = Some z" "bit bits z" "\<forall>i < z. \<not> bit bits i" "z < 64"
    using trailing_zeros_spec [OF assms(1)] by blast
  let ?b = "drop_bit z bits"
  have b0: "bit ?b 0" using z by (simp add: bit_drop_bit_eq)
  then have "?b \<noteq> 0" by auto
  have "NOT ?b \<noteq> 0"
  proof
    assume "NOT ?b = 0"
    then have all: "bit ?b i" if "i < 64" for i using that bit_not_iff [of ?b i] by simp
    have "z = 0" using all [of 63] bit_imp_le_length [of bits "z + 63"] by (simp add: bit_drop_bit_eq)
    then have "bits = NOT 0" using all by (intro bit_word_eqI) (simp add: bit_not_iff)
    then show False using assms(2) by simp
  qed
  then obtain n where n: "trailing_zeros (NOT ?b) = Some n" "bit (NOT ?b) n" "\<forall>i < n. \<not> bit (NOT ?b) i" "n < 64"
    using trailing_zeros_spec by blast
  have "0 < n" using n(2) b0 by (cases n) (auto simp: bit_not_iff)
  have ones: "bit bits (z + i)" if "i < n" for i using n(3,4) that by (auto simp: bit_not_iff bit_drop_bit_eq)
  have "shift + z + n \<le> 64" using assms(3) [OF ones [of "n - 1"]] \<open>0 < n\<close> by simp
  moreover have "encode_ranges bits shift first =
       map_option (\<lambda>cs. ((if first then [] else '','') @ range_str (shift + z, shift + z + n - 1)) # cs)
         (encode_ranges (drop_bit n ?b) (shift + z + n) False)"
    using assms(1) z(1) n(1,4) \<open>?b \<noteq> 0\<close> \<open>0 < n\<close>
    by (subst encode_ranges.simps) (auto simp: range_str_def Let_def map_option_case split: option.splits)
  moreover have "bit bits k" if "z \<le> k" "k < z + n" for k using ones [of "k - z"] that by simp
  moreover have "\<not> bit bits (z + n)" using n(2) by (auto simp: bit_not_iff bit_drop_bit_eq)
  ultimately show ?thesis using that z(3) \<open>0 < n\<close> by blast
qed

lemma first_range:
  assumes "0 < n" "\<And>k. k < z \<Longrightarrow> \<not> bit bits k" "\<And>k. z \<le> k \<Longrightarrow> k < z + n \<Longrightarrow> bit bits k"
  shows "(shift + z \<le> k \<and> k \<le> shift + z + n - 1) \<or> (shift + z + n \<le> k \<and> bit (drop_bit n (drop_bit z bits)) (k - (shift + z + n)))
    \<longleftrightarrow> shift \<le> k \<and> bit (bits :: u64) (k - shift)"
proof -
  consider "k < shift" | "shift \<le> k" "k - shift < z" | "shift \<le> k" "z \<le> k - shift" "k - shift < z + n" | "shift + z + n \<le> k" by linarith
  then show ?thesis
  proof cases
    case 2
    then show ?thesis using assms(2) [of "k - shift"] by simp
  next
    case 3
    then have "shift + z \<le> k" "k \<le> shift + z + n - 1" by linarith+
    then show ?thesis using 3 assms(3) [of "k - shift"] by blast
  next
    case 4
    then have "\<not> k \<le> shift + z + n - 1" "shift \<le> k" "z + (n + (k - (shift + z + n))) = k - shift" using assms(1) by linarith+
    then show ?thesis using 4 by (simp add: bit_drop_bit_eq)
  qed simp_all
qed

lemma encode_ranges_spec:
  assumes "bits \<noteq> NOT 0" "\<And>k. bit bits k \<Longrightarrow> k + shift < 64"
  shows "\<exists>rs. encode_ranges bits shift first = Some (range_chunks first rs) \<and> ranges_ok rs
           \<and> (\<forall>k. in_ranges rs k \<longleftrightarrow> shift \<le> k \<and> bit bits (k - shift))"
  using assms
proof (induction "64 - shift" arbitrary: bits shift first rule: less_induct)
  case less
  show ?case
  proof (cases "bits = 0")
    case True
    then show ?thesis by (intro exI [of _ "[]"]) (simp add: encode_ranges.simps)
  next
    case False
    obtain z n where s: "encode_ranges bits shift first =
       map_option (\<lambda>cs. ((if first then [] else '','') @ range_str (shift + z, shift + z + n - 1)) # cs)
         (encode_ranges (drop_bit n (drop_bit z bits)) (shift + z + n) False)"
      "0 < n" "shift + z + n \<le> 64" "\<And>k. k < z \<Longrightarrow> \<not> bit bits k" "\<And>k. z \<le> k \<Longrightarrow> k < z + n \<Longrightarrow> bit bits k"
      "\<not> bit bits (z + n)"
      using encode_ranges_step [OF False less.prems, where first = first] by blast
    let ?b = "drop_bit n (drop_bit z bits)" and ?h = "shift + z + n - 1"
    have bb: "bit ?b k \<longleftrightarrow> bit bits (z + n + k)" for k by (simp add: bit_drop_bit_eq add_ac)
    have "\<not> bit ?b 0" using bb [of 0] s(6) by simp
    moreover have "bit (NOT 0 :: u64) 0" by simp
    ultimately have "?b \<noteq> NOT 0" by metis
    moreover have "k + (shift + z + n) < 64" if "bit ?b k" for k using less.prems(2) that bb by fastforce
    ultimately obtain rs where rs: "encode_ranges ?b (shift + z + n) False = Some (range_chunks False rs)" "ranges_ok rs"
      "\<And>k. in_ranges rs k \<longleftrightarrow> shift + z + n \<le> k \<and> bit ?b (k - (shift + z + n))"
      using less.hyps [of "shift + z + n" ?b False] s(2,3) False less.prems(2) by fastforce
    have "in_ranges ((shift + z, ?h) # rs) k \<longleftrightarrow> shift \<le> k \<and> bit bits (k - shift)" for k
      using first_range [OF s(2,4,5)] by (simp only: in_ranges_simps rs(3))
    moreover have "encode_ranges bits shift first = Some (range_chunks first ((shift + z, ?h) # rs))" using s(1) rs(1) by simp
    moreover have "shift + z \<le> ?h" "?h \<le> 63" using s(2,3) by linarith+
    ultimately show ?thesis using rs(2) by (metis ranges_ok_simps(2))
  qed
qed

section \<open>Reading the ranges back\<close>

lemma deref_append: "deref (s @ t) = (if s = [] then deref t else hd s)"
  by (cases s) (auto simp: deref_def)

lemma hd_show_dec: "TOR_ISDIGIT (hd (show_dec n))"
  using show_dec_digits hd_in_set show_dec_nonempty by blast

lemma deref_show_dec: "TOR_ISDIGIT (deref (show_dec n @ t))"
  by (simp add: deref_append hd_show_dec)

lemma parse_ulong_version:
  "n \<le> 63 \<Longrightarrow> \<not> TOR_ISDIGIT (deref r) \<Longrightarrow> tor_parse_ulong (show_dec n @ r) 0 63 True = (int n, True, r)"
  by (rule tor_parse_ulong_show_dec) (simp_all add: ULONG_MAX_def)

lemma parse_version_range_str:
  assumes "l \<le> h" "h \<le> 63" "\<not> TOR_ISDIGIT (deref t)"
  shows "parse_version_range (range_str (l, h) @ t) (length (range_str (l, h))) = Some (l, h)"
proof (cases "l = h")
  case True
  then show ?thesis using assms parse_ulong_version [of l t]
    by (simp add: parse_version_range_def range_str_def deref_show_dec MAX_PROTOCOL_VERSION_def)
next
  case False
  have "\<not> TOR_ISDIGIT (deref (''-'' @ show_dec h @ t))" by (simp add: deref_def TOR_ISDIGIT_def)
  then have "tor_parse_ulong (show_dec l @ ''-'' @ show_dec h @ t) 0 63 True = (int l, True, ''-'' @ show_dec h @ t)"
    using parse_ulong_version [of l] assms by simp
  moreover have "tor_parse_ulong (show_dec h @ t) 0 63 True = (int h, True, t)" using parse_ulong_version assms by simp
  ultimately show ?thesis using assms False deref_show_dec [of l "''-'' @ show_dec h @ t"] deref_show_dec [of h t]
    by (simp add: parse_version_range_def range_str_def MAX_PROTOCOL_VERSION_def Let_def) (simp add: deref_def)
qed

definition range_char :: "char \<Rightarrow> bool" where
  "range_char c \<longleftrightarrow> TOR_ISDIGIT c \<or> c = CHR ''-''"

lemma range_str_chars: "c \<in> set (range_str r) \<Longrightarrow> range_char c"
  using show_dec_digits by (auto simp: range_str_def range_char_def split: if_splits)

lemma range_str_no_comma: "CHR '','' \<notin> set (range_str r)"
  using range_str_chars [of "CHR '',''" r] by (auto simp: range_char_def TOR_ISDIGIT_def)

lemma range_str_nonempty: "range_str r \<noteq> []"
  by (simp add: range_str_def)

lemma range_chunks_comma: "rs \<noteq> [] \<Longrightarrow> concat (range_chunks False rs) = CHR '','' # concat (range_chunks True rs)"
  by (cases rs) auto

lemma range_chunks_nonempty: "rs \<noteq> [] \<Longrightarrow> concat (range_chunks True rs) \<noteq> []"
  by (cases rs) (auto simp: range_str_nonempty)

lemma ranges_loop_chunks:
  assumes "ranges_ok rs" "\<not> TOR_ISDIGIT (deref t)"
  shows "\<exists>m. ranges_loop (concat (range_chunks True rs) @ t) (length (concat (range_chunks True rs))) acc = Some (Some m)
           \<and> (\<forall>k. bit m k \<longleftrightarrow> bit acc k \<or> in_ranges rs k)"
  using assms(1)
proof (induction rs arbitrary: acc)
  case Nil
  then show ?case by (simp add: ranges_loop.simps)
next
  case (Cons r rs)
  obtain l h where r: "r = (l, h)" by (cases r)
  then have lh: "l \<le> h" "h \<le> 63" using Cons.prems by simp_all
  obtain m where m: "bitmask_for_range l h = Some m" "\<And>k. bit m k \<longleftrightarrow> l \<le> k \<and> k \<le> h"
    using bitmask_for_range_bits [OF lh] by blast
  let ?R = "range_str (l, h)" and ?tail = "concat (range_chunks False rs)"
  have nd: "\<not> TOR_ISDIGIT (deref (?tail @ t))"
    using assms(2) by (cases "rs = []") (simp_all add: range_chunks_comma, simp add: deref_def TOR_ISDIGIT_def)
  have comma: "(case index_of (CHR '','') (?R @ ?tail) of Some k \<Rightarrow> k | None \<Rightarrow> length (?R @ ?tail)) = length ?R"
    using range_str_no_comma [of "(l, h)"]
    by (cases "rs = []") (auto simp: range_chunks_comma index_of_append index_of_None [THEN iffD2] index_of_def [of _ "_ # _"])
  have step: "ranges_loop (?R @ ?tail @ t) (length (?R @ ?tail)) acc
    = (if length ?tail > 1 then ranges_loop (drop 1 (?tail @ t)) (length ?tail - 1) (acc OR m)
       else ranges_loop (?tail @ t) (length ?tail) (acc OR m))"
    using parse_version_range_str [OF lh nd] m(1) comma range_str_nonempty [of "(l, h)"]
    by (subst ranges_loop.simps) (simp add: Let_def)
  have rec: "\<exists>m'. ranges_loop (concat (range_chunks True rs) @ t) (length (concat (range_chunks True rs))) (acc OR m) = Some (Some m')
    \<and> (\<forall>k. bit m' k \<longleftrightarrow> bit (acc OR m) k \<or> in_ranges rs k)"
    using Cons by (simp add: r)
  show ?case
  proof (cases "rs = []")
    case True
    then show ?thesis using step m(2) by (simp add: r ranges_loop.simps bit_or_iff)
  next
    case False
    then have "length ?tail > 1" using range_chunks_nonempty [OF False] range_chunks_comma [OF False] by simp
    then show ?thesis using step rec m(2) range_chunks_comma [OF False] by (auto simp: r bit_or_iff)
  qed
qed

section \<open>Round trip of a list\<close>

text \<open>The entries that the parser can produce.\<close>

definition name_ok :: "string \<Rightarrow> bool" where
  "name_ok name \<longleftrightarrow> name \<noteq> [] \<and> length name \<le> MAX_PROTOCOL_NAME_LENGTH \<and> is_valid_keyword name"

lemma encode_entry:
  assumes "pe_bitmask ent \<noteq> NOT 0"
  obtains rs where "proto_entry_encode_into chunks ent = Some (chunks @ [pe_name ent @ ''=''] @ range_chunks True rs)"
    "ranges_ok rs" "\<And>k. in_ranges rs k \<longleftrightarrow> bit (pe_bitmask ent) k"
proof -
  have "k + 0 < 64" if "bit (pe_bitmask ent) k" for k using bit_imp_le_length [OF that] by simp
  from encode_ranges_spec [OF assms this, of True]
  show ?thesis using that by (auto simp: proto_entry_encode_into_def)
qed

lemma range_chunks_chars: "c \<in> set (concat (range_chunks first rs)) \<Longrightarrow> range_char c \<or> c = CHR '',''"
  by (induction first rs rule: range_chunks.induct) (auto dest: range_str_chars split: if_splits)

lemma valid_keyword_no_equals: "is_valid_keyword name \<Longrightarrow> CHR ''='' \<notin> set name \<and> CHR '' '' \<notin> set name \<and> NUL \<notin> set name"
  by (auto simp: is_valid_keyword_def list_all_iff TOR_ISALNUM_def TOR_ISALPHA_def TOR_ISUPPER_def TOR_ISLOWER_def TOR_ISDIGIT_def NUL_def)

lemma parse_encoded_entry:
  assumes "name_ok (pe_name ent)" "ranges_ok rs" "\<And>k. in_ranges rs k \<longleftrightarrow> bit (pe_bitmask ent) k" "\<not> TOR_ISDIGIT (deref t)"
  shows "parse_single_entry ((pe_name ent @ ''='' @ concat (range_chunks True rs)) @ t)
           (length (pe_name ent @ ''='' @ concat (range_chunks True rs))) = Some (Some ent)"
proof -
  let ?n = "pe_name ent" and ?c = "concat (range_chunks True rs)"
  have n: "?n \<noteq> []" "length ?n \<le> MAX_PROTOCOL_NAME_LENGTH" "is_valid_keyword ?n" using assms(1) by (auto simp: name_ok_def)
  have idx: "index_of (CHR ''='') (?n @ ''='' @ ?c) = Some (length ?n)"
    using valid_keyword_no_equals [OF n(3)] by (simp add: index_of_append index_of_None [THEN iffD2] index_of_def [of _ "_ # _"])
  obtain m where m: "ranges_loop (?c @ t) (length ?c) 0 = Some (Some m)" "\<And>k. bit m k \<longleftrightarrow> in_ranges rs k"
    using ranges_loop_chunks [OF assms(2,4), of 0] by auto
  have "m = pe_bitmask ent" using m(2) assms(3) by (intro bit_word_eqI) simp
  then show ?thesis using idx n m(1) by (simp add: parse_single_entry_def)
qed

fun encoded_as :: "proto_entry_t list \<Rightarrow> string \<Rightarrow> bool" where
  "encoded_as [] s \<longleftrightarrow> s = []"
| "encoded_as (ent # es) s \<longleftrightarrow> (\<exists>rs s'. ranges_ok rs \<and> (\<forall>k. in_ranges rs k \<longleftrightarrow> bit (pe_bitmask ent) k)
     \<and> s = pe_name ent @ ''='' @ concat (range_chunks True rs) @ (if es = [] then [] else '' '') @ s' \<and> encoded_as es s')"

lemma encode_entries_spec:
  assumes "\<forall>ent \<in> set es. pe_bitmask ent \<noteq> NOT 0"
  shows "\<exists>chunks' s. encode_entries chunks sep es = Some (chunks @ chunks') \<and> encoded_as es s
     \<and> concat chunks' = (if es = [] then [] else sep @ s)"
  using assms
proof (induction es arbitrary: chunks sep)
  case (Cons ent es)
  have "pe_bitmask ent \<noteq> NOT 0" using Cons.prems by simp
  from encode_entry [OF this, of "chunks @ [sep]"] obtain rs where
    rs: "proto_entry_encode_into (chunks @ [sep]) ent = Some ((chunks @ [sep]) @ [pe_name ent @ ''=''] @ range_chunks True rs)"
    "ranges_ok rs" "\<And>k. in_ranges rs k \<longleftrightarrow> bit (pe_bitmask ent) k" by blast
  obtain chunks' s where r: "encode_entries ((chunks @ [sep]) @ [pe_name ent @ ''=''] @ range_chunks True rs) '' '' es
      = Some (((chunks @ [sep]) @ [pe_name ent @ ''=''] @ range_chunks True rs) @ chunks')"
    "encoded_as es s" "concat chunks' = (if es = [] then [] else '' '' @ s)"
    using Cons.IH [of "(chunks @ [sep]) @ [pe_name ent @ ''=''] @ range_chunks True rs" "'' ''"] Cons.prems by (metis list.set_intros(2))
  have s: "s = (if es = [] then [] else s)" using r(2) by (cases es) auto
  let ?s = "pe_name ent @ ''='' @ concat (range_chunks True rs) @ (if es = [] then [] else '' '') @ s"
  have "encoded_as (ent # es) ?s" using rs(2,3) r(2) by auto
  moreover have "concat ([sep] @ [pe_name ent @ ''=''] @ range_chunks True rs @ chunks') = sep @ ?s" using r(3) s by auto
  moreover have "encode_entries chunks sep (ent # es) = Some (chunks @ [sep] @ [pe_name ent @ ''=''] @ range_chunks True rs @ chunks')"
    using rs(1) r(1) by simp
  ultimately show ?case by (metis list.distinct(1))
qed simp

lemma encoded_as_start: "encoded_as es s \<Longrightarrow> \<forall>ent \<in> set es. name_ok (pe_name ent) \<Longrightarrow> dropWhile (\<lambda>c. c = CHR '' '') s = s"
proof (cases es)
  case (Cons ent es')
  assume "encoded_as es s" "\<forall>ent \<in> set es. name_ok (pe_name ent)"
  then obtain t where "s = pe_name ent @ t" "pe_name ent \<noteq> []" "CHR '' '' \<notin> set (pe_name ent)"
    using Cons valid_keyword_no_equals by (auto simp: name_ok_def)
  then show ?thesis by (cases "pe_name ent") auto
qed simp

lemma parse_encoded:
  "encoded_as es s \<Longrightarrow> \<forall>ent \<in> set es. name_ok (pe_name ent) \<Longrightarrow> parse_protocol_list s = Some (Some es)"
proof (induction es arbitrary: s)
  case Nil
  then show ?case by (simp add: parse_protocol_list.simps)
next
  case (Cons ent es)
  then obtain rs s' where s: "ranges_ok rs" "\<And>k. in_ranges rs k \<longleftrightarrow> bit (pe_bitmask ent) k"
    "s = pe_name ent @ ''='' @ concat (range_chunks True rs) @ (if es = [] then [] else '' '') @ s'" "encoded_as es s'" by auto
  let ?e = "pe_name ent @ ''='' @ concat (range_chunks True rs)" and ?t = "(if es = [] then [] else '' '') @ s'"
  have ne: "s \<noteq> []" using s(3) by simp
  have n: "name_ok (pe_name ent)" using Cons.prems by simp
  have empty: "es = [] \<Longrightarrow> s' = []" using s(4) by simp
  have nosp: "CHR '' '' \<notin> set ?e" using n valid_keyword_no_equals range_chunks_chars [of "CHR '' ''" True rs]
    by (auto simp: name_ok_def range_char_def TOR_ISDIGIT_def)
  have nd: "\<not> TOR_ISDIGIT (deref ?t)" using empty by (auto simp: deref_def NUL_def TOR_ISDIGIT_def)
  have eoe: "(case index_of (CHR '' '') s of Some k \<Rightarrow> k | None \<Rightarrow> length s) = length ?e"
  proof (cases "es = []")
    case True
    then show ?thesis using nosp empty s(3) by (simp add: index_of_None [THEN iffD2])
  next
    case False
    then have "s = ?e @ CHR '' '' # s'" using s(3) by simp
    moreover have "index_of (CHR '' '') (?e @ CHR '' '' # s') = Some (length ?e)"
      using nosp index_of_append [of "CHR '' ''" ?e "CHR '' '' # s'"] by (simp add: index_of_None [THEN iffD2] index_of_def [of _ "_ # _"])
    ultimately show ?thesis by simp
  qed
  have pe: "parse_single_entry s (length ?e) = Some (Some ent)"
    using parse_encoded_entry [OF n s(1,2) nd] s(3) by simp
  have "dropWhile (\<lambda>c. c = CHR '' '') (drop (length ?e) s) = s'"
    using encoded_as_start [OF s(4)] Cons.prems(2) s(3) empty by simp
  then show ?case using ne eoe pe Cons.IH [OF s(4)] Cons.prems(2)
    by (subst parse_protocol_list.simps) (simp add: Let_def del: length_append)
qed

lemma join_concat: "smartlist_join_strings chunks [] False = Some (concat chunks)"
proof -
  have "join_loop [] chunks = concat chunks" by (induction chunks) auto
  moreover have "length (concat chunks) = sum_list (map length chunks)" by (induction chunks) auto
  ultimately show ?thesis by (simp add: smartlist_join_strings_def smartlist_join_strings2_def Let_def)
qed

lemma encode_protocol_list_spec:
  assumes "\<forall>ent \<in> set es. pe_bitmask ent \<noteq> NOT 0"
  obtains s where "encode_protocol_list es = Some s" "encoded_as es s"
proof -
  obtain chunks s where c: "encode_entries [] [] es = Some chunks" "encoded_as es s" "concat chunks = (if es = [] then [] else s)"
    using encode_entries_spec [OF assms, of "[]" "[]"] by auto
  then have "concat chunks = s" by (cases es) auto
  then show ?thesis using that c join_concat [of chunks] by (simp add: encode_protocol_list_def)
qed

text \<open>C35 A list of protocol entries whose names the parser accepts and whose masks are not all ones is
  encoded by \<open>encode_protocol_list\<close> without undefined behaviour, and \<open>parse_protocol_list\<close> reads exactly
  the same entries back.\<close>

theorem protocol_list_roundtrip:
  assumes "\<forall>ent \<in> set es. name_ok (pe_name ent) \<and> pe_bitmask ent \<noteq> NOT 0"
  shows "\<exists>s. encode_protocol_list es = Some s \<and> parse_protocol_list s = Some (Some es)"
  using encode_protocol_list_spec [of es] parse_encoded assms by metis

theorem protocol_list_roundtrip_witness:
  "\<exists>s. encode_protocol_list [\<lparr>pe_name = ''Link'', pe_bitmask = 0x8000000000000038\<rparr>, \<lparr>pe_name = ''X-1'', pe_bitmask = 0\<rparr>] = Some s
     \<and> parse_protocol_list s = Some (Some [\<lparr>pe_name = ''Link'', pe_bitmask = 0x8000000000000038\<rparr>, \<lparr>pe_name = ''X-1'', pe_bitmask = 0\<rparr>])"
proof -
  have "name_ok ''Link''" "name_ok ''X-1''"
    by (simp_all add: name_ok_def MAX_PROTOCOL_NAME_LENGTH_def is_valid_keyword_def TOR_ISALNUM_def TOR_ISALPHA_def TOR_ISUPPER_def TOR_ISLOWER_def TOR_ISDIGIT_def)
  then show ?thesis
    using protocol_list_roundtrip [of "[\<lparr>pe_name = ''Link'', pe_bitmask = 0x8000000000000038\<rparr>, \<lparr>pe_name = ''X-1'', pe_bitmask = 0\<rparr>]"]
    by simp
qed

declare encode_ranges.simps [code]


end
