(* ===== verification/Versions.thy ===== *)
theory Versions
  imports Util_String Binascii Protover
begin

text \<open>
  \<open>core/or/versions.c\<close>: parsing and comparing Tor versions, the verdict on a version given the list of
  recommended ones, and \<open>protover_compute_for_old_tor()\<close> of \<open>core/or/protover.c\<close>.  \<open>None\<close> is the return
  value \<open>-1\<close>.  The reference order \<open>version_cmp\<close> is an instance of the locale \<open>comparison\<close>.
\<close>

section \<open>Parsing\<close>

datatype version_release = VER_PRE | VER_RC | VER_RELEASE

record tor_version_t =
  major :: i32
  minor :: i32
  micro :: i32
  status :: version_release
  patchlevel :: i32
  status_tag :: string
  svn_revision :: i32
  git_tag_len :: nat
  git_tag :: "u8 list"

definition MAX_STATUS_TAG_LEN :: nat where "MAX_STATUS_TAG_LEN = 32"
definition HEX_DIGEST_LEN :: nat where "HEX_DIGEST_LEN = 40"

text \<open>The record after \<open>memset\<close> and the assignment of \<open>VER_RELEASE\<close>.\<close>

definition version_init :: tor_version_t where
  "version_init = \<lparr>major = 0, minor = 0, micro = 0, status = VER_RELEASE, patchlevel = 0, status_tag = [],
     svn_revision = 0, git_tag_len = 0, git_tag = replicate 20 0\<rparr>"

text \<open>\<open>tor_parse_uint64(s, 10, min, max, &ok, next)\<close>: \<open>strtoull\<close> is \<open>strtoul\<close> where both have 64 bits.\<close>

definition tor_parse_uint64 :: "string \<Rightarrow> int \<Rightarrow> int \<Rightarrow> bool \<Rightarrow> int \<times> bool \<times> string" where
  "tor_parse_uint64 s lo hi has_next =
     (let (r, erange, endptr) = strtoul10 s
      in if erange then (0, False, endptr)
         else if endptr = s then (0, False, endptr)
         else if \<not> has_next \<and> endptr \<noteq> [] then (0, False, endptr)
         else if hi < lo then (0, False, endptr)
         else if r < lo \<or> r > hi then (0, False, endptr)
         else (r, True, endptr))"

text \<open>The macros \<open>NUMBER\<close> and \<open>DOT\<close>: \<open>None\<close> is \<open>return -1\<close>.\<close>

definition NUMBER :: "string \<Rightarrow> (i32 \<times> string) option" where
  "NUMBER cp =
     (if \<not> TOR_ISDIGIT (deref cp) then None
      else let (v, ok, eos) = tor_parse_uint64 cp 0 INT32_MAX True in
        if \<not> ok then None else if eos = cp then None else Some (word_of_int v, eos))"

definition DOT :: "string \<Rightarrow> string option" where
  "DOT cp = (if deref cp \<noteq> CHR ''.'' then None else Some (tl cp))"

definition parse_git_tag :: "string \<Rightarrow> tor_version_t \<Rightarrow> tor_version_t option" where
  "parse_git_tag cp out =
     (case index_of (CHR '')'') cp of
        None \<Rightarrow> None
      | Some close_paren \<Rightarrow>
          let hexlen = close_paren - 5 in
          if hexlen > HEX_DIGEST_LEN then None
          else if hexlen = 0 \<or> hexlen mod 2 = 1 then None
          else case base16_decode (hexlen div 2) (take hexlen (drop 5 cp)) of
            None \<Rightarrow> None
          | Some digest \<Rightarrow>
              Some (out\<lparr>git_tag := digest @ drop (length digest) (git_tag out), git_tag_len := hexlen div 2\<rparr>))"

definition parse_status_tag :: "string \<Rightarrow> tor_version_t \<Rightarrow> tor_version_t option" where
  "parse_status_tag cp out =
     (let cp = (if deref cp = CHR ''-'' \<or> deref cp = CHR ''.'' then tl cp else cp);
          eos = find_whitespace cp;
          n = length cp - length eos;
          out = out\<lparr>status_tag := (if n \<ge> MAX_STATUS_TAG_LEN then take (MAX_STATUS_TAG_LEN - 1) cp else take n cp)\<rparr>;
          cp = eat_whitespace eos
      in if strcmpstart cp ''(r'' = 0 then Some (out\<lparr>svn_revision := word_of_int (fst (strtol10 (drop 2 cp)))\<rparr>)
         else if strcmpstart cp ''(git-'' = 0 then parse_git_tag cp out
         else Some out)"

definition parse_patchlevel :: "string \<Rightarrow> tor_version_t \<Rightarrow> tor_version_t option" where
  "parse_patchlevel cp out = do {
     (v, cp) \<leftarrow> NUMBER cp;
     parse_status_tag cp (out\<lparr>patchlevel := v\<rparr>)
   }"

definition parse_micro :: "string \<Rightarrow> tor_version_t \<Rightarrow> tor_version_t option" where
  "parse_micro cp out = do {
     cp \<leftarrow> DOT cp;
     (v, cp) \<leftarrow> NUMBER cp;
     let out = out\<lparr>micro := v\<rparr>;
     if cp = [] then Some out
     else if deref cp = CHR ''.'' then parse_patchlevel (tl cp) out
     else if deref cp = CHR ''-'' then parse_status_tag cp out
     else if strncmp cp ''pre'' 3 = 0 then parse_patchlevel (drop 3 cp) (out\<lparr>status := VER_PRE\<rparr>)
     else if strncmp cp ''rc'' 2 = 0 then parse_patchlevel (drop 2 cp) (out\<lparr>status := VER_RC\<rparr>)
     else None
   }"

definition tor_version_parse :: "string \<Rightarrow> tor_version_t option" where
  "tor_version_parse s = do {
     let cp = (if strcasecmpstart s ''Tor '' = 0 then drop 4 s else s);
     (v, cp) \<leftarrow> NUMBER cp;
     let out = version_init\<lparr>major := v\<rparr>;
     cp \<leftarrow> DOT cp;
     (v, cp) \<leftarrow> NUMBER cp;
     let out = out\<lparr>minor := v\<rparr>;
     if cp = [] then Some out
     else if deref cp = CHR ''-'' then parse_status_tag cp out
     else parse_micro cp out
   }"

section \<open>Comparing\<close>

fun status_val :: "version_release \<Rightarrow> i32" where
  "status_val VER_PRE = 0" | "status_val VER_RC = 1" | "status_val VER_RELEASE = 2"

text \<open>The macro \<open>CMP\<close>: the sign of the 32-bit difference, and what to do when it is zero.\<close>

definition CMP :: "i32 \<Rightarrow> i32 \<Rightarrow> int \<Rightarrow> int" where
  "CMP a b rest = (let result = sint (a - b) in if result < 0 then -1 else if result > 0 then 1 else rest)"

definition tor_version_compare :: "tor_version_t \<Rightarrow> tor_version_t \<Rightarrow> int" where
  "tor_version_compare a b =
     CMP (major a) (major b) (CMP (minor a) (minor b) (CMP (micro a) (micro b)
     (CMP (status_val (status a)) (status_val (status b)) (CMP (patchlevel a) (patchlevel b)
     (let i = strcmp (status_tag a) (status_tag b) in
      if i \<noteq> 0 then i
      else CMP (svn_revision a) (svn_revision b)
        (CMP (of_nat (git_tag_len a)) (of_nat (git_tag_len b))
          (if git_tag_len a \<noteq> 0
           then memcmp (take (git_tag_len a) (git_tag a)) (take (git_tag_len a) (git_tag b))
           else 0)))))))"

definition tor_version_same_series :: "tor_version_t \<Rightarrow> tor_version_t \<Rightarrow> bool" where
  "tor_version_same_series a b \<longleftrightarrow> major a = major b \<and> minor a = minor b \<and> micro a = micro b"

definition compare_tor_version_str_ptr :: "string \<Rightarrow> string \<Rightarrow> int" where
  "compare_tor_version_str_ptr a b =
     (case (tor_version_parse a, tor_version_parse b) of
        (Some va, Some vb) \<Rightarrow> tor_version_compare va vb
      | (Some va, None) \<Rightarrow> -1
      | (None, Some vb) \<Rightarrow> 1
      | (None, None) \<Rightarrow> strcmp a b)"

definition sort_version_list ::
  "((string \<Rightarrow> string \<Rightarrow> int) \<Rightarrow> string list \<Rightarrow> string list) \<Rightarrow> string list \<Rightarrow> bool \<Rightarrow> string list" where
  "sort_version_list qsort versions remove_duplicates =
     (let versions = smartlist_sort qsort versions compare_tor_version_str_ptr
      in if remove_duplicates then smartlist_uniq versions compare_tor_version_str_ptr else versions)"

section \<open>Platforms\<close>

text \<open>The return value, and the version when it is 1.\<close>

definition tor_version_parse_platform :: "string \<Rightarrow> bool \<Rightarrow> int \<times> tor_version_t option" where
  "tor_version_parse_platform platform strict =
     (if strcmpstart platform ''Tor '' \<noteq> 0 then (0, None)
      else let start = eat_whitespace (drop 3 platform) in
        if start = [] then (-1, None)
        else let s = find_whitespace start;
                 s2 = eat_whitespace s;
                 s = (if strcmpstart s2 ''(r'' = 0 \<or> strcmpstart s2 ''(git-'' = 0 then find_whitespace s2 else s);
                 n = length start - length s
          in if n + 1 \<ge> 128 then (-1, None)
             else case tor_version_parse (take n start) of
               None \<Rightarrow> (-1, None)
             | Some router_version \<Rightarrow>
                 if strict \<and> (sint (major router_version) < 0 \<or> sint (minor router_version) < 0 \<or> sint (micro router_version) < 0
                              \<or> sint (patchlevel router_version) < 0 \<or> sint (svn_revision router_version) < 0)
                 then (-1, None)
                 else (1, Some router_version))"

definition tor_version_as_new_as :: "string \<Rightarrow> string \<Rightarrow> bool" where
  "tor_version_as_new_as platform cutoff =
     (case tor_version_parse cutoff of
        None \<Rightarrow> False
      | Some cutoff_version \<Rightarrow>
          let (r, router_version) = tor_version_parse_platform platform False in
          if r = 0 then True
          else if r < 0 then True
          else tor_version_compare (the router_version) cutoff_version \<ge> 0)"

section \<open>Recommended versions\<close>

datatype version_status_t = VS_RECOMMENDED | VS_OLD | VS_NEW | VS_NEW_IN_SERIES | VS_UNRECOMMENDED | VS_EMPTY | VS_UNKNOWN

record found_flags =
  found_newer :: bool
  found_older :: bool
  found_newer_in_series :: bool
  found_any_in_series :: bool

text \<open>The loop over the list; \<open>None\<close> is the jump to \<open>done\<close> with \<open>VS_RECOMMENDED\<close>.\<close>

fun obsolete_loop :: "tor_version_t \<Rightarrow> string list \<Rightarrow> found_flags \<Rightarrow> found_flags option" where
  "obsolete_loop mine [] fl = Some fl"
| "obsolete_loop mine (cp # version_sl) fl =
     (let cp = (if strcmpstart cp ''Tor '' = 0 then drop 4 cp else cp) in
      case tor_version_parse cp of
        None \<Rightarrow> obsolete_loop mine version_sl fl
      | Some other \<Rightarrow>
          let same = tor_version_same_series mine other;
              fl = (if same then fl\<lparr>found_any_in_series := True\<rparr> else fl);
              r = tor_version_compare mine other
          in if r = 0 then None
             else if r < 0
             then obsolete_loop mine version_sl
                    (if same then fl\<lparr>found_newer := True, found_newer_in_series := True\<rparr> else fl\<lparr>found_newer := True\<rparr>)
             else obsolete_loop mine version_sl (fl\<lparr>found_older := True\<rparr>))"

definition version_list_split :: split_opts where
  "version_list_split = \<lparr>so_sep = Some '','', so_skip_space = True, so_ignore_blank = False, so_strip_space = False, so_max = 0\<rparr>"

definition tor_version_is_obsolete :: "string \<Rightarrow> string \<Rightarrow> version_status_t option" where
  "tor_version_is_obsolete myversion versionlist =
     (case tor_version_parse myversion of
        None \<Rightarrow> None
      | Some mine \<Rightarrow> do {
          (_, version_sl) \<leftarrow> smartlist_split_string [] versionlist version_list_split;
          if length versionlist = 0 then Some VS_EMPTY
          else case obsolete_loop mine version_sl
                      \<lparr>found_newer = False, found_older = False, found_newer_in_series = False, found_any_in_series = False\<rparr> of
            None \<Rightarrow> Some VS_RECOMMENDED
          | Some fl \<Rightarrow>
              Some (if found_any_in_series fl \<and> \<not> found_newer_in_series fl \<and> found_newer fl then VS_NEW_IN_SERIES
                    else if found_newer fl \<and> \<not> found_older fl then VS_OLD
                    else if found_older fl \<and> \<not> found_newer fl then VS_NEW
                    else VS_UNRECOMMENDED)
        })"

section \<open>Protocols of old versions\<close>

definition FIRST_TOR_VERSION_TO_ADVERTISE_PROTOCOLS :: string where
  "FIRST_TOR_VERSION_TO_ADVERTISE_PROTOCOLS = ''0.2.9.3-alpha''"

definition protover_compute_for_old_tor :: "string option \<Rightarrow> string" where
  "protover_compute_for_old_tor version =
     (let version = (case version of None \<Rightarrow> ''0.2.5.15'' | Some v \<Rightarrow> v) in
      if tor_version_as_new_as version FIRST_TOR_VERSION_TO_ADVERTISE_PROTOCOLS then []
      else if tor_version_as_new_as version ''0.2.9.1-alpha''
      then ''Cons=1-2 Desc=1-2 DirCache=1 HSDir=1 HSIntro=3 HSRend=1-2 '' @ ''Link=1-4 LinkAuth=1 '' @ ''Microdesc=1-2 Relay=1-2''
      else if tor_version_as_new_as version ''0.2.7.5''
      then ''Cons=1-2 Desc=1-2 DirCache=1 HSDir=1 HSIntro=3 HSRend=1 '' @ ''Link=1-4 LinkAuth=1 '' @ ''Microdesc=1-2 Relay=1-2''
      else if tor_version_as_new_as version ''0.2.4.19''
      then ''Cons=1 Desc=1 DirCache=1 HSDir=1 HSIntro=3 HSRend=1 '' @ ''Link=1-4 LinkAuth=1 '' @ ''Microdesc=1 Relay=1-2''
      else [])"

section \<open>The order of versions\<close>

text \<open>
  The order the comparison is meant to be: lexicographic on the fields as integers.  \<open>then_by\<close> chains
  comparisons; a chain of comparisons that are total preorders is one.
\<close>

definition then_by :: "('a \<Rightarrow> 'a \<Rightarrow> int) \<Rightarrow> ('a \<Rightarrow> 'a \<Rightarrow> int) \<Rightarrow> 'a \<Rightarrow> 'a \<Rightarrow> int" where
  "then_by c d a b = (if c a b \<noteq> 0 then c a b else d a b)"

definition by_key :: "('a \<Rightarrow> int) \<Rightarrow> 'a \<Rightarrow> 'a \<Rightarrow> int" where
  "by_key f a b = f a - f b"

lemma comparison_by_key: "comparison (by_key f)"
  by standard (auto simp: by_key_def sgn_if)

lemma comparison_map: "comparison c \<Longrightarrow> comparison (\<lambda>a b. c (f a) (f b))"
  unfolding comparison_def by blast

lemma comparison_then_by:
  assumes "comparison c" "comparison d"
  shows "comparison (then_by c d)"
proof
  fix a b e
  show "sgn (then_by c d a b) = - sgn (then_by c d b a)"
    using comparison.flip [OF assms(1), of a b] comparison.flip [OF assms(2), of a b] by (auto simp: then_by_def sgn_0_0)
  assume ab: "then_by c d a b \<le> 0" and be: "then_by c d b e \<le> 0"
  have c: "c a b \<le> 0" "c b e \<le> 0" using ab be by (auto simp: then_by_def split: if_splits)
  then have ae: "c a e \<le> 0" using comparison.trans [OF assms(1)] by blast
  show "then_by c d a e \<le> 0"
  proof (cases "c a e = 0")
    case True
    then have "c a b = 0" "c b e = 0"
      using c comparison.le_less_trans [OF assms(1), of a b e] comparison.less_le_trans [OF assms(1), of a b e] by fastforce+
    then show ?thesis using ab be comparison.trans [OF assms(2), of a b e] True by (simp add: then_by_def)
  next
    case False
    then show ?thesis using ae by (simp add: then_by_def)
  qed
qed

fun lexcmp :: "u8 list \<Rightarrow> u8 list \<Rightarrow> int" where
  "lexcmp [] [] = 0"
| "lexcmp [] (y # ys) = -1"
| "lexcmp (x # xs) [] = 1"
| "lexcmp (x # xs) (y # ys) = (if x = y then lexcmp xs ys else uint x - uint y)"

lemma lexcmp_flip: "lexcmp xs ys = - lexcmp ys xs"
  by (induction xs ys rule: lexcmp.induct) auto

lemma lexcmp_trans: "lexcmp xs ys \<le> 0 \<Longrightarrow> lexcmp ys zs \<le> 0 \<Longrightarrow> lexcmp xs zs \<le> 0"
proof (induction xs ys arbitrary: zs rule: lexcmp.induct)
  case (1 zs)
  then show ?case by simp
next
  case (2 y ys zs)
  then show ?case by (cases zs) auto
next
  case (4 x xs y ys zs)
  then obtain z zs' where z: "zs = z # zs'" by (cases zs) auto
  have x: "uint x \<le> uint y" "uint y \<le> uint z" using 4(2,3) z by (auto split: if_splits)
  show ?case
  proof (cases "x = z")
    case True
    then have "uint y = uint x" using x by simp
    then have "y = x" by (simp add: word_uint_eq_iff)
    then show ?thesis using 4 z True by simp
  next
    case False
    then show ?thesis using x z by simp
  qed
qed simp

interpretation bytes: comparison lexcmp
  by standard (use lexcmp_flip in \<open>metis sgn_minus\<close>, rule lexcmp_trans)

lemma memcmp_lexcmp: "length xs = length ys \<Longrightarrow> memcmp xs ys = lexcmp xs ys"
  by (induction xs ys rule: list_induct2) auto

definition tag_of :: "tor_version_t \<Rightarrow> u8 list" where
  "tag_of v = take (git_tag_len v) (git_tag v)"

definition version_cmp :: "tor_version_t \<Rightarrow> tor_version_t \<Rightarrow> int" where
  "version_cmp =
     then_by (by_key (\<lambda>v. sint (major v))) (then_by (by_key (\<lambda>v. sint (minor v))) (then_by (by_key (\<lambda>v. sint (micro v)))
     (then_by (by_key (\<lambda>v. sint (status_val (status v)))) (then_by (by_key (\<lambda>v. sint (patchlevel v)))
     (then_by (\<lambda>a b. compare_string_ptrs (status_tag a) (status_tag b)) (then_by (by_key (\<lambda>v. sint (svn_revision v)))
     (then_by (by_key (\<lambda>v. int (git_tag_len v))) (\<lambda>a b. lexcmp (tag_of a) (tag_of b)))))))))"

interpretation versions: comparison version_cmp
  unfolding version_cmp_def
  by (intro comparison_then_by comparison_by_key comparison_map [OF strings.comparison_axioms, of status_tag]
        comparison_map [OF bytes.comparison_axioms, of tag_of])

definition version_ok :: "tor_version_t \<Rightarrow> bool" where
  "version_ok v \<longleftrightarrow> 0 \<le> sint (major v) \<and> 0 \<le> sint (minor v) \<and> 0 \<le> sint (micro v) \<and> 0 \<le> sint (patchlevel v)
     \<and> git_tag_len v \<le> 20 \<and> length (git_tag v) = 20"

lemma sint_diff:
  assumes "0 \<le> sint a" "0 \<le> sint (b :: i32)"
  shows "sint (a - b) = sint a - sint b"
proof -
  have r: "-2147483648 \<le> sint a - sint b" "sint a - sint b < 2147483648"
    using assms sint_range32 [of a] sint_range32 [of b] by linarith+
  have "a - b = word_of_int (sint a - sint b)" by simp
  then show ?thesis using sint_word_of_int32 [OF r] by metis
qed

lemma sgn_CMP:
  assumes "0 \<le> sint a" "0 \<le> sint b"
  shows "sgn (CMP a b rest) = (if sint a - sint b \<noteq> 0 then sgn (sint a - sint b) else sgn rest)"
  using sint_diff [OF assms] by (simp add: CMP_def Let_def sgn_if)

lemma sgn_then_by: "sgn (then_by c d a b) = (if c a b \<noteq> 0 then sgn (c a b) else sgn (d a b))"
  by (simp add: then_by_def)

lemma status_val_nonneg: "0 \<le> sint (status_val s)"
  by (cases s) simp_all

lemma git_len_sint: "n \<le> 20 \<Longrightarrow> sint (of_nat n :: i32) = int n"
  using sint_word_of_int32 [of "int n"] by simp

lemma compare_version_cmp:
  assumes "version_ok a" "version_ok b" "0 \<le> sint (svn_revision a)" "0 \<le> sint (svn_revision b)"
  shows "sgn (tor_version_compare a b) = sgn (version_cmp a b)"
proof -
  have tag: "(if git_tag_len a \<noteq> 0 then memcmp (take (git_tag_len a) (git_tag a)) (take (git_tag_len a) (git_tag b)) else 0)
      = lexcmp (tag_of a) (tag_of b)" if "git_tag_len a = git_tag_len b"
    using assms(1,2) that memcmp_lexcmp [of "tag_of a" "tag_of b"] by (auto simp: tag_of_def version_ok_def)
  show ?thesis
    unfolding tor_version_compare_def version_cmp_def using assms tag
    by (simp add: sgn_CMP sgn_then_by by_key_def version_ok_def status_val_nonneg git_len_sint Let_def compare_string_ptrs_def)
qed

section \<open>What the parser produces\<close>

lemma uint64_bounds: "tor_parse_uint64 s lo hi b = (v, True, nxt) \<Longrightarrow> lo \<le> v \<and> v \<le> hi"
  by (auto simp: tor_parse_uint64_def Let_def split: prod.splits if_splits)

lemma NUMBER_nonneg:
  assumes "NUMBER cp = Some (v, cp')"
  shows "0 \<le> sint v"
proof -
  obtain r where r: "tor_parse_uint64 cp 0 INT32_MAX True = (r, True, cp')" "v = word_of_int r"
    using assms by (auto simp: NUMBER_def Let_def split: if_splits prod.splits)
  then have "0 \<le> r" "r < 2147483648" using uint64_bounds by (fastforce simp: INT32_MAX_def)+
  then show ?thesis using r(2) sint_word_of_int32 [of r] by simp
qed

lemma base16_decode_loop_length: "base16_decode_loop src = Some d \<Longrightarrow> length d = length src div 2"
  by (induction src arbitrary: d rule: base16_decode_loop.induct) (auto simp: Let_def split: if_splits option.splits bind_splits)

lemma parse_git_tag_ok:
  assumes "version_ok out" "parse_git_tag cp out = Some v"
  shows "version_ok v"
proof -
  obtain k d where k: "index_of (CHR '')'') cp = Some k" "k - 5 \<le> HEX_DIGEST_LEN"
    "base16_decode ((k - 5) div 2) (take (k - 5) (drop 5 cp)) = Some d"
    "v = out\<lparr>git_tag := d @ drop (length d) (git_tag out), git_tag_len := (k - 5) div 2\<rparr>"
    using assms(2) by (auto simp: parse_git_tag_def Let_def split: option.splits if_splits)
  have "length d = (k - 5) div 2"
    using base16_decode_loop_length k(3) index_of_less [OF k(1)] by (auto simp: base16_decode_def split: if_splits)
  then show ?thesis using assms(1) k(2,4) by (auto simp: version_ok_def HEX_DIGEST_LEN_def)
qed

lemma version_ok_simps [simp]:
  "version_ok (v\<lparr>status_tag := t\<rparr>) = version_ok v" "version_ok (v\<lparr>status := st\<rparr>) = version_ok v"
  "version_ok (v\<lparr>svn_revision := r\<rparr>) = version_ok v" "version_ok version_init"
  by (simp_all add: version_ok_def version_init_def)

lemma version_ok_update [intro]:
  "version_ok v \<Longrightarrow> 0 \<le> sint w \<Longrightarrow> version_ok (v\<lparr>major := w\<rparr>)"
  "version_ok v \<Longrightarrow> 0 \<le> sint w \<Longrightarrow> version_ok (v\<lparr>minor := w\<rparr>)"
  "version_ok v \<Longrightarrow> 0 \<le> sint w \<Longrightarrow> version_ok (v\<lparr>micro := w\<rparr>)"
  "version_ok v \<Longrightarrow> 0 \<le> sint w \<Longrightarrow> version_ok (v\<lparr>patchlevel := w\<rparr>)"
  by (auto simp: version_ok_def)

lemma parse_status_tag_ok:
  assumes "version_ok out" "parse_status_tag cp out = Some v"
  shows "version_ok v"
proof -
  obtain out' cp' where o: "version_ok out'"
    "(if strcmpstart cp' ''(r'' = 0 then Some (out'\<lparr>svn_revision := word_of_int (fst (strtol10 (drop 2 cp')))\<rparr>)
      else if strcmpstart cp' ''(git-'' = 0 then parse_git_tag cp' out' else Some out') = Some v"
    using assms unfolding parse_status_tag_def Let_def by (metis version_ok_simps(1))
  then show ?thesis using parse_git_tag_ok by (auto split: if_splits)
qed

lemma parse_patchlevel_ok:
  assumes "version_ok out" "parse_patchlevel cp out = Some v"
  shows "version_ok v"
proof -
  obtain w cp' where "NUMBER cp = Some (w, cp')" "parse_status_tag cp' (out\<lparr>patchlevel := w\<rparr>) = Some v"
    using assms(2) by (auto simp: parse_patchlevel_def split: bind_splits)
  then show ?thesis using assms(1) NUMBER_nonneg by (blast intro: parse_status_tag_ok)
qed

lemma parse_micro_ok:
  assumes "version_ok out" "parse_micro cp out = Some v"
  shows "version_ok v"
proof -
  obtain cp1 w cp2 where c: "DOT cp = Some cp1" "NUMBER cp1 = Some (w, cp2)"
    using assms(2) by (auto simp: parse_micro_def bind_eq_Some_conv)
  have ok: "version_ok (out\<lparr>micro := w\<rparr>)" "\<And>st. version_ok (out\<lparr>micro := w, status := st\<rparr>)"
    using version_ok_update(3) [OF assms(1) NUMBER_nonneg [OF c(2)]] by simp_all
  show ?thesis using assms(2) unfolding parse_micro_def Let_def c bind.bind_lunit prod.case
    by (auto simp: ok split: if_splits dest: parse_status_tag_ok [OF ok(1)] parse_patchlevel_ok [OF ok(1)] parse_patchlevel_ok [OF ok(2)])
qed

lemma tor_version_parse_ok:
  assumes "tor_version_parse s = Some v"
  shows "version_ok v"
proof -
  define cp where "cp = (if strcasecmpstart s ''Tor '' = 0 then drop 4 s else s)"
  obtain w1 cp1 cp2 w2 cp3 where c: "NUMBER cp = Some (w1, cp1)" "DOT cp1 = Some cp2" "NUMBER cp2 = Some (w2, cp3)"
    using assms unfolding tor_version_parse_def Let_def cp_def [symmetric] by (auto simp: bind_eq_Some_conv)
  have ok: "version_ok (version_init\<lparr>major := w1, minor := w2\<rparr>)"
    using NUMBER_nonneg [OF c(1)] NUMBER_nonneg [OF c(3)] by (intro version_ok_update) simp_all
  show ?thesis using assms unfolding tor_version_parse_def Let_def cp_def [symmetric] c bind.bind_lunit prod.case
    by (auto simp: ok split: if_splits dest: parse_status_tag_ok [OF ok] parse_micro_ok [OF ok])
qed

text \<open>C38 On strings that parse and have no revision number above \<open>INT_MAX\<close>, comparing versions as
  \<open>compare_tor_version_str_ptr_\<close> does is the lexicographic order of their fields: the 32-bit differences never
  wrap, the result is antisymmetric and transitive.\<close>

theorem version_compare_order:
  assumes "tor_version_parse a = Some va" "tor_version_parse b = Some vb" "tor_version_parse c = Some vc"
    and "0 \<le> sint (svn_revision va)" "0 \<le> sint (svn_revision vb)" "0 \<le> sint (svn_revision vc)"
  shows "sgn (compare_tor_version_str_ptr a b) = sgn (version_cmp va vb)
    \<and> sgn (compare_tor_version_str_ptr a b) = - sgn (compare_tor_version_str_ptr b a)
    \<and> (compare_tor_version_str_ptr a b \<le> 0 \<longrightarrow> compare_tor_version_str_ptr b c \<le> 0 \<longrightarrow> compare_tor_version_str_ptr a c \<le> 0)"
proof -
  have eq: "sgn (compare_tor_version_str_ptr x y) = sgn (version_cmp vx vy)"
    if "tor_version_parse x = Some vx" "tor_version_parse y = Some vy" "0 \<le> sint (svn_revision vx)" "0 \<le> sint (svn_revision vy)" for x y vx vy
    using that compare_version_cmp tor_version_parse_ok by (simp add: compare_tor_version_str_ptr_def)
  have le: "x \<le> 0 \<longleftrightarrow> y \<le> 0" if "sgn x = sgn y" for x y :: int using that by (auto simp: sgn_if split: if_splits)
  show ?thesis
    using eq [OF assms(1,2,4,5)] eq [OF assms(2,1,5,4)] versions.flip [of va vb] versions.trans [of va vb vc]
      le [OF eq [OF assms(1,2,4,5)]] le [OF eq [OF assms(2,3,5,6)]] le [OF eq [OF assms(1,3,4,6)]] by simp
qed

theorem version_compare_order_witness:
  "\<exists>va vb. tor_version_parse ''0.1.2rc3'' = Some va \<and> tor_version_parse ''0.1.2.1-alpha'' = Some vb
     \<and> sgn (compare_tor_version_str_ptr ''0.1.2rc3'' ''0.1.2.1-alpha'') = sgn (version_cmp va vb)
     \<and> compare_tor_version_str_ptr ''0.1.2rc3'' ''0.4.0'' \<le> 0"
proof -
  have p: "tor_version_parse ''0.1.2rc3'' = Some (version_init\<lparr>minor := 1, micro := 2, status := VER_RC, patchlevel := 3\<rparr>)"
    "tor_version_parse ''0.1.2.1-alpha'' = Some (version_init\<lparr>minor := 1, micro := 2, patchlevel := 1, status_tag := ''alpha''\<rparr>)"
    "tor_version_parse ''0.4.0'' = Some (version_init\<lparr>minor := 4\<rparr>)" by code_simp+
  have "compare_tor_version_str_ptr ''0.1.2rc3'' ''0.1.2.1-alpha'' \<le> 0" "compare_tor_version_str_ptr ''0.1.2.1-alpha'' ''0.4.0'' \<le> 0"
    by (simp_all add: compare_tor_version_str_ptr_def p tor_version_compare_def version_init_def CMP_def)
  then show ?thesis using version_compare_order [OF p] p by (simp add: version_init_def)
qed

text \<open>With larger revision numbers, which \<open>strtol\<close> and the conversion to \<open>int\<close> can produce, the comparison
  has cycles.\<close>

lemma version_compare_cycle:
  "tor_version_compare version_init (version_init\<lparr>svn_revision := 1500000000\<rparr>) < 0"
  "tor_version_compare (version_init\<lparr>svn_revision := 1500000000\<rparr>) (version_init\<lparr>svn_revision := 3000000000\<rparr>) < 0"
  "tor_version_compare (version_init\<lparr>svn_revision := 3000000000\<rparr>) version_init < 0"
  by (simp_all add: tor_version_compare_def version_init_def CMP_def)

section \<open>Recommended versions\<close>

text \<open>The versions of the list that parse.\<close>

definition listed_versions :: "string list \<Rightarrow> tor_version_t list" where
  "listed_versions version_sl =
     List.map_filter (\<lambda>cp. tor_version_parse (if strcmpstart cp ''Tor '' = 0 then drop 4 cp else cp)) version_sl"

lemma listed_versions_simps [simp]:
  "listed_versions [] = []"
  "listed_versions (cp # sl) = (case tor_version_parse (if strcmpstart cp ''Tor '' = 0 then drop 4 cp else cp) of
     None \<Rightarrow> listed_versions sl | Some v \<Rightarrow> v # listed_versions sl)"
  by (simp_all add: listed_versions_def List.map_filter_simps split: option.splits)

abbreviation newer :: "tor_version_t \<Rightarrow> tor_version_t \<Rightarrow> bool" where
  "newer mine v \<equiv> tor_version_compare mine v < 0"

abbreviation older :: "tor_version_t \<Rightarrow> tor_version_t \<Rightarrow> bool" where
  "older mine v \<equiv> 0 < tor_version_compare mine v"

lemma obsolete_loop_spec:
  "obsolete_loop mine sl fl =
     (if \<exists>v \<in> set (listed_versions sl). tor_version_compare mine v = 0 then None
      else Some \<lparr>found_newer = found_newer fl \<or> (\<exists>v \<in> set (listed_versions sl). newer mine v),
                 found_older = found_older fl \<or> (\<exists>v \<in> set (listed_versions sl). older mine v),
                 found_newer_in_series = found_newer_in_series fl
                   \<or> (\<exists>v \<in> set (listed_versions sl). newer mine v \<and> tor_version_same_series mine v),
                 found_any_in_series = found_any_in_series fl \<or> (\<exists>v \<in> set (listed_versions sl). tor_version_same_series mine v)\<rparr>)"
proof (induction sl arbitrary: fl)
  case (Cons cp sl)
  show ?case
  proof (cases "tor_version_parse (if strcmpstart cp ''Tor '' = 0 then drop 4 cp else cp)")
    case None
    then show ?thesis by (simp add: Let_def Cons.IH)
  next
    case (Some v)
    consider "tor_version_compare mine v = 0" | "newer mine v" | "older mine v" by linarith
    then show ?thesis
      by cases (use Some in \<open>simp_all add: Let_def Cons.IH\<close>)
  qed
qed simp

definition verdict :: "tor_version_t set \<Rightarrow> tor_version_t \<Rightarrow> version_status_t" where
  "verdict vs mine =
     (if \<exists>v \<in> vs. tor_version_compare mine v = 0 then VS_RECOMMENDED
      else if (\<exists>v \<in> vs. tor_version_same_series mine v) \<and> \<not> (\<exists>v \<in> vs. newer mine v \<and> tor_version_same_series mine v)
        \<and> (\<exists>v \<in> vs. newer mine v) then VS_NEW_IN_SERIES
      else if (\<exists>v \<in> vs. newer mine v) \<and> \<not> (\<exists>v \<in> vs. older mine v) then VS_OLD
      else if (\<exists>v \<in> vs. older mine v) \<and> \<not> (\<exists>v \<in> vs. newer mine v) then VS_NEW
      else VS_UNRECOMMENDED)"

lemma is_obsolete_verdict:
  assumes "tor_version_parse myversion = Some mine" "versionlist \<noteq> []"
    and "smartlist_split_string [] versionlist version_list_split = Some (n, version_sl)"
  shows "tor_version_is_obsolete myversion versionlist = Some (verdict (set (listed_versions version_sl)) mine)"
proof -
  have ne: "\<not> length versionlist = 0" using assms(2) by simp
  note unf = tor_version_is_obsolete_def assms(1,3) option.case bind.bind_lunit prod.case ne if_False
  show ?thesis
  proof (cases "\<exists>v \<in> set (listed_versions version_sl). tor_version_compare mine v = 0")
    case True
    then show ?thesis by (simp only: unf obsolete_loop_spec verdict_def if_True)
  next
    case False
    then show ?thesis by (simp only: unf obsolete_loop_spec verdict_def found_flags.select_convs simp_thms)
  qed
qed

lemma verdict_iff:
  assumes "\<not> (\<exists>v \<in> vs. tor_version_compare mine v = 0)"
  shows "verdict vs mine = VS_OLD \<longleftrightarrow> vs \<noteq> {} \<and> (\<forall>v \<in> vs. newer mine v)"
    "verdict vs mine = VS_NEW \<longleftrightarrow> vs \<noteq> {} \<and> (\<forall>v \<in> vs. older mine v)"
    "verdict vs mine = VS_NEW_IN_SERIES \<longleftrightarrow> (\<exists>v \<in> vs. newer mine v) \<and> (\<exists>v \<in> vs. tor_version_same_series mine v)
       \<and> \<not> (\<exists>v \<in> vs. tor_version_same_series mine v \<and> newer mine v)"
    "verdict vs mine \<in> {VS_OLD, VS_NEW, VS_NEW_IN_SERIES, VS_UNRECOMMENDED}"
proof -
  define nw ol ns an where b: "nw = (\<exists>v \<in> vs. newer mine v)" "ol = (\<exists>v \<in> vs. older mine v)"
    "ns = (\<exists>v \<in> vs. newer mine v \<and> tor_version_same_series mine v)" "an = (\<exists>v \<in> vs. tor_version_same_series mine v)"
  have v: "verdict vs mine = (if an \<and> \<not> ns \<and> nw then VS_NEW_IN_SERIES else if nw \<and> \<not> ol then VS_OLD
      else if ol \<and> \<not> nw then VS_NEW else VS_UNRECOMMENDED)"
    unfolding verdict_def b using assms by (simp only: if_False)
  have tri: "newer mine v = (\<not> older mine v)" if "v \<in> vs" for v
  proof -
    have "tor_version_compare mine v \<noteq> 0" using that assms by blast
    then show ?thesis by linarith
  qed
  have "ol = (\<exists>v \<in> vs. \<not> newer mine v)" unfolding b by (rule bex_cong) (simp_all add: tri)
  then have all1: "(\<forall>v \<in> vs. newer mine v) = (\<not> ol)" by blast
  have "nw = (\<exists>v \<in> vs. \<not> older mine v)" unfolding b by (rule bex_cong) (simp_all add: tri)
  then have all2: "(\<forall>v \<in> vs. older mine v) = (\<not> nw)" by blast
  have some: "vs \<noteq> {} \<Longrightarrow> nw \<or> ol" "nw \<Longrightarrow> vs \<noteq> {}" "ol \<Longrightarrow> vs \<noteq> {}"
    using all1 b by auto
  have q: "(vs \<noteq> {} \<and> (\<forall>v \<in> vs. newer mine v)) = (nw \<and> \<not> ol)" "(vs \<noteq> {} \<and> (\<forall>v \<in> vs. older mine v)) = (ol \<and> \<not> nw)"
    unfolding all1 all2 using some by blast+
  have ns: "(\<exists>v \<in> vs. tor_version_same_series mine v \<and> newer mine v) = ns" unfolding b by blast
  have "\<not> (an \<and> \<not> ns \<and> nw \<and> \<not> ol)" using all1 unfolding b(3,4) by blast
  then show "verdict vs mine = VS_OLD \<longleftrightarrow> vs \<noteq> {} \<and> (\<forall>v \<in> vs. newer mine v)"
    "verdict vs mine = VS_NEW \<longleftrightarrow> vs \<noteq> {} \<and> (\<forall>v \<in> vs. older mine v)"
    unfolding q v by (cases an; cases ns; cases nw; cases ol; simp)+
  show "verdict vs mine = VS_NEW_IN_SERIES \<longleftrightarrow> (\<exists>v \<in> vs. newer mine v) \<and> (\<exists>v \<in> vs. tor_version_same_series mine v)
       \<and> \<not> (\<exists>v \<in> vs. tor_version_same_series mine v \<and> newer mine v)"
    unfolding ns b(1,4) [symmetric] v by (cases an; cases ns; cases nw; cases ol; simp)
  show "verdict vs mine \<in> {VS_OLD, VS_NEW, VS_NEW_IN_SERIES, VS_UNRECOMMENDED}" unfolding v by auto
qed

lemma verdict_recommended: "verdict vs mine = VS_RECOMMENDED \<longleftrightarrow> (\<exists>v \<in> vs. tor_version_compare mine v = 0)"
  using verdict_iff(4) [of vs mine] by (auto simp: verdict_def)

lemma not_recommended: "verdict vs mine \<noteq> VS_RECOMMENDED \<Longrightarrow> \<not> (\<exists>v \<in> vs. tor_version_compare mine v = 0)"
  by (simp add: verdict_recommended)

text \<open>C39 The verdict on a version, given a non-empty list of recommended ones: recommended if some version of
  the list that parses compares equal; else old if there are such versions and all are newer, new if all
  are older, new in its series if some are newer but none of those in its own series, of which there is
  one; unrecommended in all other cases.\<close>

theorem tor_version_is_obsolete_correct:
  assumes "tor_version_parse myversion = Some mine" "versionlist \<noteq> []"
    and "smartlist_split_string [] versionlist version_list_split = Some (n, version_sl)"
  defines "vs \<equiv> set (listed_versions version_sl)"
  shows "\<exists>st. tor_version_is_obsolete myversion versionlist = Some st
    \<and> (st = VS_RECOMMENDED \<longleftrightarrow> (\<exists>v \<in> vs. tor_version_compare mine v = 0))
    \<and> (st \<noteq> VS_RECOMMENDED \<longrightarrow>
         (st = VS_OLD \<longleftrightarrow> vs \<noteq> {} \<and> (\<forall>v \<in> vs. newer mine v))
         \<and> (st = VS_NEW \<longleftrightarrow> vs \<noteq> {} \<and> (\<forall>v \<in> vs. older mine v))
         \<and> (st = VS_NEW_IN_SERIES \<longleftrightarrow> (\<exists>v \<in> vs. newer mine v) \<and> (\<exists>v \<in> vs. tor_version_same_series mine v)
               \<and> \<not> (\<exists>v \<in> vs. tor_version_same_series mine v \<and> newer mine v))
         \<and> st \<in> {VS_OLD, VS_NEW, VS_NEW_IN_SERIES, VS_UNRECOMMENDED})"
proof (rule exI [of _ "verdict vs mine"], intro conjI impI)
  show "tor_version_is_obsolete myversion versionlist = Some (verdict vs mine)"
    unfolding vs_def by (rule is_obsolete_verdict [OF assms(1-3)])
  show "verdict vs mine = VS_RECOMMENDED \<longleftrightarrow> (\<exists>v \<in> vs. tor_version_compare mine v = 0)" by (rule verdict_recommended)
qed (rule verdict_iff, rule not_recommended, assumption)+

theorem tor_version_is_obsolete_correct_witness:
  "\<exists>st. tor_version_is_obsolete ''0.0.5.1-cvs'' ''0.0.5, 0.0.6'' = Some st \<and> (st = VS_NEW_IN_SERIES \<or> st = VS_RECOMMENDED)"
proof -
  have "tor_version_parse ''0.0.5.1-cvs'' = Some (version_init\<lparr>micro := 5, patchlevel := 1, status_tag := ''cvs''\<rparr>)" by code_simp
  moreover have "smartlist_split_string [] ''0.0.5, 0.0.6'' version_list_split = Some (2, [''0.0.5'', ''0.0.6''])" by code_simp
  moreover have "listed_versions [''0.0.5'', ''0.0.6''] = [version_init\<lparr>micro := 5\<rparr>, version_init\<lparr>micro := 6\<rparr>]" by code_simp
  ultimately show ?thesis
    using tor_version_is_obsolete_correct [of "''0.0.5.1-cvs''" "version_init\<lparr>micro := 5, patchlevel := 1, status_tag := ''cvs''\<rparr>"
        "''0.0.5, 0.0.6''" 2 "[''0.0.5'', ''0.0.6'']"]
    by (auto simp: tor_version_compare_def tor_version_same_series_def version_init_def CMP_def Let_def)
qed

section \<open>Versions without a protocol list\<close>

text \<open>\<open>protover_compute_for_old_tor\<close> guesses nothing for an unknown version: the version it substitutes has
  no \<open>Tor\<close> prefix, so \<open>tor_version_as_new_as\<close> takes it for a non-standard platform and answers yes, and
  the result is the empty list, as it is for every string without the prefix.\<close>

theorem old_tor_without_prefix:
  assumes "version = None \<or> (\<exists>v. version = Some v \<and> strcmpstart v ''Tor '' \<noteq> 0)"
  shows "protover_compute_for_old_tor version = []"
proof -
  have "tor_version_parse FIRST_TOR_VERSION_TO_ADVERTISE_PROTOCOLS
      = Some (version_init\<lparr>minor := 2, micro := 9, patchlevel := 3, status_tag := ''alpha''\<rparr>)" by code_simp
  then have "tor_version_as_new_as v FIRST_TOR_VERSION_TO_ADVERTISE_PROTOCOLS" if "strcmpstart v ''Tor '' \<noteq> 0" for v
    using that by (auto simp: tor_version_as_new_as_def tor_version_parse_platform_def)
  moreover have "strcmpstart ''0.2.5.15'' ''Tor '' \<noteq> 0" by code_simp
  ultimately show ?thesis using assms by (auto simp: protover_compute_for_old_tor_def)
qed

theorem old_tor_without_prefix_witness:
  "protover_compute_for_old_tor None = [] \<and> protover_compute_for_old_tor (Some ''0.2.5.15'') = []"
  using old_tor_without_prefix [of None] old_tor_without_prefix [of "Some ''0.2.5.15''"] by (simp add: strcmpstart_def strncmp_def)

end
