(* ===== verification/Protover_Vote.thy ===== *)
theory Protover_Vote
  imports Protover
begin

text \<open>
  The vote of the directory authorities on protocol versions and the check of a received list against
  what this version supports (\<open>core/or/protover.c\<close>).  What a list says is read off its parsed entries
  by \<open>supports\<close> (the first entry with the name, as \<open>find_entry_by_name\<close> has it) and \<open>lists_version\<close> (any
  entry).
\<close>

unbundle bit_operations_syntax

section \<open>The parser\<close>

lemma tor_parse_ulong_bounds: "tor_parse_ulong s lo hi b = (v, True, nxt) \<Longrightarrow> lo \<le> v \<and> v \<le> hi"
  by (auto simp: tor_parse_ulong_def Let_def split: prod.splits if_splits)

lemma parse_version_range_bounds:
  assumes "parse_version_range s e = Some (l, h)"
  shows "l \<le> h \<and> h \<le> 63"
proof -
  obtain v ok nxt where p: "tor_parse_ulong s 0 63 True = (v, ok, nxt)" by (cases "tor_parse_ulong s 0 63 True")
  obtain v2 ok2 nxt2 where p2: "tor_parse_ulong (tl nxt) 0 63 True = (v2, ok2, nxt2)" by (cases "tor_parse_ulong (tl nxt) 0 63 True")
  show ?thesis using assms p p2 tor_parse_ulong_bounds [of s 0 63 True v nxt] tor_parse_ulong_bounds [of "tl nxt" 0 63 True v2 nxt2]
    by (auto simp: parse_version_range_def MAX_PROTOCOL_VERSION_def Let_def split: if_splits)
qed

lemma ranges_loop_defined: "ranges_loop s e m \<noteq> None"
proof (induction s e m rule: ranges_loop.induct)
  case (1 s e m)
  show ?case
  proof (cases "parse_version_range s (case index_of (CHR '','') (take e s) of Some k \<Rightarrow> k | None \<Rightarrow> e)")
    case None
    then show ?thesis by (subst ranges_loop.simps) (simp add: Let_def)
  next
    case (Some r)
    obtain l h where r: "r = (l, h)" by (cases r)
    obtain m' where "bitmask_for_range l h = Some m'"
      using parse_version_range_bounds [OF Some [unfolded r]] bitmask_for_range_bits by blast
    then show ?thesis using 1 Some r by (subst ranges_loop.simps) (simp add: Let_def)
  qed
qed

lemma parse_single_entry_defined: "parse_single_entry s e \<noteq> None"
proof (cases "index_of (CHR ''='') (take e s)")
  case (Some k)
  then show ?thesis using ranges_loop_defined [of "drop (k + 1) s" "e - (k + 1)" 0]
    by (cases "ranges_loop (drop (k + 1) s) (e - (k + 1)) 0") (simp_all add: parse_single_entry_def)
qed (simp add: parse_single_entry_def)

lemma parse_single_entry_name: "parse_single_entry s e = Some (Some ent) \<Longrightarrow> name_ok (pe_name ent)"
  by (auto simp: parse_single_entry_def name_ok_def index_of_def split: option.splits bind_splits if_splits)

lemma parse_protocol_list_defined: "parse_protocol_list s \<noteq> None"
proof (induction s rule: parse_protocol_list.induct)
  case (1 s)
  let ?e = "case index_of (CHR '' '') s of Some k \<Rightarrow> k | None \<Rightarrow> length s"
  obtain x where x: "parse_single_entry s ?e = Some x" using parse_single_entry_defined by blast
  show ?case
  proof (cases "s = [] \<or> x = None")
    case True
    then show ?thesis using x by (subst parse_protocol_list.simps) (auto simp: Let_def)
  next
    case False
    then obtain ent where ent: "x = Some ent" "s \<noteq> []" by blast
    from 1 [OF ent(2) HOL.refl x ent(1)] obtain y where "parse_protocol_list (dropWhile (\<lambda>c. c = CHR '' '') (drop ?e s)) = Some y" by blast
    then show ?thesis using x ent by (subst parse_protocol_list.simps) (simp add: Let_def)
  qed
qed

lemma parse_protocol_list_names: "parse_protocol_list s = Some (Some es) \<Longrightarrow> \<forall>ent \<in> set es. name_ok (pe_name ent)"
proof (induction s arbitrary: es rule: parse_protocol_list.induct)
  case (1 s)
  show ?case
  proof (cases "s = []")
    case True
    then show ?thesis using 1(2) by (simp add: parse_protocol_list.simps)
  next
    case False
    let ?e = "case index_of (CHR '' '') s of Some k \<Rightarrow> k | None \<Rightarrow> length s"
    obtain ent rest where p: "parse_single_entry s ?e = Some (Some ent)"
      "parse_protocol_list (dropWhile (\<lambda>c. c = CHR '' '') (drop ?e s)) = Some (Some rest)" "es = ent # rest"
      using 1(2) False by (subst (asm) parse_protocol_list.simps) (auto simp: Let_def split: bind_splits option.splits)
    then show ?thesis using 1(1) [OF False _ p(1)] parse_single_entry_name [OF p(1)] by auto
  qed
qed

section \<open>Counting votes\<close>

text \<open>What a list says of a protocol, by its name, and how many of the votes say it.\<close>

definition supports :: "proto_entry_t list \<Rightarrow> string \<Rightarrow> nat \<Rightarrow> bool" where
  "supports es name i \<longleftrightarrow> (case map_of (map (\<lambda>ent. (pe_name ent, pe_bitmask ent)) es) name of Some m \<Rightarrow> bit m i | None \<Rightarrow> False)"

definition vote_supports :: "string \<Rightarrow> nat \<Rightarrow> string \<Rightarrow> bool" where
  "vote_supports name i vote \<longleftrightarrow> (case parse_protocol_list vote of Some (Some es) \<Rightarrow> supports es name i | _ \<Rightarrow> False)"

definition vote_count :: "string list \<Rightarrow> string \<Rightarrow> nat \<Rightarrow> nat" where
  "vote_count votes name i = length (filter (vote_supports name i) votes)"

definition names_ok :: "proto_entry_t list \<Rightarrow> bool" where
  "names_ok es \<longleftrightarrow> (\<forall>ent \<in> set es. name_ok (pe_name ent))"

lemma name_ok_NUL: "name_ok name \<Longrightarrow> NUL \<notin> set name"
  by (simp add: name_ok_def valid_keyword_no_equals)

lemma find_entry_supports:
  "names_ok es \<Longrightarrow> NUL \<notin> set name \<Longrightarrow>
     supports es name i \<longleftrightarrow> (case find_entry_by_name es name of Some ent \<Rightarrow> bit (pe_bitmask ent) i | None \<Rightarrow> False)"
  by (induction es) (auto simp: supports_def names_ok_def strcmp_eq_0 name_ok_NUL)

lemma count_vote_nth:
  assumes "names_ok vote" "NUL \<notin> set name" "length counts = 64" "i < 64"
  shows "length (count_vote name vote counts) = 64
    \<and> count_vote name vote counts ! i = counts ! i + (if supports vote name i then 1 else 0)"
  using assms by (simp add: count_vote_def find_entry_supports and_BIT split: option.splits)

lemma count_votes_nth:
  assumes "\<forall>es \<in> set parsed. names_ok es" "NUL \<notin> set name" "length counts = 64" "i < 64"
  shows "length (fold (count_vote name) parsed counts) = 64
    \<and> fold (count_vote name) parsed counts ! i = counts ! i + of_nat (length (filter (\<lambda>es. supports es name i) parsed))"
  using assms(1,3)
proof (induction parsed arbitrary: counts)
  case (Cons es parsed)
  then show ?case using count_vote_nth [of es name counts i] assms(2,4) Cons.IH [of "count_vote name es counts"] by auto
qed simp

lemma bit_or_fold:
  "\<forall>i \<in> set is. i < 64 \<Longrightarrow> bit (fold (\<lambda>i m. if P i then m OR BIT i else m) is m) k \<longleftrightarrow> bit m k \<or> (k \<in> set is \<and> P k)"
  by (induction "is" arbitrary: m) (auto simp: bit_or_iff bit_BIT)

lemma vote_bitmask_bit: "bit (vote_bitmask counts threshold) k \<longleftrightarrow> k < 64 \<and> threshold \<le> uint (counts ! k)"
  using bit_or_fold [of "[0..<64]" "\<lambda>i. threshold \<le> uint (counts ! i)" 0 k] by (auto simp: vote_bitmask_def)

section \<open>The vote\<close>

lemma add_names_spec:
  assumes "names_ok es" "\<forall>n \<in> set names. NUL \<notin> set n" "distinct names"
  shows "distinct (add_names names es) \<and> set (add_names names es) = set names \<union> pe_name ` set es"
  using assms
proof (induction names es rule: add_names.induct)
  case (2 names ent es)
  have n: "NUL \<notin> set (pe_name ent)" using 2(2) name_ok_NUL by (simp add: names_ok_def)
  have c: "smartlist_contains_string (Some names) (pe_name ent) \<longleftrightarrow> pe_name ent \<in> set names"
    using 2(3) n by (auto simp: smartlist_contains_string_def list_ex_iff strcmp_eq_0)
  have "names_ok es" using 2(2) by (simp add: names_ok_def)
  then show ?case using 2 c n by (auto simp: insert_absorb)
qed simp

definition parsed_votes :: "string list \<Rightarrow> proto_entry_t list list" where
  "parsed_votes votes = List.map_filter (\<lambda>v. case parse_protocol_list v of Some r \<Rightarrow> r | None \<Rightarrow> None) votes"

lemma parsed_votes_ok: "\<forall>es \<in> set (parsed_votes votes). names_ok es"
  using parse_protocol_list_names by (auto simp: parsed_votes_def List.map_filter_def names_ok_def split: option.splits)

lemma vote_count_parsed: "length (filter (\<lambda>es. supports es name i) (parsed_votes votes)) = vote_count votes name i"
  by (induction votes) (auto simp: parsed_votes_def List.map_filter_simps vote_count_def vote_supports_def split: option.splits)

lemma parse_votes_spec:
  assumes "distinct names" "\<forall>n \<in> set names. NUL \<notin> set n"
  shows "\<exists>names'. parse_votes votes parsed names = Some (parsed @ parsed_votes votes, names') \<and> distinct names'
    \<and> set names' = set names \<union> (\<Union>es \<in> set (parsed_votes votes). pe_name ` set es)"
  using assms
proof (induction votes arbitrary: parsed names)
  case Nil
  then show ?case by (simp add: parsed_votes_def List.map_filter_simps)
next
  case (Cons v votes)
  obtain r where r: "parse_protocol_list v = Some r" using parse_protocol_list_defined by blast
  show ?case
  proof (cases r)
    case None
    then show ?thesis using Cons r by (simp add: parsed_votes_def List.map_filter_simps)
  next
    case (Some es)
    then have "names_ok es" using parse_protocol_list_names r by (simp add: names_ok_def)
    from add_names_spec [OF this Cons.prems(2,1)]
    have a: "distinct (add_names names es)" "set (add_names names es) = set names \<union> pe_name ` set es" by auto
    then have "\<forall>n \<in> set (add_names names es). NUL \<notin> set n"
      using Cons.prems(2) \<open>names_ok es\<close> name_ok_NUL by (auto simp: names_ok_def)
    from Cons.IH [OF a(1) this, of "parsed @ [es]"] show ?thesis
      using r Some a(2) by (auto simp: parsed_votes_def List.map_filter_simps)
  qed
qed

lemma vote_entries_supports:
  assumes "distinct names"
  shows "supports (vote_entries parsed t names) name i \<longleftrightarrow>
    name \<in> set names \<and> bit (vote_bitmask (fold (count_vote name) parsed (replicate 64 0)) t) i"
  using assms
proof (induction names)
  case (Cons n names)
  have "set (map pe_name (vote_entries parsed t ns)) \<subseteq> set ns" for ns by (induction ns) (auto simp: Let_def)
  then have "n \<notin> pe_name ` set (vote_entries parsed t names)" using Cons.prems by fastforce
  then have "\<not> supports (vote_entries parsed t names) n i"
    by (auto simp: supports_def image_image dest!: map_of_SomeD split: option.splits)
  then show ?case using Cons by (auto simp: supports_def Let_def)
qed (simp add: supports_def)

lemma vote_entries_names:
  "map pe_name (vote_entries parsed t names) =
     filter (\<lambda>n. vote_bitmask (fold (count_vote n) parsed (replicate 64 0)) t \<noteq> 0) names"
  by (induction names) (auto simp: Let_def)

lemma vote_entries_masks:
  "ent \<in> set (vote_entries parsed t names) \<Longrightarrow>
     pe_name ent \<in> set names \<and> pe_bitmask ent = vote_bitmask (fold (count_vote (pe_name ent)) parsed (replicate 64 0)) t"
  by (induction names) (auto simp: Let_def split: if_splits)

lemma vote_mask_bit:
  assumes "length votes < 256" "NUL \<notin> set name"
  shows "bit (vote_bitmask (fold (count_vote name) (parsed_votes votes) (replicate 64 0)) t) i
    \<longleftrightarrow> i < 64 \<and> t \<le> int (vote_count votes name i)"
proof (cases "i < 64")
  case True
  have "vote_count votes name i \<le> length votes" by (simp add: vote_count_def)
  then have "uint (of_nat (vote_count votes name i) :: u8) = int (vote_count votes name i)"
    using assms(1) by (simp add: unsigned_of_nat take_bit_nat_eq_self)
  then show ?thesis using True vote_count_parsed [of name i votes]
      count_votes_nth [OF parsed_votes_ok assms(2), of "replicate 64 0" i votes]
    by (simp add: vote_bitmask_bit)
qed (simp add: vote_bitmask_bit)

lemma unvoted_name:
  assumes "\<forall>es \<in> set (parsed_votes votes). name \<notin> pe_name ` set es"
  shows "vote_count votes name i = 0"
proof -
  have "\<not> supports es name i" if "es \<in> set (parsed_votes votes)" for es
    using assms that by (fastforce simp: supports_def dest!: map_of_SomeD split: option.splits)
  then show ?thesis using vote_count_parsed [of name i votes] by (metis filter_False list.size(3))
qed

text \<open>C34 The vote on protocol versions.  With fewer than 256 votes, a positive threshold, a \<open>qsort\<close> that
  sorts, and no protocol for which every one of the 64 versions reaches the threshold,
  \<open>protover_compute_vote\<close> returns a string that parses, whose entries are in strictly increasing order of
  their names, and that lists version \<open>i\<close> of a protocol exactly when at least \<open>threshold\<close> of the votes that
  parse list it.\<close>

theorem protover_vote_threshold:
  assumes "qsort_ok qsort compare_string_ptrs" "length votes < 256" "0 < threshold"
    and "\<forall>name. \<exists>i < 64. int (vote_count votes name i) < threshold"
  shows "\<exists>s es. protover_compute_vote qsort votes threshold = Some s \<and> parse_protocol_list s = Some (Some es)
    \<and> sorted_wrt (\<lambda>a b. strcmp a b \<le> 0) (map pe_name es) \<and> distinct (map pe_name es)
    \<and> (\<forall>name. \<forall>i < 64. supports es name i \<longleftrightarrow> threshold \<le> int (vote_count votes name i))"
proof (cases "votes = []")
  case True
  then show ?thesis using assms(3)
    by (auto simp: protover_compute_vote_def parse_protocol_list.simps supports_def vote_count_def)
next
  case False
  obtain names where names: "parse_votes votes [] [] = Some (parsed_votes votes, names)" "distinct names"
    "set names = (\<Union>es \<in> set (parsed_votes votes). pe_name ` set es)"
    using parse_votes_spec [of "[]" votes "[]"] by auto
  let ?names = "smartlist_sort_strings qsort names"
  have sorted: "sorted_wrt (\<lambda>a b. strcmp a b \<le> 0) ?names" "mset ?names = mset names"
    using sort_ok [OF assms(1), of names] by (simp_all add: smartlist_sort_strings_def compare_string_ptrs_def)
  then have dist: "distinct ?names" "set ?names = set names" using names(2) by (metis mset_eq_imp_distinct_iff, metis set_mset_mset)
  have ok: "name_ok n" if "n \<in> set names" for n using that names(3) parsed_votes_ok by (auto simp: names_ok_def)
  let ?es = "vote_entries (parsed_votes votes) threshold ?names"
  have ent: "name_ok (pe_name ent) \<and> pe_bitmask ent \<noteq> NOT 0" if "ent \<in> set ?es" for ent
  proof -
    have n: "pe_name ent \<in> set names" using vote_entries_masks [OF that] dist(2) by simp
    obtain i where i: "i < 64" "int (vote_count votes (pe_name ent) i) < threshold" using assms(4) by blast
    then have "\<not> bit (pe_bitmask ent) i"
      using vote_entries_masks [OF that] vote_mask_bit [OF assms(2) name_ok_NUL [OF ok [OF n]]] by simp
    moreover have "bit (NOT 0 :: u64) i" using i(1) by (simp add: bit_not_iff)
    ultimately show ?thesis using ok [OF n] by metis
  qed
  obtain s where s: "encode_protocol_list ?es = Some s" "encoded_as ?es s" using encode_protocol_list_spec ent by metis
  have "supports ?es name i \<longleftrightarrow> threshold \<le> int (vote_count votes name i)" if "i < 64" for name i
  proof (cases "name \<in> set names")
    case True
    then show ?thesis using vote_entries_supports [OF dist(1)] dist(2) that vote_mask_bit [OF assms(2) name_ok_NUL [OF ok [OF True]]] by simp
  next
    case False
    then have "vote_count votes name i = 0" using names(3) by (intro unvoted_name) blast
    then show ?thesis using vote_entries_supports [OF dist(1)] dist(2) False assms(3) by simp
  qed
  moreover have "protover_compute_vote qsort votes threshold = Some s"
    using names(1) s(1) assms(2) False by (simp add: protover_compute_vote_def Let_def)
  moreover have "parse_protocol_list s = Some (Some ?es)" using parse_encoded [OF s(2)] ent by blast
  moreover have "sorted_wrt (\<lambda>a b. strcmp a b \<le> 0) (map pe_name ?es)" "distinct (map pe_name ?es)"
    using sorted(1) dist(1) by (simp_all add: vote_entries_names sorted_wrt_filter)
  ultimately show ?thesis by blast
qed

theorem protover_vote_threshold_witness:
  "\<exists>s es. protover_compute_vote insertion_sort [''Foo=1-2 Bar=7'', ''Foo=2-3'', ''junk'', ''Bar=6-7''] 2 = Some s
     \<and> parse_protocol_list s = Some (Some es) \<and> supports es ''Foo'' 2 \<and> \<not> supports es ''Foo'' 1"
proof -
  let ?v = "[''Foo=1-2 Bar=7'', ''Foo=2-3'', ''junk'', ''Bar=6-7'']"
  have p: "parse_protocol_list ''Foo=1-2 Bar=7'' = Some (Some [\<lparr>pe_name = ''Foo'', pe_bitmask = 6\<rparr>, \<lparr>pe_name = ''Bar'', pe_bitmask = 128\<rparr>])"
    "parse_protocol_list ''Foo=2-3'' = Some (Some [\<lparr>pe_name = ''Foo'', pe_bitmask = 12\<rparr>])"
    "parse_protocol_list ''junk'' = Some None"
    "parse_protocol_list ''Bar=6-7'' = Some (Some [\<lparr>pe_name = ''Bar'', pe_bitmask = 192\<rparr>])"
    by code_simp+
  have "vote_count ?v name 0 = 0" for name by (simp add: vote_count_def vote_supports_def p supports_def)
  then have "\<forall>name. \<exists>i < 64. int (vote_count ?v name i) < 2" by (intro allI exI [of _ 0]) simp
  moreover have "vote_count ?v ''Foo'' 2 = 2" "vote_count ?v ''Foo'' 1 = 1"
    by (simp_all add: vote_count_def vote_supports_def p supports_def bit_numeral_rec)
  ultimately show ?thesis using protover_vote_threshold [OF strings.insertion_sort_ok, of ?v 2] by fastforce
qed

section \<open>Masks the encoder cannot print\<close>

text \<open>\<open>proto_entry_encode_into\<close> runs into undefined behaviour (\<open>__builtin_ctzll(0)\<close>) for exactly one
  mask, the one with all 64 versions: the test \<open>!mask\<close> that should catch it is never true there.\<close>

theorem encode_undefined_iff:
  "proto_entry_encode_into chunks ent = None \<longleftrightarrow> pe_bitmask ent = NOT 0"
proof
  assume "pe_bitmask ent = NOT 0"
  moreover have "encode_ranges (NOT 0) 0 True = None"
    by code_simp
  ultimately show "proto_entry_encode_into chunks ent = None" by (simp add: proto_entry_encode_into_def)
next
  assume "proto_entry_encode_into chunks ent = None"
  then show "pe_bitmask ent = NOT 0" using encode_entry by (metis option.distinct(1))
qed

lemma full_list: "parse_protocol_list ''Foo=0-63'' = Some (Some [\<lparr>pe_name = ''Foo'', pe_bitmask = NOT 0\<rparr>])
  \<and> protover_all_supported (Some ''Foo=0-63'') True = None"
  by code_simp

section \<open>Support\<close>

definition lists_version :: "proto_entry_t list \<Rightarrow> string \<Rightarrow> nat \<Rightarrow> bool" where
  "lists_version es name i \<longleftrightarrow> (\<exists>ent \<in> set es. pe_name ent = name \<and> bit (pe_bitmask ent) i)"

lemma lists_version_simps [simp]:
  "\<not> lists_version [] name i"
  "lists_version (ent # es) name i \<longleftrightarrow> (pe_name ent = name \<and> bit (pe_bitmask ent) i) \<or> lists_version es name i"
  "lists_version (xs @ ys) name i \<longleftrightarrow> lists_version xs name i \<or> lists_version ys name i"
  by (auto simp: lists_version_def)

lemma missing_entries_iff:
  assumes "names_ok ours" "names_ok es"
  shows "lists_version (missing_entries ours es) name i \<longleftrightarrow> lists_version es name i \<and> \<not> supports ours name i"
  using assms(2)
proof (induction es)
  case (Cons ent es)
  have n: "NUL \<notin> set (pe_name ent)" "names_ok es" using Cons.prems name_ok_NUL by (auto simp: names_ok_def)
  have one: "lists_version (if m \<noteq> 0 then [\<lparr>pe_name = nm, pe_bitmask = m\<rparr>] else []) name i \<longleftrightarrow> nm = name \<and> bit m i" for nm m by simp
  show ?case using Cons.IH [OF n(2)] find_entry_supports [OF assms(1) n(1), of i]
    by (cases "find_entry_by_name ours (pe_name ent)")
       (auto simp: Let_def one bit_and_iff bit_not_iff dest: bit_imp_le_length simp del: if_split)
qed simp

lemma missing_entries_ok:
  "ent \<in> set (missing_entries ours es) \<Longrightarrow> pe_bitmask ent \<noteq> 0 \<and> (\<exists>e \<in> set es. pe_name ent = pe_name e \<and> (\<exists>m. pe_bitmask ent = pe_bitmask e AND m))"
  by (induction es) (auto simp: Let_def split: option.splits if_splits intro: exI [of _ "NOT 0"])

lemma missing_entries_nonempty:
  assumes "missing_entries ours es \<noteq> []"
  shows "\<exists>name i. lists_version (missing_entries ours es) name i"
proof -
  obtain ent where ent: "ent \<in> set (missing_entries ours es)" using assms by (meson last_in_set)
  then obtain i where "bit (pe_bitmask ent) i" using missing_entries_ok nonzero_bit by blast
  then show ?thesis using ent by (auto simp: lists_version_def)
qed

lemma and_not_full: "(a :: u64) AND m = NOT 0 \<Longrightarrow> a = NOT 0"
proof -
  assume eq: "a AND m = NOT 0"
  have "bit a i" if "i < 64" for i using that arg_cong [OF eq, of "\<lambda>w. bit w i"] by (simp add: bit_and_iff bit_not_iff)
  then show "a = NOT 0" by (intro bit_word_eqI) (simp add: bit_not_iff)
qed

lemma protover_supported_list:
  "get_supported_protocol_list = Some (Some
     [\<lparr>pe_name = ''Conflux'', pe_bitmask = 2\<rparr>, \<lparr>pe_name = ''Cons'', pe_bitmask = 6\<rparr>, \<lparr>pe_name = ''Desc'', pe_bitmask = 30\<rparr>,
      \<lparr>pe_name = ''DirCache'', pe_bitmask = 4\<rparr>, \<lparr>pe_name = ''FlowCtrl'', pe_bitmask = 6\<rparr>, \<lparr>pe_name = ''HSDir'', pe_bitmask = 4\<rparr>,
      \<lparr>pe_name = ''HSIntro'', pe_bitmask = 48\<rparr>, \<lparr>pe_name = ''HSRend'', pe_bitmask = 6\<rparr>, \<lparr>pe_name = ''Link'', pe_bitmask = 56\<rparr>,
      \<lparr>pe_name = ''LinkAuth'', pe_bitmask = 8\<rparr>, \<lparr>pe_name = ''Microdesc'', pe_bitmask = 14\<rparr>, \<lparr>pe_name = ''Padding'', pe_bitmask = 4\<rparr>,
      \<lparr>pe_name = ''Relay'', pe_bitmask = 124\<rparr>])"
  by code_simp

text \<open>C36 For a list that parses and has no entry with all 64 versions, \<open>protover_all_supported\<close> returns
  true exactly when this version supports every version of every protocol on the list; otherwise it
  sets \<open>*missing_out\<close> to a string that parses to exactly the unsupported versions.\<close>

theorem protover_all_supported_correct:
  assumes "parse_protocol_list s = Some (Some es)" "\<forall>ent \<in> set es. pe_bitmask ent \<noteq> NOT 0"
  shows "\<exists>ours res missing_out. get_supported_protocol_list = Some (Some ours)
    \<and> protover_all_supported (Some s) True = Some (res, missing_out)
    \<and> (res \<longleftrightarrow> (\<forall>name i. lists_version es name i \<longrightarrow> supports ours name i))
    \<and> (if res then missing_out = None
       else \<exists>str missing. missing_out = Some str \<and> parse_protocol_list str = Some (Some missing)
         \<and> (\<forall>name i. lists_version missing name i \<longleftrightarrow> lists_version es name i \<and> \<not> supports ours name i))"
proof -
  obtain ours where ours: "get_supported_protocol_list = Some (Some ours)" using protover_supported_list by blast
  then have ok: "names_ok ours" "names_ok es"
    using parse_protocol_list_names assms(1) by (auto simp: get_supported_protocol_list_def names_ok_def)
  let ?missing = "missing_entries ours es"
  have enc: "\<forall>ent \<in> set ?missing. pe_bitmask ent \<noteq> NOT 0 \<and> name_ok (pe_name ent)"
    using missing_entries_ok [of _ ours es] assms(2) ok(2) and_not_full by (metis names_ok_def)
  then obtain str where str: "encode_protocol_list ?missing = Some str" "encoded_as ?missing str" using encode_protocol_list_spec by metis
  have parse: "parse_protocol_list str = Some (Some ?missing)" using parse_encoded [OF str(2)] enc by blast
  note iff = missing_entries_iff [OF ok]
  have all: "?missing = [] \<longleftrightarrow> (\<forall>name i. lists_version es name i \<longrightarrow> supports ours name i)"
    using iff missing_entries_nonempty [of ours es] by (metis lists_version_simps(1))
  have res: "protover_all_supported (Some s) True = Some (?missing = [], if ?missing = [] then None else Some str)"
    by (simp add: protover_all_supported_def Let_def assms(1) ours str(1))
  show ?thesis
  proof (cases "?missing = []")
    case True
    then show ?thesis using ours res all by (intro exI [of _ ours] exI [of _ True] exI [of _ None]) simp
  next
    case False
    then have "\<not> (\<forall>name i. lists_version es name i \<longrightarrow> supports ours name i)" using all by blast
    then show ?thesis using ours res False parse iff by (intro exI [of _ ours] exI [of _ False] exI [of _ "Some str"]) simp
  qed
qed

theorem protover_all_supported_correct_witness:
  "\<exists>str missing. protover_all_supported (Some ''Link=5-6 Foo=1'') True = Some (False, Some str)
     \<and> parse_protocol_list str = Some (Some missing) \<and> lists_version missing ''Link'' 6 \<and> \<not> lists_version missing ''Link'' 5"
proof -
  have p: "parse_protocol_list ''Link=5-6 Foo=1'' = Some (Some [\<lparr>pe_name = ''Link'', pe_bitmask = 96\<rparr>, \<lparr>pe_name = ''Foo'', pe_bitmask = 2\<rparr>])"
    by code_simp
  then obtain ours res m where r: "get_supported_protocol_list = Some (Some ours)"
    "protover_all_supported (Some ''Link=5-6 Foo=1'') True = Some (res, m)"
    "res \<longleftrightarrow> (\<forall>name i. lists_version [\<lparr>pe_name = ''Link'', pe_bitmask = 96\<rparr>, \<lparr>pe_name = ''Foo'', pe_bitmask = 2\<rparr>] name i \<longrightarrow> supports ours name i)"
    "if res then m = None else \<exists>str missing. m = Some str \<and> parse_protocol_list str = Some (Some missing)
       \<and> (\<forall>name i. lists_version missing name i \<longleftrightarrow>
            lists_version [\<lparr>pe_name = ''Link'', pe_bitmask = 96\<rparr>, \<lparr>pe_name = ''Foo'', pe_bitmask = 2\<rparr>] name i \<and> \<not> supports ours name i)"
    using protover_all_supported_correct [OF p] by auto
  have l: "bit (96 :: u64) 6" "bit (96 :: u64) 5" "\<not> supports ours ''Link'' 6" "supports ours ''Link'' 5"
    using r(1) [unfolded protover_supported_list, symmetric] by (simp_all add: supports_def bit_numeral_rec)
  then have "\<not> res" using r(3) by (auto intro!: exI [of _ "''Link''"] exI [of _ 6])
  then show ?thesis using r(2,4) l by auto
qed

lemma all_supportedI:
  assumes "get_supported_protocol_list = Some (Some ours)" "parse_protocol_list s = Some (Some es)" "missing_entries ours es = []"
  shows "protover_all_supported (Some s) True = Some (True, None)"
  by (simp add: protover_all_supported_def assms)

lemma parsed_own_lists:
  "parse_protocol_list protover_get_required_client_protocols = Some (Some [\<lparr>pe_name = ''Cons'', pe_bitmask = 4\<rparr>, \<lparr>pe_name = ''Desc'', pe_bitmask = 4\<rparr>, \<lparr>pe_name = ''FlowCtrl'', pe_bitmask = 2\<rparr>, \<lparr>pe_name = ''Link'', pe_bitmask = 16\<rparr>, \<lparr>pe_name = ''Microdesc'', pe_bitmask = 4\<rparr>, \<lparr>pe_name = ''Relay'', pe_bitmask = 4\<rparr>])"
  "parse_protocol_list protover_get_recommended_client_protocols = Some (Some [\<lparr>pe_name = ''Cons'', pe_bitmask = 4\<rparr>, \<lparr>pe_name = ''Desc'', pe_bitmask = 4\<rparr>, \<lparr>pe_name = ''DirCache'', pe_bitmask = 4\<rparr>, \<lparr>pe_name = ''FlowCtrl'', pe_bitmask = 6\<rparr>, \<lparr>pe_name = ''HSDir'', pe_bitmask = 4\<rparr>, \<lparr>pe_name = ''HSIntro'', pe_bitmask = 16\<rparr>, \<lparr>pe_name = ''HSRend'', pe_bitmask = 4\<rparr>, \<lparr>pe_name = ''Link'', pe_bitmask = 48\<rparr>, \<lparr>pe_name = ''Microdesc'', pe_bitmask = 4\<rparr>, \<lparr>pe_name = ''Relay'', pe_bitmask = 28\<rparr>])"
  "parse_protocol_list protover_get_required_relay_protocols = Some (Some [\<lparr>pe_name = ''Cons'', pe_bitmask = 4\<rparr>, \<lparr>pe_name = ''Desc'', pe_bitmask = 4\<rparr>, \<lparr>pe_name = ''DirCache'', pe_bitmask = 4\<rparr>, \<lparr>pe_name = ''FlowCtrl'', pe_bitmask = 6\<rparr>, \<lparr>pe_name = ''HSDir'', pe_bitmask = 4\<rparr>, \<lparr>pe_name = ''HSIntro'', pe_bitmask = 48\<rparr>, \<lparr>pe_name = ''HSRend'', pe_bitmask = 4\<rparr>, \<lparr>pe_name = ''Link'', pe_bitmask = 48\<rparr>, \<lparr>pe_name = ''LinkAuth'', pe_bitmask = 8\<rparr>, \<lparr>pe_name = ''Microdesc'', pe_bitmask = 4\<rparr>, \<lparr>pe_name = ''Relay'', pe_bitmask = 28\<rparr>])"
  by code_simp+

lemma relay_lists_equal: "protover_get_recommended_relay_protocols = protover_get_required_relay_protocols"
  by (simp add: protover_get_recommended_relay_protocols_def protover_get_required_relay_protocols_def)

text \<open>The lists of protocols that authorities built from this code recommend or require, for clients and
  for relays, contain nothing that this version does not support: it never warns about or refuses
  itself.\<close>

theorem own_lists_supported:
  "protover_all_supported (Some protover_get_required_client_protocols) True = Some (True, None)
   \<and> protover_all_supported (Some protover_get_required_relay_protocols) True = Some (True, None)
   \<and> protover_all_supported (Some protover_get_recommended_client_protocols) True = Some (True, None)
   \<and> protover_all_supported (Some protover_get_recommended_relay_protocols) True = Some (True, None)"
  unfolding relay_lists_equal
  by (intro conjI all_supportedI [OF protover_supported_list parsed_own_lists(1)] all_supportedI [OF protover_supported_list parsed_own_lists(2)]
      all_supportedI [OF protover_supported_list parsed_own_lists(3)]; code_simp)

end
