(* ===== verification/Protover_Summary.thy ===== *)
theory Protover_Summary
  imports Versions Protover_Vote
begin

text \<open>
  The summary flags that \<open>core/or/versions.c\<close> derives from a protocol list, with the cache that memoizes
  them.  The cache refines the uncached computation (locale \<open>op_refinement\<close>).
\<close>

section \<open>Summaries of protocol lists\<close>

record protover_summary_flags_t =
  protocols_known :: bool
  supports_extend2_cells :: bool
  supports_accepting_ipv6_extends :: bool
  supports_initiating_ipv6_extends :: bool
  supports_canonical_ipv6_conns :: bool
  supports_ed25519_link_handshake_compat :: bool
  supports_ed25519_link_handshake_any :: bool
  supports_ed25519_hs_intro :: bool
  supports_establish_intro_dos_extension :: bool
  supports_v3_hsdir :: bool
  supports_v3_rendezvous_point :: bool
  supports_hs_setup_padding :: bool
  supports_congestion_control :: bool
  supports_conflux :: bool
  supports_cgo :: bool
  supports_ntor_v3 :: bool

definition summary_zero :: protover_summary_flags_t where
  "summary_zero = \<lparr>protocols_known = False, supports_extend2_cells = False, supports_accepting_ipv6_extends = False,
     supports_initiating_ipv6_extends = False, supports_canonical_ipv6_conns = False,
     supports_ed25519_link_handshake_compat = False, supports_ed25519_link_handshake_any = False,
     supports_ed25519_hs_intro = False, supports_establish_intro_dos_extension = False, supports_v3_hsdir = False,
     supports_v3_rendezvous_point = False, supports_hs_setup_padding = False, supports_congestion_control = False,
     supports_conflux = False, supports_cgo = False, supports_ntor_v3 = False\<rparr>"

text \<open>The assignments of \<open>memoize_protover_summary\<close> for a string that is not cached.\<close>

definition compute_summary :: "string \<Rightarrow> protover_summary_flags_t option" where
  "compute_summary protocols = do {
     let has = protocol_list_supports_protocol protocols;
     linkauth \<leftarrow> has PRT_LINKAUTH 3;
     linkauth_any \<leftarrow> protocol_list_supports_protocol_or_later protocols PRT_LINKAUTH 3;
     relay2 \<leftarrow> has PRT_RELAY 2;
     relay3 \<leftarrow> has PRT_RELAY 3;
     relay4 \<leftarrow> has PRT_RELAY 4;
     relay5 \<leftarrow> has PRT_RELAY 5;
     relay6 \<leftarrow> has PRT_RELAY 6;
     hsintro4 \<leftarrow> has PRT_HSINTRO 4;
     hsintro5 \<leftarrow> has PRT_HSINTRO 5;
     hsrend2 \<leftarrow> has PRT_HSREND 2;
     hsdir2 \<leftarrow> has PRT_HSDIR 2;
     padding2 \<leftarrow> has PRT_PADDING 2;
     flowctrl2 \<leftarrow> has PRT_FLOWCTRL 2;
     conflux1 \<leftarrow> has PRT_CONFLUX 1;
     Some (summary_zero\<lparr>protocols_known := True,
       supports_ed25519_link_handshake_compat := linkauth,
       supports_ed25519_link_handshake_any := linkauth_any,
       supports_extend2_cells := relay2,
       supports_accepting_ipv6_extends := relay2 \<or> relay3,
       supports_initiating_ipv6_extends := relay3,
       supports_canonical_ipv6_conns := relay3,
       supports_ed25519_hs_intro := hsintro4,
       supports_establish_intro_dos_extension := hsintro5,
       supports_v3_rendezvous_point := hsrend2,
       supports_v3_hsdir := hsdir2,
       supports_hs_setup_padding := padding2,
       supports_congestion_control := flowctrl2 \<and> relay4,
       supports_conflux := flowctrl2 \<and> conflux1,
       supports_ntor_v3 := relay4,
       supports_cgo := flowctrl2 \<and> relay5 \<and> relay6\<rparr>)
   }"

text \<open>\<open>protover_summary_map\<close>: \<open>None\<close> is the null pointer.\<close>

type_synonym summary_cache = "(string \<times> protover_summary_flags_t) list option"

definition MAX_PROTOVER_SUMMARY_MAP_LEN :: nat where "MAX_PROTOVER_SUMMARY_MAP_LEN = 1024"

definition protover_summary_cache_free_all :: "summary_cache \<Rightarrow> summary_cache" where
  "protover_summary_cache_free_all summary_map = None"

text \<open>Storing an entry returns the one it replaces, of which there must be none.\<close>

definition memoize_protover_summary :: "summary_cache \<Rightarrow> string \<Rightarrow> (protover_summary_flags_t \<times> summary_cache) option" where
  "memoize_protover_summary summary_map protocols = do {
     let m = (case summary_map of None \<Rightarrow> [] | Some m \<Rightarrow> m);
     let m = (if length m \<ge> MAX_PROTOVER_SUMMARY_MAP_LEN then [] else m);
     case map_of m protocols of
       Some cached \<Rightarrow> do {
         tor_assert (protocols_known cached);
         Some (cached, Some m)
       }
     | None \<Rightarrow> do {
         out \<leftarrow> compute_summary protocols;
         let cached = map_of m protocols;
         let m = (protocols, out) # m;
         tor_assert (cached = None);
         Some (out, Some m)
       }
   }"

definition summarize_protover_flags ::
  "summary_cache \<Rightarrow> string option \<Rightarrow> string option \<Rightarrow> (protover_summary_flags_t \<times> summary_cache) option" where
  "summarize_protover_flags summary_map protocols version = do {
     (out, summary_map) \<leftarrow>
       (case protocols of
          Some p \<Rightarrow> if strcmp p [] \<noteq> 0 then memoize_protover_summary summary_map p else Some (summary_zero, summary_map)
        | None \<Rightarrow> Some (summary_zero, summary_map));
     let out = (case version of
          None \<Rightarrow> out
        | Some v \<Rightarrow>
            if strcmp v [] \<noteq> 0 \<and> strcmpstart v ''Tor '' = 0 then
              (if \<not> protocols_known out
               then out\<lparr>supports_extend2_cells := tor_version_as_new_as v ''0.2.4.8-alpha'', protocols_known := True\<rparr>
               else if \<not> tor_version_as_new_as v ''0.3.0.8'' then out\<lparr>supports_v3_hsdir := False\<rparr>
               else out)
            else out);
     Some (out, summary_map)
   }"

section \<open>The cache is transparent\<close>

lemma supports_protocol_defined: "protocol_list_supports_protocol p tp v \<noteq> None"
  using parse_protocol_list_defined [of p] by (auto simp: protocol_list_supports_protocol_def)

lemma supports_or_later_defined:
  assumes "v \<le> 63"
  shows "protocol_list_supports_protocol_or_later p tp v \<noteq> None"
proof -
  obtain m where "bitmask_for_range v 63 = Some m" using bitmask_for_range_bits [OF assms] by blast
  then show ?thesis using parse_protocol_list_defined [of p]
    by (auto simp: protocol_list_supports_protocol_or_later_def split: option.splits)
qed

definition supp :: "string \<Rightarrow> protocol_type_t \<Rightarrow> nat \<Rightarrow> bool" where
  "supp p tp v = the (protocol_list_supports_protocol p tp v)"

lemma supp_Some: "protocol_list_supports_protocol p tp v = Some (supp p tp v)"
  using supports_protocol_defined [of p tp v] by (auto simp: supp_def)

lemma compute_summary_total: obtains f where "compute_summary p = Some f" "protocols_known f"
proof -
  obtain l where "protocol_list_supports_protocol_or_later p PRT_LINKAUTH 3 = Some l"
    using supports_or_later_defined [of 3 p PRT_LINKAUTH] by auto
  then show ?thesis using that by (simp add: compute_summary_def supp_Some Let_def)
qed

text \<open>The invariant of the cache.\<close>

definition cache_ok :: "summary_cache \<Rightarrow> bool" where
  "cache_ok c \<longleftrightarrow> (case c of None \<Rightarrow> True | Some m \<Rightarrow>
     length m \<le> MAX_PROTOVER_SUMMARY_MAP_LEN \<and> distinct (map fst m) \<and> (\<forall>(p, f) \<in> set m. compute_summary p = Some f))"

lemma memoize_correct:
  assumes "cache_ok c"
  shows "\<exists>c' f. memoize_protover_summary c p = Some (f, c') \<and> compute_summary p = Some f \<and> cache_ok c'"
proof -
  define m where "m = (case c of None \<Rightarrow> [] | Some m \<Rightarrow> m)"
  define m' where "m' = (if length m \<ge> MAX_PROTOVER_SUMMARY_MAP_LEN then [] else m)"
  have m: "length m' < MAX_PROTOVER_SUMMARY_MAP_LEN" "distinct (map fst m')" "\<forall>(p, f) \<in> set m'. compute_summary p = Some f"
    using assms by (auto simp: m_def m'_def cache_ok_def MAX_PROTOVER_SUMMARY_MAP_LEN_def split: option.splits)
  obtain f where f: "compute_summary p = Some f" "protocols_known f" by (rule compute_summary_total)
  have eq: "memoize_protover_summary c p = (case map_of m' p of
      Some cached \<Rightarrow> do { tor_assert (protocols_known cached); Some (cached, Some m') }
    | None \<Rightarrow> Some (f, Some ((p, f) # m')))"
    using f(1) by (simp add: memoize_protover_summary_def m_def m'_def Let_def split: option.splits)
  show ?thesis
  proof (cases "map_of m' p")
    case None
    then have "p \<notin> fst ` set m'" by (simp add: map_of_eq_None_iff)
    then show ?thesis using None eq f m by (auto simp: cache_ok_def)
  next
    case (Some g)
    then have "g = f" using m(3) f(1) map_of_SomeD [OF Some] by auto
    then show ?thesis using Some eq f m by (auto simp: cache_ok_def)
  qed
qed

definition uncached_summary :: "unit \<Rightarrow> string \<Rightarrow> (protover_summary_flags_t \<times> unit) option" where
  "uncached_summary u p = map_option (\<lambda>f. (f, ())) (compute_summary p)"

interpretation summaries: op_refinement memoize_protover_summary uncached_summary cache_ok "\<lambda>_. ()"
proof
  fix s opn out a
  assume "cache_ok s" "uncached_summary () opn = Some (out, a)"
  then show "\<exists>s'. memoize_protover_summary s opn = Some (out, s') \<and> cache_ok s' \<and> () = a"
    using memoize_correct [of s opn] by (auto simp: uncached_summary_def)
qed

text \<open>C40 The cache of protocol summaries is transparent: any sequence of calls, starting with no cache, returns
  for each list what an uncached computation returns, trips no assertion, and the cache never holds more
  than \<open>MAX_PROTOVER_SUMMARY_MAP_LEN\<close> entries.\<close>

theorem summary_cache_transparent:
  "\<exists>c. run_ops memoize_protover_summary None ps = Some (map (\<lambda>p. the (compute_summary p)) ps, c) \<and> cache_ok c"
proof -
  have spec: "run_ops uncached_summary () ps = Some (map (\<lambda>p. the (compute_summary p)) ps, ())"
  proof (induction ps)
    case (Cons p ps)
    obtain f where "compute_summary p = Some f" by (rule compute_summary_total)
    then show ?case using Cons by (simp add: uncached_summary_def)
  qed simp
  have "cache_ok None" by (simp add: cache_ok_def)
  from summaries.run_refines [OF this spec] show ?thesis by blast
qed

end
