(* ===== verification/Relay_Msg.thy ===== *)
theory Relay_Msg
  imports Prelude
begin

text \<open>
  \<open>core/or/relay_msg.c\<close>: relay messages and the two formats in which they travel in the payload of a
  cell.  The body of a message is the list of the bytes that can be read from its pointer, and reading
  past it is \<open>None\<close>; the bytes of the random number generator that fill the rest of a cell are a
  parameter.
\<close>

unbundle bit_operations_syntax

section \<open>Cells and messages\<close>

definition CELL_PAYLOAD_SIZE :: nat where "CELL_PAYLOAD_SIZE = 509"
definition RELAY_HEADER_SIZE_V0 :: nat where "RELAY_HEADER_SIZE_V0 = 1 + 2 + 2 + 4 + 2"
definition RELAY_HEADER_SIZE_V1_NO_STREAM_ID :: nat where "RELAY_HEADER_SIZE_V1_NO_STREAM_ID = 16 + 1 + 2"
definition RELAY_HEADER_SIZE_V1_WITH_STREAM_ID :: nat where "RELAY_HEADER_SIZE_V1_WITH_STREAM_ID = 16 + 1 + 2 + 2"
definition RELAY_PAYLOAD_SIZE_MAX :: nat where "RELAY_PAYLOAD_SIZE_MAX = CELL_PAYLOAD_SIZE - RELAY_HEADER_SIZE_V0"

definition CELL_RELAY :: u8 where "CELL_RELAY = 3"
definition CELL_RELAY_EARLY :: u8 where "CELL_RELAY_EARLY = 9"

datatype relay_cell_fmt_t = RELAY_CELL_FORMAT_V0 | RELAY_CELL_FORMAT_V1

record cell_t =
  cell_circ_id :: u32
  cell_command :: u8
  cell_payload :: "u8 list"

record relay_msg_t =
  rm_command :: u8
  rm_length :: u16
  rm_stream_id :: u16
  rm_is_relay_early :: bool
  rm_body :: "u8 list"

text \<open>All fields zero, as \<open>memset\<close> leaves them; the body is a null pointer.\<close>

definition relay_msg_clear :: relay_msg_t where
  "relay_msg_clear = \<lparr>rm_command = 0, rm_length = 0, rm_stream_id = 0, rm_is_relay_early = False, rm_body = []\<rparr>"

definition is_known_relay_command :: "u8 \<Rightarrow> bool" where
  "is_known_relay_command cmd \<longleftrightarrow>
     cmd \<in> {1, 13, 19, 20, 21, 22, 4, 2, 10, 3, 32, 33, 14, 6, 15, 7, 34, 35, 40, 38, 41, 42, 36, 37, 39, 11, 12, 5, 8, 9, 43, 44}"

definition relay_cmd_expects_streamid_in_v1 :: "u8 \<Rightarrow> bool" where
  "relay_cmd_expects_streamid_in_v1 relay_command \<longleftrightarrow> relay_command \<in> {1, 13, 4, 2, 3, 11, 12, 43, 44}"

definition relay_cell_max_payload_size :: "relay_cell_fmt_t \<Rightarrow> u8 \<Rightarrow> nat" where
  "relay_cell_max_payload_size format relay_command =
     (case format of
        RELAY_CELL_FORMAT_V0 \<Rightarrow> CELL_PAYLOAD_SIZE - RELAY_HEADER_SIZE_V0
      | RELAY_CELL_FORMAT_V1 \<Rightarrow>
          if relay_cmd_expects_streamid_in_v1 relay_command
          then CELL_PAYLOAD_SIZE - RELAY_HEADER_SIZE_V1_WITH_STREAM_ID
          else CELL_PAYLOAD_SIZE - RELAY_HEADER_SIZE_V1_NO_STREAM_ID)"

section \<open>Bytes\<close>

text \<open>The accessors of \<open>lib/arch/bytes.h\<close> and the byte swap of \<open>htons()\<close>, on a little-endian host.\<close>

definition get_uint8 :: "u8 list \<Rightarrow> nat \<Rightarrow> u8" where
  "get_uint8 mem cp = mem ! cp"

definition get_uint16 :: "u8 list \<Rightarrow> nat \<Rightarrow> u16" where
  "get_uint16 mem cp = ucast (mem ! cp) OR push_bit 8 (ucast (mem ! (cp + 1)))"

definition set_uint16 :: "u8 list \<Rightarrow> nat \<Rightarrow> u16 \<Rightarrow> u8 list" where
  "set_uint16 mem cp v = mem[cp := ucast v, cp + 1 := ucast (drop_bit 8 v)]"

definition htons :: "u16 \<Rightarrow> u16" where
  "htons a = push_bit 8 a OR drop_bit 8 a"

definition ntohs :: "u16 \<Rightarrow> u16" where
  "ntohs a = htons a"

text \<open>\<open>memcpy (mem + off, src, n)\<close>; \<open>None\<close> when it would read or write out of bounds.\<close>

definition mem_copy :: "u8 list \<Rightarrow> nat \<Rightarrow> u8 list \<Rightarrow> nat \<Rightarrow> u8 list option" where
  "mem_copy mem off src n =
     (if n \<le> length src \<and> off + n \<le> length mem
      then Some (take off mem @ take n src @ drop (off + n) mem) else None)"

section \<open>Operations\<close>

definition relay_msg_copy :: "relay_msg_t \<Rightarrow> relay_msg_t option" where
  "relay_msg_copy msg = do {
     tor_assert (unat (rm_length msg) \<le> RELAY_PAYLOAD_SIZE_MAX);
     body \<leftarrow> mem_copy (replicate (unat (rm_length msg)) 0) 0 (rm_body msg) (unat (rm_length msg));
     Some (msg\<lparr>rm_body := body\<rparr>)
   }"

definition relay_cell_pad :: "(nat \<Rightarrow> u8) \<Rightarrow> cell_t \<Rightarrow> nat \<Rightarrow> cell_t" where
  "relay_cell_pad rng cell end_of_message =
     (let skip = 4 in
      if end_of_message + skip \<ge> CELL_PAYLOAD_SIZE then cell
      else cell\<lparr>cell_payload := take (end_of_message + skip) (cell_payload cell)
                  @ map rng [0..<CELL_PAYLOAD_SIZE - (end_of_message + skip)]\<rparr>)"

definition encode_v0_cell :: "(nat \<Rightarrow> u8) \<Rightarrow> relay_msg_t \<Rightarrow> cell_t \<Rightarrow> (int \<times> cell_t) option" where
  "encode_v0_cell rng msg cell_out =
     (let maxlen = relay_cell_max_payload_size RELAY_CELL_FORMAT_V0 (rm_command msg) in
      if unat (rm_length msg) > maxlen then Some (-1, cell_out)
      else do {
        let out = (cell_payload cell_out)[0 := rm_command msg];
        let out = set_uint16 out 3 (htons (rm_stream_id msg));
        let out = set_uint16 out 9 (htons (rm_length msg));
        out \<leftarrow> mem_copy out RELAY_HEADER_SIZE_V0 (rm_body msg) (unat (rm_length msg));
        Some (0, relay_cell_pad rng (cell_out\<lparr>cell_payload := out\<rparr>) (RELAY_HEADER_SIZE_V0 + unat (rm_length msg)))
      })"

definition encode_v1_cell :: "(nat \<Rightarrow> u8) \<Rightarrow> relay_msg_t \<Rightarrow> cell_t \<Rightarrow> (int \<times> cell_t) option" where
  "encode_v1_cell rng msg cell_out =
     (let expects_streamid = relay_cmd_expects_streamid_in_v1 (rm_command msg);
          maxlen = relay_cell_max_payload_size RELAY_CELL_FORMAT_V1 (rm_command msg)
      in if unat (rm_length msg) > maxlen then Some (-1, cell_out)
      else
        let out = (cell_payload cell_out)[16 := rm_command msg];
            out = set_uint16 out 17 (htons (rm_length msg))
        in if (if expects_streamid then rm_stream_id msg = 0 else rm_stream_id msg \<noteq> 0)
           then Some (-1, cell_out\<lparr>cell_payload := out\<rparr>)
           else do {
             let out = (if expects_streamid then set_uint16 out 19 (htons (rm_stream_id msg)) else out);
             let payload_offset = (if expects_streamid then 21 else 19);
             out \<leftarrow> mem_copy out payload_offset (rm_body msg) (unat (rm_length msg));
             Some (0, relay_cell_pad rng (cell_out\<lparr>cell_payload := out\<rparr>) (payload_offset + unat (rm_length msg)))
           })"

definition decode_v0_cell :: "cell_t \<Rightarrow> int \<times> relay_msg_t" where
  "decode_v0_cell cell =
     (let out = relay_msg_clear\<lparr>rm_is_relay_early := (cell_command cell = CELL_RELAY_EARLY)\<rparr>;
          body = cell_payload cell;
          out = out\<lparr>rm_command := get_uint8 body 0,
                    rm_stream_id := ntohs (get_uint16 body 3),
                    rm_length := ntohs (get_uint16 body 9)\<rparr>
      in if unat (rm_length out) > CELL_PAYLOAD_SIZE - RELAY_HEADER_SIZE_V0 then (-1, out)
         else (0, out\<lparr>rm_body := drop 11 body\<rparr>))"

definition decode_v1_cell :: "cell_t \<Rightarrow> int \<times> relay_msg_t" where
  "decode_v1_cell cell =
     (let out = relay_msg_clear\<lparr>rm_is_relay_early := (cell_command cell = CELL_RELAY_EARLY)\<rparr>;
          body = cell_payload cell;
          out = out\<lparr>rm_command := get_uint8 body 16\<rparr>
      in if \<not> is_known_relay_command (rm_command out) then (-1, out)
         else
           let out = out\<lparr>rm_length := ntohs (get_uint16 body 17)\<rparr>;
               streamid = relay_cmd_expects_streamid_in_v1 (rm_command out);
               out = (if streamid then out\<lparr>rm_stream_id := ntohs (get_uint16 body 19)\<rparr> else out);
               payload_offset = (if streamid then 21 else 19)
           in if unat (rm_length out) > CELL_PAYLOAD_SIZE - payload_offset then (-1, out)
              else (0, out\<lparr>rm_body := drop payload_offset body\<rparr>))"

definition relay_msg_encode_cell :: "(nat \<Rightarrow> u8) \<Rightarrow> relay_cell_fmt_t \<Rightarrow> relay_msg_t \<Rightarrow> (int \<times> cell_t) option" where
  "relay_msg_encode_cell rng format msg =
     (let cell_out = \<lparr>cell_circ_id = 0,
                      cell_command = if rm_is_relay_early msg then CELL_RELAY_EARLY else CELL_RELAY,
                      cell_payload = replicate CELL_PAYLOAD_SIZE 0\<rparr>
      in case format of
           RELAY_CELL_FORMAT_V0 \<Rightarrow> encode_v0_cell rng msg cell_out
         | RELAY_CELL_FORMAT_V1 \<Rightarrow> encode_v1_cell rng msg cell_out)"

definition relay_msg_decode_cell_in_place :: "relay_cell_fmt_t \<Rightarrow> cell_t \<Rightarrow> int \<times> relay_msg_t" where
  "relay_msg_decode_cell_in_place format cell =
     (case format of
        RELAY_CELL_FORMAT_V0 \<Rightarrow> decode_v0_cell cell
      | RELAY_CELL_FORMAT_V1 \<Rightarrow> decode_v1_cell cell)"

text \<open>\<open>None\<close> is the null pointer the function returns on an error.\<close>

definition relay_msg_decode_cell :: "relay_cell_fmt_t \<Rightarrow> cell_t \<Rightarrow> relay_msg_t option" where
  "relay_msg_decode_cell format cell =
     (case relay_msg_decode_cell_in_place format cell of (r, msg) \<Rightarrow> if r < 0 then None else Some msg)"

section \<open>Byte order\<close>

named_theorems relay_sizes \<open>the sizes of cells and headers\<close>

lemmas [relay_sizes] = CELL_PAYLOAD_SIZE_def RELAY_HEADER_SIZE_V0_def RELAY_HEADER_SIZE_V1_NO_STREAM_ID_def
  RELAY_HEADER_SIZE_V1_WITH_STREAM_ID_def RELAY_PAYLOAD_SIZE_MAX_def

lemma set_uint16_length [simp]: "length (set_uint16 mem cp v) = length mem"
  by (simp add: set_uint16_def)

text \<open>\<open>htons\<close> and \<open>set_uint16\<close> store the high byte first.\<close>

lemma set_uint16_htons: "set_uint16 mem cp (htons v) = mem[cp := ucast (drop_bit 8 v), cp + 1 := ucast v]"
proof -
  have "(ucast (htons v) :: u8) = ucast (drop_bit 8 v)"
    by (rule bit_word_eqI) (auto simp: htons_def bit_simps)
  moreover have "(ucast (drop_bit 8 (htons v)) :: u8) = ucast v"
    by (rule bit_word_eqI) (auto simp: htons_def bit_simps)
  ultimately show ?thesis by (simp add: set_uint16_def)
qed

lemma bit_beyond: "8 \<le> n \<Longrightarrow> \<not> bit (w :: u8) n"
  using bit_imp_le_length [of w n] by auto

lemma ntohs_get_uint16: "ntohs (get_uint16 mem cp) = push_bit 8 (ucast (mem ! cp)) OR ucast (mem ! (cp + 1))"
  by (rule bit_word_eqI) (auto simp: ntohs_def htons_def get_uint16_def bit_simps bit_beyond)

lemma join_bytes: "push_bit 8 (ucast (ucast (drop_bit 8 v) :: u8)) OR ucast (ucast v :: u8) = (v :: u16)"
  by (rule bit_word_eqI) (auto simp: bit_simps bit_beyond)

section \<open>The layout of an encoded cell\<close>

definition hi8 :: "u16 \<Rightarrow> u8" where "hi8 v = ucast (drop_bit 8 v)"
definition lo8 :: "u16 \<Rightarrow> u8" where "lo8 v = ucast v"

text \<open>The header of each format, with the fields of the cryptography zero.\<close>

definition relay_header :: "relay_cell_fmt_t \<Rightarrow> relay_msg_t \<Rightarrow> u8 list" where
  "relay_header format msg =
     (case format of
        RELAY_CELL_FORMAT_V0 \<Rightarrow>
          [rm_command msg, 0, 0, hi8 (rm_stream_id msg), lo8 (rm_stream_id msg), 0, 0, 0, 0, hi8 (rm_length msg), lo8 (rm_length msg)]
      | RELAY_CELL_FORMAT_V1 \<Rightarrow>
          replicate 16 0 @ [rm_command msg, hi8 (rm_length msg), lo8 (rm_length msg)]
          @ (if relay_cmd_expects_streamid_in_v1 (rm_command msg) then [hi8 (rm_stream_id msg), lo8 (rm_stream_id msg)] else []))"

text \<open>What follows the message: up to four zero bytes, then random ones.\<close>

definition relay_padding :: "(nat \<Rightarrow> u8) \<Rightarrow> nat \<Rightarrow> u8 list" where
  "relay_padding rng rest = replicate (min 4 rest) 0 @ map rng [0..<rest - 4]"

definition relay_layout :: "(nat \<Rightarrow> u8) \<Rightarrow> relay_cell_fmt_t \<Rightarrow> relay_msg_t \<Rightarrow> u8 list" where
  "relay_layout rng format msg =
     (let used = relay_header format msg @ take (unat (rm_length msg)) (rm_body msg)
      in used @ relay_padding rng (CELL_PAYLOAD_SIZE - length used))"

text \<open>A message the encoder accepts: short enough for the format and, in the new format, with a
  stream exactly if its command has one.\<close>

definition relay_msg_ok :: "relay_cell_fmt_t \<Rightarrow> relay_msg_t \<Rightarrow> bool" where
  "relay_msg_ok format msg \<longleftrightarrow>
     unat (rm_length msg) \<le> relay_cell_max_payload_size format (rm_command msg)
     \<and> (format = RELAY_CELL_FORMAT_V1 \<longrightarrow> (rm_stream_id msg \<noteq> 0 \<longleftrightarrow> relay_cmd_expects_streamid_in_v1 (rm_command msg)))"

lemma split_zeros: "k \<le> n \<Longrightarrow> replicate n (0 :: u8) = replicate k 0 @ replicate (n - k) 0"
  by (simp add: replicate_add [symmetric])

lemma mem_copy_append:
  assumes "n \<le> length src" "n \<le> m"
  shows "mem_copy (hdr @ replicate m 0) (length hdr) src n = Some (hdr @ take n src @ replicate (m - n) 0)"
  using assms by (simp add: mem_copy_def)

lemma relay_cell_pad_zeros:
  assumes "length used \<le> CELL_PAYLOAD_SIZE" "cell_payload cell = used @ replicate (CELL_PAYLOAD_SIZE - length used) 0"
  shows "relay_cell_pad rng cell (length used) = cell\<lparr>cell_payload := used @ relay_padding rng (CELL_PAYLOAD_SIZE - length used)\<rparr>"
  using assms by (cases cell) (auto simp: relay_cell_pad_def relay_padding_def Let_def min_def)

lemma finish_cell:
  assumes "n \<le> length src" "length hdr + n \<le> CELL_PAYLOAD_SIZE" "off = length hdr"
    and "mem = hdr @ replicate (CELL_PAYLOAD_SIZE - length hdr) 0"
  shows "(mem_copy mem off src n \<bind> (\<lambda>out. Some (0 :: int, relay_cell_pad rng (cell\<lparr>cell_payload := out\<rparr>) (off + n))))
    = Some (0, cell\<lparr>cell_payload := hdr @ take n src @ relay_padding rng (CELL_PAYLOAD_SIZE - (length hdr + n))\<rparr>)"
proof -
  have pad: "relay_cell_pad rng (cell\<lparr>cell_payload := hdr @ take n src @ replicate (CELL_PAYLOAD_SIZE - length hdr - n) 0\<rparr>) (length (hdr @ take n src))
    = cell\<lparr>cell_payload := (hdr @ take n src) @ relay_padding rng (CELL_PAYLOAD_SIZE - length (hdr @ take n src))\<rparr>"
    using assms by (subst relay_cell_pad_zeros) auto
  have copy: "mem_copy mem off src n = Some (hdr @ take n src @ replicate (CELL_PAYLOAD_SIZE - length hdr - n) 0)"
    using assms mem_copy_append [of n src "CELL_PAYLOAD_SIZE - length hdr" hdr] by simp
  show ?thesis unfolding copy using pad assms by simp
qed

lemma header_v0:
  "set_uint16 (set_uint16 ((replicate 11 0 @ zs)[0 := rm_command msg]) 3 (htons (rm_stream_id msg))) 9 (htons (rm_length msg))
   = relay_header RELAY_CELL_FORMAT_V0 msg @ zs"
  by (simp add: set_uint16_htons relay_header_def hi8_def lo8_def numeral_eq_Suc)

lemma header_v1:
  fixes msg
  defines "cmd \<equiv> relay_cmd_expects_streamid_in_v1 (rm_command msg)"
  defines "out zs \<equiv> set_uint16 ((replicate 19 0 @ zs)[16 := rm_command msg]) 17 (htons (rm_length msg))"
  shows "cmd \<Longrightarrow> set_uint16 (out (0 # 0 # zs)) 19 (htons (rm_stream_id msg)) = relay_header RELAY_CELL_FORMAT_V1 msg @ zs"
    and "\<not> cmd \<Longrightarrow> out zs = relay_header RELAY_CELL_FORMAT_V1 msg @ zs"
  unfolding out_def
  by (simp_all add: set_uint16_htons relay_header_def hi8_def lo8_def cmd_def [symmetric] numeral_eq_Suc)

lemma header_length [simp]:
  "length (relay_header RELAY_CELL_FORMAT_V0 msg) = 11"
  "length (relay_header RELAY_CELL_FORMAT_V1 msg) = (if relay_cmd_expects_streamid_in_v1 (rm_command msg) then 21 else 19)"
  by (simp_all add: relay_header_def)

lemma encode_v0_layout:
  assumes "relay_msg_ok RELAY_CELL_FORMAT_V0 msg" "unat (rm_length msg) \<le> length (rm_body msg)"
    and z: "cell_payload cell = replicate CELL_PAYLOAD_SIZE 0"
  shows "encode_v0_cell rng msg cell = Some (0, cell\<lparr>cell_payload := relay_layout rng RELAY_CELL_FORMAT_V0 msg\<rparr>)"
proof -
  have n: "unat (rm_length msg) \<le> 498" using assms by (simp add: relay_msg_ok_def relay_cell_max_payload_size_def relay_sizes)
  have z: "cell_payload cell = replicate 11 0 @ replicate (CELL_PAYLOAD_SIZE - 11) 0"
    using z split_zeros [of 11 CELL_PAYLOAD_SIZE] by (simp add: relay_sizes)
  show ?thesis
    unfolding encode_v0_cell_def z header_v0 Let_def
    using n assms(2) by (simp add: relay_cell_max_payload_size_def relay_layout_def Let_def relay_sizes)
       (subst finish_cell [where hdr = "relay_header RELAY_CELL_FORMAT_V0 msg"], simp_all add: relay_sizes)
qed

lemma encode_v1_layout:
  assumes "relay_msg_ok RELAY_CELL_FORMAT_V1 msg" "unat (rm_length msg) \<le> length (rm_body msg)"
    and z: "cell_payload cell = replicate CELL_PAYLOAD_SIZE 0"
  shows "encode_v1_cell rng msg cell = Some (0, cell\<lparr>cell_payload := relay_layout rng RELAY_CELL_FORMAT_V1 msg\<rparr>)"
proof -
  define e where "e = relay_cmd_expects_streamid_in_v1 (rm_command msg)"
  have n: "unat (rm_length msg) \<le> (if e then 488 else 490)" "(rm_stream_id msg = 0) = (\<not> e)"
    using assms by (auto simp: relay_msg_ok_def relay_cell_max_payload_size_def relay_sizes e_def)
  have z: "cell_payload cell = replicate 19 0 @ replicate (CELL_PAYLOAD_SIZE - 19) 0"
    using z split_zeros [of 19 CELL_PAYLOAD_SIZE] by (simp add: relay_sizes)
  have z2: "replicate (CELL_PAYLOAD_SIZE - 19) (0 :: u8) = 0 # 0 # replicate (CELL_PAYLOAD_SIZE - 21) 0"
    using split_zeros [of 2 490] by (simp add: relay_sizes numeral_2_eq_2)
  show ?thesis
  proof (cases e)
    case True
    note h = header_v1(1) [of msg "replicate (CELL_PAYLOAD_SIZE - 21) 0", folded e_def z2, OF True]
    show ?thesis
      unfolding encode_v1_cell_def z Let_def e_def [symmetric]
      using n assms(2) True by (simp add: relay_cell_max_payload_size_def relay_layout_def Let_def relay_sizes e_def)
        (subst finish_cell [where hdr = "relay_header RELAY_CELL_FORMAT_V1 msg"], simp_all add: relay_sizes h [unfolded relay_sizes, simplified])
  next
    case False
    note h = header_v1(2) [of msg "replicate (CELL_PAYLOAD_SIZE - 19) 0", folded e_def, OF False]
    show ?thesis
      unfolding encode_v1_cell_def z Let_def e_def [symmetric] h
      using n assms(2) False by (simp add: relay_cell_max_payload_size_def relay_layout_def Let_def relay_sizes e_def)
        (subst finish_cell [where hdr = "relay_header RELAY_CELL_FORMAT_V1 msg"], simp_all add: relay_sizes)
  qed
qed

theorem relay_msg_encode_layout:
  assumes "relay_msg_ok format msg" "unat (rm_length msg) \<le> length (rm_body msg)"
  shows "relay_msg_encode_cell rng format msg =
    Some (0, \<lparr>cell_circ_id = 0, cell_command = if rm_is_relay_early msg then CELL_RELAY_EARLY else CELL_RELAY,
              cell_payload = relay_layout rng format msg\<rparr>)"
  using assms by (cases format) (simp_all only: relay_msg_encode_cell_def Let_def relay_cell_fmt_t.case,
    simp_all add: encode_v0_layout encode_v1_layout)

theorem relay_msg_encode_fails:
  assumes "\<not> relay_msg_ok format msg"
  shows "\<exists>cell. relay_msg_encode_cell rng format msg = Some (-1, cell)"
  using assms by (cases format)
    (auto simp: relay_msg_ok_def relay_msg_encode_cell_def encode_v0_cell_def encode_v1_cell_def Let_def)

section \<open>Round trip\<close>

lemma layout_length:
  assumes "relay_msg_ok format msg" "unat (rm_length msg) \<le> length (rm_body msg)"
  shows "length (relay_layout rng format msg) = CELL_PAYLOAD_SIZE"
  using assms by (cases format)
    (auto simp: relay_layout_def relay_padding_def Let_def relay_msg_ok_def relay_cell_max_payload_size_def relay_sizes min_def split: if_splits)

lemma relay_msg_copy_eq:
  assumes "unat (rm_length msg) \<le> length (rm_body msg)" "unat (rm_length msg) \<le> RELAY_PAYLOAD_SIZE_MAX"
  shows "relay_msg_copy msg = Some (msg\<lparr>rm_body := take (unat (rm_length msg)) (rm_body msg)\<rparr>)"
  using assms by (simp add: relay_msg_copy_def mem_copy_def)

lemma max_payload_le: "relay_cell_max_payload_size format cmd \<le> RELAY_PAYLOAD_SIZE_MAX"
  by (cases format) (simp_all add: relay_cell_max_payload_size_def relay_sizes)

lemma bytes_join: "push_bit 8 (ucast (hi8 v)) OR ucast (lo8 v) = v"
  unfolding hi8_def lo8_def by (rule join_bytes)

lemma decode_v0_layout:
  assumes "relay_msg_ok RELAY_CELL_FORMAT_V0 msg"
    and "cell_payload cell = relay_header RELAY_CELL_FORMAT_V0 msg @ rest"
  shows "decode_v0_cell cell = (0, msg\<lparr>rm_is_relay_early := (cell_command cell = CELL_RELAY_EARLY), rm_body := rest\<rparr>)"
  using assms
  by (cases msg) (simp add: decode_v0_cell_def ntohs_get_uint16 get_uint8_def relay_header_def bytes_join Let_def relay_msg_clear_def
      relay_msg_ok_def relay_cell_max_payload_size_def)

lemma nth_zeros [simp]: "(replicate 16 z @ xs) ! 16 = xs ! 0" "(replicate 16 z @ xs) ! 17 = xs ! 1" "(replicate 16 z @ xs) ! 18 = xs ! 2"
  "(replicate 16 z @ xs) ! 19 = xs ! 3" "(replicate 16 z @ xs) ! 20 = xs ! 4"
  by (simp_all add: nth_append)

lemma decode_v1_layout:
  assumes "relay_msg_ok RELAY_CELL_FORMAT_V1 msg" "is_known_relay_command (rm_command msg)"
    and "cell_payload cell = relay_header RELAY_CELL_FORMAT_V1 msg @ rest"
  shows "decode_v1_cell cell = (0, msg\<lparr>rm_is_relay_early := (cell_command cell = CELL_RELAY_EARLY), rm_body := rest\<rparr>)"
  using assms
  by (cases msg) (auto simp: decode_v1_cell_def ntohs_get_uint16 get_uint8_def relay_header_def bytes_join Let_def relay_msg_clear_def
      relay_msg_ok_def relay_cell_max_payload_size_def relay_sizes)

lemma decode_layout:
  assumes "relay_msg_ok format msg" "format = RELAY_CELL_FORMAT_V1 \<longrightarrow> is_known_relay_command (rm_command msg)"
    and "cell_payload cell = relay_header format msg @ rest"
  shows "relay_msg_decode_cell format cell = Some (msg\<lparr>rm_is_relay_early := (cell_command cell = CELL_RELAY_EARLY), rm_body := rest\<rparr>)"
  using assms by (cases format) (simp_all add: relay_msg_decode_cell_def relay_msg_decode_cell_in_place_def decode_v0_layout decode_v1_layout)

text \<open>C6 Encoding a message that fits its format and decoding the cell gives the message back: the cell
  has the size of a payload, and an owned copy of the decoded message equals an owned copy of the
  original.  In the new format the command must be a known one.\<close>

theorem relay_msg_roundtrip:
  assumes "relay_msg_ok format msg" "unat (rm_length msg) \<le> length (rm_body msg)"
    and "format = RELAY_CELL_FORMAT_V1 \<longrightarrow> is_known_relay_command (rm_command msg)"
  shows "\<exists>cell m. relay_msg_encode_cell rng format msg = Some (0, cell) \<and> length (cell_payload cell) = CELL_PAYLOAD_SIZE
    \<and> relay_msg_decode_cell format cell = Some m \<and> relay_msg_copy m = relay_msg_copy msg \<and> relay_msg_copy msg \<noteq> None"
proof -
  define cell where "cell = \<lparr>cell_circ_id = 0 :: u32, cell_command = if rm_is_relay_early msg then CELL_RELAY_EARLY else CELL_RELAY,
    cell_payload = relay_layout rng format msg\<rparr>"
  obtain pad where "cell_payload cell = relay_header format msg @ take (unat (rm_length msg)) (rm_body msg) @ pad"
    by (simp add: cell_def relay_layout_def Let_def)
  note d = decode_layout [OF assms(1,3) this]
  have early: "(cell_command cell = CELL_RELAY_EARLY) = rm_is_relay_early msg" by (simp add: cell_def CELL_RELAY_EARLY_def CELL_RELAY_def)
  have n: "unat (rm_length msg) \<le> RELAY_PAYLOAD_SIZE_MAX"
    using assms(1) max_payload_le [of format "rm_command msg"] by (simp add: relay_msg_ok_def)
  have "relay_msg_encode_cell rng format msg = Some (0, cell)" using assms by (simp add: relay_msg_encode_layout cell_def)
  moreover have "length (cell_payload cell) = CELL_PAYLOAD_SIZE" using assms by (simp add: cell_def layout_length)
  ultimately show ?thesis using d n assms(2) by (auto simp: relay_msg_copy_eq early)
qed

theorem relay_msg_roundtrip_witness:
  "\<exists>cell m. relay_msg_encode_cell (\<lambda>_. 7) RELAY_CELL_FORMAT_V1 \<lparr>rm_command = 2, rm_length = 3, rm_stream_id = 513, rm_is_relay_early = True, rm_body = [10, 20, 30]\<rparr> = Some (0, cell)
     \<and> length (cell_payload cell) = CELL_PAYLOAD_SIZE \<and> relay_msg_decode_cell RELAY_CELL_FORMAT_V1 cell = Some m
     \<and> relay_msg_copy m = relay_msg_copy \<lparr>rm_command = 2, rm_length = 3, rm_stream_id = 513, rm_is_relay_early = True, rm_body = [10, 20, 30]\<rparr>
     \<and> relay_msg_copy \<lparr>rm_command = 2, rm_length = 3, rm_stream_id = 513, rm_is_relay_early = True, rm_body = [10, 20, 30]\<rparr> \<noteq> None"
  by (rule relay_msg_roundtrip)
    (simp_all add: relay_msg_ok_def relay_cell_max_payload_size_def relay_cmd_expects_streamid_in_v1_def is_known_relay_command_def relay_sizes)

section \<open>What the decoder and the encoder accept\<close>

text \<open>C7 Every message decoded from a cell has the type its structure promises: its body holds at least
  the announced number of bytes, these are at most what a cell of the format can carry, so that copying
  the message never aborts; in the new format its command is known, and a command without a stream has
  stream zero.\<close>

theorem relay_msg_decode_type:
  assumes "length (cell_payload cell) = CELL_PAYLOAD_SIZE" "relay_msg_decode_cell format cell = Some m"
  shows "unat (rm_length m) \<le> length (rm_body m)
    \<and> unat (rm_length m) \<le> relay_cell_max_payload_size format (rm_command m)
    \<and> relay_msg_copy m \<noteq> None
    \<and> (format = RELAY_CELL_FORMAT_V1 \<longrightarrow> is_known_relay_command (rm_command m)
         \<and> (relay_cmd_expects_streamid_in_v1 (rm_command m) \<or> rm_stream_id m = 0))"
proof -
  have *: "unat (rm_length m) \<le> length (rm_body m) \<and> unat (rm_length m) \<le> relay_cell_max_payload_size format (rm_command m)
    \<and> (format = RELAY_CELL_FORMAT_V1 \<longrightarrow> is_known_relay_command (rm_command m)
         \<and> (relay_cmd_expects_streamid_in_v1 (rm_command m) \<or> rm_stream_id m = 0))"
    using assms by (cases format)
      (auto simp: relay_msg_decode_cell_def relay_msg_decode_cell_in_place_def decode_v0_cell_def decode_v1_cell_def Let_def
        relay_cell_max_payload_size_def relay_sizes relay_msg_clear_def split: if_splits)
  then show ?thesis using max_payload_le [of format "rm_command m"] by (auto simp: relay_msg_copy_eq)
qed

theorem relay_msg_decode_type_witness:
  "let cell = \<lparr>cell_circ_id = 9, cell_command = CELL_RELAY, cell_payload = replicate 16 5 @ [2, 0, 3, 1, 1] @ replicate 488 6\<rparr> in
   case relay_msg_decode_cell RELAY_CELL_FORMAT_V1 cell of None \<Rightarrow> False
   | Some m \<Rightarrow> rm_stream_id m = 257 \<and> unat (rm_length m) \<le> relay_cell_max_payload_size RELAY_CELL_FORMAT_V1 (rm_command m)"
proof -
  define cell :: cell_t where "cell = \<lparr>cell_circ_id = 9, cell_command = CELL_RELAY, cell_payload = replicate 16 5 @ [2, 0, 3, 1, 1] @ replicate 488 6\<rparr>"
  obtain m where m: "relay_msg_decode_cell RELAY_CELL_FORMAT_V1 cell = Some m" "rm_stream_id m = 257"
    by (simp add: cell_def relay_msg_decode_cell_def relay_msg_decode_cell_in_place_def decode_v1_cell_def Let_def get_uint8_def ntohs_get_uint16
        relay_cmd_expects_streamid_in_v1_def is_known_relay_command_def relay_sizes relay_msg_clear_def)
  have "length (cell_payload cell) = CELL_PAYLOAD_SIZE" by (simp add: cell_def relay_sizes)
  from relay_msg_decode_type [OF this m(1)] m show ?thesis unfolding Let_def cell_def [symmetric] by simp
qed

text \<open>The encoder returns 0 exactly on the messages that fit the format, and \<open>-1\<close> on all others, for
  every message whose announced bytes can be read; it never reads or writes out of bounds.\<close>

theorem relay_msg_encode_result:
  assumes "unat (rm_length msg) \<le> length (rm_body msg)"
  shows "map_option fst (relay_msg_encode_cell rng format msg) = Some (if relay_msg_ok format msg then 0 else -1)"
proof (cases "relay_msg_ok format msg")
  case True
  then show ?thesis using assms by (simp add: relay_msg_encode_layout)
next
  case False
  then show ?thesis using relay_msg_encode_fails [OF False, of rng] by auto
qed

theorem relay_msg_encode_result_witness:
  "map_option fst (relay_msg_encode_cell (\<lambda>_. 7) RELAY_CELL_FORMAT_V1 \<lparr>rm_command = 2, rm_length = 1, rm_stream_id = 0, rm_is_relay_early = False, rm_body = [10]\<rparr>) = Some (-1)"
  by (subst relay_msg_encode_result) (simp_all add: relay_msg_ok_def relay_cmd_expects_streamid_in_v1_def)

text \<open>The decoder of the new format accepts a stream identifier of zero where the encoder demands one:
  such a message cannot be encoded again.\<close>

theorem decoded_stream_zero:
  "let cell = \<lparr>cell_circ_id = 0, cell_command = CELL_RELAY, cell_payload = replicate 16 0 @ [2] @ replicate 492 0\<rparr> in
   case relay_msg_decode_cell RELAY_CELL_FORMAT_V1 cell of None \<Rightarrow> False
   | Some m \<Rightarrow> \<not> relay_msg_ok RELAY_CELL_FORMAT_V1 m"
  by (simp add: relay_msg_decode_cell_def relay_msg_decode_cell_in_place_def decode_v1_cell_def Let_def get_uint8_def ntohs_get_uint16
        relay_cmd_expects_streamid_in_v1_def is_known_relay_command_def relay_sizes relay_msg_clear_def relay_msg_ok_def)

end
