(* ===== verification/Pqueue.thy ===== *)
theory Pqueue
  imports Smartlist
begin

text \<open>
  The heap-based priority queue of \<open>lib/container/smartlist.c\<close>.  A heap is its list of pointers and
  the index field of every item.  The proofs are done once in the locale \<open>comparison\<close>; the contract of
  the queue is the locale \<open>priority_queue\<close>.
\<close>

section \<open>Definitions\<close>

text \<open>The pointers in the heap, and the index field of every item.\<close>

record 'p heap_t =
  h_list :: "'p list"
  h_idx :: "'p \<Rightarrow> int"

definition MAX_PARENT_IDX :: int where "MAX_PARENT_IDX = (2147483647 - 2) div 2"
definition IDX_MAY_HAVE_CHILDREN :: "nat \<Rightarrow> bool" where "IDX_MAY_HAVE_CHILDREN i \<longleftrightarrow> int i \<le> MAX_PARENT_IDX"
definition LEFT_CHILD :: "nat \<Rightarrow> nat" where "LEFT_CHILD i = 2 * i + 1"
definition PARENT :: "nat \<Rightarrow> nat" where "PARENT i = (i - 1) div 2"

definition UPDATE_IDX :: "nat \<Rightarrow> 'p heap_t \<Rightarrow> 'p heap_t" where
  "UPDATE_IDX i h = h\<lparr>h_idx := (h_idx h)(h_list h ! i := int i)\<rparr>"

text \<open>Exchange two items and record their new positions.\<close>

definition swap_items :: "nat \<Rightarrow> nat \<Rightarrow> 'p heap_t \<Rightarrow> 'p heap_t" where
  "swap_items i j h =
     (let h = h\<lparr>h_list := (h_list h)[i := h_list h ! j, j := h_list h ! i]\<rparr> in UPDATE_IDX j (UPDATE_IDX i h))"

lemma swap_items_list [simp]: "h_list (swap_items i j h) = (h_list h)[i := h_list h ! j, j := h_list h ! i]"
  by (simp add: swap_items_def UPDATE_IDX_def Let_def)

definition best_idx :: "('p \<Rightarrow> 'p \<Rightarrow> int) \<Rightarrow> 'p list \<Rightarrow> nat \<Rightarrow> nat" where
  "best_idx compare l idx =
     (let left_idx = LEFT_CHILD idx;
          best = (if compare (l ! idx) (l ! left_idx) < 0 then idx else left_idx)
      in if left_idx + 1 < length l \<and> compare (l ! (left_idx + 1)) (l ! best) < 0 then left_idx + 1 else best)"

lemma best_idx_cases: "best_idx compare l idx \<in> {idx, LEFT_CHILD idx, LEFT_CHILD idx + 1}"
  by (auto simp: best_idx_def Let_def)

lemma best_idx_bound: "LEFT_CHILD idx < length l \<Longrightarrow> best_idx compare l idx < length l"
  by (auto simp: best_idx_def Let_def LEFT_CHILD_def)

function smartlist_heapify :: "('p \<Rightarrow> 'p \<Rightarrow> int) \<Rightarrow> 'p heap_t \<Rightarrow> nat \<Rightarrow> 'p heap_t" where
  "smartlist_heapify compare h idx =
     (if \<not> IDX_MAY_HAVE_CHILDREN idx then h
      else if LEFT_CHILD idx \<ge> length (h_list h) then h
      else let best = best_idx compare (h_list h) idx in
        if best = idx then h else smartlist_heapify compare (swap_items idx best h) best)"
  by pat_completeness auto
termination
proof (relation "measure (\<lambda>(_, h, idx). length (h_list h) - idx)")
  fix compare :: "'p \<Rightarrow> 'p \<Rightarrow> int" and h :: "'p heap_t" and idx best
  assume a: "\<not> LEFT_CHILD idx \<ge> length (h_list h)" "best = best_idx compare (h_list h) idx" "best \<noteq> idx"
  then have "best > idx" "best < length (h_list h)"
    using best_idx_cases [of compare "h_list h" idx] best_idx_bound [of idx "h_list h" compare] by (auto simp: LEFT_CHILD_def)
  then show "((compare, swap_items idx best h, best), compare, h, idx) \<in> measure (\<lambda>(_, h, idx). length (h_list h) - idx)" by simp
qed simp

declare smartlist_heapify.simps [simp del]

function sift_up :: "('p \<Rightarrow> 'p \<Rightarrow> int) \<Rightarrow> 'p heap_t \<Rightarrow> nat \<Rightarrow> 'p heap_t" where
  "sift_up compare h idx =
     (if idx = 0 then h
      else let parent = PARENT idx in
        if compare (h_list h ! idx) (h_list h ! parent) < 0
        then sift_up compare (swap_items parent idx h) parent
        else h)"
  by pat_completeness auto
termination
  by (relation "measure (\<lambda>(_, _, idx). idx)") (auto simp: PARENT_def)

declare sift_up.simps [simp del]

definition smartlist_pqueue_add :: "('p \<Rightarrow> 'p \<Rightarrow> int) \<Rightarrow> 'p heap_t \<Rightarrow> 'p \<Rightarrow> 'p heap_t" where
  "smartlist_pqueue_add compare h item =
     (let h = h\<lparr>h_list := h_list h @ [item]\<rparr>;
          h = UPDATE_IDX (length (h_list h) - 1) h
      in sift_up compare h (length (h_list h) - 1))"

definition smartlist_pqueue_pop :: "('p \<Rightarrow> 'p \<Rightarrow> int) \<Rightarrow> 'p heap_t \<Rightarrow> ('p \<times> 'p heap_t) option" where
  "smartlist_pqueue_pop compare h = do {
     tor_assert (h_list h \<noteq> []);
     let top_item = h_list h ! 0;
     let h = h\<lparr>h_idx := (h_idx h)(top_item := -1)\<rparr>;
     let n = length (h_list h) - 1;
     Some (top_item,
       if n \<noteq> 0 then smartlist_heapify compare (UPDATE_IDX 0 (h\<lparr>h_list := (butlast (h_list h))[0 := last (h_list h)]\<rparr>)) 0
       else h\<lparr>h_list := []\<rparr>)
   }"

definition smartlist_pqueue_remove :: "('p \<Rightarrow> 'p \<Rightarrow> int) \<Rightarrow> 'p heap_t \<Rightarrow> 'p \<Rightarrow> 'p heap_t option" where
  "smartlist_pqueue_remove compare h item = do {
     let idx = h_idx h item;
     tor_assert (idx \<ge> 0);
     tor_assert (nat idx < length (h_list h) \<and> h_list h ! nat idx = item);
     let n = length (h_list h) - 1;
     let h = h\<lparr>h_idx := (h_idx h)(item := -1)\<rparr>;
     Some (if nat idx = n then h\<lparr>h_list := butlast (h_list h)\<rparr>
           else smartlist_heapify compare
                  (UPDATE_IDX (nat idx) (h\<lparr>h_list := (butlast (h_list h))[nat idx := last (h_list h)]\<rparr>)) (nat idx))
   }"

definition smartlist_pqueue_assert_ok :: "('p \<Rightarrow> 'p \<Rightarrow> int) \<Rightarrow> 'p heap_t \<Rightarrow> bool" where
  "smartlist_pqueue_assert_ok compare h \<longleftrightarrow>
     list_all (\<lambda>i. (0 < i \<longrightarrow> compare (h_list h ! PARENT i) (h_list h ! i) \<le> 0) \<and> h_idx h (h_list h ! i) = int i)
       [0..<length (h_list h)]"

definition empty_heap :: "'p heap_t" where
  "empty_heap = \<lparr>h_list = [], h_idx = \<lambda>_. -1\<rparr>"

section \<open>Positions\<close>

text \<open>Distinct items, each of which records its position.\<close>

definition indexed :: "'p heap_t \<Rightarrow> bool" where
  "indexed h \<longleftrightarrow> distinct (h_list h) \<and> (\<forall>i < length (h_list h). h_idx h (h_list h ! i) = int i)"

lemma swap_mset: "i < length l \<Longrightarrow> j < length l \<Longrightarrow> mset (l[i := l ! j, j := l ! i]) = mset l"
  by (rule mset_swap)

lemma swap_nth: "i < length l \<Longrightarrow> j < length l \<Longrightarrow> l[i := l ! j, j := l ! i] ! k = (if k = j then l ! i else if k = i then l ! j else l ! k)"
  by (auto simp: nth_list_update)

lemma swap_indexed:
  assumes "indexed h" "i < length (h_list h)" "j < length (h_list h)" "i \<noteq> j"
  shows "indexed (swap_items i j h)"
proof -
  let ?l = "h_list h"
  have d: "distinct (?l[i := ?l ! j, j := ?l ! i])" using assms(1) by (simp add: indexed_def distinct_swap assms(2,3))
  have "h_idx (swap_items i j h) (?l[i := ?l ! j, j := ?l ! i] ! k) = int k" if "k < length ?l" for k
    using assms that nth_eq_iff_index_eq [of ?l] unfolding swap_nth [OF assms(2,3)]
    by (auto simp: swap_items_def UPDATE_IDX_def Let_def indexed_def nth_list_update)
  then show ?thesis using d by (simp add: indexed_def)
qed

lemma heapify_keeps:
  "indexed h \<Longrightarrow> indexed (smartlist_heapify compare h idx) \<and> mset (h_list (smartlist_heapify compare h idx)) = mset (h_list h)"
proof (induction compare h idx rule: smartlist_heapify.induct)
  case (1 compare h idx)
  show ?case
  proof (cases "IDX_MAY_HAVE_CHILDREN idx \<and> LEFT_CHILD idx < length (h_list h) \<and> best_idx compare (h_list h) idx \<noteq> idx")
    case False
    then show ?thesis using 1(2) by (subst (1 2) smartlist_heapify.simps) (auto simp: Let_def)
  next
    case True
    let ?b = "best_idx compare (h_list h) idx"
    have b: "?b < length (h_list h)" "idx < length (h_list h)" using True best_idx_bound [of idx "h_list h" compare] by (auto simp: LEFT_CHILD_def)
    have "indexed (swap_items idx ?b h)" using 1(2) b True by (intro swap_indexed) auto
    moreover have "smartlist_heapify compare h idx = smartlist_heapify compare (swap_items idx ?b h) ?b"
      using True by (subst smartlist_heapify.simps) (simp add: Let_def)
    ultimately show ?thesis using 1(1)[of ?b] True swap_mset [OF b(2,1)] by simp
  qed
qed

lemma sift_up_keeps:
  "indexed h \<Longrightarrow> idx < length (h_list h) \<Longrightarrow> indexed (sift_up compare h idx) \<and> mset (h_list (sift_up compare h idx)) = mset (h_list h)"
proof (induction compare h idx rule: sift_up.induct)
  case (1 compare h idx)
  show ?case
  proof (cases "idx \<noteq> 0 \<and> compare (h_list h ! idx) (h_list h ! PARENT idx) < 0")
    case False
    then show ?thesis using 1(2) by (subst (1 2) sift_up.simps) (auto simp: Let_def)
  next
    case True
    have p: "PARENT idx < idx" "PARENT idx < length (h_list h)" using True 1(3) by (auto simp: PARENT_def)
    have "indexed (swap_items (PARENT idx) idx h)" using 1(2,3) p by (intro swap_indexed) auto
    moreover have "sift_up compare h idx = sift_up compare (swap_items (PARENT idx) idx h) (PARENT idx)"
      using True by (subst sift_up.simps) (simp add: Let_def)
    ultimately show ?thesis using 1(1)[of "PARENT idx"] True p swap_mset [OF p(2) 1(3)] by simp
  qed
qed

section \<open>The heap property\<close>

definition heap_order :: "('p \<Rightarrow> 'p \<Rightarrow> int) \<Rightarrow> 'p list \<Rightarrow> bool" where
  "heap_order compare l \<longleftrightarrow> (\<forall>i. 0 < i \<and> i < length l \<longrightarrow> compare (l ! PARENT i) (l ! i) \<le> 0)"

text \<open>Below or above position \<open>k\<close> the order may be violated; its children are above its parent.\<close>

definition bypass :: "('p \<Rightarrow> 'p \<Rightarrow> int) \<Rightarrow> 'p list \<Rightarrow> nat \<Rightarrow> bool" where
  "bypass compare l k \<longleftrightarrow> (\<forall>c. 0 < c \<and> c < length l \<and> PARENT c = k \<and> 0 < k \<longrightarrow> compare (l ! PARENT k) (l ! c) \<le> 0)"

definition heap_below :: "('p \<Rightarrow> 'p \<Rightarrow> int) \<Rightarrow> 'p list \<Rightarrow> nat \<Rightarrow> bool" where
  "heap_below compare l k \<longleftrightarrow> (\<forall>i. 0 < i \<and> i < length l \<and> PARENT i \<noteq> k \<longrightarrow> compare (l ! PARENT i) (l ! i) \<le> 0) \<and> bypass compare l k"

definition heap_above :: "('p \<Rightarrow> 'p \<Rightarrow> int) \<Rightarrow> 'p list \<Rightarrow> nat \<Rightarrow> bool" where
  "heap_above compare l k \<longleftrightarrow> (\<forall>i. 0 < i \<and> i < length l \<and> i \<noteq> k \<longrightarrow> compare (l ! PARENT i) (l ! i) \<le> 0) \<and> bypass compare l k"

lemma PARENT_less: "0 < i \<Longrightarrow> PARENT i < i"
  by (auto simp: PARENT_def)

lemma PARENT_children: "0 < i \<Longrightarrow> PARENT i = k \<longleftrightarrow> i = LEFT_CHILD k \<or> i = LEFT_CHILD k + 1"
  by (auto simp: PARENT_def LEFT_CHILD_def)

context comparison
begin

lemma best_idx_least:
  assumes "LEFT_CHILD k < length l"
  defines "b \<equiv> best_idx compare l k"
  shows "compare (l ! b) (l ! k) \<le> 0"
    "\<And>c. 0 < c \<Longrightarrow> c < length l \<Longrightarrow> PARENT c = k \<Longrightarrow> compare (l ! b) (l ! c) \<le> 0"
proof -
  let ?L = "LEFT_CHILD k" and ?R = "LEFT_CHILD k + 1"
  let ?m = "if compare (l ! k) (l ! ?L) < 0 then k else ?L"
  have m: "compare (l ! ?m) (l ! k) \<le> 0" "compare (l ! ?m) (l ! ?L) \<le> 0"
    using refl flip_iff(3) [of "l ! ?L" "l ! k"] by (auto simp: linorder_not_less)
  have b: "b = (if ?R < length l \<and> compare (l ! ?R) (l ! ?m) < 0 then ?R else ?m)"
    by (simp add: b_def best_idx_def Let_def)
  have bm: "compare (l ! b) (l ! ?m) \<le> 0" using b refl by auto
  show "compare (l ! b) (l ! k) \<le> 0" using trans [OF bm m(1)] .
  fix c assume c: "0 < c" "c < length l" "PARENT c = k"
  then consider "c = ?L" | "c = ?R" using PARENT_children by blast
  then show "compare (l ! b) (l ! c) \<le> 0"
  proof cases
    case 1
    then show ?thesis using trans [OF bm m(2)] by simp
  next
    case 2
    then show ?thesis using b c(2) refl flip_iff(3) [of "l ! ?m" "l ! ?R"] by auto
  qed
qed

lemma heapify_step:
  assumes "heap_below compare l k" "LEFT_CHILD k < length l" "best_idx compare l k = b" "b \<noteq> k"
  shows "heap_below compare (l[k := l ! b, b := l ! k]) b"
proof -
  have b: "b < length l" "PARENT b = k" "0 < b" "k < length l" "k < b"
    using assms(2-4) best_idx_bound [OF assms(2), of compare] best_idx_cases [of compare l k] by (auto simp: LEFT_CHILD_def PARENT_def)
  note nth = swap_nth [OF b(4,1)]
  note least = best_idx_least [OF assms(2), unfolded assms(3)]
  have old: "compare (l ! PARENT i) (l ! i) \<le> 0" if "0 < i" "i < length l" "PARENT i \<noteq> k" for i
    using assms(1) that by (auto simp: heap_below_def)
  have pass: "compare (l ! PARENT k) (l ! c) \<le> 0" if "0 < c" "c < length l" "PARENT c = k" "0 < k" for c
    using assms(1) that by (auto simp: heap_below_def bypass_def)
  let ?l = "l[k := l ! b, b := l ! k]"
  have "compare (?l ! PARENT i) (?l ! i) \<le> 0" if i: "0 < i" "i < length l" "PARENT i \<noteq> b" for i
  proof (cases "PARENT i = k")
    case True
    then show ?thesis using least(1) least(2) [OF i(1,2) True] b PARENT_less [OF i(1)] unfolding nth by auto
  next
    case False
    have "i \<noteq> b" using b(2) False by auto
    then show ?thesis
      using old [OF i(1,2) False] pass [OF b(3,1,2)] i False b PARENT_less [of k] unfolding nth by auto
  qed
  moreover have "compare (?l ! PARENT b) (?l ! c) \<le> 0" if "0 < c" "c < length l" "PARENT c = b" for c
    using old [of c] that b PARENT_less [OF that(1)] unfolding nth by auto
  ultimately show ?thesis by (auto simp: heap_below_def bypass_def)
qed

lemma heapify_heap:
  "heap_below compare (h_list h) k \<Longrightarrow> length (h_list h) \<le> 2147483647 \<Longrightarrow> heap_order compare (h_list (smartlist_heapify compare h k))"
proof (induction "length (h_list h) - k" arbitrary: h k rule: less_induct)
  case less
  let ?l = "h_list h" and ?b = "best_idx compare (h_list h) k"
  have edges: "compare (?l ! PARENT i) (?l ! i) \<le> 0" if "0 < i" "i < length ?l" "PARENT i \<noteq> k" for i
    using less.prems(1) that by (auto simp: heap_below_def)
  consider (leaf) "\<not> IDX_MAY_HAVE_CHILDREN k \<or> LEFT_CHILD k \<ge> length ?l"
    | (ok) "IDX_MAY_HAVE_CHILDREN k" "LEFT_CHILD k < length ?l" "?b = k"
    | (swap) "IDX_MAY_HAVE_CHILDREN k" "LEFT_CHILD k < length ?l" "?b \<noteq> k" by fastforce
  then show ?case
  proof cases
    case leaf
    then have "LEFT_CHILD k \<ge> length ?l"
      using less.prems(2) by (auto simp: IDX_MAY_HAVE_CHILDREN_def MAX_PARENT_IDX_def LEFT_CHILD_def)
    then have "PARENT i \<noteq> k" if "0 < i" "i < length ?l" for i using that PARENT_children [of i k] by auto
    then have "heap_order compare ?l" using edges by (auto simp: heap_order_def)
    then show ?thesis using leaf by (subst smartlist_heapify.simps) auto
  next
    case ok
    have "compare (?l ! PARENT i) (?l ! i) \<le> 0" if "0 < i" "i < length ?l" for i
      using edges [OF that] best_idx_least(2) [OF ok(2) that] ok(3) by (cases "PARENT i = k") auto
    then show ?thesis using ok by (subst smartlist_heapify.simps) (simp add: Let_def heap_order_def)
  next
    case swap
    have b: "k < ?b" "?b < length ?l"
      using swap(3) best_idx_bound [OF swap(2), of compare] best_idx_cases [of compare ?l k] by (auto simp: LEFT_CHILD_def)
    have "smartlist_heapify compare h k = smartlist_heapify compare (swap_items k ?b h) ?b"
      using swap by (subst smartlist_heapify.simps) (simp add: Let_def)
    then show ?thesis
      using less.hyps [of "swap_items k ?b h" ?b] heapify_step [OF less.prems(1) swap(2) HOL.refl swap(3)] b less.prems(2) by simp
  qed
qed

lemma sift_up_step:
  assumes "heap_above compare l k" "0 < k" "k < length l" "compare (l ! k) (l ! PARENT k) < 0"
  shows "heap_above compare (l[PARENT k := l ! k, k := l ! PARENT k]) (PARENT k)"
proof -
  let ?p = "PARENT k"
  have p: "?p < k" "?p < length l" using PARENT_less [OF assms(2)] assms(3) by auto
  note nth = swap_nth [OF p(2) assms(3)]
  have lt: "compare (l ! k) (l ! ?p) \<le> 0" using assms(4) by simp
  have old: "compare (l ! PARENT i) (l ! i) \<le> 0" if "0 < i" "i < length l" "i \<noteq> k" for i
    using assms(1) that by (auto simp: heap_above_def)
  have pass: "compare (l ! ?p) (l ! c) \<le> 0" if "0 < c" "c < length l" "PARENT c = k" for c
    using assms(1,2) that by (auto simp: heap_above_def bypass_def)
  let ?l = "l[?p := l ! k, k := l ! ?p]"
  have "compare (?l ! PARENT i) (?l ! i) \<le> 0" if i: "0 < i" "i < length l" "i \<noteq> ?p" for i
  proof -
    consider "i = k" | "i \<noteq> k" "PARENT i = k" | "i \<noteq> k" "PARENT i = ?p" | "i \<noteq> k" "PARENT i \<noteq> k" "PARENT i \<noteq> ?p" by blast
    then show ?thesis
    proof cases
      case 3
      then show ?thesis using trans [OF lt, of "l ! i"] old [OF i(1,2)] i p unfolding nth by auto
    qed (use lt old [OF i(1,2)] pass [OF i(1,2)] i p in \<open>auto simp: nth\<close>)
  qed
  moreover have "compare (?l ! PARENT ?p) (?l ! c) \<le> 0" if c: "0 < c" "c < length l" "PARENT c = ?p" "0 < ?p" for c
  proof -
    have q: "PARENT ?p < ?p" using PARENT_less [OF c(4)] .
    have up: "compare (l ! PARENT ?p) (l ! ?p) \<le> 0" using old [OF c(4)] p by simp
    show ?thesis
      using up trans [OF up, of "l ! c"] old [OF c(1,2)] c q p unfolding nth by auto
  qed
  ultimately show ?thesis by (auto simp: heap_above_def bypass_def)
qed

lemma sift_up_heap:
  "heap_above compare (h_list h) k \<Longrightarrow> k < length (h_list h) \<Longrightarrow> heap_order compare (h_list (sift_up compare h k))"
proof (induction k arbitrary: h rule: less_induct)
  case (less k)
  let ?l = "h_list h"
  show ?case
  proof (cases "0 < k \<and> compare (?l ! k) (?l ! PARENT k) < 0")
    case True
    have "sift_up compare h k = sift_up compare (swap_items (PARENT k) k h) (PARENT k)"
      using True by (subst sift_up.simps) (simp add: Let_def)
    then show ?thesis
      using less.IH [of "PARENT k" "swap_items (PARENT k) k h"] sift_up_step [OF less.prems(1) _ less.prems(2)] True
        PARENT_less [of k] less.prems(2) by simp
  next
    case False
    have "compare (?l ! PARENT i) (?l ! i) \<le> 0" if "0 < i" "i < length ?l" for i
      using less.prems(1) that False flip_iff(3) [of "?l ! PARENT k" "?l ! k"] by (cases "i = k") (auto simp: heap_above_def)
    then show ?thesis using False by (subst sift_up.simps) (auto simp: Let_def heap_order_def)
  qed
qed

lemma heap_root:
  assumes "heap_order compare l"
  shows "i < length l \<Longrightarrow> compare (l ! 0) (l ! i) \<le> 0"
proof (induction i rule: less_induct)
  case (less i)
  show ?case
  proof (cases "i = 0")
    case False
    then have p: "PARENT i < i" using PARENT_less [of i] by simp
    then have "compare (l ! 0) (l ! PARENT i) \<le> 0" using less by simp
    moreover have "compare (l ! PARENT i) (l ! i) \<le> 0" using assms False less.prems by (simp add: heap_order_def)
    ultimately show ?thesis by (rule trans)
  qed (simp add: refl)
qed

end

section \<open>Operations\<close>

definition heap_ok :: "('p \<Rightarrow> 'p \<Rightarrow> int) \<Rightarrow> 'p heap_t \<Rightarrow> bool" where
  "heap_ok compare h \<longleftrightarrow> indexed h \<and> heap_order compare (h_list h) \<and> length (h_list h) \<le> 2147483647"

lemma heap_ok_assert: "heap_ok compare h \<Longrightarrow> smartlist_pqueue_assert_ok compare h"
  by (auto simp: heap_ok_def smartlist_pqueue_assert_ok_def list_all_iff indexed_def heap_order_def)

lemma assert_heap_ok:
  assumes "smartlist_pqueue_assert_ok compare h" "length (h_list h) \<le> 2147483647"
  shows "heap_ok compare h"
proof -
  have ix: "h_idx h (h_list h ! i) = int i" if "i < length (h_list h)" for i
    using assms(1) that by (simp add: smartlist_pqueue_assert_ok_def list_all_iff)
  then have "distinct (h_list h)" unfolding distinct_conv_nth by (metis of_nat_eq_iff)
  then show ?thesis using assms ix by (auto simp: heap_ok_def indexed_def heap_order_def smartlist_pqueue_assert_ok_def list_all_iff)
qed

lemma indexed_replace:
  assumes "indexed h" "i < length (h_list h) - 1"
  defines "l \<equiv> h_list h"
  shows "indexed (UPDATE_IDX i (h\<lparr>h_idx := (h_idx h)(l ! i := -1), h_list := (butlast l)[i := last l]\<rparr>))"
    "add_mset (l ! i) (mset ((butlast l)[i := last l])) = mset l"
proof -
  obtain ys y where l: "l = ys @ [y]" using assms(2) unfolding l_def by (cases "h_list h" rule: rev_cases) auto
  have d: "distinct ys" "y \<notin> set ys" using assms(1) l by (auto simp: indexed_def l_def [symmetric])
  have i: "i < length ys" using assms(2) l by (simp add: l_def [symmetric])
  have ix: "h_idx h (ys ! k) = int k" if "k < length ys" for k
    using assms(1) that l by (auto simp: indexed_def l_def [symmetric] nth_append dest: spec [of _ k])
  have dist: "distinct (ys[i := y])" using d i by (simp add: distinct_list_update)
  show "indexed (UPDATE_IDX i (h\<lparr>h_idx := (h_idx h)(l ! i := -1), h_list := (butlast l)[i := last l]\<rparr>))"
    unfolding indexed_def UPDATE_IDX_def l
    using dist i ix d by (auto simp: nth_list_update nth_append nth_eq_iff_index_eq)
  show "add_mset (l ! i) (mset ((butlast l)[i := last l])) = mset l"
    using i unfolding l by (simp add: mset_update nth_append)
qed


context comparison
begin

lemma pqueue_add_ok:
  assumes "heap_ok compare h" "item \<notin> set (h_list h)" "length (h_list h) < 2147483647"
  shows "heap_ok compare (smartlist_pqueue_add compare h item)
    \<and> mset (h_list (smartlist_pqueue_add compare h item)) = add_mset item (mset (h_list h))"
proof -
  let ?l = "h_list h"
  define h1 where "h1 = UPDATE_IDX (length ?l) (h\<lparr>h_list := ?l @ [item]\<rparr>)"
  have l1: "h_list h1 = ?l @ [item]" by (simp add: h1_def UPDATE_IDX_def)
  have ix: "indexed h1"
    using assms(1,2) by (auto simp: h1_def UPDATE_IDX_def heap_ok_def indexed_def nth_append less_Suc_eq)
  have p: "PARENT c < length ?l" if "0 < c" "c < length (?l @ [item])" for c using that PARENT_less [of c] by simp
  have "compare ((?l @ [item]) ! PARENT i) ((?l @ [item]) ! i) \<le> 0" if "0 < i" "i < length ?l" for i
    using assms(1) that p [of i] by (simp add: heap_ok_def heap_order_def nth_append)
  moreover have "bypass compare (?l @ [item]) (length ?l)"
    unfolding bypass_def using p by (metis less_irrefl)
  ultimately have up: "heap_above compare (h_list h1) (length ?l)"
    unfolding l1 heap_above_def by simp
  have "smartlist_pqueue_add compare h item = sift_up compare h1 (length ?l)"
    by (simp add: smartlist_pqueue_add_def h1_def UPDATE_IDX_def)
  moreover have len: "length ?l < length (h_list h1)" using l1 by simp
  moreover have "length (h_list (sift_up compare h1 (length ?l))) = length (h_list h1)"
    using sift_up_keeps [OF ix len, of compare] by (metis size_mset)
  ultimately show ?thesis
    using sift_up_keeps [OF ix len, of compare] sift_up_heap [OF up len] l1 assms(3) by (simp add: heap_ok_def)
qed

lemma replaced_below:
  assumes "heap_order compare l" "i < length l - 1" "0 < i \<longrightarrow> compare (l ! PARENT i) (last l) \<le> 0"
  shows "heap_below compare ((butlast l)[i := last l]) i"
proof -
  let ?l = "(butlast l)[i := last l]"
  have nth: "?l ! k = (if k = i then last l else l ! k)" if "k < length l - 1" for k
    using that by (auto simp: nth_list_update nth_butlast)
  have old: "compare (l ! PARENT k) (l ! k) \<le> 0" if "0 < k" "k < length l" for k
    using assms(1) that by (simp add: heap_order_def)
  have "compare (?l ! PARENT k) (?l ! k) \<le> 0" if k: "0 < k" "k < length l - 1" "PARENT k \<noteq> i" for k
    using k old [of k] assms(3) PARENT_less [OF k(1)] nth [of k] nth [of "PARENT k"] by auto
  moreover have "compare (?l ! PARENT i) (?l ! c) \<le> 0" if c: "0 < c" "c < length l - 1" "PARENT c = i" "0 < i" for c
  proof -
    have "compare (l ! PARENT i) (l ! i) \<le> 0" "compare (l ! i) (l ! c) \<le> 0" using old [of i] old [of c] c assms(2) by auto
    then have "compare (l ! PARENT i) (l ! c) \<le> 0" by (rule trans)
    then show ?thesis
      using c assms(2) PARENT_less [OF c(4)] PARENT_less [OF c(1)] nth [of c] nth [of "PARENT i"] by auto
  qed
  ultimately show ?thesis by (auto simp: heap_below_def bypass_def)
qed

lemma replace_ok:
  assumes "heap_ok compare h" "i < length (h_list h) - 1" "0 < i \<longrightarrow> compare (h_list h ! PARENT i) (last (h_list h)) \<le> 0"
  defines "l \<equiv> h_list h"
  shows "\<exists>h'. smartlist_heapify compare (UPDATE_IDX i (h\<lparr>h_idx := (h_idx h)(l ! i := -1), h_list := (butlast l)[i := last l]\<rparr>)) i = h'
    \<and> heap_ok compare h' \<and> add_mset (l ! i) (mset (h_list h')) = mset l"
proof -
  let ?h = "UPDATE_IDX i (h\<lparr>h_idx := (h_idx h)(l ! i := -1), h_list := (butlast l)[i := last l]\<rparr>)"
  have inv: "indexed h" "heap_order compare l" "length l \<le> 2147483647" using assms(1) by (auto simp: heap_ok_def l_def)
  note rep = indexed_replace [OF inv(1) assms(2), folded l_def]
  have hl: "h_list ?h = (butlast l)[i := last l]" by (simp add: UPDATE_IDX_def)
  have len: "length (h_list ?h) \<le> 2147483647" unfolding hl using inv(3) by simp
  have "heap_below compare (h_list ?h) i"
    unfolding hl by (rule replaced_below [OF inv(2)]) (use assms(2,3) in \<open>auto simp: l_def\<close>)
  then have "heap_order compare (h_list (smartlist_heapify compare ?h i))" using len by (rule heapify_heap)
  moreover have "length (h_list (smartlist_heapify compare ?h i)) = length (h_list ?h)"
    using heapify_keeps [OF rep(1), of compare i] by (metis size_mset)
  ultimately show ?thesis using heapify_keeps [OF rep(1), of compare i] rep(2) len hl by (simp add: heap_ok_def)
qed

lemma pqueue_pop_ok:
  assumes "heap_ok compare h" "h_list h \<noteq> []"
  shows "\<exists>x h'. smartlist_pqueue_pop compare h = Some (x, h') \<and> heap_ok compare h' \<and> mset (h_list h) = add_mset x (mset (h_list h'))
    \<and> (\<forall>y \<in> set (h_list h). compare x y \<le> 0) \<and> x = h_list h ! 0"
proof -
  let ?l = "h_list h"
  have least: "\<forall>y \<in> set ?l. compare (?l ! 0) y \<le> 0"
    using heap_root [of ?l] assms(1) by (auto simp: heap_ok_def in_set_conv_nth)
  show ?thesis
  proof (cases "length ?l = 1")
    case True
    then obtain x where x: "?l = [x]" by (auto simp: length_Suc_conv)
    then have "smartlist_pqueue_pop compare h = Some (x, h\<lparr>h_idx := (h_idx h)(x := -1), h_list := []\<rparr>)"
      by (simp add: smartlist_pqueue_pop_def Let_def)
    then show ?thesis using x refl [of x] by (simp add: heap_ok_def indexed_def heap_order_def)
  next
    case False
    then have gt: "0 < length ?l - 1" using assms(2) by (cases ?l) auto
    from replace_ok [OF assms(1) gt] obtain h' where
      "smartlist_heapify compare (UPDATE_IDX 0 (h\<lparr>h_idx := (h_idx h)(?l ! 0 := -1), h_list := (butlast ?l)[0 := last ?l]\<rparr>)) 0 = h'"
      "heap_ok compare h'" "add_mset (?l ! 0) (mset (h_list h')) = mset ?l" by auto
    then show ?thesis using gt assms(2) least by (auto simp: smartlist_pqueue_pop_def Let_def)
  qed
qed

lemma pqueue_remove_ok:
  assumes "heap_ok compare h" "i < length (h_list h)" "0 < i \<longrightarrow> compare (h_list h ! PARENT i) (last (h_list h)) \<le> 0"
  shows "\<exists>h'. smartlist_pqueue_remove compare h (h_list h ! i) = Some h' \<and> heap_ok compare h'
    \<and> mset (h_list h) = add_mset (h_list h ! i) (mset (h_list h'))"
proof -
  let ?l = "h_list h"
  have ix: "h_idx h (?l ! i) = int i" using assms(1,2) by (simp add: heap_ok_def indexed_def)
  show ?thesis
  proof (cases "i = length ?l - 1")
    case True
    obtain ys y where l: "?l = ys @ [y]" using assms(2) by (cases ?l rule: rev_cases) auto
    have i: "i = length ys" using True l by simp
    have r: "smartlist_pqueue_remove compare h (?l ! i) = Some (h\<lparr>h_idx := (h_idx h)(y := -1), h_list := ys\<rparr>)"
      using ix assms(2) True l i by (simp add: smartlist_pqueue_remove_def Let_def nth_append)
    have "compare (ys ! PARENT k) (ys ! k) \<le> 0" if "0 < k" "k < length ys" for k
      using assms(1) l that PARENT_less [OF that(1)] by (auto simp: heap_ok_def heap_order_def nth_append dest: spec [of _ k])
    then have "heap_order compare ys" by (simp add: heap_order_def)
    moreover have "distinct ys" "y \<notin> set ys" using assms(1) l by (auto simp: heap_ok_def indexed_def)
    moreover have "h_idx h (ys ! k) = int k" if "k < length ys" for k
      using assms(1) l that by (auto simp: heap_ok_def indexed_def nth_append dest: spec [of _ k])
    ultimately have "heap_order compare ys" "indexed (h\<lparr>h_idx := (h_idx h)(y := -1), h_list := ys\<rparr>)"
      by (auto simp: indexed_def)
    then show ?thesis using r assms(1) l i by (simp add: heap_ok_def nth_append)
  next
    case False
    then have lt: "i < length ?l - 1" using assms(2) by simp
    from replace_ok [OF assms(1) lt assms(3)] show ?thesis using False ix assms(2)
      by (auto simp: smartlist_pqueue_remove_def Let_def)
  qed
qed

text \<open>An item below its parent is also below the children of its position: it is not moved.\<close>

lemma replaced_stays:
  assumes "heap_order compare l" "0 < i" "i < length l - 1" "compare (last l) (l ! PARENT i) < 0"
    and "h_list h = (butlast l)[i := last l]"
  shows "smartlist_heapify compare h i = h"
proof -
  let ?l = "(butlast l)[i := last l]"
  have child: "compare (?l ! i) (?l ! c) < 0" if c: "PARENT c = i" "0 < c" "c < length ?l" for c
  proof -
    have "i < c" using PARENT_less [OF c(2)] c(1) by simp
    moreover have "compare (l ! PARENT i) (l ! i) \<le> 0" "compare (l ! i) (l ! c) \<le> 0"
      using assms(1-3) c by (auto simp: heap_order_def)
    then have "compare (l ! PARENT i) (l ! c) \<le> 0" by (rule trans)
    with assms(4) have "compare (last l) (l ! c) < 0" by (rule less_le_trans)
    ultimately show ?thesis using assms(3) c(3) by (simp add: nth_butlast)
  qed
  have "best_idx compare ?l i = i" if "LEFT_CHILD i < length ?l"
  proof -
    have "compare (?l ! i) (?l ! LEFT_CHILD i) < 0" using that by (intro child) (auto simp: PARENT_def LEFT_CHILD_def)
    moreover have "\<not> compare (?l ! (LEFT_CHILD i + 1)) (?l ! i) < 0" if "LEFT_CHILD i + 1 < length ?l"
    proof -
      have "compare (?l ! i) (?l ! (LEFT_CHILD i + 1)) < 0" using that by (intro child) (auto simp: PARENT_def LEFT_CHILD_def)
      then show ?thesis using flip_iff(1) [of "?l ! i" "?l ! (LEFT_CHILD i + 1)"] by simp
    qed
    ultimately show ?thesis unfolding best_idx_def Let_def by auto
  qed
  then show ?thesis using assms(5) by (subst smartlist_heapify.simps) (auto simp: Let_def)
qed

lemma pqueue_remove_breaks:
  assumes "heap_ok compare h" "0 < i" "i < length (h_list h) - 1" "compare (last (h_list h)) (h_list h ! PARENT i) < 0"
  shows "\<exists>h'. smartlist_pqueue_remove compare h (h_list h ! i) = Some h' \<and> \<not> smartlist_pqueue_assert_ok compare h'
    \<and> mset (h_list h) = add_mset (h_list h ! i) (mset (h_list h'))"
proof -
  let ?l = "h_list h"
  define h' where "h' = UPDATE_IDX i (h\<lparr>h_idx := (h_idx h)(?l ! i := -1), h_list := (butlast ?l)[i := last ?l]\<rparr>)"
  have l': "h_list h' = (butlast ?l)[i := last ?l]" by (simp add: h'_def UPDATE_IDX_def)
  have ix: "h_idx h (?l ! i) = int i" and ord: "heap_order compare ?l" using assms(1,3) by (simp_all add: heap_ok_def indexed_def)
  have "smartlist_pqueue_remove compare h (?l ! i) = Some h'"
    using ix assms(3) replaced_stays [OF ord assms(2-4) l'] by (simp add: smartlist_pqueue_remove_def h'_def Let_def)
  moreover have "\<not> compare (h_list h' ! PARENT i) (h_list h' ! i) \<le> 0"
    using assms(3,4) PARENT_less [OF assms(2)] flip_iff(1) [of "last ?l" "?l ! PARENT i"] by (simp add: l' nth_butlast)
  then have "\<not> smartlist_pqueue_assert_ok compare h'"
    using assms(2,3) by (auto simp: smartlist_pqueue_assert_ok_def list_all_iff l')
  moreover have "mset ?l = add_mset (?l ! i) (mset (h_list h'))"
    using indexed_replace(2) [OF _ assms(3)] assms(1) by (simp add: l' heap_ok_def)
  ultimately show ?thesis by blast
qed

end


section \<open>The priority queue\<close>

locale priority_queue =
  fixes compare :: "'p \<Rightarrow> 'p \<Rightarrow> int"
    and ok :: "'s \<Rightarrow> bool"
    and bag :: "'s \<Rightarrow> 'p multiset"
    and add :: "'s \<Rightarrow> 'p \<Rightarrow> 's"
    and pop :: "'s \<Rightarrow> ('p \<times> 's) option"
    and capacity :: nat
  assumes add_law: "ok s \<Longrightarrow> x \<notin># bag s \<Longrightarrow> size (bag s) < capacity \<Longrightarrow> ok (add s x) \<and> bag (add s x) = add_mset x (bag s)"
    and pop_law: "ok s \<Longrightarrow> bag s \<noteq> {#} \<Longrightarrow>
      \<exists>x s'. pop s = Some (x, s') \<and> ok s' \<and> bag s = add_mset x (bag s') \<and> (\<forall>y \<in># bag s. compare x y \<le> 0)"
begin

lemma add_all:
  "ok s \<Longrightarrow> distinct xs \<Longrightarrow> set xs \<inter> set_mset (bag s) = {} \<Longrightarrow> size (bag s) + length xs \<le> capacity \<Longrightarrow>
     ok (fold (\<lambda>x s. add s x) xs s) \<and> bag (fold (\<lambda>x s. add s x) xs s) = mset xs + bag s"
proof (induction xs arbitrary: s)
  case (Cons x xs)
  then have "ok (add s x) \<and> bag (add s x) = add_mset x (bag s)" by (intro add_law) auto
  then show ?case using Cons.IH [of "add s x"] Cons.prems by auto
qed simp

lemma pop_all:
  "ok s \<Longrightarrow> size (bag s) = n \<Longrightarrow>
     \<exists>xs s'. run_ops (\<lambda>s (_ :: unit). pop s) s (replicate n ()) = Some (xs, s') \<and> mset xs = bag s
       \<and> sorted_wrt (\<lambda>a b. compare a b \<le> 0) xs \<and> ok s' \<and> bag s' = {#}"
proof (induction n arbitrary: s)
  case (Suc n)
  then have "bag s \<noteq> {#}" by auto
  from pop_law [OF Suc.prems(1) this] obtain x s1 where
    p: "pop s = Some (x, s1)" "ok s1" "bag s = add_mset x (bag s1)" "\<forall>y \<in># bag s. compare x y \<le> 0" by blast
  have "size (bag s1) = n" using p(3) Suc.prems(2) by simp
  from Suc.IH [OF p(2) this] obtain xs s' where
    r: "run_ops (\<lambda>s (_ :: unit). pop s) s1 (replicate n ()) = Some (xs, s')" "mset xs = bag s1"
      "sorted_wrt (\<lambda>a b. compare a b \<le> 0) xs" "ok s'" "bag s' = {#}" by blast
  have "\<forall>y \<in> set xs. compare x y \<le> 0" using p(3,4) r(2) by (metis insertCI set_mset_add_mset_insert set_mset_mset)
  then show ?case using p r by (intro exI [of _ "x # xs"] exI [of _ s']) simp
qed simp

end

lemma empty_heap_list [simp]: "h_list empty_heap = []"
  by (simp add: empty_heap_def)

lemma empty_heap_ok: "heap_ok compare empty_heap"
  by (simp add: heap_ok_def empty_heap_def indexed_def heap_order_def)

lemma comparison_queue:
  assumes "comparison compare"
  shows "priority_queue compare (heap_ok compare) (mset \<circ> h_list) (smartlist_pqueue_add compare) (smartlist_pqueue_pop compare) 2147483647"
proof
  fix h x
  assume "heap_ok compare h" "x \<notin># (mset \<circ> h_list) h" "size ((mset \<circ> h_list) h) < 2147483647"
  then show "heap_ok compare (smartlist_pqueue_add compare h x)
      \<and> (mset \<circ> h_list) (smartlist_pqueue_add compare h x) = add_mset x ((mset \<circ> h_list) h)"
    using comparison.pqueue_add_ok [OF assms, of h x] by simp
next
  fix h
  assume "heap_ok compare h" "(mset \<circ> h_list) h \<noteq> {#}"
  then show "\<exists>x h'. smartlist_pqueue_pop compare h = Some (x, h') \<and> heap_ok compare h'
      \<and> (mset \<circ> h_list) h = add_mset x ((mset \<circ> h_list) h') \<and> (\<forall>y \<in># (mset \<circ> h_list) h. compare x y \<le> 0)"
    using comparison.pqueue_pop_ok [OF assms, of h] by auto
qed

interpretation ptr_queue: priority_queue compare_ptrs "heap_ok compare_ptrs" "mset \<circ> h_list"
  "smartlist_pqueue_add compare_ptrs" "smartlist_pqueue_pop compare_ptrs" 2147483647
  by (rule comparison_queue) (rule ptrs.comparison_axioms)

text \<open>C31 For every comparison function that is a total preorder: after adding any distinct items to an
  empty queue its assertions hold, and popping returns all of them in ascending order.\<close>

theorem pqueue_sorts:
  assumes "comparison compare" "distinct xs" "length xs \<le> 2147483647"
  shows "smartlist_pqueue_assert_ok compare (fold (\<lambda>x h. smartlist_pqueue_add compare h x) xs empty_heap)
    \<and> (\<exists>ys h'. run_ops (\<lambda>h (_ :: unit). smartlist_pqueue_pop compare h)
            (fold (\<lambda>x h. smartlist_pqueue_add compare h x) xs empty_heap) (replicate (length xs) ()) = Some (ys, h')
          \<and> mset ys = mset xs \<and> sorted_wrt (\<lambda>a b. compare a b \<le> 0) ys \<and> h_list h' = [])"
proof -
  note pq = comparison_queue [OF assms(1)]
  let ?h = "fold (\<lambda>x h. smartlist_pqueue_add compare h x) xs empty_heap"
  have h: "heap_ok compare ?h" "mset (h_list ?h) = mset xs"
    using priority_queue.add_all [OF pq empty_heap_ok assms(2)] assms(3) by simp_all
  then have "size ((mset \<circ> h_list) ?h) = length xs" by (simp flip: size_mset)
  from priority_queue.pop_all [OF pq h(1) this] h heap_ok_assert show ?thesis by auto
qed

theorem pqueue_sorts_witness:
  "\<exists>ys h'. run_ops (\<lambda>h (_ :: unit). smartlist_pqueue_pop compare_ptrs h)
      (fold (\<lambda>x h. smartlist_pqueue_add compare_ptrs h x) [30, 10, 20] empty_heap) (replicate 3 ()) = Some (ys, h')
    \<and> mset ys = {#10, 20, 30#} \<and> sorted_wrt (\<lambda>a b. compare_ptrs a b \<le> 0) ys"
  using pqueue_sorts [OF ptrs.comparison_axioms, of "[30, 10, 20]"] by (auto simp: add_mset_commute numeral_3_eq_3)

text \<open>Popping a non-empty queue removes exactly one item, which is least, and keeps the heap property
  and the stored indices.\<close>

theorem pqueue_pop_least:
  assumes "comparison compare" "heap_ok compare h" "h_list h \<noteq> []"
  shows "\<exists>x h'. smartlist_pqueue_pop compare h = Some (x, h') \<and> heap_ok compare h' \<and> smartlist_pqueue_assert_ok compare h'
    \<and> mset (h_list h) = add_mset x (mset (h_list h')) \<and> (\<forall>y \<in> set (h_list h). compare x y \<le> 0)"
  using comparison.pqueue_pop_ok [OF assms] heap_ok_assert by blast

theorem pqueue_pop_least_witness:
  "\<exists>x h'. smartlist_pqueue_pop compare_ptrs (smartlist_pqueue_add compare_ptrs empty_heap 5) = Some (x, h') \<and> h_list h' = []"
proof -
  have h: "heap_ok compare_ptrs (smartlist_pqueue_add compare_ptrs empty_heap 5)"
    "mset (h_list (smartlist_pqueue_add compare_ptrs empty_heap 5)) = {#5#}"
    using ptrs.pqueue_add_ok [OF empty_heap_ok, of 5] by (simp_all add: empty_heap_def)
  then have "h_list (smartlist_pqueue_add compare_ptrs empty_heap 5) \<noteq> []" by auto
  from pqueue_pop_least [OF ptrs.comparison_axioms h(1) this] h(2) show ?thesis by auto
qed

text \<open>Removal keeps the heap if the last item is not below the parent of the removed position.\<close>

lemma pqueue_remove_if_last_fits:
  assumes "comparison compare" "heap_ok compare h" "i < length (h_list h)"
    "0 < i \<longrightarrow> compare (h_list h ! PARENT i) (last (h_list h)) \<le> 0"
  shows "\<exists>h'. smartlist_pqueue_remove compare h (h_list h ! i) = Some h' \<and> heap_ok compare h' \<and> smartlist_pqueue_assert_ok compare h'
    \<and> mset (h_list h) = add_mset (h_list h ! i) (mset (h_list h'))"
  using comparison.pqueue_remove_ok [OF assms] heap_ok_assert by blast



text \<open>C33 Removing an item takes exactly that item out, but keeps the heap only sometimes.  The last item takes the
  place of the removed one and is only ever moved down: the assertions of the queue hold afterwards exactly if the removed
  item was the root or the last item is not smaller than the parent of the removed one.\<close>

theorem pqueue_remove_heap_iff:
  assumes "comparison compare" "smartlist_pqueue_assert_ok compare h" "length (h_list h) \<le> 2147483647" "i < length (h_list h)"
  shows "\<exists>h'. smartlist_pqueue_remove compare h (h_list h ! i) = Some h'
    \<and> mset (h_list h) = add_mset (h_list h ! i) (mset (h_list h'))
    \<and> (smartlist_pqueue_assert_ok compare h' \<longleftrightarrow> i = 0 \<or> compare (h_list h ! PARENT i) (last (h_list h)) \<le> 0)"
proof -
  let ?l = "h_list h"
  have ok: "heap_ok compare h" using assms(2,3) by (rule assert_heap_ok)
  show ?thesis
  proof (cases "i = 0 \<or> compare (?l ! PARENT i) (last ?l) \<le> 0")
    case True
    then show ?thesis using comparison.pqueue_remove_ok [OF assms(1) ok assms(4)] heap_ok_assert by blast
  next
    case False
    then have lt: "compare (last ?l) (?l ! PARENT i) < 0" using comparison.flip_iff(1) [OF assms(1), of "last ?l" "?l ! PARENT i"] by simp
    have "i \<noteq> length ?l - 1"
    proof
      assume "i = length ?l - 1"
      then have "last ?l = ?l ! i" using assms(4) by (cases ?l rule: rev_cases) auto
      then show False using False ok assms(4) by (auto simp: heap_ok_def heap_order_def)
    qed
    then have "i < length ?l - 1" using assms(4) by simp
    from comparison.pqueue_remove_breaks [OF assms(1) ok _ this lt] False show ?thesis by auto
  qed
qed

theorem pqueue_remove_heap_iff_witness:
  "let h = fold (\<lambda>p h. smartlist_pqueue_add compare_ptrs h p) [1, 10, 2, 11, 12, 3, 4] empty_heap in
   smartlist_pqueue_assert_ok compare_ptrs h \<and> h_list h ! 3 = 11
   \<and> (\<exists>h'. smartlist_pqueue_remove compare_ptrs h 11 = Some h' \<and> \<not> smartlist_pqueue_assert_ok compare_ptrs h')"
proof -
  let ?h = "fold (\<lambda>p h. smartlist_pqueue_add compare_ptrs h p) [1, 10, 2, 11, 12, 3, 4] empty_heap"
  have "smartlist_pqueue_assert_ok compare_ptrs ?h" by code_simp
  moreover have "h_list ?h = [1, 10, 2, 11, 12, 3, 4]" by code_simp
  moreover have "\<not> compare_ptrs 10 4 \<le> 0" by code_simp
  ultimately show ?thesis using pqueue_remove_heap_iff [OF ptrs.comparison_axioms, of ?h 3] by (auto simp: PARENT_def Let_def)
qed

end
