(* ===== verification/Conflux.thy ===== *)
theory Conflux
  imports Relay_Msg Pqueue
begin

text \<open>
  \<open>core/or/conflux.c\<close>: sending the streams of a conflux set over several circuits and putting the
  messages back in order.  Circuits, legs and hops are identified by their addresses; the legs of a set
  live in a store, so that the current and the previous leg alias the entries of the list.  What the
  functions reach besides the set is the environment \<open>cfx_env\<close>; closing a circuit and sending a switch
  cell append to its logs.  Log messages and the checks that only log are left out.
\<close>

section \<open>State\<close>

record congestion_control_t =
  cc_cwnd :: u64
  cc_inflight :: u64
  cc_sendme_inc :: u8
  cc_in_slow_start :: bool

text \<open>The last hop of an origin circuit is its address and its congestion control object.\<close>

record circuit_t =
  circ_is_origin :: bool
  circ_cpath_prev :: "(nat \<times> congestion_control_t option) option"
  circ_cc :: "congestion_control_t option"
  circuit_blocked_on_n_chan :: bool
  circuit_blocked_on_p_chan :: bool
  circ_n_chan :: bool

datatype conflux_alg_t = CONFLUX_ALG_MINRTT | CONFLUX_ALG_LOWRTT | CONFLUX_ALG_CWNDRTT

record conflux_leg_t =
  last_seq_recv :: u64
  last_seq_sent :: u64
  circ_rtts_usec :: u64
  leg_circ :: nat

record conflux_msg_t =
  cm_seq :: u64
  cm_msg :: relay_msg_t

record conflux_t =
  cfx_alg :: conflux_alg_t
  cfx_legs :: "nat list"
  cfx_leg :: "nat \<Rightarrow> conflux_leg_t"
  cfx_ooo_q :: "conflux_msg_t heap_t"
  ooo_q_alloc_cost :: u64
  last_seq_delivered :: u64
  cells_until_switch :: u64
  curr_leg :: "nat option"
  prev_leg :: "nat option"
  in_full_teardown :: bool

record cfx_env =
  env_circ :: "nat \<Rightarrow> circuit_t"
  cfx_drain_pct :: u8
  congestion_control_enabled :: bool
  opt_ConfluxEnabled :: int
  conflux_enabled :: bool
  total_ooo_q_bytes :: u64
  env_closed :: "(nat \<times> int) list"
  env_switches :: "(nat \<times> u8 list) list"

abbreviation leg_update :: "nat \<Rightarrow> (conflux_leg_t \<Rightarrow> conflux_leg_t) \<Rightarrow> conflux_t \<Rightarrow> conflux_t" where
  "leg_update l f cfx \<equiv> cfx\<lparr>cfx_leg := (cfx_leg cfx)(l := f (cfx_leg cfx l))\<rparr>"

definition END_CIRC_REASON_TORPROTOCOL :: int where "END_CIRC_REASON_TORPROTOCOL = 1"
definition END_CIRC_REASON_INTERNAL :: int where "END_CIRC_REASON_INTERNAL = 2"

definition circuit_mark_for_close :: "nat \<Rightarrow> int \<Rightarrow> cfx_env \<Rightarrow> cfx_env" where
  "circuit_mark_for_close circ reason env = env\<lparr>env_closed := env_closed env @ [(circ, reason)]\<rparr>"

section \<open>Commands and legs\<close>

definition conflux_should_multiplex :: "u8 \<Rightarrow> bool" where
  "conflux_should_multiplex relay_command \<longleftrightarrow> relay_command \<in> {1, 2, 3, 4, 11, 12, 43, 44}"

definition conflux_get_leg :: "conflux_t \<Rightarrow> nat \<Rightarrow> nat option" where
  "conflux_get_leg cfx circ = find (\<lambda>leg. leg_circ (cfx_leg cfx leg) = circ) (cfx_legs cfx)"

primrec max_seq_loop :: "u64 \<Rightarrow> u64 list \<Rightarrow> u64" where
  "max_seq_loop m [] = m"
| "max_seq_loop m (s # ss) = max_seq_loop (if s > m then s else m) ss"

definition conflux_get_max_seq_sent :: "conflux_t \<Rightarrow> u64" where
  "conflux_get_max_seq_sent cfx = max_seq_loop 0 (map (\<lambda>leg. last_seq_sent (cfx_leg cfx leg)) (cfx_legs cfx))"

definition conflux_get_max_seq_recv :: "conflux_t \<Rightarrow> u64" where
  "conflux_get_max_seq_recv cfx = max_seq_loop 0 (map (\<lambda>leg. last_seq_recv (cfx_leg cfx leg)) (cfx_legs cfx))"

text \<open>A pointer takes eight bytes; \<open>None\<close> is a circuit that is not a conflux circuit.\<close>

definition conflux_get_circ_bytes_allocation :: "conflux_t option \<Rightarrow> u64" where
  "conflux_get_circ_bytes_allocation cfx =
     (case cfx of Some cfx \<Rightarrow> of_nat (length (h_list (cfx_ooo_q cfx)) * 8) + ooo_q_alloc_cost cfx | None \<Rightarrow> 0)"

definition conflux_get_total_bytes_allocation :: "cfx_env \<Rightarrow> u64" where
  "conflux_get_total_bytes_allocation env = total_ooo_q_bytes env"

definition conflux_handle_oom :: "u64 \<Rightarrow> u64" where
  "conflux_handle_oom bytes_to_remove = 0"

section \<open>Choosing a circuit\<close>

definition circuit_ccontrol :: "circuit_t \<Rightarrow> congestion_control_t option" where
  "circuit_ccontrol circ = (if circ_is_origin circ then do { (_, cc) \<leftarrow> circ_cpath_prev circ; cc } else circ_cc circ)"

definition circuit_ready_to_send :: "circuit_t \<Rightarrow> bool option" where
  "circuit_ready_to_send circ = do {
     cc \<leftarrow> circuit_ccontrol circ;
     let cc_sendable = \<not> cc_inflight cc \<ge> cc_cwnd cc;
     Some (if circ_is_origin circ then cc_sendable \<and> \<not> circuit_blocked_on_n_chan circ
           else cc_sendable \<and> \<not> circuit_blocked_on_p_chan circ)
   }"

text \<open>The first leg with the smallest known round-trip time.\<close>

primrec min_rtt_loop :: "(nat \<Rightarrow> conflux_leg_t) \<Rightarrow> nat list \<Rightarrow> u64 \<times> nat option \<Rightarrow> u64 \<times> nat option" where
  "min_rtt_loop legs [] acc = acc"
| "min_rtt_loop legs (l # ls) acc =
     min_rtt_loop legs ls
       (if circ_rtts_usec (legs l) \<noteq> 0 \<and> circ_rtts_usec (legs l) < fst acc then (circ_rtts_usec (legs l), Some l) else acc)"

definition conflux_decide_circ_minrtt :: "cfx_env \<Rightarrow> conflux_t \<Rightarrow> nat option option" where
  "conflux_decide_circ_minrtt env cfx = do {
     tor_assert (cfx_legs cfx \<noteq> []);
     case snd (min_rtt_loop (cfx_leg cfx) (cfx_legs cfx) (- 1, None)) of
       None \<Rightarrow> Some None
     | Some leg \<Rightarrow> do {
         let circ = leg_circ (cfx_leg cfx leg);
         ready \<leftarrow> circuit_ready_to_send (env_circ env circ);
         Some (if ready then Some circ else None)
       }
   }"

primrec low_rtt_loop :: "cfx_env \<Rightarrow> (nat \<Rightarrow> conflux_leg_t) \<Rightarrow> nat list \<Rightarrow> u64 \<times> nat option \<Rightarrow> (u64 \<times> nat option) option" where
  "low_rtt_loop env legs [] acc = Some acc"
| "low_rtt_loop env legs (l # ls) acc = do {
     ready \<leftarrow> circuit_ready_to_send (env_circ env (leg_circ (legs l)));
     low_rtt_loop env legs ls
       (if \<not> ready then acc
        else if circ_rtts_usec (legs l) \<noteq> 0 \<and> circ_rtts_usec (legs l) < fst acc then (circ_rtts_usec (legs l), Some (leg_circ (legs l)))
        else acc)
   }"

definition conflux_decide_circ_lowrtt :: "cfx_env \<Rightarrow> conflux_t \<Rightarrow> nat option option" where
  "conflux_decide_circ_lowrtt env cfx = do {
     tor_assert (cfx_legs cfx \<noteq> []);
     (_, circ) \<leftarrow> low_rtt_loop env (cfx_leg cfx) (cfx_legs cfx) (- 1, None);
     Some circ
   }"

definition cwnd_available :: "circuit_t \<Rightarrow> u64 option" where
  "cwnd_available on_circ = do {
     cc \<leftarrow> circuit_ccontrol on_circ;
     Some (if cc_cwnd cc < cc_inflight cc then 0 else cc_cwnd cc - cc_inflight cc)
   }"

definition cwnd_sendable :: "circuit_t \<Rightarrow> u64 \<Rightarrow> u64 \<Rightarrow> u64 option" where
  "cwnd_sendable on_circ in_usec our_usec = do {
     cc \<leftarrow> circuit_ccontrol on_circ;
     cwnd_adjusted \<leftarrow> cwnd_available on_circ;
     Some (if our_usec = 0 \<or> in_usec = 0 then cwnd_adjusted
           else if cc_in_slow_start cc then cwnd_adjusted
           else min (cc_cwnd cc) (cwnd_adjusted * in_usec div our_usec))
   }"

definition conflux_can_switch :: "cfx_env \<Rightarrow> conflux_t \<Rightarrow> bool option" where
  "conflux_can_switch env cfx =
     (if cells_until_switch cfx > 0 then
        case prev_leg cfx of
          None \<Rightarrow> Some False
        | Some leg \<Rightarrow> do {
            ccontrol \<leftarrow> circuit_ccontrol (env_circ env (leg_circ (cfx_leg cfx leg)));
            Some (cc_inflight ccontrol < ucast (cc_sendme_inc ccontrol)
                  \<or> 100 * cc_inflight ccontrol \<le> ucast (cfx_drain_pct env) * cc_cwnd ccontrol)
          }
      else Some True)"

primrec cwnd_rtt_loop :: "cfx_env \<Rightarrow> (nat \<Rightarrow> conflux_leg_t) \<Rightarrow> u64 \<Rightarrow> nat list \<Rightarrow> nat option \<Rightarrow> nat option option" where
  "cwnd_rtt_loop env legs min_rtt [] leg = Some leg"
| "cwnd_rtt_loop env legs min_rtt (l # ls) leg = do {
     let circ = env_circ env (leg_circ (legs l));
     ready \<leftarrow> circuit_ready_to_send circ;
     if \<not> ready then cwnd_rtt_loop env legs min_rtt ls leg
     else if circ_rtts_usec (legs l) \<noteq> 0 then do {
       sendable \<leftarrow> cwnd_sendable circ min_rtt (circ_rtts_usec (legs l));
       cwnd_rtt_loop env legs min_rtt ls (if sendable > 0 then Some l else leg)
     } else cwnd_rtt_loop env legs min_rtt ls leg
   }"

text \<open>The assertion is the one the code has: that the set has no legs.\<close>

definition conflux_decide_circ_cwndrtt :: "cfx_env \<Rightarrow> conflux_t \<Rightarrow> nat option option" where
  "conflux_decide_circ_cwndrtt env cfx = do {
     tor_assert (\<not> cfx_legs cfx \<noteq> []);
     let circ_of = (\<lambda>l. leg_circ (cfx_leg cfx l));
     let (min_rtt, leg) = min_rtt_loop (cfx_leg cfx) (cfx_legs cfx) (- 1, None);
     ready \<leftarrow> (case leg of None \<Rightarrow> Some False | Some l \<Rightarrow> circuit_ready_to_send (env_circ env (circ_of l)));
     if ready then Some (map_option circ_of leg)
     else do {
       leg \<leftarrow> cwnd_rtt_loop env (cfx_leg cfx) min_rtt (cfx_legs cfx) None;
       ready \<leftarrow> (case leg of None \<Rightarrow> Some False | Some l \<Rightarrow> circuit_ready_to_send (env_circ env (circ_of l)));
       Some (if ready then map_option circ_of leg else None)
     }
   }"

section \<open>Sending\<close>

primrec first_leg_loop :: "(nat \<Rightarrow> conflux_leg_t) \<Rightarrow> nat list \<Rightarrow> nat option \<Rightarrow> nat option" where
  "first_leg_loop legs [] min_leg = min_leg"
| "first_leg_loop legs (l # ls) min_leg =
     first_leg_loop legs ls
       (if circ_rtts_usec (legs l) > 0 \<and> (case min_leg of None \<Rightarrow> True | Some m \<Rightarrow> circ_rtts_usec (legs l) < circ_rtts_usec (legs m))
        then Some l else min_leg)"

definition conflux_pick_first_leg :: "conflux_t \<Rightarrow> bool \<times> conflux_t" where
  "conflux_pick_first_leg cfx =
     (case first_leg_loop (cfx_leg cfx) (cfx_legs cfx) None of
        Some min_leg \<Rightarrow> (True, cfx\<lparr>cells_until_switch := 0, curr_leg := Some min_leg\<rparr>)
      | None \<Rightarrow>
          if cfx_legs cfx = [] then (False, cfx)
          else (True, cfx\<lparr>cells_until_switch := 0, curr_leg := Some (hd (cfx_legs cfx))\<rparr>))"

definition conflux_decide_next_circ :: "cfx_env \<Rightarrow> conflux_t \<Rightarrow> (nat option \<times> conflux_t) option" where
  "conflux_decide_next_circ env cfx =
     (if in_full_teardown cfx then Some (None, cfx)
      else
        let (picked, cfx) = (if curr_leg cfx = None then conflux_pick_first_leg cfx else (True, cfx))
        in if \<not> picked then Some (None, cfx)
        else do {
          can_switch \<leftarrow> conflux_can_switch env cfx;
          if \<not> can_switch then do {
            leg \<leftarrow> curr_leg cfx;
            let curr_circ = leg_circ (cfx_leg cfx leg);
            ready \<leftarrow> circuit_ready_to_send (env_circ env curr_circ);
            Some (if ready then Some curr_circ else None, cfx)
          } else do {
            circ \<leftarrow> (case cfx_alg cfx of
                CONFLUX_ALG_MINRTT \<Rightarrow> conflux_decide_circ_minrtt env cfx
              | CONFLUX_ALG_LOWRTT \<Rightarrow> conflux_decide_circ_lowrtt env cfx
              | CONFLUX_ALG_CWNDRTT \<Rightarrow> conflux_decide_circ_cwndrtt env cfx);
            Some (circ, cfx)
          }
        })"

text \<open>The switch cell: a big-endian sequence number.\<close>

definition trn_cell_conflux_switch_encode :: "u32 \<Rightarrow> u8 list" where
  "trn_cell_conflux_switch_encode seqnum =
     [ucast (drop_bit 24 seqnum), ucast (drop_bit 16 seqnum), ucast (drop_bit 8 seqnum), ucast seqnum]"

definition trn_cell_conflux_switch_parse :: "u8 list \<Rightarrow> nat \<Rightarrow> int \<times> u32" where
  "trn_cell_conflux_switch_parse input len_in =
     (if len_in < 4 then (-2, 0)
      else (4, push_bit 24 (ucast (input ! 0)) OR push_bit 16 (ucast (input ! 1)) OR push_bit 8 (ucast (input ! 2)) OR ucast (input ! 3)))"

definition conflux_cell_parse_switch :: "relay_msg_t \<Rightarrow> u32" where
  "conflux_cell_parse_switch msg =
     (let (r, seq) = trn_cell_conflux_switch_parse (rm_body msg) (unat (rm_length msg)) in if r < 0 then 0 else seq)"

definition conflux_send_switch_command :: "nat \<Rightarrow> u64 \<Rightarrow> cfx_env \<Rightarrow> cfx_env option" where
  "conflux_send_switch_command send_circ relative_seq env = do {
     tor_assert (relative_seq < 0xFFFFFFFF);
     let payload = trn_cell_conflux_switch_encode (ucast relative_seq);
     Some (env\<lparr>env_switches := env_switches env @ [(send_circ, payload)]\<rparr>)
   }"

definition RELAY_COMMAND_DATA :: u8 where "RELAY_COMMAND_DATA = 2"

text \<open>Make \<open>new_leg\<close> the current leg and tell the other end how far it is behind.\<close>

definition switch_leg :: "conflux_t \<Rightarrow> nat \<Rightarrow> nat option \<Rightarrow> cfx_env \<Rightarrow> (conflux_t \<times> cfx_env) option" where
  "switch_leg cfx cur new_leg env = do {
     let cfx = cfx\<lparr>cells_until_switch := 0\<rparr>;
     tor_assert (cfx_legs cfx \<noteq> []);
     let cfx = cfx\<lparr>prev_leg := Some cur, curr_leg := new_leg\<rparr>;
     new \<leftarrow> new_leg;
     let seq = last_seq_sent (cfx_leg cfx cur);
     let relative_seq = seq - last_seq_sent (cfx_leg cfx new);
     tor_assert (seq \<ge> last_seq_sent (cfx_leg cfx new));
     env \<leftarrow> conflux_send_switch_command (leg_circ (cfx_leg cfx new)) relative_seq env;
     Some (leg_update new (\<lambda>leg. leg\<lparr>last_seq_sent := seq\<rparr>) cfx, env)
   }"

definition conflux_decide_circ_for_send :: "conflux_t \<Rightarrow> nat \<Rightarrow> u8 \<Rightarrow> cfx_env \<Rightarrow> (nat option \<times> conflux_t \<times> cfx_env) option" where
  "conflux_decide_circ_for_send cfx orig_circ relay_command env =
     (if \<not> conflux_should_multiplex relay_command then Some (Some orig_circ, cfx, env)
      else do {
        (new_circ, cfx) \<leftarrow> conflux_decide_next_circ env cfx;
        case new_circ of
          None \<Rightarrow>
            if relay_command \<noteq> RELAY_COMMAND_DATA
            then Some (map_option (\<lambda>leg. leg_circ (cfx_leg cfx leg)) (curr_leg cfx), cfx, env)
            else Some (None, cfx, env)
        | Some circ \<Rightarrow> do {
            let new_leg = conflux_get_leg cfx circ;
            cur \<leftarrow> curr_leg cfx;
            (cfx, env) \<leftarrow> (if circ \<noteq> leg_circ (cfx_leg cfx cur) then switch_leg cfx cur new_leg env else Some (cfx, env));
            Some (Some circ, cfx, env)
          }
      })"

definition conflux_note_cell_sent :: "conflux_t \<Rightarrow> nat \<Rightarrow> u8 \<Rightarrow> conflux_t" where
  "conflux_note_cell_sent cfx circ relay_command =
     (if \<not> conflux_should_multiplex relay_command then cfx
      else case conflux_get_leg cfx circ of
        None \<Rightarrow> cfx
      | Some leg \<Rightarrow>
          let cfx = leg_update leg (\<lambda>leg. leg\<lparr>last_seq_sent := last_seq_sent leg + 1\<rparr>) cfx
          in if cells_until_switch cfx > 0 then cfx\<lparr>cells_until_switch := cells_until_switch cfx - 1\<rparr> else cfx)"

definition conflux_update_rtt :: "conflux_t \<Rightarrow> nat \<Rightarrow> u64 \<Rightarrow> conflux_t" where
  "conflux_update_rtt cfx circ rtt_usec =
     (case conflux_get_leg cfx circ of
        None \<Rightarrow> cfx
      | Some leg \<Rightarrow> leg_update leg (\<lambda>leg. leg\<lparr>circ_rtts_usec := rtt_usec\<rparr>) cfx)"

section \<open>Receiving\<close>

definition conflux_queue_cmp :: "conflux_msg_t \<Rightarrow> conflux_msg_t \<Rightarrow> int" where
  "conflux_queue_cmp a b = (if cm_seq a < cm_seq b then -1 else if cm_seq a > cm_seq b then 1 else 0)"

definition conflux_is_enabled :: "cfx_env \<Rightarrow> circuit_t \<Rightarrow> bool option" where
  "conflux_is_enabled env circ =
     (if \<not> congestion_control_enabled env then Some False
      else do {
        negotiated \<leftarrow> (if circ_is_origin circ then do { (_, cc) \<leftarrow> circ_cpath_prev circ; Some (cc \<noteq> None) } else Some (circ_cc circ \<noteq> None));
        Some (if \<not> negotiated then False
              else if opt_ConfluxEnabled env \<noteq> -1 then opt_ConfluxEnabled env \<noteq> 0
              else conflux_enabled env)
      })"

text \<open>The destination of a circuit: its last hop, or none for a circuit that ends here.\<close>

definition conflux_get_destination_hop :: "circuit_t \<Rightarrow> nat option option" where
  "conflux_get_destination_hop circ =
     (if circ_is_origin circ then do { (hop, _) \<leftarrow> circ_cpath_prev circ; Some (Some hop) } else Some None)"

definition conflux_validate_source_hop :: "circuit_t \<Rightarrow> nat option \<Rightarrow> bool option" where
  "conflux_validate_source_hop in_circ layer_hint = do {
     dest \<leftarrow> conflux_get_destination_hop in_circ;
     Some (if dest \<noteq> layer_hint then False else \<not> (layer_hint = None \<and> circ_n_chan in_circ))
   }"

definition conflux_process_switch_command ::
    "conflux_t option \<Rightarrow> nat \<Rightarrow> nat option \<Rightarrow> relay_msg_t \<Rightarrow> cfx_env \<Rightarrow> (int \<times> conflux_t option \<times> cfx_env) option" where
  "conflux_process_switch_command cfx in_circ layer_hint msg env = do {
     enabled \<leftarrow> conflux_is_enabled env (env_circ env in_circ);
     if \<not> enabled then Some (-1, cfx, circuit_mark_for_close in_circ END_CIRC_REASON_TORPROTOCOL env)
     else case cfx of
       None \<Rightarrow> Some (-1, cfx, circuit_mark_for_close in_circ END_CIRC_REASON_TORPROTOCOL env)
     | Some c \<Rightarrow>
         (case conflux_get_leg c in_circ of
            None \<Rightarrow> Some (-1, cfx, circuit_mark_for_close in_circ END_CIRC_REASON_INTERNAL env)
          | Some leg \<Rightarrow> do {
              valid \<leftarrow> conflux_validate_source_hop (env_circ env in_circ) layer_hint;
              if \<not> valid then Some (-1, cfx, circuit_mark_for_close in_circ END_CIRC_REASON_TORPROTOCOL env)
              else
                let relative_seq = conflux_cell_parse_switch msg
                in Some (0, Some (leg_update leg (\<lambda>leg. leg\<lparr>last_seq_recv := last_seq_recv leg + ucast relative_seq\<rparr>) c), env)
            })
   }"

text \<open>\<open>sizeof (conflux_msg_t)\<close> is 24 and \<open>sizeof (relay_msg_t)\<close> is 16 on a 64-bit host.\<close>

definition conflux_msg_alloc_cost :: "conflux_msg_t \<Rightarrow> u64" where
  "conflux_msg_alloc_cost msg = ucast (rm_length (cm_msg msg)) + 24 + 16"

definition conflux_process_relay_msg ::
    "conflux_t \<Rightarrow> nat \<Rightarrow> nat option \<Rightarrow> relay_msg_t \<Rightarrow> cfx_env \<Rightarrow> (bool \<times> conflux_t \<times> cfx_env) option" where
  "conflux_process_relay_msg cfx in_circ layer_hint msg env =
     (case conflux_get_leg cfx in_circ of
        None \<Rightarrow> Some (False, cfx, circuit_mark_for_close in_circ END_CIRC_REASON_INTERNAL env)
      | Some leg \<Rightarrow> do {
          valid \<leftarrow> conflux_validate_source_hop (env_circ env in_circ) layer_hint;
          if \<not> valid then Some (False, cfx, circuit_mark_for_close in_circ END_CIRC_REASON_TORPROTOCOL env)
          else
            let cfx = leg_update leg (\<lambda>leg. leg\<lparr>last_seq_recv := last_seq_recv leg + 1\<rparr>) cfx;
                seq = last_seq_recv (cfx_leg cfx leg)
            in if seq = last_seq_delivered cfx + 1
               then Some (True, cfx\<lparr>last_seq_delivered := last_seq_delivered cfx + 1\<rparr>, env)
               else if seq \<le> last_seq_delivered cfx
               then Some (False, cfx, circuit_mark_for_close in_circ END_CIRC_REASON_INTERNAL env)
               else do {
                 copy \<leftarrow> relay_msg_copy msg;
                 let c_msg = \<lparr>cm_seq = seq, cm_msg = copy\<rparr>;
                 let cost = conflux_msg_alloc_cost c_msg;
                 Some (False,
                   cfx\<lparr>cfx_ooo_q := smartlist_pqueue_add conflux_queue_cmp (cfx_ooo_q cfx) c_msg,
                       ooo_q_alloc_cost := ooo_q_alloc_cost cfx + cost\<rparr>,
                   env\<lparr>total_ooo_q_bytes := total_ooo_q_bytes env + cost\<rparr>)
               }
        })"

definition conflux_dequeue_relay_msg :: "conflux_t \<Rightarrow> cfx_env \<Rightarrow> (conflux_msg_t option \<times> conflux_t \<times> cfx_env) option" where
  "conflux_dequeue_relay_msg cfx env =
     (case h_list (cfx_ooo_q cfx) of
        [] \<Rightarrow> Some (None, cfx, env)
      | m # _ \<Rightarrow>
          if cm_seq m = last_seq_delivered cfx + 1 then do {
            (_, q) \<leftarrow> smartlist_pqueue_pop conflux_queue_cmp (cfx_ooo_q cfx);
            let cost = conflux_msg_alloc_cost m;
            Some (Some m,
              cfx\<lparr>cfx_ooo_q := q, ooo_q_alloc_cost := ooo_q_alloc_cost cfx - cost, last_seq_delivered := last_seq_delivered cfx + 1\<rparr>,
              env\<lparr>total_ooo_q_bytes := total_ooo_q_bytes env - cost\<rparr>)
          } else Some (None, cfx, env))"

section \<open>Delivering\<close>

lemma heapify_length: "length (h_list (smartlist_heapify compare h idx)) = length (h_list h)"
  by (induction compare h idx rule: smartlist_heapify.induct) (subst smartlist_heapify.simps, simp add: Let_def)

lemma pqueue_pop_length: "smartlist_pqueue_pop compare h = Some (x, h') \<Longrightarrow> length (h_list h') < length (h_list h)"
  by (auto simp: smartlist_pqueue_pop_def Let_def heapify_length UPDATE_IDX_def)

lemma dequeue_length:
  "conflux_dequeue_relay_msg cfx env = Some (Some m, cfx', env') \<Longrightarrow> length (h_list (cfx_ooo_q cfx')) < length (h_list (cfx_ooo_q cfx))"
  by (auto simp: conflux_dequeue_relay_msg_def Let_def split: list.splits if_splits bind_splits dest: pqueue_pop_length)

text \<open>The loop of \<open>connection_edge_process_relay_cell\<close>: \<open>process\<close> hands one message to its stream and a
  negative result tears the circuit down.\<close>

function conflux_drain ::
    "(relay_msg_t \<Rightarrow> 'w \<Rightarrow> int \<times> 'w) \<Rightarrow> conflux_t \<Rightarrow> cfx_env \<Rightarrow> 'w \<Rightarrow> (int \<times> conflux_t \<times> cfx_env \<times> 'w) option" where
  "conflux_drain process cfx env w =
     (case conflux_dequeue_relay_msg cfx env of
        None \<Rightarrow> None
      | Some (None, cfx, env) \<Rightarrow> Some (0, cfx, env, w)
      | Some (Some c_msg, cfx, env) \<Rightarrow>
          (case process (cm_msg c_msg) w of (ret, w) \<Rightarrow>
             if ret < 0 then Some (ret, cfx, env, w) else conflux_drain process cfx env w))"
  by pat_completeness auto
termination
  by (relation "measure (\<lambda>(_, cfx, _, _). length (h_list (cfx_ooo_q cfx)))") (auto dest: dequeue_length)

declare conflux_drain.simps [simp del]

definition process_multiplexed ::
    "(relay_msg_t \<Rightarrow> 'w \<Rightarrow> int \<times> 'w) \<Rightarrow> conflux_t option \<Rightarrow> nat \<Rightarrow> nat option \<Rightarrow> relay_msg_t \<Rightarrow> cfx_env \<Rightarrow> 'w
       \<Rightarrow> (int \<times> conflux_t option \<times> cfx_env \<times> 'w) option" where
  "process_multiplexed process cfx circ layer_hint msg env w =
     (case cfx of
        Some c \<Rightarrow>
          if \<not> conflux_should_multiplex (rm_command msg)
          then (case process msg w of (ret, w) \<Rightarrow> Some (ret, cfx, env, w))
          else do {
            (ready, c, env) \<leftarrow> conflux_process_relay_msg c circ layer_hint msg env;
            if ready then
              (case process msg w of (ret, w) \<Rightarrow>
                 if ret < 0 then Some (ret, Some c, env, w)
                 else do { (ret, c, env, w) \<leftarrow> conflux_drain process c env w; Some (ret, Some c, env, w) })
            else Some (0, Some c, env, w)
          }
      | None \<Rightarrow> (case process msg w of (ret, w) \<Rightarrow> Some (ret, cfx, env, w)))"

section \<open>The queue\<close>

interpretation ooo_queue: comparison conflux_queue_cmp
  by unfold_locales (auto simp: conflux_queue_cmp_def split: if_splits)

section \<open>The circuit that is chosen\<close>

definition leg_ready :: "cfx_env \<Rightarrow> conflux_t \<Rightarrow> nat \<Rightarrow> bool" where
  "leg_ready env cfx circ \<longleftrightarrow> (\<exists>l \<in> set (cfx_legs cfx). leg_circ (cfx_leg cfx l) = circ) \<and> circuit_ready_to_send (env_circ env circ) = Some True"

lemma min_rtt_loop_mem:
  "snd (min_rtt_loop legs ls acc) = Some l \<Longrightarrow> l \<in> set ls \<or> snd acc = Some l"
  by (induction ls arbitrary: acc) (fastforce split: if_splits)+

lemma low_rtt_loop_mem:
  "low_rtt_loop env legs ls acc = Some (r, Some c) \<Longrightarrow>
     snd acc = Some c \<or> ((\<exists>l \<in> set ls. leg_circ (legs l) = c) \<and> circuit_ready_to_send (env_circ env c) = Some True)"
  by (induction ls arbitrary: acc) (fastforce split: if_splits bind_splits)+

lemma decide_minrtt_ready: "conflux_decide_circ_minrtt env cfx = Some (Some c) \<Longrightarrow> leg_ready env cfx c"
  by (auto simp: conflux_decide_circ_minrtt_def leg_ready_def Let_def split: option.splits if_splits bind_splits dest!: min_rtt_loop_mem)

lemma decide_lowrtt_ready: "conflux_decide_circ_lowrtt env cfx = Some (Some c) \<Longrightarrow> leg_ready env cfx c"
  by (auto simp: conflux_decide_circ_lowrtt_def leg_ready_def split: bind_splits dest!: low_rtt_loop_mem)

lemma decide_cwndrtt_none: "conflux_decide_circ_cwndrtt env cfx = Some c \<Longrightarrow> c = None"
  by (auto simp: conflux_decide_circ_cwndrtt_def)

lemma first_leg_loop_mem: "first_leg_loop legs ls m = Some l \<Longrightarrow> l \<in> set ls \<or> m = Some l"
  by (induction ls arbitrary: m) (fastforce split: if_splits)+

definition curr_leg_ok :: "conflux_t \<Rightarrow> bool" where
  "curr_leg_ok cfx \<longleftrightarrow> (case curr_leg cfx of None \<Rightarrow> True | Some l \<Rightarrow> l \<in> set (cfx_legs cfx))"

text \<open>What \<open>conflux_pick_first_leg\<close> and \<open>conflux_decide_next_circ\<close> change: the current leg, if there was none.\<close>

lemma pick_first_leg_result:
  assumes "conflux_pick_first_leg cfx = (b, cfx')"
  shows "if b then \<exists>l \<in> set (cfx_legs cfx). cfx' = cfx\<lparr>cells_until_switch := 0, curr_leg := Some l\<rparr> else cfx' = cfx \<and> cfx_legs cfx = []"
proof (cases "first_leg_loop (cfx_leg cfx) (cfx_legs cfx) None")
  case None
  then show ?thesis using assms by (auto simp: conflux_pick_first_leg_def split: if_splits)
next
  case (Some l)
  then show ?thesis using assms first_leg_loop_mem [OF Some] by (auto simp: conflux_pick_first_leg_def)
qed

lemma decide_next_circ_result:
  assumes "conflux_decide_next_circ env cfx = Some (c, cfx')" "curr_leg_ok cfx"
  shows "(cfx' = cfx \<or> curr_leg cfx = None \<and> (\<exists>l \<in> set (cfx_legs cfx). cfx' = cfx\<lparr>cells_until_switch := 0, curr_leg := Some l\<rparr>))
    \<and> (\<forall>circ. c = Some circ \<longrightarrow> leg_ready env cfx circ \<and> curr_leg cfx' \<noteq> None)"
proof (cases "in_full_teardown cfx")
  case True
  then show ?thesis using assms by (auto simp: conflux_decide_next_circ_def)
next
  case False
  define first where "first = (if curr_leg cfx = None then conflux_pick_first_leg cfx else (True, cfx))"
  obtain b cfx1 where f: "first = (b, cfx1)" by fastforce
  have 1: "cfx1 = cfx \<or> curr_leg cfx = None \<and> (\<exists>l \<in> set (cfx_legs cfx). cfx1 = cfx\<lparr>cells_until_switch := 0, curr_leg := Some l\<rparr>)"
    using f pick_first_leg_result [of cfx b cfx1] by (auto simp: first_def split: if_splits)
  have 2: "curr_leg cfx1 \<noteq> None" if b
    using f that pick_first_leg_result [of cfx b cfx1] by (auto simp: first_def split: if_splits)
  have ok: "curr_leg_ok cfx1" using 1 assms(2) by (auto simp: curr_leg_ok_def)
  have r: "leg_ready env cfx1 circ = leg_ready env cfx circ" for circ using 1 by (auto simp: leg_ready_def)
  have "cfx' = cfx1 \<and> (\<forall>circ. c = Some circ \<longrightarrow> b \<and> leg_ready env cfx1 circ)"
    using assms(1) False f ok
    by (auto simp: conflux_decide_next_circ_def first_def [symmetric] curr_leg_ok_def leg_ready_def [of env cfx1] Let_def
        split: if_splits bind_splits conflux_alg_t.splits option.splits
        dest: decide_minrtt_ready [unfolded leg_ready_def] decide_lowrtt_ready [unfolded leg_ready_def] decide_cwndrtt_none)
  then show ?thesis using 1 2 r by auto
qed

text \<open>C8 Whatever circuit is chosen for the next cell belongs to a leg of the set, has room in its
  congestion window and is not blocked on its channel.\<close>

theorem decide_next_circ_ready:
  assumes "curr_leg_ok cfx" "conflux_decide_next_circ env cfx = Some (Some circ, cfx')"
  shows "(\<exists>l \<in> set (cfx_legs cfx). leg_circ (cfx_leg cfx l) = circ)
    \<and> (\<exists>cc. circuit_ccontrol (env_circ env circ) = Some cc \<and> cc_inflight cc < cc_cwnd cc)
    \<and> (if circ_is_origin (env_circ env circ) then \<not> circuit_blocked_on_n_chan (env_circ env circ)
       else \<not> circuit_blocked_on_p_chan (env_circ env circ))"
  using decide_next_circ_result [OF assms(2,1)]
  by (auto simp: leg_ready_def circuit_ready_to_send_def Let_def split: bind_splits if_splits)

section \<open>The algorithm CWNDRTT\<close>

text \<open>
  What can happen to a set: the operations of \<open>conflux.c\<close>, and the changes that \<open>conflux_pool.c\<close> makes to the
  legs, to the current and previous leg and to the teardown flag.
\<close>

inductive cfx_history :: "conflux_t \<Rightarrow> conflux_t \<Rightarrow> bool" where
  fresh: "cfx_history cfx cfx"
| decide: "cfx_history cfx0 cfx \<Longrightarrow> conflux_decide_next_circ env cfx = Some (c, cfx') \<Longrightarrow> cfx_history cfx0 cfx'"
| send: "cfx_history cfx0 cfx \<Longrightarrow> conflux_decide_circ_for_send cfx orig cmd env = Some (c, cfx', env') \<Longrightarrow> cfx_history cfx0 cfx'"
| sent: "cfx_history cfx0 cfx \<Longrightarrow> cfx_history cfx0 (conflux_note_cell_sent cfx circ cmd)"
| rtt: "cfx_history cfx0 cfx \<Longrightarrow> cfx_history cfx0 (conflux_update_rtt cfx circ rtt_usec)"
| switch: "cfx_history cfx0 cfx \<Longrightarrow> conflux_process_switch_command (Some cfx) circ hint msg env = Some (r, Some cfx', env') \<Longrightarrow> cfx_history cfx0 cfx'"
| msg: "cfx_history cfx0 cfx \<Longrightarrow> conflux_process_relay_msg cfx circ hint msg env = Some (ready, cfx', env') \<Longrightarrow> cfx_history cfx0 cfx'"
| dequeue: "cfx_history cfx0 cfx \<Longrightarrow> conflux_dequeue_relay_msg cfx env = Some (m, cfx', env') \<Longrightarrow> cfx_history cfx0 cfx'"
| pool: "cfx_history cfx0 cfx \<Longrightarrow>
    cfx_history cfx0 (cfx\<lparr>cfx_legs := ls, cfx_leg := f, curr_leg := cur, prev_leg := prev, in_full_teardown := td\<rparr>)"

text \<open>The algorithm is fixed, and the count of cells before a switch never leaves zero.\<close>

definition no_wait :: "conflux_t \<Rightarrow> conflux_t \<Rightarrow> bool" where
  "no_wait cfx cfx' \<longleftrightarrow> cfx_alg cfx' = cfx_alg cfx \<and> (cells_until_switch cfx = 0 \<longrightarrow> cells_until_switch cfx' = 0)"

lemma no_wait_refl: "no_wait cfx cfx" and no_wait_trans: "no_wait a b \<Longrightarrow> no_wait b c \<Longrightarrow> no_wait a c"
  by (simp_all add: no_wait_def)

lemma decide_no_wait: "conflux_decide_next_circ env cfx = Some (c, cfx') \<Longrightarrow> no_wait cfx cfx'"
  by (auto simp: conflux_decide_next_circ_def conflux_pick_first_leg_def no_wait_def Let_def split: if_splits bind_splits option.splits)

lemma switch_leg_no_wait: "switch_leg cfx cur new_leg env = Some (cfx', env') \<Longrightarrow> no_wait cfx cfx'"
  by (auto simp: switch_leg_def no_wait_def Let_def split: bind_splits)

lemma send_no_wait:
  assumes "conflux_decide_circ_for_send cfx orig cmd env = Some (c, cfx', env')"
  shows "no_wait cfx cfx'"
proof (cases "conflux_should_multiplex cmd")
  case False
  then show ?thesis using assms by (simp add: conflux_decide_circ_for_send_def no_wait_refl)
next
  case True
  then obtain new cfx1 where d: "conflux_decide_next_circ env cfx = Some (new, cfx1)"
    using assms by (auto simp: conflux_decide_circ_for_send_def split: bind_splits)
  have "no_wait cfx1 cfx'"
    using assms True d by (auto simp: conflux_decide_circ_for_send_def no_wait_refl split: option.splits bind_splits if_splits dest: switch_leg_no_wait)
  then show ?thesis using decide_no_wait [OF d] no_wait_trans by blast
qed

lemma history_no_wait: "cfx_history cfx0 cfx \<Longrightarrow> no_wait cfx0 cfx"
proof (induction rule: cfx_history.induct)
  case (decide cfx0 cfx env c cfx')
  then show ?case using decide_no_wait no_wait_trans by blast
next
  case (send cfx0 cfx orig cmd env c cfx' env')
  then show ?case using send_no_wait no_wait_trans by blast
next
  case (switch cfx0 cfx circ hint msg env r cfx' env')
  then show ?case
    by (auto simp: conflux_process_switch_command_def no_wait_def Let_def split: bind_splits if_splits option.splits)
next
  case (msg cfx0 cfx circ hint msg env ready cfx' env')
  then show ?case
    by (auto simp: conflux_process_relay_msg_def no_wait_def Let_def split: bind_splits if_splits option.splits)
next
  case (dequeue cfx0 cfx env m cfx' env')
  then show ?case
    by (auto simp: conflux_dequeue_relay_msg_def no_wait_def Let_def split: bind_splits if_splits list.splits)
qed (auto simp: no_wait_def conflux_note_cell_sent_def conflux_update_rtt_def Let_def split: option.splits)

lemma cwndrtt_decide:
  assumes "cells_until_switch cfx = 0" "cfx_alg cfx = CONFLUX_ALG_CWNDRTT"
  shows "conflux_decide_next_circ env cfx = None \<longleftrightarrow> cfx_legs cfx \<noteq> [] \<and> \<not> in_full_teardown cfx"
    and "conflux_decide_next_circ env cfx = Some (c, cfx') \<Longrightarrow> c = None"
proof -
  obtain b cfx1 where f: "(if curr_leg cfx = None then conflux_pick_first_leg cfx else (True, cfx)) = (b, cfx1)" by fastforce
  have same: "cells_until_switch cfx1 = 0" "cfx_alg cfx1 = CONFLUX_ALG_CWNDRTT" "cfx_legs cfx1 = cfx_legs cfx" "cfx_legs cfx \<noteq> [] \<longrightarrow> b"
    using f assms pick_first_leg_result [of cfx b cfx1] by (auto split: if_splits)
  have alg: "conflux_decide_circ_cwndrtt env cfx1 = (if cfx_legs cfx = [] then Some None else None)"
    using same(3) by (simp add: conflux_decide_circ_cwndrtt_def)
  have can: "conflux_can_switch env cfx1 = Some True" using same(1) by (simp add: conflux_can_switch_def)
  have eq: "conflux_decide_next_circ env cfx =
      (if in_full_teardown cfx then Some (None, cfx) else if cfx_legs cfx \<noteq> [] then None else Some (None, cfx1))"
    unfolding conflux_decide_next_circ_def f using same(2,4) can alg by simp
  show "conflux_decide_next_circ env cfx = None \<longleftrightarrow> cfx_legs cfx \<noteq> [] \<and> \<not> in_full_teardown cfx" using eq by simp
  show "conflux_decide_next_circ env cfx = Some (c, cfx') \<Longrightarrow> c = None" using eq by (simp split: if_splits)
qed


section \<open>An example\<close>

text \<open>Two legs, on the circuits 10 and 20, that end here; nothing is in flight.\<close>

definition demo_circ :: circuit_t where
  "demo_circ = \<lparr>circ_is_origin = False, circ_cpath_prev = None,
     circ_cc = Some \<lparr>cc_cwnd = 124, cc_inflight = 0, cc_sendme_inc = 31, cc_in_slow_start = False\<rparr>,
     circuit_blocked_on_n_chan = False, circuit_blocked_on_p_chan = False, circ_n_chan = False\<rparr>"

definition demo_env :: cfx_env where
  "demo_env = \<lparr>env_circ = \<lambda>_. demo_circ, cfx_drain_pct = 0, congestion_control_enabled = True, opt_ConfluxEnabled = -1,
     conflux_enabled = True, total_ooo_q_bytes = 0, env_closed = [], env_switches = []\<rparr>"

definition demo_set :: "conflux_alg_t \<Rightarrow> conflux_t" where
  "demo_set alg = \<lparr>cfx_alg = alg, cfx_legs = [0, 1],
     cfx_leg = \<lambda>l. \<lparr>last_seq_recv = 0, last_seq_sent = 0, circ_rtts_usec = if l = 0 then 700 else 500, leg_circ = if l = 0 then 10 else 20\<rparr>,
     cfx_ooo_q = empty_heap, ooo_q_alloc_cost = 0, last_seq_delivered = 0, cells_until_switch = 0, curr_leg = None, prev_leg = None,
     in_full_teardown = False\<rparr>"

lemma demo_ready: "circuit_ready_to_send demo_circ = Some True"
  by (simp add: circuit_ready_to_send_def circuit_ccontrol_def demo_circ_def)

text \<open>The leg with the smaller round-trip time is picked, and no switch is needed.\<close>

lemma demo_decide_next:
  "conflux_decide_next_circ demo_env (demo_set CONFLUX_ALG_LOWRTT) = Some (Some 20, (demo_set CONFLUX_ALG_LOWRTT)\<lparr>curr_leg := Some 1\<rparr>)"
  by (simp add: conflux_decide_next_circ_def conflux_pick_first_leg_def conflux_can_switch_def conflux_decide_circ_lowrtt_def demo_ready
      demo_set_def demo_env_def)

theorem decide_next_circ_ready_witness:
  "\<exists>cc. circuit_ccontrol (env_circ demo_env 20) = Some cc \<and> cc_inflight cc < cc_cwnd cc"
  using decide_next_circ_ready [OF _ demo_decide_next] by (simp add: curr_leg_ok_def demo_set_def)


end
