(* ===== verification/Conflux_Delivery.thy ===== *)
theory Conflux_Delivery
  imports Conflux
begin

text \<open>
  A conflux set end to end: the sender of \<open>conflux.c\<close> distributes messages over its legs, every leg is a
  first-in first-out channel, and the receiver puts the messages back in order.  A step relation
  composes the operations of both ends; its reachable states satisfy an invariant from which in-order,
  complete delivery follows.
\<close>

section \<open>The system\<close>

text \<open>What travels on a circuit: the payload of a switch cell, or a multiplexed message.\<close>

datatype wire = Switch "u8 list" | Cell relay_msg_t

record net =
  n_snd :: conflux_t
  n_rcv :: conflux_t
  n_chan :: "nat \<Rightarrow> wire list"
  n_sent :: "relay_msg_t list"
  n_delivered :: "relay_msg_t list"
  n_closed :: "(nat \<times> int) list"

definition push :: "nat \<Rightarrow> wire list \<Rightarrow> (nat \<Rightarrow> wire list) \<Rightarrow> nat \<Rightarrow> wire list" where
  "push c ws chan = chan(c := chan c @ ws)"

definition switch_msg :: "u8 list \<Rightarrow> relay_msg_t" where
  "switch_msg p = \<lparr>rm_command = 22, rm_length = of_nat (length p), rm_stream_id = 0, rm_is_relay_early = False, rm_body = p\<rparr>"

text \<open>Streams accept every message; the log is the order in which they get them.\<close>

definition to_stream :: "relay_msg_t \<Rightarrow> relay_msg_t list \<Rightarrow> int \<times> relay_msg_t list" where
  "to_stream m log = (0, log @ [m])"

text \<open>A message as the edges build it, and an end of the circuit that expects conflux cells.\<close>

definition sendable_msg :: "relay_msg_t \<Rightarrow> bool" where
  "sendable_msg m \<longleftrightarrow> conflux_should_multiplex (rm_command m) \<and> length (rm_body m) = unat (rm_length m)
     \<and> unat (rm_length m) \<le> RELAY_PAYLOAD_SIZE_MAX"

definition recv_env_ok :: "cfx_env \<Rightarrow> nat \<Rightarrow> nat option \<Rightarrow> bool" where
  "recv_env_ok env c hint \<longleftrightarrow> conflux_is_enabled env (env_circ env c) = Some True
     \<and> conflux_validate_source_hop (env_circ env c) hint = Some True \<and> env_closed env = []"

text \<open>The switch cells the sender wrote, as wire entries of their circuit.\<close>

definition switches_on :: "nat \<Rightarrow> cfx_env \<Rightarrow> wire list" where
  "switches_on c env = map (Switch \<circ> snd) (filter (\<lambda>(c', _). c' = c) (env_switches env))"

definition receive :: "nat \<Rightarrow> cfx_env \<Rightarrow> nat option \<Rightarrow> net \<Rightarrow> net option" where
  "receive c env hint s =
     (case n_chan s c of
        [] \<Rightarrow> None
      | Switch p # ws \<Rightarrow> do {
          (_, cfx, env) \<leftarrow> conflux_process_switch_command (Some (n_rcv s)) c hint (switch_msg p) env;
          cfx \<leftarrow> cfx;
          Some (s\<lparr>n_rcv := cfx, n_chan := (n_chan s)(c := ws), n_closed := n_closed s @ env_closed env\<rparr>)
        }
      | Cell m # ws \<Rightarrow> do {
          (_, cfx, env, log) \<leftarrow> process_multiplexed to_stream (Some (n_rcv s)) c hint m env (n_delivered s);
          cfx \<leftarrow> cfx;
          Some (s\<lparr>n_rcv := cfx, n_chan := (n_chan s)(c := ws), n_delivered := log, n_closed := n_closed s @ env_closed env\<rparr>)
        })"

text \<open>
  The environment of every step is arbitrary: windows open and close, channels block and unblock.  The
  sender may lose a cell after it wrote a switch cell (\<open>lost\<close>).  The congestion windows keep the number of
  messages that are not yet delivered below the limit of a smartlist.
\<close>

inductive cfx_step :: "net \<Rightarrow> net \<Rightarrow> bool" where
  send: "sendable_msg m \<Longrightarrow> env_switches env = [] \<Longrightarrow>
    length (n_sent s) - length (n_delivered s) < 2147483647 \<Longrightarrow> length (n_sent s) + 1 < 2 ^ 64 \<Longrightarrow>
    conflux_decide_circ_for_send (n_snd s) orig (rm_command m) env = Some (Some c, snd', env') \<Longrightarrow>
    cfx_step s (s\<lparr>n_snd := conflux_note_cell_sent snd' c (rm_command m),
                  n_chan := push c (switches_on c env' @ [Cell m]) (n_chan s), n_sent := n_sent s @ [m]\<rparr>)"
| lost: "sendable_msg m \<Longrightarrow> env_switches env = [] \<Longrightarrow>
    conflux_decide_circ_for_send (n_snd s) orig (rm_command m) env = Some (Some c, snd', env') \<Longrightarrow>
    cfx_step s (s\<lparr>n_snd := snd', n_chan := push c (switches_on c env') (n_chan s)\<rparr>)"
| rtt: "cfx_step s (s\<lparr>n_snd := conflux_update_rtt (n_snd s) c rtt_usec\<rparr>)"
| recv: "recv_env_ok env c hint \<Longrightarrow> receive c env hint s = Some s' \<Longrightarrow> cfx_step s s'"

definition net_init :: "net \<Rightarrow> bool" where
  "net_init s \<longleftrightarrow>
     (let snd = n_snd s; rcv = n_rcv s in
      cfx_legs rcv = cfx_legs snd \<and> distinct (cfx_legs snd) \<and> inj_on (\<lambda>l. leg_circ (cfx_leg snd l)) (set (cfx_legs snd))
      \<and> (\<forall>l \<in> set (cfx_legs snd). leg_circ (cfx_leg rcv l) = leg_circ (cfx_leg snd l)
           \<and> last_seq_sent (cfx_leg snd l) = 0 \<and> last_seq_recv (cfx_leg rcv l) = 0)
      \<and> curr_leg snd = None \<and> cells_until_switch snd = 0 \<and> last_seq_delivered rcv = 0 \<and> cfx_ooo_q rcv = empty_heap
      \<and> (\<forall>c. n_chan s c = []) \<and> n_sent s = [] \<and> n_delivered s = [] \<and> n_closed s = [])"

inductive cfx_reachable :: "net \<Rightarrow> bool" where
  init: "net_init s \<Longrightarrow> cfx_reachable s"
| step: "cfx_reachable s \<Longrightarrow> cfx_step s s' \<Longrightarrow> cfx_reachable s'"

section \<open>Sequence numbers on the wire\<close>

definition switch_delta :: "u8 list \<Rightarrow> nat" where
  "switch_delta p = unat (conflux_cell_parse_switch (switch_msg p))"

text \<open>The messages of a channel with the numbers the receiver will give them.\<close>

fun replay :: "nat \<Rightarrow> wire list \<Rightarrow> nat \<times> (nat \<times> relay_msg_t) list" where
  "replay r [] = (r, [])"
| "replay r (Switch p # ws) = replay (r + switch_delta p) ws"
| "replay r (Cell m # ws) = (let (e, ps) = replay (r + 1) ws in (e, (r + 1, m) # ps))"

lemma replay_append: "replay r (ws @ vs) = (let (e, ps) = replay r ws; (e', qs) = replay e vs in (e', ps @ qs))"
  by (induction r ws rule: replay.induct) (simp_all add: Let_def split: prod.splits)

lemma replay_mono: "r \<le> fst (replay r ws)"
  by (induction r ws rule: replay.induct) (auto simp: Let_def split: prod.splits)

text \<open>The receiver reads the number that the sender wrote.\<close>

lemma switch_roundtrip: "switch_delta (trn_cell_conflux_switch_encode v) = unat v"
proof -
  have "push_bit 24 (ucast (ucast (drop_bit 24 v) :: u8)) OR push_bit 16 (ucast (ucast (drop_bit 16 v) :: u8))
      OR push_bit 8 (ucast (ucast (drop_bit 8 v) :: u8)) OR ucast (ucast v :: u8) = (v :: u32)"
  proof (rule bit_word_eqI)
    fix n assume "n < LENGTH(32)"
    then consider "n < 8" | "8 \<le> n" "n < 16" | "16 \<le> n" "n < 24" | "24 \<le> n" "n < 32" by fastforce
    then show "bit (push_bit 24 (ucast (ucast (drop_bit 24 v) :: u8)) OR push_bit 16 (ucast (ucast (drop_bit 16 v) :: u8))
      OR push_bit 8 (ucast (ucast (drop_bit 8 v) :: u8)) OR ucast (ucast v :: u8) :: u32) n = bit v n"
      by cases (auto simp: bit_simps bit_beyond)
  qed
  then show ?thesis
    by (simp add: switch_delta_def conflux_cell_parse_switch_def trn_cell_conflux_switch_parse_def switch_msg_def trn_cell_conflux_switch_encode_def)
qed

section \<open>Numbered messages\<close>

definition seq_pairs :: "'m list \<Rightarrow> nat \<Rightarrow> (nat \<times> 'm) multiset" where
  "seq_pairs sent d = mset (map (\<lambda>i. (i + 1, sent ! i)) [d..<length sent])"

lemma seq_pairs_first: "d < length sent \<Longrightarrow> seq_pairs sent d = add_mset (d + 1, sent ! d) (seq_pairs sent (d + 1))"
  by (simp add: seq_pairs_def upt_conv_Cons)

lemma seq_pairs_end [simp]: "seq_pairs sent (length sent) = {#}"
  by (simp add: seq_pairs_def)

lemma seq_pairs_snoc:
  assumes "d \<le> length sent"
  shows "seq_pairs (sent @ [m]) d = add_mset (length sent + 1, m) (seq_pairs sent d)"
proof -
  have "map (\<lambda>i. (i + 1, (sent @ [m]) ! i)) [d..<length sent] = map (\<lambda>i. (i + 1, sent ! i)) [d..<length sent]"
    by (simp add: nth_append)
  then show ?thesis using assms by (simp only: seq_pairs_def length_append_singleton upt_Suc if_True map_append mset_append) simp
qed

lemma seq_pairs_mem: "(i, m) \<in># seq_pairs sent d \<longleftrightarrow> d < i \<and> i \<le> length sent \<and> m = sent ! (i - 1)"
  by (cases i) (auto simp: seq_pairs_def)

lemma seq_pairs_size: "size (seq_pairs sent d) = length sent - d"
  by (simp add: seq_pairs_def)

lemma seq_pairs_fst_inj:
  assumes "{#x#} + {#y#} + R = seq_pairs sent d"
  shows "fst x \<noteq> fst y"
proof
  assume eq: "fst x = fst y"
  have "distinct (map fst (map (\<lambda>i. (i + 1, sent ! i)) [d..<length sent]))" by (simp add: distinct_map comp_def)
  then have "count (mset (map fst (map (\<lambda>i. (i + 1, sent ! i)) [d..<length sent]))) (fst x) \<le> 1"
    by (subst (asm) distinct_count_atmost_1) (simp add: le_Suc_eq split: if_splits)
  also have "mset (map fst (map (\<lambda>i. (i + 1, sent ! i)) [d..<length sent])) = image_mset fst (seq_pairs sent d)"
    by (simp only: seq_pairs_def mset_map)
  finally show False using eq unfolding assms [symmetric] by simp
qed

section \<open>The receiver\<close>

definition cm_pair :: "conflux_msg_t \<Rightarrow> nat \<times> relay_msg_t" where
  "cm_pair m = (unat (cm_seq m), cm_msg m)"

definition q_pairs :: "conflux_t \<Rightarrow> (nat \<times> relay_msg_t) multiset" where
  "q_pairs cfx = image_mset cm_pair (mset (h_list (cfx_ooo_q cfx)))"

text \<open>
  The receiver's part of the invariant: what was delivered is the beginning of what was sent, and the
  queue together with the messages \<open>R\<close> still on their way is the rest.
\<close>

definition recv_inv :: "relay_msg_t list \<Rightarrow> conflux_t \<Rightarrow> relay_msg_t list \<Rightarrow> (nat \<times> relay_msg_t) multiset \<Rightarrow> bool" where
  "recv_inv sent cfx log R \<longleftrightarrow>
     length sent < 2 ^ 64 \<and> length log \<le> length sent \<and> log = take (length log) sent \<and> unat (last_seq_delivered cfx) = length log
     \<and> heap_ok conflux_queue_cmp (cfx_ooo_q cfx) \<and> q_pairs cfx + R = seq_pairs sent (length log)"

text \<open>No message that could be delivered stays in the queue.\<close>

definition drained :: "conflux_t \<Rightarrow> bool" where
  "drained cfx \<longleftrightarrow> (\<forall>m \<in> set (h_list (cfx_ooo_q cfx)). cm_seq m \<noteq> last_seq_delivered cfx + 1)"

text \<open>The fields that delivering a message does not change.\<close>

definition same_legs :: "conflux_t \<Rightarrow> conflux_t \<Rightarrow> bool" where
  "same_legs cfx cfx' \<longleftrightarrow> cfx_legs cfx' = cfx_legs cfx \<and> cfx_leg cfx' = cfx_leg cfx"

lemma unat_Suc64: "unat (w :: u64) + 1 < 2 ^ 64 \<Longrightarrow> unat (w + 1) = unat w + 1"
  by (subst unat_word_ariths) simp

lemma recv_inv_mem: "recv_inv sent cfx log R \<Longrightarrow> p \<in># q_pairs cfx \<or> p \<in># R \<Longrightarrow> p \<in># seq_pairs sent (length log)"
  unfolding recv_inv_def by (metis union_iff)

lemma recv_inv_next:
  assumes "recv_inv sent cfx log (add_mset (length log + 1, m) R)"
  shows "log @ [m] = take (length log + 1) sent \<and> length log < length sent
    \<and> q_pairs cfx + R = seq_pairs sent (length log + 1) \<and> unat (last_seq_delivered cfx + 1) = length log + 1"
proof -
  have "(length log + 1, m) \<in># seq_pairs sent (length log)" using recv_inv_mem [OF assms] by simp
  then have m: "length log < length sent" "m = sent ! length log" by (auto simp: seq_pairs_mem)
  have "q_pairs cfx + R = seq_pairs sent (length log + 1)"
    using assms m seq_pairs_first [OF m(1)] by (simp add: recv_inv_def)
  then show ?thesis
    using assms m unat_Suc64 [of "last_seq_delivered cfx"] by (auto simp: recv_inv_def take_Suc_conv_app_nth)
qed

lemma dequeue_step:
  assumes "recv_inv sent cfx log R"
  shows "(conflux_dequeue_relay_msg cfx env = Some (None, cfx, env) \<and> drained cfx)
    \<or> (\<exists>m cfx' env'. conflux_dequeue_relay_msg cfx env = Some (Some m, cfx', env') \<and> same_legs cfx cfx' \<and> env_closed env' = env_closed env
          \<and> recv_inv sent cfx' (log @ [cm_msg m]) R)"
proof (cases "h_list (cfx_ooo_q cfx)")
  case Nil
  then show ?thesis by (simp add: conflux_dequeue_relay_msg_def drained_def)
next
  case (Cons m ms)
  let ?q = "cfx_ooo_q cfx"
  have ok: "heap_ok conflux_queue_cmp ?q" using assms by (simp add: recv_inv_def)
  from ooo_queue.pqueue_pop_ok [OF ok] Cons obtain q' where
    q': "smartlist_pqueue_pop conflux_queue_cmp ?q = Some (m, q')" "heap_ok conflux_queue_cmp q'" "mset (h_list ?q) = add_mset m (mset (h_list q'))"
    "\<forall>y \<in> set (h_list ?q). conflux_queue_cmp m y \<le> 0" by auto
  have in_range: "length log < unat (cm_seq y)" "unat (cm_seq y) \<le> length sent" if "y \<in> set (h_list ?q)" for y
  proof -
    have "cm_pair y \<in># q_pairs cfx" using that by (simp add: q_pairs_def)
    then have "cm_pair y \<in># seq_pairs sent (length log)" using recv_inv_mem [OF assms] by blast
    then show "length log < unat (cm_seq y)" "unat (cm_seq y) \<le> length sent" by (auto simp: cm_pair_def seq_pairs_mem)
  qed
  have lsd: "unat (last_seq_delivered cfx + 1) = length log + 1"
    using assms in_range [of m] Cons by (simp add: recv_inv_def unat_Suc64)
  show ?thesis
  proof (cases "cm_seq m = last_seq_delivered cfx + 1")
    case False
    have "cm_seq y \<noteq> last_seq_delivered cfx + 1" if "y \<in> set (h_list ?q)" for y
    proof
      assume y: "cm_seq y = last_seq_delivered cfx + 1"
      then have "cm_seq m \<le> cm_seq y" using q'(4) that by (auto simp: conflux_queue_cmp_def split: if_splits)
      then have "unat (cm_seq m) \<le> length log + 1" using y lsd by (simp add: word_le_nat_alt)
      then have "unat (cm_seq m) = unat (last_seq_delivered cfx + 1)" using in_range(1) [of m] Cons lsd by simp
      then show False using False by (simp add: word_unat_eq_iff)
    qed
    then show ?thesis using Cons False by (simp add: conflux_dequeue_relay_msg_def drained_def)
  next
    case True
    define cfx' where "cfx' = cfx\<lparr>cfx_ooo_q := q', ooo_q_alloc_cost := ooo_q_alloc_cost cfx - conflux_msg_alloc_cost m,
      last_seq_delivered := last_seq_delivered cfx + 1\<rparr>"
    define env' where "env' = env\<lparr>total_ooo_q_bytes := total_ooo_q_bytes env - conflux_msg_alloc_cost m\<rparr>"
    have deq: "conflux_dequeue_relay_msg cfx env = Some (Some m, cfx', env')"
      using Cons True q'(1) by (simp add: conflux_dequeue_relay_msg_def cfx'_def env'_def Let_def)
    have pm: "cm_pair m = (length log + 1, cm_msg m)" using True lsd by (simp add: cm_pair_def)
    have q: "q_pairs cfx = add_mset (length log + 1, cm_msg m) (q_pairs cfx')"
      using q'(3) pm by (simp add: q_pairs_def cfx'_def)
    have "recv_inv sent cfx' (log @ [cm_msg m]) R"
    proof -
      define c0 where "c0 = cfx'\<lparr>last_seq_delivered := last_seq_delivered cfx\<rparr>"
      have c0: "q_pairs c0 = q_pairs cfx'" "last_seq_delivered c0 = last_seq_delivered cfx" "cfx_ooo_q c0 = q'"
        by (simp_all add: c0_def q_pairs_def cfx'_def)
      have "recv_inv sent c0 log (add_mset (length log + 1, cm_msg m) R)"
        using assms q q'(2) c0 by (simp add: recv_inv_def)
      from recv_inv_next [OF this] show ?thesis using assms c0 q'(2)
        by (auto simp: recv_inv_def cfx'_def)
    qed
    then show ?thesis using deq by (auto simp: same_legs_def cfx'_def env'_def)
  qed
qed

lemma drain_inv:
  assumes "recv_inv sent cfx log R"
  shows "\<exists>cfx' env' log'. conflux_drain to_stream cfx env log = Some (0, cfx', env', log') \<and> same_legs cfx cfx' \<and> env_closed env' = env_closed env
    \<and> recv_inv sent cfx' log' R \<and> drained cfx' \<and> length log \<le> length log'"
  using assms
proof (induction "length (h_list (cfx_ooo_q cfx))" arbitrary: cfx env log rule: less_induct)
  case less
  from dequeue_step [OF less.prems, of env] consider
      (stop) "conflux_dequeue_relay_msg cfx env = Some (None, cfx, env)" "drained cfx"
    | (next_msg) m cfx1 env1 where "conflux_dequeue_relay_msg cfx env = Some (Some m, cfx1, env1)" "same_legs cfx cfx1" "env_closed env1 = env_closed env"
        "recv_inv sent cfx1 (log @ [cm_msg m]) R" by blast
  then show ?case
  proof cases
    case stop
    then show ?thesis using less.prems by (subst conflux_drain.simps) (simp add: same_legs_def)
  next
    case next_msg
    have "conflux_drain to_stream cfx env log = conflux_drain to_stream cfx1 env1 (log @ [cm_msg m])"
      using next_msg(1) by (subst conflux_drain.simps) (simp add: to_stream_def)
    then show ?thesis
      using less.hyps [OF dequeue_length [OF next_msg(1)] next_msg(4), of env1] next_msg(2,3) by (auto simp: same_legs_def)
  qed
qed

abbreviation recv_next :: "nat \<Rightarrow> conflux_t \<Rightarrow> conflux_t" where
  "recv_next l cfx \<equiv> leg_update l (\<lambda>leg. leg\<lparr>last_seq_recv := last_seq_recv leg + 1\<rparr>) cfx"

lemma q_pairs_leg [simp]: "q_pairs (cfx\<lparr>cfx_leg := f\<rparr>) = q_pairs cfx" "recv_inv sent (cfx\<lparr>cfx_leg := f\<rparr>) log R = recv_inv sent cfx log R"
  "drained (cfx\<lparr>cfx_leg := f\<rparr>) = drained cfx"
  by (simp_all add: q_pairs_def recv_inv_def drained_def)

text \<open>A message that comes too early is queued.\<close>

lemma enqueue_inv:
  assumes inv: "recv_inv sent cfx log (add_mset (unat seq, m) R)" and "drained cfx" "seq \<noteq> last_seq_delivered cfx + 1"
    and "length sent - length log \<le> 2147483647"
  shows "recv_inv sent (cfx\<lparr>cfx_ooo_q := smartlist_pqueue_add conflux_queue_cmp (cfx_ooo_q cfx) \<lparr>cm_seq = seq, cm_msg = m\<rparr>, ooo_q_alloc_cost := cost\<rparr>) log R
    \<and> drained (cfx\<lparr>cfx_ooo_q := smartlist_pqueue_add conflux_queue_cmp (cfx_ooo_q cfx) \<lparr>cm_seq = seq, cm_msg = m\<rparr>, ooo_q_alloc_cost := cost\<rparr>)"
proof -
  let ?q = "cfx_ooo_q cfx" and ?m = "\<lparr>cm_seq = seq, cm_msg = m\<rparr>"
  have pm: "cm_pair ?m = (unat seq, m)" by (simp add: cm_pair_def)
  have all: "q_pairs cfx + add_mset (unat seq, m) R = seq_pairs sent (length log)" using inv by (simp add: recv_inv_def)
  have fresh: "?m \<notin> set (h_list ?q)"
  proof
    assume "?m \<in> set (h_list ?q)"
    then have "(unat seq, m) \<in># q_pairs cfx" using pm by (force simp: q_pairs_def)
    then obtain Q where "q_pairs cfx = add_mset (unat seq, m) Q" by (metis mset_add)
    then have "{#(unat seq, m)#} + {#(unat seq, m)#} + (Q + R) = seq_pairs sent (length log)" using all by simp
    from seq_pairs_fst_inj [OF this] show False by simp
  qed
  have "length (h_list ?q) < 2147483647"
    using arg_cong [OF all, of size] assms(4) by (simp add: q_pairs_def seq_pairs_size)
  moreover have "heap_ok conflux_queue_cmp ?q" using inv by (simp add: recv_inv_def)
  ultimately have add: "heap_ok conflux_queue_cmp (smartlist_pqueue_add conflux_queue_cmp ?q ?m)"
    "mset (h_list (smartlist_pqueue_add conflux_queue_cmp ?q ?m)) = add_mset ?m (mset (h_list ?q))"
    using ooo_queue.pqueue_add_ok [OF _ fresh] by blast+
  have set: "set (h_list (smartlist_pqueue_add conflux_queue_cmp ?q ?m)) = insert ?m (set (h_list ?q))"
    using arg_cong [OF add(2), of set_mset] by simp
  show ?thesis using inv add assms(2,3) pm by (simp add: recv_inv_def q_pairs_def drained_def set)
qed

lemma process_cell_inv:
  assumes leg: "conflux_get_leg cfx c = Some l" and env: "recv_env_ok env c hint" and msg: "sendable_msg m"
    and inv: "recv_inv sent cfx log (add_mset (unat (last_seq_recv (cfx_leg cfx l)) + 1, m) R)"
    and dr: "drained cfx" and bound: "length sent - length log \<le> 2147483647"
  shows "\<exists>cfx' env' log'. process_multiplexed to_stream (Some cfx) c hint m env log = Some (0, Some cfx', env', log')
    \<and> same_legs (recv_next l cfx) cfx' \<and> env_closed env' = [] \<and> recv_inv sent cfx' log' R \<and> drained cfx' \<and> length log \<le> length log'"
proof -
  let ?seq = "last_seq_recv (cfx_leg cfx l) + 1"
  have val: "conflux_validate_source_hop (env_circ env c) hint = Some True" "env_closed env = []" using env by (auto simp: recv_env_ok_def)
  have mux: "conflux_should_multiplex (rm_command m)" using msg by (simp add: sendable_msg_def)
  have copy: "relay_msg_copy m = Some m" using msg by (simp add: sendable_msg_def relay_msg_copy_eq)
  have "(unat (last_seq_recv (cfx_leg cfx l)) + 1, m) \<in># seq_pairs sent (length log)" using recv_inv_mem [OF inv] by simp
  then have range: "length log < unat (last_seq_recv (cfx_leg cfx l)) + 1" "unat (last_seq_recv (cfx_leg cfx l)) + 1 \<le> length sent"
    by (auto simp: seq_pairs_mem)
  moreover have "length sent < 2 ^ 64" using inv by (simp add: recv_inv_def)
  ultimately have seq: "unat ?seq = unat (last_seq_recv (cfx_leg cfx l)) + 1" by (intro unat_Suc64) simp
  show ?thesis
  proof (cases "?seq = last_seq_delivered cfx + 1")
    case True
    then have r: "unat (last_seq_recv (cfx_leg cfx l)) = length log" using inv by (simp add: recv_inv_def)
    note nxt = recv_inv_next [OF inv [unfolded r]]
    define cfx1 where "cfx1 = (recv_next l cfx)\<lparr>last_seq_delivered := last_seq_delivered cfx + 1\<rparr>"
    have "recv_inv sent cfx1 (log @ [m]) R" using nxt inv by (auto simp: recv_inv_def cfx1_def q_pairs_def)
    from drain_inv [OF this, of env] obtain cfx' env' log' where
      d: "conflux_drain to_stream cfx1 env (log @ [m]) = Some (0, cfx', env', log')" "same_legs cfx1 cfx'" "env_closed env' = env_closed env"
      "recv_inv sent cfx' log' R" "drained cfx'" "length (log @ [m]) \<le> length log'" by blast
    have "conflux_process_relay_msg cfx c hint m env = Some (True, cfx1, env)"
      using leg val True by (simp add: conflux_process_relay_msg_def Let_def cfx1_def)
    then have "process_multiplexed to_stream (Some cfx) c hint m env log = Some (0, Some cfx', env', log')"
      using mux d(1) by (simp add: process_multiplexed_def to_stream_def)
    moreover have "same_legs (recv_next l cfx) cfx'" using d(2) by (simp add: same_legs_def cfx1_def)
    ultimately show ?thesis using d val by simp
  next
    case False
    have "\<not> ?seq \<le> last_seq_delivered cfx" using seq range inv by (simp add: word_le_nat_alt recv_inv_def)
    define cost where "cost = conflux_msg_alloc_cost \<lparr>cm_seq = ?seq, cm_msg = m\<rparr>"
    define cfx' where "cfx' = (recv_next l cfx)\<lparr>cfx_ooo_q := smartlist_pqueue_add conflux_queue_cmp (cfx_ooo_q cfx) \<lparr>cm_seq = ?seq, cm_msg = m\<rparr>,
      ooo_q_alloc_cost := ooo_q_alloc_cost cfx + cost\<rparr>"
    define env' where "env' = env\<lparr>total_ooo_q_bytes := total_ooo_q_bytes env + cost\<rparr>"
    have "conflux_process_relay_msg cfx c hint m env = Some (False, cfx', env')"
      using leg val False copy \<open>\<not> ?seq \<le> last_seq_delivered cfx\<close> by (simp add: conflux_process_relay_msg_def Let_def cfx'_def env'_def cost_def)
    then have "process_multiplexed to_stream (Some cfx) c hint m env log = Some (0, Some cfx', env', log)"
      using mux by (simp add: process_multiplexed_def)
    moreover have "recv_inv sent cfx' log R \<and> drained cfx'"
      using enqueue_inv [of sent "recv_next l cfx" log ?seq m R "ooo_q_alloc_cost cfx + cost"] inv dr False bound seq
      by (simp add: cfx'_def)
    moreover have "same_legs (recv_next l cfx) cfx'" by (simp add: same_legs_def cfx'_def)
    ultimately show ?thesis using val by (simp add: env'_def)
  qed
qed

section \<open>The sender\<close>

text \<open>The sender's part: no leg is ahead of the total, and the current leg is level with it.\<close>

definition send_inv :: "conflux_t \<Rightarrow> nat \<Rightarrow> bool" where
  "send_inv cfx n \<longleftrightarrow> n < 2 ^ 64 \<and> cells_until_switch cfx = 0 \<and> distinct (cfx_legs cfx) \<and> inj_on (\<lambda>l. leg_circ (cfx_leg cfx l)) (set (cfx_legs cfx))
     \<and> (\<forall>l \<in> set (cfx_legs cfx). unat (last_seq_sent (cfx_leg cfx l)) \<le> n)
     \<and> (case curr_leg cfx of None \<Rightarrow> n = 0 | Some l \<Rightarrow> l \<in> set (cfx_legs cfx) \<and> unat (last_seq_sent (cfx_leg cfx l)) = n)"

lemma get_leg_mem:
  assumes "inj_on (\<lambda>l. leg_circ (cfx_leg cfx l)) (set (cfx_legs cfx))" "l \<in> set (cfx_legs cfx)"
  shows "conflux_get_leg cfx (leg_circ (cfx_leg cfx l)) = Some l"
proof -
  have "conflux_get_leg cfx (leg_circ (cfx_leg cfx l)) \<noteq> None"
    using assms(2) by (auto simp: conflux_get_leg_def find_None_iff)
  then obtain k where k: "conflux_get_leg cfx (leg_circ (cfx_leg cfx l)) = Some k" by blast
  then have "k \<in> set (cfx_legs cfx)" "leg_circ (cfx_leg cfx k) = leg_circ (cfx_leg cfx l)"
    by (auto simp: conflux_get_leg_def find_Some_iff)
  then show ?thesis using k assms by (auto dest: inj_onD)
qed

lemma send_inv_curr_ok: "send_inv cfx n \<Longrightarrow> curr_leg_ok cfx"
  by (auto simp: send_inv_def curr_leg_ok_def split: option.splits)

lemma send_inv_pick:
  assumes "send_inv cfx n" "cfx' = cfx \<or> curr_leg cfx = None \<and> (\<exists>l \<in> set (cfx_legs cfx). cfx' = cfx\<lparr>cells_until_switch := 0, curr_leg := Some l\<rparr>)"
  shows "send_inv cfx' n"
  using assms by (auto simp: send_inv_def)

text \<open>The effect of a decision: the leg \<open>k\<close> of the chosen circuit is current and level with the total;
  if it was behind, a switch cell tells the receiver by how much.\<close>

definition sends_on :: "conflux_t \<Rightarrow> nat \<Rightarrow> nat \<Rightarrow> nat \<Rightarrow> conflux_t \<Rightarrow> wire list \<Rightarrow> bool" where
  "sends_on cfx n c k cfx' ws \<longleftrightarrow> k \<in> set (cfx_legs cfx) \<and> leg_circ (cfx_leg cfx k) = c \<and> cfx_legs cfx' = cfx_legs cfx \<and> curr_leg cfx' = Some k \<and> cells_until_switch cfx' = 0
     \<and> (\<exists>leg. cfx_leg cfx' = (cfx_leg cfx)(k := leg) \<and> leg_circ leg = c \<and> unat (last_seq_sent leg) = n)
     \<and> replay (unat (last_seq_sent (cfx_leg cfx k))) ws = (n, [])"

lemma switch_replay:
  assumes "send_inv cfx n" "curr_leg cfx = Some j" "k \<in> set (cfx_legs cfx)"
    and "last_seq_sent (cfx_leg cfx k) \<le> last_seq_sent (cfx_leg cfx j)"
    and "last_seq_sent (cfx_leg cfx j) - last_seq_sent (cfx_leg cfx k) < 0xFFFFFFFF"
  shows "replay (unat (last_seq_sent (cfx_leg cfx k)))
      [Switch (trn_cell_conflux_switch_encode (ucast (last_seq_sent (cfx_leg cfx j) - last_seq_sent (cfx_leg cfx k))))] = (n, [])"
proof -
  let ?d = "last_seq_sent (cfx_leg cfx j) - last_seq_sent (cfx_leg cfx k)"
  have "unat ?d < 2 ^ 32" using assms(5) by (simp add: word_less_nat_alt)
  then have "unat (ucast ?d :: u32) = unat ?d" by (simp add: unsigned_ucast_eq take_bit_nat_eq_self)
  moreover have "unat ?d = unat (last_seq_sent (cfx_leg cfx j)) - unat (last_seq_sent (cfx_leg cfx k))"
    using assms(4) by (rule unat_sub)
  moreover have "unat (last_seq_sent (cfx_leg cfx j)) = n" using assms(1,2) by (simp add: send_inv_def)
  ultimately show ?thesis using assms(4) by (simp add: switch_roundtrip word_le_nat_alt)
qed

lemma switch_leg_result:
  assumes "switch_leg cfx j (Some k) env = Some (cfx', env')" "env_switches env = []"
  defines "d \<equiv> last_seq_sent (cfx_leg cfx j) - last_seq_sent (cfx_leg cfx k)"
  shows "last_seq_sent (cfx_leg cfx k) \<le> last_seq_sent (cfx_leg cfx j) \<and> d < 0xFFFFFFFF
    \<and> cfx_legs cfx' = cfx_legs cfx \<and> curr_leg cfx' = Some k \<and> cells_until_switch cfx' = 0
    \<and> cfx_leg cfx' = (cfx_leg cfx)(k := (cfx_leg cfx k)\<lparr>last_seq_sent := last_seq_sent (cfx_leg cfx j)\<rparr>)
    \<and> env_switches env' = [(leg_circ (cfx_leg cfx k), trn_cell_conflux_switch_encode (ucast d))]"
  using assms by (auto simp: switch_leg_def conflux_send_switch_command_def Let_def tor_assert_def split: if_splits)

lemma sends_on_same:
  assumes "k \<in> set (cfx_legs cfx)" "leg_circ (cfx_leg cfx k) = c" "unat (last_seq_sent (cfx_leg cfx k)) = n"
    and "cfx_legs cfx' = cfx_legs cfx" "cfx_leg cfx' = cfx_leg cfx" "curr_leg cfx' = Some k" "cells_until_switch cfx' = 0" "ws = []"
  shows "sends_on cfx n c k cfx' ws"
  using assms by (auto simp: sends_on_def intro: exI [of _ "cfx_leg cfx k"])

lemma sends_on_switch:
  assumes inv: "send_inv cfx n" "curr_leg cfx = Some j" and k: "k \<in> set (cfx_legs cfx)" "leg_circ (cfx_leg cfx k) = c"
    and sw: "switch_leg cfx j (Some k) env = Some (cfx', env')" "env_switches env = []"
  shows "sends_on cfx n c k cfx' (switches_on c env')"
proof -
  note r = switch_leg_result [OF sw]
  have n: "unat (last_seq_sent (cfx_leg cfx j)) = n" using inv by (simp add: send_inv_def)
  have "replay (unat (last_seq_sent (cfx_leg cfx k))) (switches_on c env') = (n, [])"
    using switch_replay [OF inv k(1)] r k(2) by (simp add: switches_on_def)
  then show ?thesis unfolding sends_on_def
    using r k n by (auto intro!: exI [of _ "(cfx_leg cfx k)\<lparr>last_seq_sent := last_seq_sent (cfx_leg cfx j)\<rparr>"])
qed

lemma sends_on_legs:
  assumes "sends_on cfx1 n c k cfx' ws" "cfx_legs cfx1 = cfx_legs cfx" "cfx_leg cfx1 = cfx_leg cfx"
  shows "sends_on cfx n c k cfx' ws"
  using assms by (simp add: sends_on_def)

lemma decide_for_send:
  assumes inv: "send_inv cfx n" and mux: "conflux_should_multiplex cmd" and sw: "env_switches env = []"
    and dec: "conflux_decide_circ_for_send cfx orig cmd env = Some (Some c, cfx', env')"
  shows "\<exists>k. sends_on cfx n c k cfx' (switches_on c env')"
proof -
  from dec mux obtain new_circ cfx1 where next_circ: "conflux_decide_next_circ env cfx = Some (new_circ, cfx1)"
    by (auto simp: conflux_decide_circ_for_send_def split: bind_splits)
  note res = decide_next_circ_result [OF next_circ send_inv_curr_ok [OF inv]]
  have inv1: "send_inv cfx1 n" using send_inv_pick [OF inv] res by blast
  have same: "cfx_legs cfx1 = cfx_legs cfx" "cfx_leg cfx1 = cfx_leg cfx" using res by auto
  have curr: "j \<in> set (cfx_legs cfx1)" "unat (last_seq_sent (cfx_leg cfx1 j)) = n" if "curr_leg cfx1 = Some j" for j
    using inv1 that by (simp_all add: send_inv_def)
  have "\<exists>k. sends_on cfx1 n c k cfx' (switches_on c env')"
  proof (cases new_circ)
    case None
    have "conflux_decide_circ_for_send cfx orig cmd env
      = Some (if cmd \<noteq> RELAY_COMMAND_DATA then map_option (\<lambda>leg. leg_circ (cfx_leg cfx1 leg)) (curr_leg cfx1) else None, cfx1, env)"
      unfolding conflux_decide_circ_for_send_def next_circ None using mux by simp
    then have e: "Some c = (if cmd \<noteq> RELAY_COMMAND_DATA then map_option (\<lambda>leg. leg_circ (cfx_leg cfx1 leg)) (curr_leg cfx1) else None)" "cfx' = cfx1" "env' = env"
      unfolding dec by (simp_all only: option.inject prod.inject)
    from e(1) have "map_option (\<lambda>leg. leg_circ (cfx_leg cfx1 leg)) (curr_leg cfx1) = Some c"
      by (cases "cmd = RELAY_COMMAND_DATA") simp_all
    then obtain j where j: "curr_leg cfx1 = Some j" "c = leg_circ (cfx_leg cfx1 j)" by auto
    then show ?thesis using curr [OF j(1)] inv1 sw e(2,3) by (intro exI [of _ j] sends_on_same) (simp_all add: switches_on_def send_inv_def)
  next
    case (Some circ)
    then obtain k where k: "k \<in> set (cfx_legs cfx1)" "leg_circ (cfx_leg cfx1 k) = circ" using res same by (auto simp: leg_ready_def)
    have get: "conflux_get_leg cfx1 circ = Some k" using get_leg_mem [of cfx1 k] inv1 k by (simp add: send_inv_def)
    obtain j where j: "curr_leg cfx1 = Some j" using res Some by auto
    show ?thesis
    proof (cases "circ = leg_circ (cfx_leg cfx1 j)")
      case True
      then have "conflux_decide_circ_for_send cfx orig cmd env = Some (Some circ, cfx1, env)"
        unfolding conflux_decide_circ_for_send_def next_circ Some by (simp add: mux j get Let_def)
      then have e: "c = circ" "cfx' = cfx1" "env' = env" unfolding dec by (simp_all only: option.inject prod.inject)
      then show ?thesis using True curr [OF j] inv1 j sw by (intro exI [of _ j] sends_on_same) (simp_all add: switches_on_def send_inv_def)
    next
      case False
      then have "c = circ" "switch_leg cfx1 j (Some k) env = Some (cfx', env')"
        using dec unfolding conflux_decide_circ_for_send_def next_circ Some by (auto simp: mux j get split: bind_split_asm)
      then show ?thesis using sends_on_switch [OF inv1 j k] sw by blast
    qed
  qed
  then show ?thesis using sends_on_legs same by blast
qed

lemma sends_on_inv:
  assumes "send_inv cfx n" "sends_on cfx n c k cfx' ws"
  shows "send_inv cfx' n"
proof -
  obtain leg where leg: "cfx_leg cfx' = (cfx_leg cfx)(k := leg)" "leg_circ leg = c" "unat (last_seq_sent leg) = n"
    using assms(2) by (auto simp: sends_on_def)
  have "(\<lambda>l. leg_circ (cfx_leg cfx' l)) = (\<lambda>l. leg_circ (cfx_leg cfx l))" using leg assms(2) by (auto simp: sends_on_def)
  then show ?thesis using assms leg by (auto simp: send_inv_def sends_on_def)
qed

lemma note_cell_sent_inv:
  assumes "send_inv cfx n" "curr_leg cfx = Some k" "leg_circ (cfx_leg cfx k) = c" "conflux_should_multiplex cmd" "n + 1 < 2 ^ 64"
  defines "cfx' \<equiv> conflux_note_cell_sent cfx c cmd"
  shows "send_inv cfx' (n + 1) \<and> cfx_legs cfx' = cfx_legs cfx
    \<and> (\<exists>leg. cfx_leg cfx' = (cfx_leg cfx)(k := leg) \<and> leg_circ leg = c \<and> unat (last_seq_sent leg) = n + 1)"
proof -
  have k: "k \<in> set (cfx_legs cfx)" "unat (last_seq_sent (cfx_leg cfx k)) = n" using assms(1,2) by (simp_all add: send_inv_def)
  have get: "conflux_get_leg cfx c = Some k" using get_leg_mem [of cfx k] assms(1,3) k by (simp add: send_inv_def)
  have u: "unat (last_seq_sent (cfx_leg cfx k) + 1) = n + 1" using k assms(5) by (simp add: unat_Suc64)
  let ?leg = "(cfx_leg cfx k)\<lparr>last_seq_sent := last_seq_sent (cfx_leg cfx k) + 1\<rparr>"
  have c': "cfx_leg cfx' = (cfx_leg cfx)(k := ?leg)" "cfx_legs cfx' = cfx_legs cfx" "curr_leg cfx' = curr_leg cfx" "cells_until_switch cfx' = 0"
    using get assms(1,4) by (simp_all add: send_inv_def cfx'_def conflux_note_cell_sent_def Let_def)
  moreover have "(\<lambda>l. leg_circ (cfx_leg cfx' l)) = (\<lambda>l. leg_circ (cfx_leg cfx l))" using c'(1) by auto
  ultimately have "send_inv cfx' (n + 1)"
    using assms(1,2,5) u k by (simp add: send_inv_def le_SucI)
  then show ?thesis using c' u assms(3) by auto
qed

section \<open>The invariant\<close>

definition leg_replay :: "net \<Rightarrow> nat \<Rightarrow> nat \<times> (nat \<times> relay_msg_t) list" where
  "leg_replay s l = replay (unat (last_seq_recv (cfx_leg (n_rcv s) l))) (n_chan s (leg_circ (cfx_leg (n_snd s) l)))"

definition in_flight :: "net \<Rightarrow> (nat \<times> relay_msg_t) multiset" where
  "in_flight s = (\<Sum>l \<in> set (cfx_legs (n_snd s)). mset (snd (leg_replay s l)))"

definition channels_ok :: "net \<Rightarrow> bool" where
  "channels_ok s \<longleftrightarrow> cfx_legs (n_rcv s) = cfx_legs (n_snd s)
     \<and> (\<forall>l \<in> set (cfx_legs (n_snd s)). leg_circ (cfx_leg (n_rcv s) l) = leg_circ (cfx_leg (n_snd s) l)
          \<and> fst (leg_replay s l) = unat (last_seq_sent (cfx_leg (n_snd s) l)))
     \<and> (\<forall>c. n_chan s c \<noteq> [] \<longrightarrow> c \<in> (\<lambda>l. leg_circ (cfx_leg (n_snd s) l)) ` set (cfx_legs (n_snd s)))
     \<and> (\<forall>c m. Cell m \<in> set (n_chan s c) \<longrightarrow> sendable_msg m)"

definition net_inv :: "net \<Rightarrow> bool" where
  "net_inv s \<longleftrightarrow> send_inv (n_snd s) (length (n_sent s)) \<and> channels_ok s
     \<and> recv_inv (n_sent s) (n_rcv s) (n_delivered s) (in_flight s) \<and> drained (n_rcv s)
     \<and> length (n_sent s) - length (n_delivered s) \<le> 2147483647 \<and> n_closed s = []"

lemma sum_update:
  fixes f g :: "'a \<Rightarrow> 'b multiset"
  assumes "finite S" "k \<in> S" "\<And>j. j \<in> S \<Longrightarrow> j \<noteq> k \<Longrightarrow> g j = f j" "g k = f k + x"
  shows "sum g S = sum f S + x"
proof -
  have "sum g S = g k + sum g (S - {k})" using assms(1,2) by (rule sum.remove)
  also have "sum g (S - {k}) = sum f (S - {k})" using assms(3) by (intro sum.cong) auto
  also have "g k + sum f (S - {k}) = (f k + sum f (S - {k})) + x" by (simp add: assms(4) ac_simps)
  also have "f k + sum f (S - {k}) = sum f S" using assms(1,2) by (rule sum.remove [symmetric])
  finally show ?thesis .
qed

text \<open>Appending to the channel of one leg.\<close>

lemma push_leg:
  assumes inj: "inj_on (\<lambda>l. leg_circ (cfx_leg (n_snd s) l)) (set (cfx_legs (n_snd s)))"
    and k: "k \<in> set (cfx_legs (n_snd s))" "leg_circ (cfx_leg (n_snd s) k) = c"
    and s': "n_rcv s' = n_rcv s" "cfx_leg (n_snd s') = (cfx_leg (n_snd s))(k := leg)" "leg_circ leg = c" "n_chan s' = push c ws (n_chan s)"
    and j: "j \<in> set (cfx_legs (n_snd s))"
  shows "leg_replay s' j = (if j = k then let (e, ps) = leg_replay s k; (e', qs) = replay e ws in (e', ps @ qs) else leg_replay s j)"
proof (cases "j = k")
  case True
  then show ?thesis using k s' by (simp add: leg_replay_def push_def replay_append)
next
  case False
  then have "leg_circ (cfx_leg (n_snd s) j) \<noteq> c" using inj k j by (auto dest: inj_onD)
  then show ?thesis using False s' by (simp add: leg_replay_def push_def)
qed

lemma push_channels_ok:
  assumes inv: "send_inv (n_snd s) n" "channels_ok s" and k: "k \<in> set (cfx_legs (n_snd s))" "leg_circ (cfx_leg (n_snd s) k) = c"
    and s': "n_rcv s' = n_rcv s" "cfx_legs (n_snd s') = cfx_legs (n_snd s)" "cfx_leg (n_snd s') = (cfx_leg (n_snd s))(k := leg)" "leg_circ leg = c"
      "n_chan s' = push c ws (n_chan s)"
    and r: "replay (unat (last_seq_sent (cfx_leg (n_snd s) k))) ws = (unat (last_seq_sent leg), qs)" and m: "\<forall>m. Cell m \<in> set ws \<longrightarrow> sendable_msg m"
  shows "channels_ok s' \<and> in_flight s' = in_flight s + mset qs"
proof -
  have inj: "inj_on (\<lambda>l. leg_circ (cfx_leg (n_snd s) l)) (set (cfx_legs (n_snd s)))" using inv(1) by (simp add: send_inv_def)
  note pl = push_leg [OF inj k s'(1,3,4,5)]
  have fk: "fst (leg_replay s k) = unat (last_seq_sent (cfx_leg (n_snd s) k))" using inv(2) k by (simp add: channels_ok_def)
  have rk: "leg_replay s' k = (unat (last_seq_sent leg), snd (leg_replay s k) @ qs)"
    using pl [OF k(1)] fk r by (simp add: Let_def split: prod.splits)
  have lc: "(\<lambda>l. leg_circ (cfx_leg (n_snd s') l)) = (\<lambda>l. leg_circ (cfx_leg (n_snd s) l))" using s' k by auto
  have old: "leg_circ (cfx_leg (n_rcv s) l) = leg_circ (cfx_leg (n_snd s) l) \<and> fst (leg_replay s l) = unat (last_seq_sent (cfx_leg (n_snd s) l))"
    if "l \<in> set (cfx_legs (n_snd s))" for l using inv(2) that by (simp add: channels_ok_def)
  have legs: "leg_circ (cfx_leg (n_rcv s') l) = leg_circ (cfx_leg (n_snd s') l) \<and> fst (leg_replay s' l) = unat (last_seq_sent (cfx_leg (n_snd s') l))"
    if "l \<in> set (cfx_legs (n_snd s))" for l
  proof (cases "l = k")
    case True
    then show ?thesis using old [OF that] s' k by (simp add: rk)
  next
    case False
    then show ?thesis using old [OF that] pl [OF that] s' by simp
  qed
  have chan: "c' \<in> (\<lambda>l. leg_circ (cfx_leg (n_snd s) l)) ` set (cfx_legs (n_snd s))" if "n_chan s' c' \<noteq> []" for c'
    using that inv(2) k s'(5) by (cases "c' = c") (auto simp: channels_ok_def push_def)
  have msgs: "sendable_msg m'" if "Cell m' \<in> set (n_chan s' c')" for m' c'
    using that inv(2) m s'(5) by (cases "c' = c") (auto simp: channels_ok_def push_def)
  have "channels_ok s'" using legs chan msgs inv(2) unfolding channels_ok_def lc [unfolded fun_eq_iff, rule_format] s'(1,2) by (simp add: lc)
  moreover have "in_flight s' = in_flight s + mset qs"
    unfolding in_flight_def s'(2) using k(1) pl rk by (intro sum_update [of _ k]) auto
  ultimately show ?thesis ..
qed

lemma decide_net_inv:
  assumes "net_inv s" "sends_on (n_snd s) (length (n_sent s)) c k cfx' ws" "\<forall>m. Cell m \<notin> set ws"
  shows "net_inv (s\<lparr>n_snd := cfx', n_chan := push c ws (n_chan s)\<rparr>)"
proof -
  let ?s = "s\<lparr>n_snd := cfx', n_chan := push c ws (n_chan s)\<rparr>"
  obtain leg where leg: "cfx_leg cfx' = (cfx_leg (n_snd s))(k := leg)" "leg_circ leg = c" "unat (last_seq_sent leg) = length (n_sent s)"
    using assms(2) by (auto simp: sends_on_def)
  have "channels_ok ?s \<and> in_flight ?s = in_flight s + mset []"
    using assms leg by (intro push_channels_ok [where n = "length (n_sent s)" and k = k and leg = leg and c = c and ws = ws])
      (auto simp: net_inv_def sends_on_def)
  moreover have "send_inv cfx' (length (n_sent s))" using sends_on_inv assms by (auto simp: net_inv_def)
  ultimately show ?thesis using assms(1) by (simp add: net_inv_def)
qed

lemma emit_net_inv:
  assumes inv: "net_inv s" and curr: "curr_leg (n_snd s) = Some k" "leg_circ (cfx_leg (n_snd s) k) = c" and m: "sendable_msg m"
    and bound: "length (n_sent s) - length (n_delivered s) < 2147483647" "length (n_sent s) + 1 < 2 ^ 64"
  shows "net_inv (s\<lparr>n_snd := conflux_note_cell_sent (n_snd s) c (rm_command m), n_chan := push c [Cell m] (n_chan s), n_sent := n_sent s @ [m]\<rparr>)"
proof -
  let ?n = "length (n_sent s)" and ?cfx = "conflux_note_cell_sent (n_snd s) c (rm_command m)"
  let ?s = "s\<lparr>n_snd := ?cfx, n_chan := push c [Cell m] (n_chan s), n_sent := n_sent s @ [m]\<rparr>"
  have si: "send_inv (n_snd s) ?n" "channels_ok s" using inv by (auto simp: net_inv_def)
  have k: "k \<in> set (cfx_legs (n_snd s))" "unat (last_seq_sent (cfx_leg (n_snd s) k)) = ?n" using si curr by (simp_all add: send_inv_def)
  from note_cell_sent_inv [OF si(1) curr _ bound(2), of "rm_command m"] m obtain leg where
    leg: "send_inv ?cfx (?n + 1)" "cfx_legs ?cfx = cfx_legs (n_snd s)" "cfx_leg ?cfx = (cfx_leg (n_snd s))(k := leg)" "leg_circ leg = c" "unat (last_seq_sent leg) = ?n + 1"
    by (auto simp: sendable_msg_def)
  have fl: "channels_ok ?s \<and> in_flight ?s = in_flight s + mset [(?n + 1, m)]"
    using k curr leg m by (intro push_channels_ok [OF si, where k = k and leg = leg and c = c and ws = "[Cell m]"]) auto
  have r: "recv_inv (n_sent s) (n_rcv s) (n_delivered s) (in_flight s)" using inv by (simp add: net_inv_def)
  then have "recv_inv (n_sent s @ [m]) (n_rcv s) (n_delivered s) (in_flight s + mset [(?n + 1, m)])"
    using bound(2) by (auto simp: recv_inv_def seq_pairs_snoc)
  then show ?thesis using inv fl leg(1) bound by (simp add: net_inv_def)
qed

section \<open>Receiving keeps the invariant\<close>

text \<open>Taking the first entry off the channel of leg \<open>k\<close>.\<close>

lemma pop_leg:
  assumes inv: "net_inv s" and k: "k \<in> set (cfx_legs (n_snd s))" "leg_circ (cfx_leg (n_snd s) k) = c" and ch: "n_chan s c = w # ws"
    and s': "n_snd s' = n_snd s" "n_sent s' = n_sent s" "n_chan s' = (n_chan s)(c := ws)" "cfx_legs (n_rcv s') = cfx_legs (n_rcv s)"
      "cfx_leg (n_rcv s') = (cfx_leg (n_rcv s))(k := leg)" "leg_circ leg = c"
    and r: "replay (unat (last_seq_recv (cfx_leg (n_rcv s) k))) (w # ws) = (fst (replay (unat (last_seq_recv leg)) ws), qs @ snd (replay (unat (last_seq_recv leg)) ws))"
  shows "channels_ok s' \<and> in_flight s = in_flight s' + mset qs"
proof -
  have ok: "channels_ok s" and si: "send_inv (n_snd s) (length (n_sent s))" using inv by (auto simp: net_inv_def)
  have inj: "inj_on (\<lambda>l. leg_circ (cfx_leg (n_snd s) l)) (set (cfx_legs (n_snd s)))" using si by (simp add: send_inv_def)
  have same: "leg_replay s' j = leg_replay s j" if "j \<in> set (cfx_legs (n_snd s))" "j \<noteq> k" for j
  proof -
    have "leg_circ (cfx_leg (n_snd s) j) \<noteq> c" using inj k that by (auto dest: inj_onD)
    then show ?thesis using that s' by (simp add: leg_replay_def)
  qed
  have at_k: "leg_replay s k = (fst (leg_replay s' k), qs @ snd (leg_replay s' k))"
    using r k ch s' by (simp add: leg_replay_def)
  have old: "leg_circ (cfx_leg (n_rcv s) l) = leg_circ (cfx_leg (n_snd s) l) \<and> fst (leg_replay s l) = unat (last_seq_sent (cfx_leg (n_snd s) l))"
    if "l \<in> set (cfx_legs (n_snd s))" for l using ok that by (simp add: channels_ok_def)
  have "leg_circ (cfx_leg (n_rcv s') l) = leg_circ (cfx_leg (n_snd s') l) \<and> fst (leg_replay s' l) = unat (last_seq_sent (cfx_leg (n_snd s') l))"
    if "l \<in> set (cfx_legs (n_snd s))" for l
    using old [OF that] same [OF that] at_k s' k by (cases "l = k") simp_all
  moreover have "c' \<in> (\<lambda>l. leg_circ (cfx_leg (n_snd s) l)) ` set (cfx_legs (n_snd s))" if "n_chan s' c' \<noteq> []" for c'
    using that ok ch s'(3) by (cases "c' = c") (auto simp: channels_ok_def)
  moreover have "sendable_msg m'" if "Cell m' \<in> set (n_chan s' c')" for m' c'
  proof -
    have "Cell m' \<in> set (n_chan s c')" using that ch s'(3) by (cases "c' = c") auto
    then show ?thesis using ok by (auto simp: channels_ok_def)
  qed
  ultimately have "channels_ok s'" using ok unfolding channels_ok_def s'(1,4) by simp
  moreover have "in_flight s = in_flight s' + mset qs"
    unfolding in_flight_def s'(1) using k(1) same at_k by (intro sum_update [of _ k]) auto
  ultimately show ?thesis ..
qed

text \<open>The leg of a channel that is not empty, at the receiving end.\<close>

lemma receiving_leg:
  assumes inv: "net_inv s" and ch: "n_chan s c \<noteq> []"
  obtains k where "k \<in> set (cfx_legs (n_snd s))" "leg_circ (cfx_leg (n_snd s) k) = c" "leg_circ (cfx_leg (n_rcv s) k) = c"
    "conflux_get_leg (n_rcv s) c = Some k" "fst (leg_replay s k) < 2 ^ 64"
proof -
  have ok: "channels_ok s" and si: "send_inv (n_snd s) (length (n_sent s))" using inv by (auto simp: net_inv_def)
  have "c \<in> (\<lambda>l. leg_circ (cfx_leg (n_snd s) l)) ` set (cfx_legs (n_snd s))" using ok ch by (simp add: channels_ok_def)
  then obtain k where k: "k \<in> set (cfx_legs (n_snd s))" "leg_circ (cfx_leg (n_snd s) k) = c" by blast
  have rk: "leg_circ (cfx_leg (n_rcv s) l) = leg_circ (cfx_leg (n_snd s) l)" if "l \<in> set (cfx_legs (n_snd s))" for l
    using ok that by (simp add: channels_ok_def)
  have legs: "cfx_legs (n_rcv s) = cfx_legs (n_snd s)" using ok by (simp add: channels_ok_def)
  have "inj_on (\<lambda>l. leg_circ (cfx_leg (n_snd s) l)) (set (cfx_legs (n_snd s)))" using si by (simp add: send_inv_def)
  then have "inj_on (\<lambda>l. leg_circ (cfx_leg (n_rcv s) l)) (set (cfx_legs (n_rcv s)))" unfolding legs by (simp add: rk cong: inj_on_cong)
  from get_leg_mem [OF this, of k] have "conflux_get_leg (n_rcv s) c = Some k" using k rk by (simp add: legs)
  moreover have "fst (leg_replay s k) \<le> length (n_sent s)" "length (n_sent s) < 2 ^ 64" using ok si k by (simp_all add: channels_ok_def send_inv_def)
  ultimately show ?thesis using that k rk [OF k(1)] by simp
qed

lemma unat_add64: "unat (a :: u64) + unat (b :: u64) < 2 ^ 64 \<Longrightarrow> unat (a + b) = unat a + unat b"
  by (simp add: unat_word_ariths)

lemma unat_ucast_32_64: "unat (ucast (d :: u32) :: u64) = unat d"
  by (simp only: unat_eq_nat_uint uint_ucast_32_64)

lemma receive_switch:
  assumes inv: "net_inv s" and env: "recv_env_ok env c hint" and ch: "n_chan s c = Switch p # ws"
  shows "\<exists>s'. receive c env hint s = Some s' \<and> net_inv s' \<and> n_sent s' = n_sent s \<and> n_snd s' = n_snd s \<and> n_chan s' = (n_chan s)(c := ws)"
proof -
  obtain k where k: "k \<in> set (cfx_legs (n_snd s))" "leg_circ (cfx_leg (n_snd s) k) = c" "leg_circ (cfx_leg (n_rcv s) k) = c"
    and leg: "conflux_get_leg (n_rcv s) c = Some k" and total: "fst (leg_replay s k) < 2 ^ 64"
    using receiving_leg [OF inv, of c] ch by auto
  let ?r = "last_seq_recv (cfx_leg (n_rcv s) k)"
  define d where "d = conflux_cell_parse_switch (switch_msg p)"
  define new where "new = (cfx_leg (n_rcv s) k)\<lparr>last_seq_recv := ?r + ucast d\<rparr>"
  define s' where "s' = s\<lparr>n_rcv := leg_update k (\<lambda>_. new) (n_rcv s), n_chan := (n_chan s)(c := ws)\<rparr>"
  have at_k: "leg_replay s k = replay (unat ?r + unat d) ws" using k(2) ch by (simp add: leg_replay_def switch_delta_def d_def)
  then have "unat ?r + unat d < 2 ^ 64" using total replay_mono [of "unat ?r + unat d" ws] by simp
  then have seq: "unat (last_seq_recv new) = unat ?r + unat d" using unat_add64 [of ?r "ucast d"] by (simp add: new_def unat_ucast_32_64)
  have "channels_ok s' \<and> in_flight s = in_flight s' + mset []"
  proof (rule pop_leg [OF inv k(1,2) ch, where leg = new])
    show "replay (unat ?r) (Switch p # ws) = (fst (replay (unat (last_seq_recv new)) ws), [] @ snd (replay (unat (last_seq_recv new)) ws))"
      by (simp add: seq switch_delta_def d_def [symmetric])
  qed (simp_all add: s'_def new_def k(3))
  moreover have "conflux_process_switch_command (Some (n_rcv s)) c hint (switch_msg p) env = Some (0, Some (leg_update k (\<lambda>_. new) (n_rcv s)), env)"
    using env leg by (simp add: conflux_process_switch_command_def recv_env_ok_def Let_def new_def d_def)
  then have "receive c env hint s = Some s'" using ch env inv by (simp add: receive_def s'_def recv_env_ok_def net_inv_def)
  ultimately show ?thesis using inv by (simp add: net_inv_def s'_def)
qed

lemma receive_cell:
  assumes inv: "net_inv s" and env: "recv_env_ok env c hint" and ch: "n_chan s c = Cell m # ws"
  shows "\<exists>s'. receive c env hint s = Some s' \<and> net_inv s' \<and> n_sent s' = n_sent s \<and> n_snd s' = n_snd s \<and> n_chan s' = (n_chan s)(c := ws)"
proof -
  obtain k where k: "k \<in> set (cfx_legs (n_snd s))" "leg_circ (cfx_leg (n_snd s) k) = c" "leg_circ (cfx_leg (n_rcv s) k) = c"
    and leg: "conflux_get_leg (n_rcv s) c = Some k" and total: "fst (leg_replay s k) < 2 ^ 64"
    using receiving_leg [OF inv, of c] ch by auto
  have "Cell m \<in> set (n_chan s c)" using ch by simp
  then have msg: "sendable_msg m" using inv unfolding net_inv_def channels_ok_def by blast
  let ?r = "last_seq_recv (cfx_leg (n_rcv s) k)"
  define new where "new = (cfx_leg (n_rcv s) k)\<lparr>last_seq_recv := ?r + 1\<rparr>"
  define s0 where "s0 = s\<lparr>n_rcv := recv_next k (n_rcv s), n_chan := (n_chan s)(c := ws)\<rparr>"
  have at_k: "leg_replay s k = (fst (replay (unat ?r + 1) ws), (unat ?r + 1, m) # snd (replay (unat ?r + 1) ws))"
    using k(2) ch by (simp add: leg_replay_def Let_def split: prod.splits)
  then have "unat ?r + 1 < 2 ^ 64" using total replay_mono [of "unat ?r + 1" ws] by simp
  then have seq: "unat (last_seq_recv new) = unat ?r + 1" using unat_Suc64 [of ?r] by (simp add: new_def)
  have fl: "channels_ok s0 \<and> in_flight s = in_flight s0 + mset [(unat ?r + 1, m)]"
  proof (rule pop_leg [OF inv k(1,2) ch, where leg = new])
    show "replay (unat ?r) (Cell m # ws) = (fst (replay (unat (last_seq_recv new)) ws), [(unat ?r + 1, m)] @ snd (replay (unat (last_seq_recv new)) ws))"
      unfolding seq by (simp add: Let_def split: prod.splits)
  qed (simp_all add: s0_def new_def k(3))
  have ri: "recv_inv (n_sent s) (n_rcv s) (n_delivered s) (add_mset (unat ?r + 1, m) (in_flight s0))" and dr: "drained (n_rcv s)"
    and bd: "length (n_sent s) - length (n_delivered s) \<le> 2147483647" using inv fl by (simp_all add: net_inv_def)
  from process_cell_inv [OF leg env msg ri dr bd] obtain cfx' env' log' where
    p: "process_multiplexed to_stream (Some (n_rcv s)) c hint m env (n_delivered s) = Some (0, Some cfx', env', log')"
    "same_legs (recv_next k (n_rcv s)) cfx'" "env_closed env' = []" "recv_inv (n_sent s) cfx' log' (in_flight s0)" "drained cfx'"
    "length (n_delivered s) \<le> length log'" by blast
  define s' where "s' = s0\<lparr>n_rcv := cfx', n_delivered := log'\<rparr>"
  have lr: "leg_replay s' l = leg_replay s0 l" for l using p(2) by (simp add: leg_replay_def s'_def s0_def same_legs_def)
  have legs: "cfx_legs cfx' = cfx_legs (n_rcv s0)" "cfx_leg cfx' = cfx_leg (n_rcv s0)" using p(2) by (simp_all add: same_legs_def s0_def)
  have "channels_ok s'" using fl unfolding channels_ok_def lr by (simp add: s'_def legs)
  moreover have "in_flight s' = in_flight s0" unfolding in_flight_def lr by (simp add: s'_def)
  moreover have "receive c env hint s = Some s'"
    using ch p(1,3) inv by (simp add: receive_def s'_def s0_def net_inv_def)
  moreover have "length (n_sent s) - length log' \<le> 2147483647" using bd p(6) by simp
  ultimately show ?thesis using inv p(4,5) by (simp add: net_inv_def s'_def s0_def)
qed

section \<open>In-order delivery\<close>

lemma receive_progress:
  assumes "net_inv s" "recv_env_ok env c hint" "n_chan s c \<noteq> []"
  shows "\<exists>s'. receive c env hint s = Some s' \<and> net_inv s' \<and> n_sent s' = n_sent s \<and> n_snd s' = n_snd s \<and> n_chan s' = (n_chan s)(c := tl (n_chan s c))"
proof (cases "n_chan s c")
  case (Cons w ws)
  then show ?thesis using assms receive_switch [of s env c hint _ ws] receive_cell [of s env c hint _ ws] by (cases w) auto
qed (use assms in simp)

lemma switches_no_cell: "Cell m \<notin> set (switches_on c env)"
  by (auto simp: switches_on_def)

lemma push_append: "push c (as @ bs) chan = push c bs (push c as chan)"
  by (auto simp: push_def)

lemma update_rtt_inv:
  assumes "net_inv s"
  shows "net_inv (s\<lparr>n_snd := conflux_update_rtt (n_snd s) c rtt_usec\<rparr>)"
proof (cases "conflux_get_leg (n_snd s) c")
  case None
  then show ?thesis using assms by (simp add: conflux_update_rtt_def)
next
  case (Some k)
  define cfx where "cfx = conflux_update_rtt (n_snd s) c rtt_usec"
  have legs: "leg_circ (cfx_leg cfx l) = leg_circ (cfx_leg (n_snd s) l)" "last_seq_sent (cfx_leg cfx l) = last_seq_sent (cfx_leg (n_snd s) l)"
    "cfx_legs cfx = cfx_legs (n_snd s)" "curr_leg cfx = curr_leg (n_snd s)" "cells_until_switch cfx = cells_until_switch (n_snd s)" for l
    using Some by (simp_all add: cfx_def conflux_update_rtt_def)
  have lr: "leg_replay (s\<lparr>n_snd := cfx\<rparr>) l = leg_replay s l" for l by (simp add: leg_replay_def legs)
  have "send_inv cfx (length (n_sent s))" using assms by (simp add: net_inv_def send_inv_def legs split: option.splits)
  moreover have "channels_ok (s\<lparr>n_snd := cfx\<rparr>)" using assms unfolding net_inv_def channels_ok_def lr by (simp add: legs)
  moreover have "in_flight (s\<lparr>n_snd := cfx\<rparr>) = in_flight s" unfolding in_flight_def lr by (simp add: legs)
  ultimately show ?thesis using assms by (simp add: net_inv_def cfx_def)
qed

lemma net_init_inv:
  assumes "net_init s"
  shows "net_inv s"
proof -
  have r: "leg_replay s l = (0, [])" if "l \<in> set (cfx_legs (n_snd s))" for l using assms that by (simp add: net_init_def Let_def leg_replay_def)
  then have "in_flight s = {#}" by (simp add: in_flight_def)
  moreover have "heap_ok conflux_queue_cmp empty_heap" by (simp add: heap_ok_def indexed_def heap_order_def empty_heap_def)
  ultimately show ?thesis
    using assms r by (simp add: net_inv_def net_init_def Let_def send_inv_def channels_ok_def recv_inv_def drained_def q_pairs_def empty_heap_def seq_pairs_def)
qed

theorem step_keeps_inv:
  assumes "cfx_step s s'" "net_inv s"
  shows "net_inv s'"
  using assms
proof cases
  case (send m env orig c snd' env')
  have n: "send_inv (n_snd s) (length (n_sent s))" using assms(2) by (simp add: net_inv_def)
  have mux: "conflux_should_multiplex (rm_command m)" using send(2) by (simp add: sendable_msg_def)
  obtain k where k: "sends_on (n_snd s) (length (n_sent s)) c k snd' (switches_on c env')"
    using decide_for_send [OF n mux send(3,6)] ..
  define s1 where "s1 = s\<lparr>n_snd := snd', n_chan := push c (switches_on c env') (n_chan s)\<rparr>"
  have "net_inv s1" unfolding s1_def using assms(2) k switches_no_cell by (intro decide_net_inv) auto
  then have "net_inv (s1\<lparr>n_snd := conflux_note_cell_sent (n_snd s1) c (rm_command m), n_chan := push c [Cell m] (n_chan s1), n_sent := n_sent s1 @ [m]\<rparr>)"
    using k send by (intro emit_net_inv) (auto simp: sends_on_def s1_def)
  then show ?thesis using send(1) by (simp add: s1_def push_append)
next
  case (lost m env orig c snd' env')
  have n: "send_inv (n_snd s) (length (n_sent s))" using assms(2) by (simp add: net_inv_def)
  have mux: "conflux_should_multiplex (rm_command m)" using lost(2) by (simp add: sendable_msg_def)
  obtain k where "sends_on (n_snd s) (length (n_sent s)) c k snd' (switches_on c env')"
    using decide_for_send [OF n mux lost(3,4)] ..
  then show ?thesis unfolding lost(1) using assms(2) switches_no_cell by (intro decide_net_inv) auto
next
  case (rtt c rtt_usec)
  then show ?thesis using update_rtt_inv assms(2) by simp
next
  case (recv env c hint)
  then have "n_chan s c \<noteq> []" by (auto simp: receive_def)
  then show ?thesis using receive_progress [OF assms(2) recv(1)] recv(2) by auto
qed

lemma cfx_reachable_inv: "cfx_reachable s \<Longrightarrow> net_inv s"
  by (induction rule: cfx_reachable.induct) (auto intro: net_init_inv step_keeps_inv)

text \<open>C2 In every reachable state the messages handed to the streams are a beginning of the messages
  that were sent: none is lost, duplicated or reordered, whatever legs they took and however the legs
  were interleaved; and the receiver has closed no circuit.\<close>

theorem conflux_in_order:
  assumes "cfx_reachable s"
  shows "n_delivered s = take (length (n_delivered s)) (n_sent s) \<and> length (n_delivered s) \<le> length (n_sent s) \<and> n_closed s = []"
  using cfx_reachable_inv [OF assms] by (auto simp: net_inv_def recv_inv_def)

lemma quiet_delivered:
  assumes "net_inv s" "\<And>c. n_chan s c = []"
  shows "n_delivered s = n_sent s \<and> h_list (cfx_ooo_q (n_rcv s)) = []"
proof -
  let ?d = "length (n_delivered s)" and ?q = "h_list (cfx_ooo_q (n_rcv s))"
  have fl: "in_flight s = {#}" using assms(2) by (simp add: in_flight_def leg_replay_def)
  have r: "q_pairs (n_rcv s) = seq_pairs (n_sent s) ?d" "?d \<le> length (n_sent s)" "n_delivered s = take ?d (n_sent s)"
    "unat (last_seq_delivered (n_rcv s)) = ?d" "length (n_sent s) < 2 ^ 64"
    using assms(1) fl by (auto simp: net_inv_def recv_inv_def)
  have "\<not> ?d < length (n_sent s)"
  proof
    assume lt: "?d < length (n_sent s)"
    then have "(?d + 1, n_sent s ! ?d) \<in># q_pairs (n_rcv s)" by (simp add: r(1) seq_pairs_mem)
    then obtain m where m: "m \<in> set ?q" "unat (cm_seq m) = ?d + 1" by (auto simp: q_pairs_def cm_pair_def)
    have "unat (last_seq_delivered (n_rcv s) + 1) = ?d + 1" using r(4,5) lt by (simp add: unat_Suc64)
    then have "cm_seq m = last_seq_delivered (n_rcv s) + 1" using m(2) by (simp add: word_unat_eq_iff)
    then show False using assms(1) m(1) by (auto simp: net_inv_def drained_def)
  qed
  then have "?d = length (n_sent s)" using r(2) by simp
  then show ?thesis using r(1,3) by (simp add: q_pairs_def)
qed

text \<open>What is on the wires of the set, as a measure.\<close>

definition wires :: "net \<Rightarrow> nat" where
  "wires s = (\<Sum>c \<in> (\<lambda>l. leg_circ (cfx_leg (n_snd s) l)) ` set (cfx_legs (n_snd s)). length (n_chan s c))"

lemma receive_wires:
  assumes "net_inv s" "n_chan s c \<noteq> []" "n_snd s' = n_snd s" "n_chan s' = (n_chan s)(c := tl (n_chan s c))"
  shows "wires s' < wires s"
proof -
  let ?C = "(\<lambda>l. leg_circ (cfx_leg (n_snd s) l)) ` set (cfx_legs (n_snd s))"
  have "c \<in> ?C" using assms(1,2) by (simp add: net_inv_def channels_ok_def)
  moreover have "length (n_chan s' c) < length (n_chan s c)" using assms(2,4) by (cases "n_chan s c") simp_all
  ultimately show ?thesis unfolding wires_def assms(3) using assms(4) by (intro sum_strict_mono_ex1) auto
qed

text \<open>
  Whatever circuit is read next and whatever its environment, the receiver goes on, and in the end the
  channels are empty and everything has been delivered.
\<close>

inductive always_delivers :: "relay_msg_t list \<Rightarrow> net \<Rightarrow> bool" where
  quiet: "(\<forall>c. n_chan s c = []) \<Longrightarrow> n_delivered s = sent \<Longrightarrow> h_list (cfx_ooo_q (n_rcv s)) = [] \<Longrightarrow> always_delivers sent s"
| busy: "\<exists>c. n_chan s c \<noteq> [] \<Longrightarrow>
    (\<forall>c env hint. n_chan s c \<noteq> [] \<longrightarrow> recv_env_ok env c hint \<longrightarrow> (\<exists>s'. receive c env hint s = Some s' \<and> always_delivers sent s')) \<Longrightarrow>
    always_delivers sent s"

lemma inv_always_delivers: "net_inv s \<Longrightarrow> always_delivers (n_sent s) s"
proof (induction "wires s" arbitrary: s rule: less_induct)
  case less
  show ?case
  proof (cases "\<forall>c. n_chan s c = []")
    case True
    then show ?thesis using quiet_delivered [OF less.prems] by (intro always_delivers.quiet) auto
  next
    case False
    have "\<exists>s'. receive c env hint s = Some s' \<and> always_delivers (n_sent s) s'" if "n_chan s c \<noteq> []" "recv_env_ok env c hint" for c env hint
    proof -
      from receive_progress [OF less.prems that(2,1)] obtain s' where
        s': "receive c env hint s = Some s'" "net_inv s'" "n_sent s' = n_sent s" "n_snd s' = n_snd s" "n_chan s' = (n_chan s)(c := tl (n_chan s c))" by blast
      show ?thesis using less.hyps [OF receive_wires [OF less.prems that(1) s'(4,5)] s'(2)] s'(1,3) by auto
    qed
    then show ?thesis using False by (intro always_delivers.busy) auto
  qed
qed

text \<open>C1 From every reachable state, reading the circuits in any order delivers every message that was
  sent: the receiver never aborts, every cell that arrives is taken, and when the channels are empty
  the streams have got exactly the messages sent and the queue is empty.\<close>

theorem conflux_delivers:
  assumes "cfx_reachable s"
  shows "always_delivers (n_sent s) s"
  using inv_always_delivers cfx_reachable_inv assms by blast

section \<open>The sender does not abort\<close>

definition env_cc :: "cfx_env \<Rightarrow> conflux_t \<Rightarrow> bool" where
  "env_cc env cfx \<longleftrightarrow> (\<forall>l \<in> set (cfx_legs cfx). circuit_ccontrol (env_circ env (leg_circ (cfx_leg cfx l))) \<noteq> None)"

lemma ready_total: "circuit_ccontrol circ \<noteq> None \<Longrightarrow> circuit_ready_to_send circ \<noteq> None"
  by (auto simp: circuit_ready_to_send_def Let_def)

lemma low_rtt_total:
  "\<forall>l \<in> set ls. circuit_ccontrol (env_circ env (leg_circ (legs l))) \<noteq> None \<Longrightarrow> low_rtt_loop env legs ls acc \<noteq> None"
proof (induction ls arbitrary: acc)
  case (Cons l ls)
  have "circuit_ready_to_send (env_circ env (leg_circ (legs l))) \<noteq> None" using Cons.prems by (intro ready_total) simp
  then obtain y where y: "circuit_ready_to_send (env_circ env (leg_circ (legs l))) = Some y" by auto
  have "low_rtt_loop env legs ls a \<noteq> None" for a using Cons by simp
  then show ?case by (simp add: y del: not_None_eq)
qed simp

lemma decide_next_total:
  assumes "env_cc env cfx" "cfx_alg cfx \<noteq> CONFLUX_ALG_CWNDRTT" "curr_leg_ok cfx" "cfx_legs cfx \<noteq> []"
    and prev: "cells_until_switch cfx = 0"
  shows "conflux_decide_next_circ env cfx \<noteq> None"
proof (cases "in_full_teardown cfx")
  case True
  then show ?thesis by (simp add: conflux_decide_next_circ_def)
next
  case False
  define first where "first = (if curr_leg cfx = None then conflux_pick_first_leg cfx else (True, cfx))"
  obtain b cfx1 where f: "first = (b, cfx1)" by fastforce
  have c1: "cfx_legs cfx1 = cfx_legs cfx" "cfx_leg cfx1 = cfx_leg cfx" "cfx_alg cfx1 = cfx_alg cfx" "cells_until_switch cfx1 = 0"
    using f prev pick_first_leg_result [of cfx b cfx1] by (auto simp: first_def split: if_splits)
  have "conflux_decide_circ_lowrtt env cfx1 \<noteq> None"
    using low_rtt_total [of "cfx_legs cfx" env "cfx_leg cfx" "(-1, None)"] assms(1,4) c1 by (auto simp: conflux_decide_circ_lowrtt_def env_cc_def)
  moreover have "conflux_decide_circ_minrtt env cfx1 \<noteq> None"
  proof (cases "snd (min_rtt_loop (cfx_leg cfx) (cfx_legs cfx) (- 1, None))")
    case (Some l)
    then have "circuit_ready_to_send (env_circ env (leg_circ (cfx_leg cfx l))) \<noteq> None"
      using min_rtt_loop_mem [OF Some] assms(1) by (intro ready_total) (auto simp: env_cc_def)
    then show ?thesis using Some assms(4) c1 by (auto simp: conflux_decide_circ_minrtt_def Let_def)
  qed (use assms(4) c1 in \<open>simp add: conflux_decide_circ_minrtt_def\<close>)
  ultimately show ?thesis
    using False f c1 assms(2) by (cases "cfx_alg cfx") (auto simp: conflux_decide_next_circ_def first_def [symmetric] conflux_can_switch_def)
qed

text \<open>While the set has sent fewer than \<open>UINT32_MAX\<close> messages, choosing a circuit in a reachable state
  never fails an assertion: the leg that is left is never behind the leg that is entered, and the
  difference always fits the switch cell.\<close>

theorem conflux_send_safe:
  assumes "cfx_reachable s" "env_cc env (n_snd s)" "cfx_alg (n_snd s) \<noteq> CONFLUX_ALG_CWNDRTT" "cfx_legs (n_snd s) \<noteq> []" "length (n_sent s) < 4294967295"
  shows "conflux_decide_circ_for_send (n_snd s) orig cmd env \<noteq> None"
proof -
  let ?cfx = "n_snd s"
  have inv: "send_inv ?cfx (length (n_sent s))" using cfx_reachable_inv [OF assms(1)] by (simp add: net_inv_def)
  then have "conflux_decide_next_circ env ?cfx \<noteq> None"
    using assms(2-4) by (intro decide_next_total send_inv_curr_ok) (auto simp: send_inv_def)
  then obtain new_circ cfx1 where next_circ: "conflux_decide_next_circ env ?cfx = Some (new_circ, cfx1)" by auto
  note res = decide_next_circ_result [OF next_circ send_inv_curr_ok [OF inv]]
  have inv1: "send_inv cfx1 (length (n_sent s))" using send_inv_pick [OF inv] res by blast
  have same: "cfx_legs cfx1 = cfx_legs ?cfx" "cfx_leg cfx1 = cfx_leg ?cfx" using res by auto
  have sw: "switch_leg cfx1 j (conflux_get_leg cfx1 circ) env \<noteq> None" if c: "new_circ = Some circ" "curr_leg cfx1 = Some j" for circ j
  proof -
    obtain k where k: "k \<in> set (cfx_legs cfx1)" "leg_circ (cfx_leg cfx1 k) = circ" using res same c(1) by (auto simp: leg_ready_def)
    have get: "conflux_get_leg cfx1 circ = Some k" using get_leg_mem [of cfx1 k] inv1 k by (simp add: send_inv_def)
    have n: "unat (last_seq_sent (cfx_leg cfx1 j)) = length (n_sent s)" "unat (last_seq_sent (cfx_leg cfx1 k)) \<le> length (n_sent s)"
      using inv1 c(2) k by (simp_all add: send_inv_def)
    then have le: "last_seq_sent (cfx_leg cfx1 k) \<le> last_seq_sent (cfx_leg cfx1 j)" by (simp add: word_le_nat_alt)
    have "unat (last_seq_sent (cfx_leg cfx1 j) - last_seq_sent (cfx_leg cfx1 k)) < 4294967295"
      using n assms(5) unat_sub [OF le] by simp
    then have "last_seq_sent (cfx_leg cfx1 j) - last_seq_sent (cfx_leg cfx1 k) < 0xFFFFFFFF" by (simp add: word_less_nat_alt)
    then show ?thesis using get le k by (auto simp: switch_leg_def conflux_send_switch_command_def Let_def)
  qed
  show ?thesis
  proof (cases new_circ)
    case None
    then show ?thesis by (simp add: conflux_decide_circ_for_send_def next_circ)
  next
    case (Some circ)
    obtain j where j: "curr_leg cfx1 = Some j" using res Some by auto
    obtain r where "switch_leg cfx1 j (conflux_get_leg cfx1 circ) env = Some r" using sw [OF Some j] by auto
    then show ?thesis by (cases r) (simp add: conflux_decide_circ_for_send_def next_circ Some j)
  qed
qed

section \<open>An example\<close>

definition demo_net :: net where
  "demo_net = \<lparr>n_snd = demo_set CONFLUX_ALG_LOWRTT, n_rcv = demo_set CONFLUX_ALG_LOWRTT, n_chan = \<lambda>_. [], n_sent = [], n_delivered = [], n_closed = []\<rparr>"

definition demo_msg :: relay_msg_t where
  "demo_msg = \<lparr>rm_command = 2, rm_length = 1, rm_stream_id = 5, rm_is_relay_early = False, rm_body = [65]\<rparr>"

lemmas demo_defs = demo_circ_def demo_env_def demo_set_def demo_net_def demo_msg_def

lemma demo_init: "cfx_reachable demo_net"
  by (rule cfx_reachable.init) (auto simp: net_init_def demo_net_def demo_set_def inj_on_def)

lemma demo_decide:
  "conflux_decide_circ_for_send (n_snd demo_net) 10 (rm_command demo_msg) demo_env = Some (Some 20, (demo_set CONFLUX_ALG_LOWRTT)\<lparr>curr_leg := Some 1\<rparr>, demo_env)"
  by (simp add: conflux_decide_circ_for_send_def demo_net_def demo_decide_next conflux_should_multiplex_def demo_msg_def)
     (simp add: demo_set_def)

lemma demo_sent: "\<exists>s. cfx_reachable s \<and> n_sent s = [demo_msg] \<and> n_chan s 20 = [Cell demo_msg]"
proof -
  have "cfx_step demo_net (demo_net\<lparr>n_snd := conflux_note_cell_sent ((demo_set CONFLUX_ALG_LOWRTT)\<lparr>curr_leg := Some 1\<rparr>) 20 (rm_command demo_msg),
          n_chan := push 20 (switches_on 20 demo_env @ [Cell demo_msg]) (n_chan demo_net), n_sent := n_sent demo_net @ [demo_msg]\<rparr>)"
    by (rule cfx_step.send [OF _ _ _ _ demo_decide])
      (simp_all add: sendable_msg_def conflux_should_multiplex_def demo_msg_def relay_sizes demo_env_def demo_net_def)
  from cfx_reachable.step [OF demo_init this] show ?thesis
    by (intro exI conjI, assumption) (simp_all add: demo_net_def push_def switches_on_def demo_env_def)
qed

theorem conflux_in_order_witness:
  "\<exists>s. cfx_reachable s \<and> n_sent s = [demo_msg] \<and> n_delivered s = take (length (n_delivered s)) (n_sent s) \<and> length (n_delivered s) \<le> 1 \<and> n_closed s = []"
  using demo_sent conflux_in_order by fastforce

theorem conflux_delivers_witness: "\<exists>s. cfx_reachable s \<and> n_chan s 20 \<noteq> [] \<and> always_delivers [demo_msg] s"
proof -
  obtain s where s: "cfx_reachable s" "n_sent s = [demo_msg]" "n_chan s 20 = [Cell demo_msg]" using demo_sent by blast
  then show ?thesis using conflux_delivers [OF s(1)] by auto
qed

theorem conflux_send_safe_witness:
  "conflux_decide_circ_for_send (n_snd demo_net) 10 2 demo_env \<noteq> None \<and> cfx_legs (n_snd demo_net) = [0, 1]"
  using conflux_send_safe [OF demo_init, of demo_env 10 2]
  by (simp add: env_cc_def circuit_ccontrol_def demo_defs)

end
