(* ===== verification/Congestion.thy ===== *)
theory Congestion
  imports Conflux Util_String
begin

text \<open>
  Congestion control: \<open>core/or/congestion_control_common.c\<close>, \<open>core/or/congestion_control_vegas.c\<close> and
  the inline functions of their headers, with the consensus parameters they read.  The text of log messages,
  the running averages for the metrics port and control-port events are left out, but not the divisions in
  their arguments, which are evaluated whether or not the message is written.  A division by zero traps
  (\<open>None\<close>).
\<close>

section \<open>Consensus parameters\<close>

text \<open>The parameters of a consensus are strings \<open>name=value\<close>; a consensus may have none.\<close>

type_synonym net_params = "string list option"

fun find_param :: "string \<Rightarrow> string list \<Rightarrow> int \<Rightarrow> int" where
  "find_param name [] res = res"
| "find_param name (p # ps) res =
     (if strcmpstart p name = 0 \<and> deref (drop (length name) p) = CHR ''='' then
        let (v, ok, nxt) = tor_parse_long (drop (length name + 1) p) (-2147483648) 2147483647 False in
        if ok then v else find_param name ps res
      else find_param name ps res)"

definition get_net_param_from_list :: "string list \<Rightarrow> string \<Rightarrow> int \<Rightarrow> int \<Rightarrow> int \<Rightarrow> int option" where
  "get_net_param_from_list net_params param_name default_val min_val max_val = do {
     tor_assert (max_val > min_val);
     tor_assert (min_val \<le> default_val);
     tor_assert (max_val \<ge> default_val);
     let res = find_param param_name net_params default_val;
     let res = (if res < min_val then min_val else if res > max_val then max_val else res);
     tor_assert (res \<ge> min_val);
     tor_assert (res \<le> max_val);
     Some res
   }"

text \<open>\<open>latest\<close> is what \<open>networkstatus_get_latest_consensus()\<close> returns.\<close>

definition networkstatus_get_param :: "net_params option \<Rightarrow> net_params option \<Rightarrow> string \<Rightarrow> int \<Rightarrow> int \<Rightarrow> int \<Rightarrow> int option" where
  "networkstatus_get_param latest ns param_name default_val min_val max_val =
     (case (case ns of None \<Rightarrow> latest | Some n \<Rightarrow> Some n) of
        Some (Some params) \<Rightarrow> get_net_param_from_list params param_name default_val min_val max_val
      | _ \<Rightarrow> Some default_val)"

section \<open>State\<close>

datatype cc_alg_t = CC_ALG_SENDME | CC_ALG_WESTWOOD | CC_ALG_VEGAS | CC_ALG_NOLA

datatype cc_path_t = CC_PATH_EXIT | CC_PATH_ONION | CC_PATH_ONION_SOS | CC_PATH_ONION_VG | CC_PATH_SBWS

record vegas_params_t =
  ss_cwnd_cap :: u32
  ss_cwnd_max :: u32
  vegas_gamma :: u16
  vegas_alpha :: u16
  vegas_beta :: u16
  vegas_delta :: u16

text \<open>The fields that conflux reads, and the rest of the congestion control object.\<close>

record cc_t = congestion_control_t +
  sendme_pending_timestamps :: "u64 list"
  ewma_rtt_usec :: u64
  min_rtt_usec :: u64
  max_rtt_usec :: u64
  cc_bdp :: u64
  next_cc_event :: u16
  next_cwnd_event :: u16
  cwnd_full :: bool
  blocked_chan :: bool
  cwnd_inc_pct_ss :: u16
  cwnd_inc :: u16
  cwnd_min :: u16
  cwnd_inc_rate :: u8
  cc_algorithm :: cc_alg_t
  vegas_params :: vegas_params_t

text \<open>The static variables of the two files.\<close>

record cc_globals =
  cell_queue_high :: i32
  cell_queue_low :: i32
  or_conn_highwater :: u32
  or_conn_lowwater :: u32
  cwnd_max :: u32
  rtt_reset_pct :: u8
  consensus_sendme_inc :: u8
  consensus_cc_alg :: cc_alg_t
  bwe_sendme_min :: u8
  n_ewma_cwnd_pct :: u8
  n_ewma_max :: u8
  n_ewma_ss :: u8
  cc_vegas_cwnd_full_minpct :: int
  cc_vegas_cwnd_full_gap :: int
  cc_cwnd_full_per_cwnd :: bool
  is_monotime_clock_broken :: bool
  num_rtt_reset :: u64
  num_clock_stalls :: u64

text \<open>What is read of a circuit: on which side of it we are, and its queues.\<close>

record cc_circ =
  cc_is_origin :: bool
  n_chan_cells :: int
  p_chan_cells :: int
  blocked_on_n_chan :: bool
  blocked_on_p_chan :: bool

definition TLS_RECORD_MAX_CELLS :: int where "TLS_RECORD_MAX_CELLS = 31"
definition SENDME_INC_DFLT :: int where "SENDME_INC_DFLT = TLS_RECORD_MAX_CELLS"
definition CIRCWINDOW_INIT :: int where "CIRCWINDOW_INIT = 4 * SENDME_INC_DFLT"
definition OUTBUF_CELLS :: int where "OUTBUF_CELLS = 2 * TLS_RECORD_MAX_CELLS"

definition cc_alg_of :: "int \<Rightarrow> cc_alg_t" where
  "cc_alg_of i = (if i = 0 then CC_ALG_SENDME else if i = 1 then CC_ALG_WESTWOOD else if i = 2 then CC_ALG_VEGAS else CC_ALG_NOLA)"

definition congestion_control_new_consensus_params :: "net_params option \<Rightarrow> net_params option \<Rightarrow> cc_globals \<Rightarrow> cc_globals option" where
  "congestion_control_new_consensus_params latest ns g = do {
     cq_high \<leftarrow> networkstatus_get_param latest ns ''cellq_high'' 256 1 1000;
     cq_low \<leftarrow> networkstatus_get_param latest ns ''cellq_low'' 10 1 1000;
     high \<leftarrow> networkstatus_get_param latest ns ''orconn_high'' 32768 509 2147483647;
     low \<leftarrow> networkstatus_get_param latest ns ''orconn_low'' 16384 509 2147483647;
     c_max \<leftarrow> networkstatus_get_param latest None ''cc_cwnd_max'' 2147483647 500 2147483647;
     pct \<leftarrow> networkstatus_get_param latest None ''cc_rtt_reset_pct'' 100 0 100;
     inc \<leftarrow> networkstatus_get_param latest None ''cc_sendme_inc'' SENDME_INC_DFLT 1 254;
     alg \<leftarrow> networkstatus_get_param latest None ''cc_alg'' 2 0 3;
     let alg = cc_alg_of alg;
     let alg = (if alg \<noteq> CC_ALG_SENDME \<and> alg \<noteq> CC_ALG_VEGAS then CC_ALG_VEGAS else alg);
     bwe \<leftarrow> networkstatus_get_param latest None ''cc_bwe_min'' 5 2 20;
     cwnd_pct \<leftarrow> networkstatus_get_param latest None ''cc_ewma_cwnd_pct'' 50 1 255;
     e_max \<leftarrow> networkstatus_get_param latest None ''cc_ewma_max'' 10 2 2147483647;
     e_ss \<leftarrow> networkstatus_get_param latest None ''cc_ewma_ss'' 2 2 2147483647;
     Some (g\<lparr>cell_queue_high := word_of_int cq_high, cell_queue_low := word_of_int cq_low, or_conn_highwater := word_of_int high,
       or_conn_lowwater := word_of_int low, cwnd_max := word_of_int c_max, rtt_reset_pct := word_of_int pct, consensus_sendme_inc := word_of_int inc,
       consensus_cc_alg := alg, bwe_sendme_min := word_of_int bwe, n_ewma_cwnd_pct := word_of_int cwnd_pct, n_ewma_max := word_of_int e_max,
       n_ewma_ss := word_of_int e_ss\<rparr>)
   }"

text \<open>The names and defaults of the queue thresholds by the kind of path: alpha, beta, gamma, delta and the
  cap of slow start.\<close>

definition vegas_path :: "cc_path_t \<Rightarrow> (string \<times> int) list" where
  "vegas_path path =
     (case path of
        CC_PATH_SBWS \<Rightarrow>
          [(''cc_vegas_alpha_sbws'', 2 * OUTBUF_CELLS - TLS_RECORD_MAX_CELLS), (''cc_vegas_beta_sbws'', 2 * OUTBUF_CELLS + TLS_RECORD_MAX_CELLS),
           (''cc_vegas_gamma_sbws'', 2 * OUTBUF_CELLS), (''cc_vegas_delta_sbws'', 4 * OUTBUF_CELLS), (''cc_sscap_sbws'', 400)]
      | CC_PATH_ONION \<Rightarrow>
          [(''cc_vegas_alpha_onion'', 3 * OUTBUF_CELLS), (''cc_vegas_beta_onion'', 6 * OUTBUF_CELLS),
           (''cc_vegas_gamma_onion'', 4 * OUTBUF_CELLS), (''cc_vegas_delta_onion'', 7 * OUTBUF_CELLS), (''cc_sscap_onion'', 475)]
      | CC_PATH_ONION_VG \<Rightarrow>
          [(''cc_vegas_alpha_onion'', 3 * OUTBUF_CELLS), (''cc_vegas_beta_onion'', 6 * OUTBUF_CELLS),
           (''cc_vegas_gamma_onion'', 4 * OUTBUF_CELLS), (''cc_vegas_delta_onion'', 7 * OUTBUF_CELLS), (''cc_sscap_onion'', 475)]
      | _ \<Rightarrow>
          [(''cc_vegas_alpha_exit'', 3 * OUTBUF_CELLS), (''cc_vegas_beta_exit'', 4 * OUTBUF_CELLS),
           (''cc_vegas_gamma_exit'', 3 * OUTBUF_CELLS), (''cc_vegas_delta_exit'', 5 * OUTBUF_CELLS), (''cc_sscap_exit'', 600)])"

definition congestion_control_vegas_set_params :: "net_params option \<Rightarrow> cc_globals \<Rightarrow> cc_t \<Rightarrow> cc_path_t \<Rightarrow> (cc_globals \<times> cc_t) option" where
  "congestion_control_vegas_set_params latest g cc path = do {
     tor_assert (cc_algorithm cc = CC_ALG_VEGAS);
     let param = (\<lambda>i. networkstatus_get_param latest None (fst (vegas_path path ! i)) (snd (vegas_path path ! i)));
     cap \<leftarrow> param 4 100 2147483647;
     m \<leftarrow> networkstatus_get_param latest None ''cc_ss_max'' 5000 500 2147483647;
     alpha \<leftarrow> param 0 0 1000;
     beta \<leftarrow> param 1 0 1000;
     gamma \<leftarrow> param 2 0 1000;
     delta \<leftarrow> param 3 0 2147483647;
     minpct \<leftarrow> networkstatus_get_param latest None ''cc_cwnd_full_minpct'' 25 0 100;
     gap \<leftarrow> networkstatus_get_param latest None ''cc_cwnd_full_gap'' 4 0 32767;
     per \<leftarrow> networkstatus_get_param latest None ''cc_cwnd_full_per_cwnd'' 1 0 1;
     Some (g\<lparr>cc_vegas_cwnd_full_minpct := minpct, cc_vegas_cwnd_full_gap := gap, cc_cwnd_full_per_cwnd := per \<noteq> 0\<rparr>,
       cc\<lparr>vegas_params := \<lparr>ss_cwnd_cap = word_of_int cap, ss_cwnd_max = word_of_int m, vegas_gamma = word_of_int gamma,
         vegas_alpha = word_of_int alpha, vegas_beta = word_of_int beta, vegas_delta = word_of_int delta\<rparr>\<rparr>)
   }"

text \<open>\<open>always\<close> is the option \<open>AlwaysCongestionControl\<close>; \<open>sendme_inc_cells\<close> was negotiated for the circuit.\<close>

definition congestion_control_init_params ::
  "net_params option \<Rightarrow> bool \<Rightarrow> cc_globals \<Rightarrow> cc_t \<Rightarrow> u8 \<Rightarrow> cc_path_t \<Rightarrow> (cc_globals \<times> cc_t) option" where
  "congestion_control_init_params latest always g cc sendme_inc_cells path = do {
     cwnd \<leftarrow> networkstatus_get_param latest None ''cc_cwnd_init'' CIRCWINDOW_INIT SENDME_INC_DFLT 10000;
     pct \<leftarrow> networkstatus_get_param latest None ''cc_cwnd_inc_pct_ss'' 100 1 500;
     inc \<leftarrow> networkstatus_get_param latest None ''cc_cwnd_inc'' 1 1 1000;
     rate \<leftarrow> networkstatus_get_param latest None ''cc_cwnd_inc_rate'' SENDME_INC_DFLT 1 250;
     c_min \<leftarrow> networkstatus_get_param latest None ''cc_cwnd_min'' CIRCWINDOW_INIT SENDME_INC_DFLT 1000;
     let cc = cc\<lparr>cc_sendme_inc := sendme_inc_cells, cc_cwnd := word_of_int cwnd, cwnd_inc_pct_ss := word_of_int pct, cwnd_inc := word_of_int inc,
       cwnd_inc_rate := word_of_int rate, cwnd_min := word_of_int c_min,
       cc_algorithm := if consensus_cc_alg g = CC_ALG_SENDME \<and> always then CC_ALG_VEGAS else consensus_cc_alg g\<rparr>;
     if cc_algorithm cc = CC_ALG_VEGAS then congestion_control_vegas_set_params latest g cc path else Some (g, cc)
   }"

section \<open>Windows\<close>

definition udiv :: "u64 \<Rightarrow> u64 \<Rightarrow> u64 option" where
  "udiv a b = (if b = 0 then None else Some (a div b))"

definition CWND_UPDATE_RATE :: "cc_t \<Rightarrow> u64 option" where
  "CWND_UPDATE_RATE cc =
     (if cc_in_slow_start cc then Some 1
      else let acks = uint (cwnd_inc_rate cc) * uint (cc_sendme_inc cc)
           in udiv (cc_cwnd cc + word_of_int (acks div 2)) (word_of_int acks))"

definition SENDME_PER_CWND :: "cc_t \<Rightarrow> u64 option" where
  "SENDME_PER_CWND cc = udiv (cc_cwnd cc + word_of_int (uint (cc_sendme_inc cc) div 2)) (ucast (cc_sendme_inc cc))"

definition congestion_control_init ::
  "net_params option \<Rightarrow> bool \<Rightarrow> cc_globals \<Rightarrow> cc_t \<Rightarrow> u8 \<Rightarrow> cc_path_t \<Rightarrow> (cc_globals \<times> cc_t) option" where
  "congestion_control_init latest always g cc sendme_inc_cells path = do {
     let cc = cc\<lparr>sendme_pending_timestamps := [], cc_in_slow_start := True\<rparr>;
     (g, cc) \<leftarrow> congestion_control_init_params latest always g cc sendme_inc_cells path;
     rate \<leftarrow> CWND_UPDATE_RATE cc;
     Some (g, cc\<lparr>next_cc_event := ucast rate\<rparr>)
   }"

text \<open>The object is allocated zeroed.\<close>

definition zero_cc :: cc_t where
  "zero_cc = \<lparr>cc_cwnd = 0, cc_inflight = 0, cc_sendme_inc = 0, cc_in_slow_start = False, sendme_pending_timestamps = [], ewma_rtt_usec = 0,
     min_rtt_usec = 0, max_rtt_usec = 0, cc_bdp = 0, next_cc_event = 0, next_cwnd_event = 0, cwnd_full = False, blocked_chan = False,
     cwnd_inc_pct_ss = 0, cwnd_inc = 0, cwnd_min = 0, cwnd_inc_rate = 0, cc_algorithm = CC_ALG_SENDME,
     vegas_params = \<lparr>ss_cwnd_cap = 0, ss_cwnd_max = 0, vegas_gamma = 0, vegas_alpha = 0, vegas_beta = 0, vegas_delta = 0\<rparr>\<rparr>"

definition congestion_control_new :: "net_params option \<Rightarrow> bool \<Rightarrow> cc_globals \<Rightarrow> u8 \<Rightarrow> cc_path_t \<Rightarrow> (cc_globals \<times> cc_t) option" where
  "congestion_control_new latest always g sendme_inc_cells path = congestion_control_init latest always g zero_cc sendme_inc_cells path"

definition n_ewma_count :: "cc_globals \<Rightarrow> cc_t \<Rightarrow> u64 option" where
  "n_ewma_count g cc = do {
     ewma_cnt \<leftarrow>
       (if cc_in_slow_start cc then Some (ucast (n_ewma_ss g))
        else do { rate \<leftarrow> CWND_UPDATE_RATE cc; Some (min (rate * ucast (n_ewma_cwnd_pct g) div 100) (ucast (n_ewma_max g))) });
     Some (max ewma_cnt 2)
   }"

definition n_count_ewma :: "u64 \<Rightarrow> u64 \<Rightarrow> u64 \<Rightarrow> u64 option" where
  "n_count_ewma curr_val prev n = (if prev = 0 then Some curr_val else udiv (2 * curr_val + (n - 1) * prev) (n + 1))"

definition percent_max_mix :: "u64 \<Rightarrow> u64 \<Rightarrow> u8 \<Rightarrow> u64" where
  "percent_max_mix a b pct_max =
     (let mx = max a b; mn = min a b
      in if pct_max > 100 then mx else ucast pct_max * mx div 100 + word_of_int (100 - uint pct_max) * mn div 100)"

text \<open>The fixed window is used where a hop has no congestion control.\<close>

definition congestion_control_get_package_window :: "i32 \<Rightarrow> cc_t option \<Rightarrow> i32" where
  "congestion_control_get_package_window package_window cc =
     (case cc of
        None \<Rightarrow> package_window
      | Some cc \<Rightarrow>
          if cc_inflight cc > cc_cwnd cc then 0
          else if cc_cwnd cc - cc_inflight cc > 2147483647 then 2147483647
          else ucast (cc_cwnd cc - cc_inflight cc))"

definition sendme_get_inc_count :: "cc_t option \<Rightarrow> int" where
  "sendme_get_inc_count cc = (case cc of Some cc \<Rightarrow> uint (cc_sendme_inc cc) | None \<Rightarrow> 100)"

text \<open>\<open>CIRCWINDOW_START\<close> is 1000 and \<open>CIRCWINDOW_INCREMENT\<close> 100; a zero increment traps.\<close>

definition circuit_sent_cell_for_sendme :: "int \<Rightarrow> cc_t option \<Rightarrow> bool option" where
  "circuit_sent_cell_for_sendme window cc =
     (case cc of
        Some cc \<Rightarrow>
          if cc_inflight cc = 0 then Some False
          else if cc_sendme_inc cc = 0 then None
          else Some ((cc_inflight cc + 1) mod ucast (cc_sendme_inc cc) = 0)
      | None \<Rightarrow> Some (if window = 1000 then False else (window - 1) mod 100 = 0))"

definition congestion_control_note_cell_sent :: "u64 \<Rightarrow> cc_t \<Rightarrow> cc_t option" where
  "congestion_control_note_cell_sent now cc = do {
     last_before_sendme \<leftarrow> circuit_sent_cell_for_sendme 0 (Some cc);
     let cc = cc\<lparr>cc_inflight := cc_inflight cc + 1\<rparr>;
     Some (if last_before_sendme then cc\<lparr>sendme_pending_timestamps := sendme_pending_timestamps cc @ [now]\<rparr> else cc)
   }"

section \<open>Estimates\<close>

definition time_delta_should_use_heuristics :: "cc_t \<Rightarrow> bool" where
  "time_delta_should_use_heuristics cc \<longleftrightarrow> \<not> cc_in_slow_start cc \<and> ewma_rtt_usec cc \<noteq> 0"

definition time_delta_stalled_or_jumped :: "cc_globals \<Rightarrow> cc_t \<Rightarrow> u64 \<Rightarrow> u64 \<Rightarrow> bool \<times> cc_globals" where
  "time_delta_stalled_or_jumped g cc old_delta new_delta =
     (if new_delta = 0 then (True, g\<lparr>is_monotime_clock_broken := True\<rparr>)
      else if \<not> time_delta_should_use_heuristics cc then (False, g)
      else if old_delta > new_delta * 5000 then (is_monotime_clock_broken g, g)
      else if new_delta > old_delta * 5000 then (True, g)
      else (False, g\<lparr>is_monotime_clock_broken := False\<rparr>))"

text \<open>An empty queue is a bug that is logged; the timestamp is then 0.\<close>

definition dequeue_timestamp :: "u64 list \<Rightarrow> u64 \<times> u64 list" where
  "dequeue_timestamp timestamps = (case timestamps of [] \<Rightarrow> (0, []) | t # ts \<Rightarrow> (t, ts))"

definition congestion_control_update_circuit_rtt :: "cc_globals \<Rightarrow> cc_t \<Rightarrow> u64 \<Rightarrow> (u64 \<times> cc_globals \<times> cc_t) option" where
  "congestion_control_update_circuit_rtt g cc now_usec =
     (let (sent_at_timestamp, rest) = dequeue_timestamp (sendme_pending_timestamps cc);
          cc = cc\<lparr>sendme_pending_timestamps := rest\<rparr>;
          rtt = now_usec - sent_at_timestamp;
          (fishy, g) = time_delta_stalled_or_jumped g cc (ewma_rtt_usec cc) rtt
      in if fishy then Some (0, g\<lparr>num_clock_stalls := num_clock_stalls g + 1\<rparr>, cc)
         else do {
           ewma_cnt \<leftarrow> n_ewma_count g cc;
           ewma \<leftarrow> n_count_ewma rtt (ewma_rtt_usec cc) ewma_cnt;
           let cc = cc\<lparr>ewma_rtt_usec := ewma, max_rtt_usec := if rtt > max_rtt_usec cc then rtt else max_rtt_usec cc\<rparr>;
           Some (rtt,
             if min_rtt_usec cc = 0 then (g, cc\<lparr>min_rtt_usec := ewma\<rparr>)
             else if cc_cwnd cc = ucast (cwnd_min cc) \<and> \<not> cc_in_slow_start cc then
               (g\<lparr>num_rtt_reset := num_rtt_reset g + 1\<rparr>, cc\<lparr>min_rtt_usec := percent_max_mix ewma (min_rtt_usec cc) (rtt_reset_pct g)\<rparr>)
             else if ewma < min_rtt_usec cc then (g, cc\<lparr>min_rtt_usec := ewma\<rparr>)
             else (g, cc))
         })"

definition congestion_control_update_circuit_bdp :: "cc_t \<Rightarrow> cc_circ \<Rightarrow> u64 \<Rightarrow> bool \<times> cc_t" where
  "congestion_control_update_circuit_bdp cc circ curr_rtt_usec =
     (let chan_q = (if cc_is_origin circ then n_chan_cells circ else p_chan_cells circ);
          blocked_on_chan = (if cc_is_origin circ then blocked_on_n_chan circ else blocked_on_p_chan circ)
      in if ewma_rtt_usec cc = 0 then
           let cwnd = cc_cwnd cc;
               cwnd = (if blocked_on_chan
                       then if chan_q \<ge> sint cwnd then ucast (cwnd_min cc) else max (cwnd - word_of_int chan_q) (ucast (cwnd_min cc))
                       else cwnd)
           in (blocked_on_chan, cc\<lparr>blocked_chan := blocked_on_chan, cc_bdp := cwnd\<rparr>)
         else
           let cc = cc\<lparr>cc_bdp := cc_cwnd cc * min_rtt_usec cc div ewma_rtt_usec cc\<rparr>;
               cc = (if blocked_on_chan \<noteq> blocked_chan cc then cc\<lparr>blocked_chan := blocked_on_chan, next_cc_event := 0\<rparr> else cc)
           in (blocked_on_chan \<or> curr_rtt_usec \<noteq> 0, cc))"

definition congestion_control_update_circuit_estimates :: "cc_globals \<Rightarrow> cc_t \<Rightarrow> cc_circ \<Rightarrow> u64 \<Rightarrow> (bool \<times> cc_globals \<times> cc_t) option" where
  "congestion_control_update_circuit_estimates g cc circ now_usec = do {
     (curr_rtt_usec, g, cc) \<leftarrow> congestion_control_update_circuit_rtt g cc now_usec;
     let (updated, cc) = congestion_control_update_circuit_bdp cc circ curr_rtt_usec;
     Some (updated, g, cc)
   }"

section \<open>Vegas\<close>

definition rfc3742_ss_inc :: "cc_t \<Rightarrow> u64 option" where
  "rfc3742_ss_inc cc =
     (let cap = ucast (ss_cwnd_cap (vegas_params cc)) in
      if cc_cwnd cc \<le> cap then Some ((ucast (cwnd_inc_pct_ss cc) * ucast (cc_sendme_inc cc) + 50) div 100)
      else do {
        q \<leftarrow> udiv (ucast (cc_sendme_inc cc) * cap + cc_cwnd cc) (2 * cc_cwnd cc);
        Some (max q 1)
      })"

definition CELL_MAX_NETWORK_SIZE :: u64 where "CELL_MAX_NETWORK_SIZE = 514"

text \<open>Both messages of the log function compute the same bandwidth estimate.\<close>

definition congestion_control_vegas_log :: "cc_t \<Rightarrow> unit option" where
  "congestion_control_vegas_log cc = do {
     bwe \<leftarrow> udiv (cc_cwnd cc * CELL_MAX_NETWORK_SIZE * 1000) (max (min_rtt_usec cc) (ewma_rtt_usec cc));
     Some ()
   }"

text \<open>The state is logged before and after leaving slow start; the metrics compute the increment again.\<close>

definition congestion_control_vegas_exit_slow_start :: "cc_t \<Rightarrow> cc_t option" where
  "congestion_control_vegas_exit_slow_start cc = do {
     congestion_control_vegas_log cc;
     let cc = cc\<lparr>cc_in_slow_start := False\<rparr>;
     congestion_control_vegas_log cc;
     inc \<leftarrow> rfc3742_ss_inc cc;
     Some cc
   }"

definition cwnd_became_full :: "cc_globals \<Rightarrow> cc_t \<Rightarrow> bool" where
  "cwnd_became_full g cc \<longleftrightarrow> cc_inflight cc + word_of_int (cc_vegas_cwnd_full_gap g * uint (cc_sendme_inc cc)) \<ge> cc_cwnd cc"

definition cwnd_became_nonfull :: "cc_globals \<Rightarrow> cc_t \<Rightarrow> bool" where
  "cwnd_became_nonfull g cc \<longleftrightarrow> 100 * cc_inflight cc < word_of_int (cc_vegas_cwnd_full_minpct g) * cc_cwnd cc"

definition cwnd_full_reset :: "cc_globals \<Rightarrow> cc_t \<Rightarrow> bool option" where
  "cwnd_full_reset g cc =
     (if cc_cwnd_full_per_cwnd g then map_option (\<lambda>n. ucast (next_cwnd_event cc) = n) (SENDME_PER_CWND cc)
      else map_option (\<lambda>n. ucast (next_cc_event cc) = n) (CWND_UPDATE_RATE cc))"

text \<open>The branch of slow start: the new window, and its limit.\<close>

definition vegas_ss_window :: "cc_t \<Rightarrow> u64 \<Rightarrow> cc_t option" where
  "vegas_ss_window cc queue_use =
     (if queue_use < ucast (vegas_gamma (vegas_params cc)) \<and> \<not> blocked_chan cc then
        if cwnd_full cc then do {
          inc \<leftarrow> rfc3742_ss_inc cc;
          let cc = cc\<lparr>cc_cwnd := cc_cwnd cc + inc\<rparr>;
          n \<leftarrow> SENDME_PER_CWND cc;
          if inc * n \<le> word_of_int (uint (cwnd_inc cc) * uint (cwnd_inc_rate cc)) then congestion_control_vegas_exit_slow_start cc else Some cc
        }
        else Some cc
      else congestion_control_vegas_exit_slow_start (cc\<lparr>cc_cwnd := cc_bdp cc + ucast (vegas_gamma (vegas_params cc))\<rparr>))"

definition vegas_ss_limit :: "cc_t \<Rightarrow> cc_t option" where
  "vegas_ss_limit cc =
     (if cc_cwnd cc \<ge> ucast (ss_cwnd_max (vegas_params cc))
      then congestion_control_vegas_exit_slow_start (cc\<lparr>cc_cwnd := ucast (ss_cwnd_max (vegas_params cc))\<rparr>) else Some cc)"

definition vegas_slow_start :: "cc_t \<Rightarrow> u64 \<Rightarrow> cc_t option" where
  "vegas_slow_start cc queue_use = vegas_ss_window cc queue_use \<bind> vegas_ss_limit"

text \<open>The branch after slow start, once per window.\<close>

definition vegas_steady_state :: "cc_t \<Rightarrow> u64 \<Rightarrow> cc_t" where
  "vegas_steady_state cc queue_use =
     (let p = vegas_params cc;
          cwnd = (if queue_use > ucast (vegas_delta p) then cc_bdp cc + ucast (vegas_delta p) - ucast (cwnd_inc cc)
                  else if queue_use > ucast (vegas_beta p) \<or> blocked_chan cc then cc_cwnd cc - ucast (cwnd_inc cc)
                  else if cwnd_full cc \<and> queue_use < ucast (vegas_alpha p) then cc_cwnd cc + ucast (cwnd_inc cc)
                  else cc_cwnd cc)
      in cc\<lparr>cc_cwnd := max cwnd (ucast (cwnd_min cc))\<rparr>)"

definition congestion_control_vegas_process_sendme :: "cc_globals \<Rightarrow> cc_t \<Rightarrow> cc_circ \<Rightarrow> u64 \<Rightarrow> (cc_globals \<times> cc_t) option" where
  "congestion_control_vegas_process_sendme g cc circ now = do {
     tor_assert (cc_algorithm cc = CC_ALG_VEGAS);
     let cc = (if next_cc_event cc \<noteq> 0 then cc\<lparr>next_cc_event := next_cc_event cc - 1\<rparr> else cc);
     let cc = (if next_cwnd_event cc \<noteq> 0 then cc\<lparr>next_cwnd_event := next_cwnd_event cc - 1\<rparr> else cc);
     (updated, g, cc) \<leftarrow> congestion_control_update_circuit_estimates g cc circ now;
     if \<not> updated then Some (g, cc\<lparr>cc_inflight := cc_inflight cc - ucast (cc_sendme_inc cc)\<rparr>)
     else do {
       let queue_use = (if cc_bdp cc > cc_cwnd cc then 0 else cc_cwnd cc - cc_bdp cc);
       let cc = (if cwnd_became_full g cc then cc\<lparr>cwnd_full := True\<rparr> else if cwnd_became_nonfull g cc then cc\<lparr>cwnd_full := False\<rparr> else cc);
       cc \<leftarrow> (if cc_in_slow_start cc then vegas_slow_start cc queue_use
              else if next_cc_event cc = 0 then do {
                let cc = vegas_steady_state cc queue_use;
                congestion_control_vegas_log cc;
                Some cc
              } else Some cc);
       cc \<leftarrow> (if next_cwnd_event cc = 0 then map_option (\<lambda>n. cc\<lparr>next_cwnd_event := ucast n\<rparr>) (SENDME_PER_CWND cc) else Some cc);
       cc \<leftarrow> (if next_cc_event cc = 0 then map_option (\<lambda>n. cc\<lparr>next_cc_event := ucast n\<rparr>) (CWND_UPDATE_RATE cc) else Some cc);
       reset \<leftarrow> cwnd_full_reset g cc;
       let cc = (if reset then cc\<lparr>cwnd_full := False\<rparr> else cc);
       Some (g, cc\<lparr>cc_inflight := cc_inflight cc - ucast (cc_sendme_inc cc)\<rparr>)
     }
   }"

definition congestion_control_dispatch_cc_alg ::
  "cc_globals \<Rightarrow> cc_t \<Rightarrow> cc_circ \<Rightarrow> u64 \<Rightarrow> (conflux_t \<times> nat) option \<Rightarrow> (cc_globals \<times> cc_t \<times> (conflux_t \<times> nat) option) option" where
  "congestion_control_dispatch_cc_alg g cc circ now cfx = do {
     (g, cc) \<leftarrow> congestion_control_vegas_process_sendme g cc circ now;
     let cc = (if cc_cwnd cc > ucast (cwnd_max g) then cc\<lparr>cc_cwnd := ucast (cwnd_max g)\<rparr> else cc);
     Some (g, cc,
       if ewma_rtt_usec cc \<noteq> 0 then map_option (\<lambda>(cfx, id). (conflux_update_rtt cfx id (ewma_rtt_usec cc), id)) cfx else cfx)
   }"

definition congestion_control_validate_sendme_increment :: "cc_globals \<Rightarrow> u8 \<Rightarrow> bool" where
  "congestion_control_validate_sendme_increment g sendme_inc =
     (if sendme_inc = 0 then False
      else \<not> (uint sendme_inc > uint (consensus_sendme_inc g) + 1 \<or> uint sendme_inc < uint (consensus_sendme_inc g) - 1))"

end
