(* ===== verification/Congestion_Window.thy ===== *)
theory Congestion_Window
  imports Congestion
begin

text \<open>
  The window of congestion control: what a measurement keeps, the bounds of the window in both branches of the
  algorithm, and the states that sending and acknowledging can reach.
\<close>

section \<open>What the estimates keep\<close>

text \<open>The parameters of an object, which no operation changes after it was set up.\<close>

definition cc_static :: "cc_t \<Rightarrow> u8 \<times> u16 \<times> u16 \<times> u16 \<times> u8 \<times> cc_alg_t \<times> vegas_params_t" where
  "cc_static cc = (cc_sendme_inc cc, cwnd_inc_pct_ss cc, cwnd_inc cc, cwnd_min cc, cwnd_inc_rate cc, cc_algorithm cc, vegas_params cc)"

text \<open>
  Parameters under which a window never gets too small for an acknowledgement.  The code documents the
  bound on \<open>cwnd_min\<close>; the one on gamma holds for the defaults, and the ranges of the consensus
  parameters give the others.
\<close>

definition cc_params_ok :: "cc_t \<Rightarrow> bool" where
  "cc_params_ok cc \<longleftrightarrow> 2 \<le> cc_sendme_inc cc \<and> cwnd_inc_rate cc \<noteq> 0 \<and> cc_algorithm cc = CC_ALG_VEGAS
     \<and> uint (cc_sendme_inc cc) \<le> uint (cwnd_min cc) \<and> uint (cc_sendme_inc cc) \<le> uint (vegas_gamma (vegas_params cc))
     \<and> uint (cc_sendme_inc cc) \<le> uint (ss_cwnd_max (vegas_params cc))"

lemma params_ok_static: "cc_static cc' = cc_static cc \<Longrightarrow> cc_params_ok cc' = cc_params_ok cc"
  by (simp add: cc_static_def cc_params_ok_def)

text \<open>Round trips of at most \<open>2 ^ 31\<close> microseconds.\<close>

definition RTT_MAX :: int where "RTT_MAX = 2147483648"

definition rtts_ok :: "cc_t \<Rightarrow> bool" where
  "rtts_ok cc \<longleftrightarrow> uint (ewma_rtt_usec cc) \<le> RTT_MAX \<and> uint (min_rtt_usec cc) \<le> RTT_MAX"

lemma uint64_add: "uint a + uint b < 18446744073709551616 \<Longrightarrow> uint ((a :: u64) + b) = uint a + uint b"
  by (simp add: uint_word_ariths)

lemma uint64_mult: "uint a * uint b < 18446744073709551616 \<Longrightarrow> uint ((a :: u64) * b) = uint a * uint b"
  by (simp add: uint_word_ariths)

lemma uint_ucast8: "uint (ucast (w :: u8) :: u64) = uint w"
  by (rule uint_up_ucast) (simp add: is_up)

lemma uint_ucast16: "uint (ucast (w :: u16) :: u64) = uint w"
  by (rule uint_up_ucast) (simp add: is_up)

lemma uint_ucast32: "uint (ucast (w :: u32) :: u64) = uint w"
  by (rule uint_up_ucast) (simp add: is_up)

lemma uint_bounds: "0 \<le> uint (a :: u8)" "uint (a :: u8) < 256" "0 \<le> uint (b :: u16)" "uint (b :: u16) < 65536"
    "0 \<le> uint (c :: u32)" "uint (c :: u32) < 4294967296" "0 \<le> uint (d :: u64)" "uint (d :: u64) < 18446744073709551616"
  using uint_lt2p [of a] uint_lt2p [of b] uint_lt2p [of c] uint_lt2p [of d] by simp_all

text \<open>No division by zero.\<close>

lemma sendme_nonzero: "ucast (inc :: u8) = (0 :: u64) \<longleftrightarrow> inc = 0"
  using uint_ucast8 [of inc] by (simp add: word_uint_eq_iff)

lemma acks_nonzero:
  assumes "rate \<noteq> (0 :: u8)" "inc \<noteq> (0 :: u8)"
  shows "word_of_int (uint rate * uint inc) \<noteq> (0 :: u64)"
proof -
  have "0 < uint rate" "0 < uint inc" using assms uint_bounds(1) [of rate] uint_bounds(1) [of inc] by (simp_all add: order.strict_iff_order uint_0_iff)
  moreover have "uint rate * uint inc \<le> 256 * 256" using uint_bounds(1,2) [of rate] uint_bounds(1,2) [of inc] by (intro mult_mono) auto
  moreover from calculation have "0 < uint rate * uint inc" by simp
  ultimately have "0 < uint (word_of_int (uint rate * uint inc) :: u64)" by (subst uint_word_of_int64) linarith+
  then show ?thesis by auto
qed

lemma CWND_UPDATE_RATE_Some: "cwnd_inc_rate cc \<noteq> 0 \<Longrightarrow> cc_sendme_inc cc \<noteq> 0 \<Longrightarrow> \<exists>n. CWND_UPDATE_RATE cc = Some n"
  using acks_nonzero [of "cwnd_inc_rate cc" "cc_sendme_inc cc"] by (simp add: CWND_UPDATE_RATE_def udiv_def Let_def)

lemma SENDME_PER_CWND_Some: "cc_sendme_inc cc \<noteq> 0 \<Longrightarrow> \<exists>n. SENDME_PER_CWND cc = Some n"
  by (simp add: SENDME_PER_CWND_def udiv_def sendme_nonzero)

lemma n_ewma_count_bound:
  assumes "cwnd_inc_rate cc \<noteq> 0" "cc_sendme_inc cc \<noteq> 0"
  shows "\<exists>n. n_ewma_count g cc = Some n \<and> 2 \<le> uint n \<and> uint n < 256"
proof -
  have bound: "2 \<le> uint (max a 2)" "uint a < 256 \<Longrightarrow> uint (max a 2) < 256" for a :: u64 by (auto simp: max_def word_le_def)
  have small: "uint (min a (ucast (b :: u8))) < 256" for a :: u64 and b using uint_ucast8 [of b] uint_bounds(2) [of b] by (auto simp: min_def word_le_def)
  show ?thesis
  proof (cases "cc_in_slow_start cc")
    case True
    then show ?thesis using bound uint_ucast8 [of "n_ewma_ss g"] uint_bounds(2) [of "n_ewma_ss g"] by (auto simp: n_ewma_count_def)
  next
    case False
    obtain r where "CWND_UPDATE_RATE cc = Some r" using CWND_UPDATE_RATE_Some [OF assms] by blast
    then show ?thesis using False bound small by (auto simp: n_ewma_count_def)
  qed
qed

lemma ewma_exact:
  fixes c p n :: u64
  assumes "uint c \<le> RTT_MAX" "uint p \<le> RTT_MAX" "2 \<le> uint n" "uint n < 256"
  shows "uint (2 * c + (n - 1) * p) = 2 * uint c + (uint n - 1) * uint p" "uint (n + 1) = uint n + 1"
proof -
  show "uint (n + 1) = uint n + 1" using assms(4) by (subst uint64_add) simp_all
  have nm: "uint (n - 1) = uint n - 1" using assms(3) by (subst uint_minus_simple_alt [THEN iffD1]) (simp_all add: word_le_def)
  have le: "(uint n - 1) * uint p \<le> 255 * RTT_MAX" using assms nm by (intro mult_mono) (auto simp: RTT_MAX_def)
  then have prod: "uint ((n - 1) * p) = (uint n - 1) * uint p" by (subst uint64_mult) (simp_all add: nm RTT_MAX_def)
  have c2: "uint (2 * c) = 2 * uint c" using assms(1) by (subst uint64_mult) (simp_all add: RTT_MAX_def)
  show "uint (2 * c + (n - 1) * p) = 2 * uint c + (uint n - 1) * uint p"
    using le c2 prod assms(1) by (subst uint64_add) (simp_all add: RTT_MAX_def)
qed

lemma n_count_ewma_bound:
  assumes "uint c \<le> RTT_MAX" "uint p \<le> RTT_MAX" "2 \<le> uint n" "uint n < 256"
  shows "\<exists>e. n_count_ewma c p n = Some e \<and> uint e \<le> RTT_MAX"
proof (cases "p = 0")
  case False
  note exact = ewma_exact [OF assms]
  have "(uint n - 1) * uint p \<le> (uint n - 1) * RTT_MAX" using assms by (intro mult_left_mono) auto
  then have le: "2 * uint c + (uint n - 1) * uint p \<le> (uint n + 1) * RTT_MAX" using assms(1) by (simp add: algebra_simps)
  have "n + 1 \<noteq> 0" using exact(2) assms(3) by auto
  moreover have "uint ((2 * c + (n - 1) * p) div (n + 1)) \<le> RTT_MAX"
    unfolding uint_div exact using zdiv_mono1 [OF le, of "uint n + 1"] assms(3) by simp
  ultimately show ?thesis using False by (auto simp: n_count_ewma_def udiv_def)
qed (use assms in \<open>simp add: n_count_ewma_def\<close>)

text \<open>Positive measurements have a positive average.\<close>

lemma n_count_ewma_pos:
  assumes "c \<noteq> 0" "uint c \<le> RTT_MAX" "uint p \<le> RTT_MAX" "2 \<le> uint n" "uint n < 256" "n_count_ewma c p n = Some e"
  shows "e \<noteq> 0"
proof (cases "p = 0")
  case False
  note exact = ewma_exact [OF assms(2-5)]
  have "1 \<le> uint c" "1 \<le> uint p" using assms(1) False by (simp_all add: int_one_le_iff_zero_less order.strict_iff_order uint_0_iff)
  then have "(uint n - 1) * 1 \<le> (uint n - 1) * uint p" using assms(4) by (intro mult_left_mono) auto
  then have "uint n + 1 \<le> 2 * uint c + (uint n - 1) * uint p" using \<open>1 \<le> uint c\<close> by simp
  then have "1 \<le> uint ((2 * c + (n - 1) * p) div (n + 1))"
    unfolding uint_div exact using zdiv_mono1 [of "uint n + 1" "2 * uint c + (uint n - 1) * uint p" "uint n + 1"] assms(4) by simp
  then show ?thesis using assms(6) False by (auto simp: n_count_ewma_def udiv_def split: if_splits)
qed (use assms in \<open>simp add: n_count_ewma_def\<close>)

lemma percent_max_mix_bound:
  assumes "uint a \<le> RTT_MAX" "uint b \<le> RTT_MAX"
  shows "uint (percent_max_mix a b pct) \<le> RTT_MAX"
proof (cases "pct > 100")
  case True
  then show ?thesis using assms by (simp add: percent_max_mix_def Let_def max_def)
next
  case False
  let ?mx = "max a b" and ?mn = "min a b"
  have p: "0 \<le> uint pct" "uint pct \<le> 100" using False by (simp_all add: word_less_def not_less)
  have m: "uint ?mx \<le> RTT_MAX" "uint ?mn \<le> RTT_MAX" using assms by (auto simp: max_def min_def)
  have part: "0 \<le> k \<Longrightarrow> k \<le> 100 \<Longrightarrow> uint w \<le> RTT_MAX \<Longrightarrow> uint (word_of_int k * w div 100 :: u64) \<le> k * RTT_MAX div 100" for k w
  proof -
    assume k: "0 \<le> k" "k \<le> 100" "uint w \<le> RTT_MAX"
    have "k * uint w \<le> k * RTT_MAX" using k by (intro mult_left_mono) auto
    moreover have "k * RTT_MAX \<le> 100 * RTT_MAX" using k by (intro mult_right_mono) (auto simp: RTT_MAX_def)
    ultimately have "uint (word_of_int k * w :: u64) = k * uint w" using k by (subst uint64_mult) (simp_all add: uint_word_of_int64 RTT_MAX_def)
    then have "uint (word_of_int k * w div 100 :: u64) = k * uint w div 100" by (simp add: uint_div)
    then show "uint (word_of_int k * w div 100 :: u64) \<le> k * RTT_MAX div 100" using zdiv_mono1 [OF \<open>k * uint w \<le> k * RTT_MAX\<close>, of 100] by simp
  qed
  have u: "ucast pct = (word_of_int (uint pct) :: u64)" by (simp add: unsigned_ucast_eq)
  have s: "uint pct * RTT_MAX div 100 + (100 - uint pct) * RTT_MAX div 100 \<le> RTT_MAX" 
  proof -
    have "x div 100 + y div 100 \<le> (x + y) div 100" for x y :: int by linarith
    from this [of "uint pct * RTT_MAX" "(100 - uint pct) * RTT_MAX"] show ?thesis by (simp add: algebra_simps)
  qed
  have "uint (ucast pct * ?mx div 100 + word_of_int (100 - uint pct) * ?mn div 100) \<le> RTT_MAX"
    using part [OF p m(1)] part [of "100 - uint pct" ?mn] p m(2) s unfolding u by (subst uint64_add) (auto simp: RTT_MAX_def)
  then show ?thesis using False by (simp add: percent_max_mix_def Let_def)
qed

text \<open>
  A positive round-trip measurement takes one timestamp from the queue and changes nothing but the estimates;
  the average is then known.
\<close>

definition same_window :: "cc_t \<Rightarrow> cc_t \<Rightarrow> bool" where
  "same_window cc cc' \<longleftrightarrow> cc_static cc' = cc_static cc \<and> cc_cwnd cc' = cc_cwnd cc \<and> cc_inflight cc' = cc_inflight cc
     \<and> cc_in_slow_start cc' = cc_in_slow_start cc"

lemma update_rtt:
  assumes p: "cwnd_inc_rate cc \<noteq> 0" "cc_sendme_inc cc \<noteq> 0" and r: "rtts_ok cc"
    and t: "sendme_pending_timestamps cc = t # ts" "uint (now - t) \<le> RTT_MAX" "now - t \<noteq> 0"
  shows "\<exists>rtt g' cc'. congestion_control_update_circuit_rtt g cc now = Some (rtt, g', cc') \<and> same_window cc cc' \<and> rtts_ok cc'
    \<and> sendme_pending_timestamps cc' = ts \<and> cwnd_max g' = cwnd_max g \<and> ewma_rtt_usec cc' \<noteq> 0"
proof -
  define cc1 where "cc1 = cc\<lparr>sendme_pending_timestamps := ts\<rparr>"
  obtain fishy g1 where f: "time_delta_stalled_or_jumped g cc1 (ewma_rtt_usec cc1) (now - t) = (fishy, g1)" by fastforce
  have g1: "cwnd_max g1 = cwnd_max g" using f by (auto simp: time_delta_stalled_or_jumped_def split: if_splits)
  show ?thesis
  proof (cases fishy)
    case True
    have "ewma_rtt_usec cc1 \<noteq> 0" using f t(3) True by (auto simp: time_delta_stalled_or_jumped_def time_delta_should_use_heuristics_def split: if_splits)
    then show ?thesis using True f g1 r t by (simp add: congestion_control_update_circuit_rtt_def dequeue_timestamp_def cc1_def [symmetric])
      (simp add: cc1_def same_window_def cc_static_def rtts_ok_def)
  next
    case False
    obtain n where n: "n_ewma_count g1 cc1 = Some n" "2 \<le> uint n" "uint n < 256" using n_ewma_count_bound [of cc1 g1] p by (auto simp: cc1_def)
    obtain e where e: "n_count_ewma (now - t) (ewma_rtt_usec cc1) n = Some e" "uint e \<le> RTT_MAX"
      using n_count_ewma_bound [OF t(2) _ n(2,3), of "ewma_rtt_usec cc1"] r by (auto simp: cc1_def rtts_ok_def)
    have pos: "e \<noteq> 0" by (rule n_count_ewma_pos [OF t(3,2) _ n(2,3) e(1)]) (use r in \<open>simp add: cc1_def rtts_ok_def\<close>)
    have m: "uint (percent_max_mix e (min_rtt_usec cc) pct) \<le> RTT_MAX" for pct using percent_max_mix_bound e(2) r by (simp add: rtts_ok_def)
    show ?thesis using f False n(1) e g1 r m pos t(1)
      by (simp add: congestion_control_update_circuit_rtt_def dequeue_timestamp_def cc1_def [symmetric] Let_def)
        (auto simp: cc1_def same_window_def cc_static_def rtts_ok_def Let_def)
  qed
qed

text \<open>The lengths of queues are not negative.\<close>

definition circ_ok :: "cc_circ \<Rightarrow> bool" where
  "circ_ok circ \<longleftrightarrow> 0 \<le> n_chan_cells circ \<and> 0 \<le> p_chan_cells circ"

lemma update_bdp:
  assumes c: "uint (cc_cwnd cc) \<le> 4294967295" and r: "rtts_ok cc" and circ: "circ_ok circ"
  shows "\<exists>u cc'. congestion_control_update_circuit_bdp cc circ rtt = (u, cc') \<and> same_window cc cc' \<and> rtts_ok cc'
    \<and> sendme_pending_timestamps cc' = sendme_pending_timestamps cc \<and> ewma_rtt_usec cc' = ewma_rtt_usec cc \<and> uint (cc_bdp cc') \<le> 9223372034707292160"
proof -
  define q where "q = (if cc_is_origin circ then n_chan_cells circ else p_chan_cells circ)"
  have q: "0 \<le> q" using circ by (simp add: q_def circ_ok_def)
  have min16: "uint (ucast (cwnd_min cc) :: u64) < 65536" using uint_ucast16 [of "cwnd_min cc"] uint_bounds(4) [of "cwnd_min cc"] by simp
  have "uint (cc_cwnd cc * min_rtt_usec cc div ewma_rtt_usec cc) \<le> 9223372034707292160"
  proof -
    have "uint (cc_cwnd cc) * uint (min_rtt_usec cc) \<le> 4294967295 * RTT_MAX" using c r by (intro mult_mono) (auto simp: rtts_ok_def RTT_MAX_def)
    then have "uint (cc_cwnd cc * min_rtt_usec cc) \<le> 9223372034707292160" by (subst uint64_mult) (simp_all add: RTT_MAX_def)
    moreover have "x div y \<le> x" if "0 \<le> x" "0 \<le> y" for x y :: int using zdiv_mono2 [of x 1 y] that by (cases "y = 0") auto
    ultimately show ?thesis using uint_bounds(7) [of "cc_cwnd cc * min_rtt_usec cc"] uint_bounds(7) [of "ewma_rtt_usec cc"]
      unfolding uint_div by (meson order_trans)
  qed
  moreover have "\<not> q \<ge> sint (cc_cwnd cc) \<Longrightarrow> uint (max (cc_cwnd cc - word_of_int q) (ucast (cwnd_min cc))) \<le> 9223372034707292160"
  proof -
    assume "\<not> q \<ge> sint (cc_cwnd cc)"
    moreover have "- 9223372036854775808 \<le> uint (cc_cwnd cc)" using uint_bounds(7) [of "cc_cwnd cc"] by linarith
    then have "sint (cc_cwnd cc) = uint (cc_cwnd cc)" unfolding sint_uint by (intro signed_take_bit_int_eq_self) (use c in simp_all)
    ultimately have "q < uint (cc_cwnd cc)" by simp
    then have "uint (cc_cwnd cc - word_of_int q) = uint (cc_cwnd cc) - q" using q c
      by (subst uint_minus_simple_alt [THEN iffD1]) (simp_all add: word_le_def uint_word_of_int64)
    then show ?thesis using q c min16 by (auto simp: max_def)
  qed
  ultimately show ?thesis using c r min16
    by (auto simp: congestion_control_update_circuit_bdp_def Let_def q_def [symmetric] same_window_def cc_static_def rtts_ok_def)
qed

section \<open>The window stays large enough\<close>

text \<open>What the two branches keep: the parameters, the queue and the count of cells in flight, and a window of at
  least one acknowledgement.\<close>

definition branch_ok :: "cc_t \<Rightarrow> cc_t \<Rightarrow> bool" where
  "branch_ok cc cc' \<longleftrightarrow> cc_static cc' = cc_static cc \<and> cc_inflight cc' = cc_inflight cc \<and> rtts_ok cc' = rtts_ok cc \<and> ewma_rtt_usec cc' = ewma_rtt_usec cc
     \<and> sendme_pending_timestamps cc' = sendme_pending_timestamps cc \<and> uint (cc_sendme_inc cc) \<le> uint (cc_cwnd cc')"

text \<open>The increment of slow start, for every window that can be doubled.\<close>

lemma ss_inc_small:
  assumes "0 < uint (cc_cwnd cc)" "uint (cc_cwnd cc) < 9223372036854775808"
  shows "\<exists>inc. rfc3742_ss_inc cc = Some inc \<and> (uint (cc_cwnd cc) \<le> 4294967295 \<longrightarrow> uint inc \<le> 1099511627776)"
proof (cases "cc_cwnd cc \<le> ucast (ss_cwnd_cap (vegas_params cc))")
  case True
  let ?pct = "ucast (cwnd_inc_pct_ss cc) :: u64" and ?inc = "ucast (cc_sendme_inc cc) :: u64"
  have "uint (cwnd_inc_pct_ss cc) * uint (cc_sendme_inc cc) \<le> 65536 * 256"
    using uint_bounds(3,4) [of "cwnd_inc_pct_ss cc"] uint_bounds(1,2) [of "cc_sendme_inc cc"] by (intro mult_mono) auto
  then have p: "uint (?pct * ?inc) \<le> 16777216" by (subst uint64_mult) (simp_all add: uint_ucast16 uint_ucast8)
  then have "uint (?pct * ?inc + 50) \<le> 16777266" by (subst uint64_add) simp_all
  then have "uint ((?pct * ?inc + 50) div 100) \<le> 1099511627776" using uint_bounds(7) [of "?pct * ?inc + 50"] unfolding uint_div by simp
  then show ?thesis using True by (simp add: rfc3742_ss_inc_def Let_def)
next
  case False
  let ?n = "ucast (cc_sendme_inc cc) * ucast (ss_cwnd_cap (vegas_params cc)) + cc_cwnd cc :: u64"
  have two: "uint (2 * cc_cwnd cc) = 2 * uint (cc_cwnd cc)" using assms(2) by (subst uint64_mult) simp_all
  then have nz: "2 * cc_cwnd cc \<noteq> 0" using assms(1) by auto
  have "uint (max (?n div (2 * cc_cwnd cc)) 1) \<le> 1099511627776" if w: "uint (cc_cwnd cc) \<le> 4294967295"
  proof -
    have "uint (cc_sendme_inc cc) * uint (ss_cwnd_cap (vegas_params cc)) \<le> 256 * 4294967296"
      using uint_bounds(1,2) [of "cc_sendme_inc cc"] uint_bounds(5,6) [of "ss_cwnd_cap (vegas_params cc)"] by (intro mult_mono) auto
    then have "uint (ucast (cc_sendme_inc cc) * ucast (ss_cwnd_cap (vegas_params cc)) :: u64) \<le> 1099511627776"
      by (subst uint64_mult) (simp_all add: uint_ucast8 uint_ucast32)
    then have n: "uint ?n \<le> 2 * 1099511627776" using w by (subst uint64_add) simp_all
    have "uint ?n div (2 * uint (cc_cwnd cc)) \<le> uint ?n div 2" using assms(1) uint_bounds(7) [of ?n] by (intro zdiv_mono2) auto
    also have "\<dots> \<le> 1099511627776" using n by simp
    finally show ?thesis by (simp add: max_def uint_div two)
  qed
  then show ?thesis using False nz by (simp add: rfc3742_ss_inc_def Let_def udiv_def)
qed

lemma log_Some: "ewma_rtt_usec cc \<noteq> 0 \<Longrightarrow> congestion_control_vegas_log cc = Some ()"
proof -
  assume e: "ewma_rtt_usec cc \<noteq> 0"
  have "max (min_rtt_usec cc) (ewma_rtt_usec cc) \<noteq> 0"
  proof
    assume "max (min_rtt_usec cc) (ewma_rtt_usec cc) = 0"
    then have "ewma_rtt_usec cc \<le> 0" by (metis max.cobounded2)
    then show False using e by simp
  qed
  then show ?thesis by (simp add: congestion_control_vegas_log_def udiv_def)
qed

lemma exit_slow_start_Some:
  assumes "ewma_rtt_usec cc \<noteq> 0" "0 < uint (cc_cwnd cc)" "uint (cc_cwnd cc) < 9223372036854775808"
  shows "congestion_control_vegas_exit_slow_start cc = Some (cc\<lparr>cc_in_slow_start := False\<rparr>)"
proof -
  obtain inc where "rfc3742_ss_inc (cc\<lparr>cc_in_slow_start := False\<rparr>) = Some inc"
    using ss_inc_small [of "cc\<lparr>cc_in_slow_start := False\<rparr>"] assms(2,3) by auto
  then show ?thesis using assms(1) log_Some [of cc] log_Some [of "cc\<lparr>cc_in_slow_start := False\<rparr>"]
    by (simp add: congestion_control_vegas_exit_slow_start_def)
qed

lemma branch_ok_window: "branch_ok cc c \<Longrightarrow> uint (cc_sendme_inc cc) \<le> uint w \<Longrightarrow> branch_ok cc (c\<lparr>cc_cwnd := w\<rparr>)"
  by (auto simp: branch_ok_def cc_static_def rtts_ok_def)

lemma branch_ok_exit:
  assumes "branch_ok cc c" "ewma_rtt_usec cc \<noteq> 0" "0 < uint (cc_sendme_inc cc)" "uint (cc_cwnd c) < 9223372036854775808"
  shows "\<exists>c'. congestion_control_vegas_exit_slow_start c = Some c' \<and> branch_ok cc c' \<and> cc_cwnd c' = cc_cwnd c"
  using assms exit_slow_start_Some [of c] by (auto simp: branch_ok_def cc_static_def rtts_ok_def)

lemma ss_window_ok:
  assumes p: "cc_params_ok cc" and c: "uint (cc_sendme_inc cc) \<le> uint (cc_cwnd cc)" "uint (cc_cwnd cc) \<le> 4294967295"
    and b: "uint (cc_bdp cc) \<le> 9223372034707292160" and e: "ewma_rtt_usec cc \<noteq> 0"
  shows "\<exists>c. vegas_ss_window cc queue_use = Some c \<and> branch_ok cc c"
proof -
  let ?gamma = "ucast (vegas_gamma (vegas_params cc)) :: u64"
  have inc: "0 < uint (cc_sendme_inc cc)" "cc_sendme_inc cc \<noteq> 0" using p by (auto simp: cc_params_ok_def word_le_def)
  have self: "branch_ok cc cc" using c by (simp add: branch_ok_def)
  obtain i where i: "rfc3742_ss_inc cc = Some i" "uint i \<le> 1099511627776" using ss_inc_small [of cc] inc c by auto
  have "uint (cc_cwnd cc + i) = uint (cc_cwnd cc) + uint i" using c i(2) by (subst uint64_add) simp_all
  then have grown: "uint (cc_sendme_inc cc) \<le> uint (cc_cwnd cc + i)" "uint (cc_cwnd cc + i) < 9223372036854775808" using c i(2) uint_bounds(7) [of i] by linarith+
  obtain n where n: "SENDME_PER_CWND (cc\<lparr>cc_cwnd := cc_cwnd cc + i\<rparr>) = Some n" using SENDME_PER_CWND_Some [of "cc\<lparr>cc_cwnd := cc_cwnd cc + i\<rparr>"] inc by auto
  have "uint (cc_bdp cc + ?gamma) = uint (cc_bdp cc) + uint ?gamma"
    using b uint_bounds(4) [of "vegas_gamma (vegas_params cc)"] by (subst uint64_add) (simp_all add: uint_ucast16)
  then have dropped: "uint (cc_sendme_inc cc) \<le> uint (cc_bdp cc + ?gamma)" "uint (cc_bdp cc + ?gamma) < 9223372036854775808"
    using p b uint_bounds(7) [of "cc_bdp cc"] uint_bounds(4) [of "vegas_gamma (vegas_params cc)"] unfolding cc_params_ok_def uint_ucast16 by linarith+
  note g = branch_ok_window [OF self grown(1)] and d = branch_ok_window [OF self dropped(1)]
  show ?thesis
    using i(1) n self g branch_ok_exit [OF g e inc(1)] branch_ok_exit [OF d e inc(1)] grown(2) dropped(2)
    by (auto simp: vegas_ss_window_def Let_def)
qed

lemma slow_start_ok:
  assumes p: "cc_params_ok cc" and c: "uint (cc_sendme_inc cc) \<le> uint (cc_cwnd cc)" "uint (cc_cwnd cc) \<le> 4294967295"
    and b: "uint (cc_bdp cc) \<le> 9223372034707292160" and e: "ewma_rtt_usec cc \<noteq> 0"
  shows "\<exists>cc'. vegas_slow_start cc queue_use = Some cc' \<and> branch_ok cc cc'"
proof -
  obtain c where w: "vegas_ss_window cc queue_use = Some c" "branch_ok cc c" using ss_window_ok [OF assms] by blast
  have v: "vegas_params c = vegas_params cc" using w(2) by (simp add: branch_ok_def cc_static_def)
  let ?m = "ucast (ss_cwnd_max (vegas_params cc)) :: u64"
  have "0 < uint (cc_sendme_inc cc)" "uint (cc_sendme_inc cc) \<le> uint ?m" "uint ?m < 9223372036854775808"
    using p uint_bounds(6) [of "ss_cwnd_max (vegas_params cc)"] by (auto simp: cc_params_ok_def uint_ucast32 word_le_def)
  then have "\<exists>c'. vegas_ss_limit c = Some c' \<and> branch_ok cc c'"
    using w(2) v branch_ok_exit [OF branch_ok_window [OF w(2)] e, of ?m] by (auto simp: vegas_ss_limit_def)
  then show ?thesis using w(1) by (auto simp: vegas_slow_start_def)
qed

lemma steady_state_ok:
  assumes "cc_params_ok cc" "ewma_rtt_usec cc \<noteq> 0"
  shows "branch_ok cc (vegas_steady_state cc queue_use) \<and> congestion_control_vegas_log (vegas_steady_state cc queue_use) = Some ()"
proof -
  have "uint (cc_sendme_inc cc) \<le> uint (max w (ucast (cwnd_min cc)))" for w :: u64
    using assms by (auto simp: cc_params_ok_def max_def word_le_def uint_ucast16)
  then have "branch_ok cc (vegas_steady_state cc queue_use)" by (simp add: branch_ok_def vegas_steady_state_def cc_static_def rtts_ok_def Let_def)
  then show ?thesis using assms(2) log_Some by (simp add: branch_ok_def)
qed

section \<open>Reachable states\<close>

definition cc_inv :: "cc_globals \<Rightarrow> cc_t \<Rightarrow> bool" where
  "cc_inv g cc \<longleftrightarrow> cc_params_ok cc \<and> 500 \<le> uint (cwnd_max g) \<and> rtts_ok cc
     \<and> uint (cc_sendme_inc cc) \<le> uint (cc_cwnd cc) \<and> uint (cc_cwnd cc) \<le> 4294967295
     \<and> uint (cc_inflight cc) \<le> 4294967296
     \<and> int (length (sendme_pending_timestamps cc)) = uint (cc_inflight cc) div uint (cc_sendme_inc cc)"

text \<open>An acknowledgement is due for cells that are in flight; the clock measures a round trip that is not zero and at most
  \<open>2 ^ 31\<close> microseconds.\<close>

definition ack_due :: "cc_t \<Rightarrow> bool" where
  "ack_due cc \<longleftrightarrow> uint (cc_sendme_inc cc) \<le> uint (cc_inflight cc)"

definition clock_ok :: "cc_t \<Rightarrow> u64 \<Rightarrow> bool" where
  "clock_ok cc now \<longleftrightarrow> (case sendme_pending_timestamps cc of t # ts \<Rightarrow> now - t \<noteq> 0 \<and> uint (now - t) \<le> RTT_MAX | [] \<Rightarrow> True)"

lemma inv_pending:
  assumes "cc_inv g cc" "ack_due cc"
  shows "\<exists>t ts. sendme_pending_timestamps cc = t # ts"
proof -
  have "2 \<le> uint (cc_sendme_inc cc)" using assms(1) by (auto simp: cc_inv_def cc_params_ok_def word_le_def)
  then have "1 \<le> uint (cc_inflight cc) div uint (cc_sendme_inc cc)" using assms(2) by (simp add: ack_due_def pos_imp_zdiv_pos_iff int_one_le_iff_zero_less)
  then have "sendme_pending_timestamps cc \<noteq> []" using assms(1) by (auto simp: cc_inv_def)
  then show ?thesis by (cases "sendme_pending_timestamps cc") auto
qed

text \<open>What processing an acknowledgement does, up to the size of the window.\<close>

definition acked :: "cc_t \<Rightarrow> cc_t \<Rightarrow> bool" where
  "acked cc cc' \<longleftrightarrow> cc_static cc' = cc_static cc \<and> rtts_ok cc' \<and> uint (cc_sendme_inc cc) \<le> uint (cc_cwnd cc')
     \<and> cc_inflight cc' = cc_inflight cc - ucast (cc_sendme_inc cc) \<and> sendme_pending_timestamps cc' = tl (sendme_pending_timestamps cc)"

text \<open>The counters that follow the branches.\<close>

definition counters_only :: "cc_t \<Rightarrow> cc_t \<Rightarrow> bool" where
  "counters_only cc c \<longleftrightarrow> cc_static c = cc_static cc \<and> rtts_ok c = rtts_ok cc \<and> cc_cwnd c = cc_cwnd cc \<and> cc_inflight c = cc_inflight cc
     \<and> sendme_pending_timestamps c = sendme_pending_timestamps cc"

lemma counters_only_refl: "counters_only cc cc"
  by (simp add: counters_only_def)

lemma counters_only_upd:
  assumes "counters_only cc c"
  shows "counters_only cc (c\<lparr>next_cwnd_event := n\<rparr>)" "counters_only cc (c\<lparr>next_cc_event := n\<rparr>)" "counters_only cc (c\<lparr>cwnd_full := b\<rparr>)"
  using assms by (simp_all add: counters_only_def cc_static_def rtts_ok_def)

lemma counters_only_nonzero:
  "counters_only cc c \<Longrightarrow> cwnd_inc_rate cc \<noteq> 0 \<Longrightarrow> cc_sendme_inc cc \<noteq> 0 \<Longrightarrow> cwnd_inc_rate c \<noteq> 0 \<and> cc_sendme_inc c \<noteq> 0"
  by (simp add: counters_only_def cc_static_def)

definition reset_counters :: "cc_globals \<Rightarrow> cc_t \<Rightarrow> cc_t option" where
  "reset_counters g cc = do {
     cc \<leftarrow> (if next_cwnd_event cc = 0 then map_option (\<lambda>n. cc\<lparr>next_cwnd_event := ucast n\<rparr>) (SENDME_PER_CWND cc) else Some cc);
     cc \<leftarrow> (if next_cc_event cc = 0 then map_option (\<lambda>n. cc\<lparr>next_cc_event := ucast n\<rparr>) (CWND_UPDATE_RATE cc) else Some cc);
     reset \<leftarrow> cwnd_full_reset g cc;
     Some (if reset then cc\<lparr>cwnd_full := False\<rparr> else cc)
   }"

lemma reset_counters_ok:
  assumes "cwnd_inc_rate cc \<noteq> 0" "cc_sendme_inc cc \<noteq> 0"
  shows "\<exists>c. reset_counters g cc = Some c \<and> counters_only cc c"
proof -
  have "\<exists>c1. (if next_cwnd_event cc = 0 then map_option (\<lambda>n. cc\<lparr>next_cwnd_event := ucast n\<rparr>) (SENDME_PER_CWND cc) else Some cc) = Some c1 \<and> counters_only cc c1"
    using SENDME_PER_CWND_Some [OF assms(2)] counters_only_refl counters_only_upd(1) by auto
  then obtain c1 where c1: "(if next_cwnd_event cc = 0 then map_option (\<lambda>n. cc\<lparr>next_cwnd_event := ucast n\<rparr>) (SENDME_PER_CWND cc) else Some cc) = Some c1"
    "counters_only cc c1" by blast
  note nz1 = counters_only_nonzero [OF c1(2) assms]
  have "\<exists>c2. (if next_cc_event c1 = 0 then map_option (\<lambda>n. c1\<lparr>next_cc_event := ucast n\<rparr>) (CWND_UPDATE_RATE c1) else Some c1) = Some c2 \<and> counters_only cc c2"
    using CWND_UPDATE_RATE_Some [of c1] nz1 c1(2) counters_only_upd(2) by auto
  then obtain c2 where c2: "(if next_cc_event c1 = 0 then map_option (\<lambda>n. c1\<lparr>next_cc_event := ucast n\<rparr>) (CWND_UPDATE_RATE c1) else Some c1) = Some c2"
    "counters_only cc c2" by blast
  note nz2 = counters_only_nonzero [OF c2(2) assms]
  have "\<exists>r. cwnd_full_reset g c2 = Some r"
    using CWND_UPDATE_RATE_Some [of c2] SENDME_PER_CWND_Some [of c2] nz2 by (auto simp: cwnd_full_reset_def)
  then obtain r where r: "cwnd_full_reset g c2 = Some r" by blast
  have "reset_counters g cc = Some (if r then c2\<lparr>cwnd_full := False\<rparr> else c2)" unfolding reset_counters_def c1(1) bind.bind_lunit c2(1) r ..
  then show ?thesis using c2(2) counters_only_upd(3) by auto
qed

lemma process_sendme_eq:
  "congestion_control_vegas_process_sendme g cc circ now = do {
     tor_assert (cc_algorithm cc = CC_ALG_VEGAS);
     let cc = (if next_cc_event cc \<noteq> 0 then cc\<lparr>next_cc_event := next_cc_event cc - 1\<rparr> else cc);
     let cc = (if next_cwnd_event cc \<noteq> 0 then cc\<lparr>next_cwnd_event := next_cwnd_event cc - 1\<rparr> else cc);
     (updated, g, cc) \<leftarrow> congestion_control_update_circuit_estimates g cc circ now;
     if \<not> updated then Some (g, cc\<lparr>cc_inflight := cc_inflight cc - ucast (cc_sendme_inc cc)\<rparr>)
     else do {
       let queue_use = (if cc_bdp cc > cc_cwnd cc then 0 else cc_cwnd cc - cc_bdp cc);
       let cc = (if cwnd_became_full g cc then cc\<lparr>cwnd_full := True\<rparr> else if cwnd_became_nonfull g cc then cc\<lparr>cwnd_full := False\<rparr> else cc);
       cc \<leftarrow> (if cc_in_slow_start cc then vegas_slow_start cc queue_use
              else if next_cc_event cc = 0 then do {
                let cc = vegas_steady_state cc queue_use;
                congestion_control_vegas_log cc;
                Some cc
              } else Some cc);
       cc \<leftarrow> reset_counters g cc;
       Some (g, cc\<lparr>cc_inflight := cc_inflight cc - ucast (cc_sendme_inc cc)\<rparr>)
     }
   }"
  unfolding congestion_control_vegas_process_sendme_def reset_counters_def Let_def bind_assoc bind.bind_lunit ..

lemma process_sendme_ok:
  assumes inv: "cc_inv g cc" and due: "ack_due cc" and clk: "clock_ok cc now" and circ: "circ_ok circ"
  shows "\<exists>g' cc'. congestion_control_vegas_process_sendme g cc circ now = Some (g', cc') \<and> acked cc cc' \<and> cwnd_max g' = cwnd_max g"
proof -
  obtain t ts where ts: "sendme_pending_timestamps cc = t # ts" using inv_pending [OF inv due] by blast
  define c0 where "c0 = (let cc = (if next_cc_event cc \<noteq> 0 then cc\<lparr>next_cc_event := next_cc_event cc - 1\<rparr> else cc)
    in if next_cwnd_event cc \<noteq> 0 then cc\<lparr>next_cwnd_event := next_cwnd_event cc - 1\<rparr> else cc)"
  have c0: "counters_only cc c0" by (simp add: c0_def Let_def counters_only_upd counters_only_refl)
  have p: "cc_params_ok cc" "rtts_ok cc" "uint (cc_sendme_inc cc) \<le> uint (cc_cwnd cc)" "uint (cc_cwnd cc) \<le> 4294967295"
    using inv by (simp_all add: cc_inv_def)
  have nz: "cwnd_inc_rate cc \<noteq> 0" "cc_sendme_inc cc \<noteq> 0" "cc_algorithm cc = CC_ALG_VEGAS" using p(1) by (auto simp: cc_params_ok_def)
  from update_rtt [of c0 t ts now g] counters_only_nonzero [OF c0 nz(1,2)] c0 p(2) ts clk obtain rtt g1 c1 where
    r: "congestion_control_update_circuit_rtt g c0 now = Some (rtt, g1, c1)" "same_window c0 c1" "rtts_ok c1" "sendme_pending_timestamps c1 = ts"
      "cwnd_max g1 = cwnd_max g" "ewma_rtt_usec c1 \<noteq> 0"
    by (auto simp: counters_only_def clock_ok_def)
  from update_bdp [of c1 circ rtt] r(2,3) c0 p(4) circ obtain u c2 where
    b: "congestion_control_update_circuit_bdp c1 circ rtt = (u, c2)" "same_window c1 c2" "rtts_ok c2" "sendme_pending_timestamps c2 = ts"
      "uint (cc_bdp c2) \<le> 9223372034707292160" "ewma_rtt_usec c2 \<noteq> 0"
    using r(4,6) by (auto simp: counters_only_def same_window_def)
  have est: "congestion_control_update_circuit_estimates g c0 circ now = Some (u, g1, c2)"
    by (simp add: congestion_control_update_circuit_estimates_def r(1) b(1))
  have s2: "cc_static c2 = cc_static cc" "cc_cwnd c2 = cc_cwnd cc" "cc_inflight c2 = cc_inflight cc"
    using r(2) b(2) c0 by (simp_all add: same_window_def counters_only_def)
  define c3 where "c3 = (if cwnd_became_full g1 c2 then c2\<lparr>cwnd_full := True\<rparr> else if cwnd_became_nonfull g1 c2 then c2\<lparr>cwnd_full := False\<rparr> else c2)"
  have c3: "counters_only c2 c3" "cc_bdp c3 = cc_bdp c2" "ewma_rtt_usec c3 = ewma_rtt_usec c2" by (simp_all add: c3_def counters_only_upd counters_only_refl)
  have s3: "cc_static c3 = cc_static cc" "cc_cwnd c3 = cc_cwnd cc" "cc_inflight c3 = cc_inflight cc" "rtts_ok c3" "sendme_pending_timestamps c3 = ts"
    using c3 s2 b(3,4) by (simp_all add: counters_only_def)
  have e3: "ewma_rtt_usec c3 \<noteq> 0" using c3(3) b(6) by simp
  have p3: "cc_params_ok c3" using params_ok_static [OF s3(1)] p(1) by simp
  have inc3: "cc_sendme_inc c3 = cc_sendme_inc cc" using s3(1) by (simp add: cc_static_def)
  let ?q = "if cc_bdp c2 > cc_cwnd c2 then 0 else cc_cwnd c2 - cc_bdp c2"
  have "\<exists>c4. (if cc_in_slow_start c3 then vegas_slow_start c3 ?q else if next_cc_event c3 = 0
      then do { let cc = vegas_steady_state c3 ?q; congestion_control_vegas_log cc; Some cc } else Some c3) = Some c4 \<and> branch_ok c3 c4"
    using slow_start_ok [OF p3 _ _ _ e3, of ?q] steady_state_ok [OF p3 e3, of ?q] s3(2) inc3 p(3,4) c3(2) b(5) by (auto simp: branch_ok_def)
  then obtain c4 where c4: "(if cc_in_slow_start c3 then vegas_slow_start c3 ?q else if next_cc_event c3 = 0
      then do { let cc = vegas_steady_state c3 ?q; congestion_control_vegas_log cc; Some cc } else Some c3) = Some c4"
    "branch_ok c3 c4" by blast
  have st4: "cc_static c4 = cc_static cc" using c4(2) s3(1) by (simp add: branch_ok_def)
  then have "cwnd_inc_rate c4 \<noteq> 0" "cc_sendme_inc c4 \<noteq> 0" using nz by (simp_all add: cc_static_def)
  from reset_counters_ok [OF this, of g1] obtain c5 where c5: "reset_counters g1 c4 = Some c5" "counters_only c4 c5" by blast
  have eq: "congestion_control_vegas_process_sendme g cc circ now =
      Some (g1, if u then c5\<lparr>cc_inflight := cc_inflight c5 - ucast (cc_sendme_inc c5)\<rparr> else c2\<lparr>cc_inflight := cc_inflight c2 - ucast (cc_sendme_inc c2)\<rparr>)"
    using nz(3) est c4(1) c5(1) unfolding process_sendme_eq c0_def Let_def c3_def by (cases u) simp_all
  have "acked cc (c5\<lparr>cc_inflight := cc_inflight c5 - ucast (cc_sendme_inc c5)\<rparr>)"
    using c5(2) c4(2) s3 st4 inc3 ts by (auto simp: acked_def counters_only_def branch_ok_def cc_static_def rtts_ok_def)
  moreover have "acked cc (c2\<lparr>cc_inflight := cc_inflight c2 - ucast (cc_sendme_inc c2)\<rparr>)"
    using s2 b(3,4) ts p(3) by (auto simp: acked_def cc_static_def rtts_ok_def)
  ultimately show ?thesis using eq r(5) by auto
qed

lemma acked_inflight: "ack_due cc \<Longrightarrow> uint (cc_inflight cc - ucast (cc_sendme_inc cc)) = uint (cc_inflight cc) - uint (cc_sendme_inc cc)"
  by (subst uint_minus_simple_alt [THEN iffD1]) (simp_all add: word_le_def uint_ucast8 ack_due_def)

lemma dispatch_inv:
  assumes inv: "cc_inv g cc" and due: "ack_due cc" and "clock_ok cc now" "circ_ok circ"
  shows "\<exists>g' cc' cfx'. congestion_control_dispatch_cc_alg g cc circ now cfx = Some (g', cc', cfx') \<and> cc_inv g' cc'
    \<and> cc_sendme_inc cc' = cc_sendme_inc cc \<and> uint (cc_inflight cc') = uint (cc_inflight cc) - uint (cc_sendme_inc cc)"
proof -
  from process_sendme_ok [OF assms] obtain g' c1 where
    h: "congestion_control_vegas_process_sendme g cc circ now = Some (g', c1)" "acked cc c1" "cwnd_max g' = cwnd_max g" by blast
  define c2 where "c2 = (if cc_cwnd c1 > ucast (cwnd_max g') then c1\<lparr>cc_cwnd := ucast (cwnd_max g')\<rparr> else c1)"
  have st: "cc_static c2 = cc_static cc" using h(2) by (auto simp: c2_def acked_def cc_static_def)
  have inc: "cc_sendme_inc c2 = cc_sendme_inc cc" using st by (simp add: cc_static_def)
  have p: "cc_params_ok cc" "500 \<le> uint (cwnd_max g')" using inv h(3) by (simp_all add: cc_inv_def)
  have cw: "uint (cc_sendme_inc cc) \<le> uint (cc_cwnd c2)"
    using h(2) p(2) uint_bounds(2) [of "cc_sendme_inc cc"] by (auto simp: c2_def acked_def uint_ucast32)
  have "uint (cc_cwnd c2) \<le> uint (cwnd_max g')" by (auto simp: c2_def uint_ucast32 not_less word_le_def)
  then have up: "uint (cc_cwnd c2) \<le> 4294967295" using uint_bounds(6) [of "cwnd_max g'"] by linarith
  have fl: "uint (cc_inflight c2) = uint (cc_inflight cc) - uint (cc_sendme_inc cc)" using h(2) acked_inflight [OF due] by (simp add: c2_def acked_def)
  have two: "2 \<le> uint (cc_sendme_inc cc)" using p by (simp add: cc_params_ok_def word_le_def)
  have q: "(uint (cc_inflight cc) - uint (cc_sendme_inc cc)) div uint (cc_sendme_inc cc) = uint (cc_inflight cc) div uint (cc_sendme_inc cc) - 1"
    using two div_add_self2 [of "uint (cc_sendme_inc cc)" "uint (cc_inflight cc) - uint (cc_sendme_inc cc)"] by simp
  have "sendme_pending_timestamps c2 = tl (sendme_pending_timestamps cc)" using h(2) by (simp add: c2_def acked_def)
  then have "int (length (sendme_pending_timestamps c2)) = uint (cc_inflight c2) div uint (cc_sendme_inc c2)"
    using inv_pending [OF inv due] inv q fl inc by (auto simp: cc_inv_def)
  moreover have "rtts_ok c2" using h(2) by (simp add: c2_def acked_def rtts_ok_def)
  moreover have "uint (cc_inflight c2) \<le> 4294967296" using fl inv two by (simp add: cc_inv_def)
  ultimately have "cc_inv g' c2" using params_ok_static [OF st] p cw up inc by (simp add: cc_inv_def)
  then show ?thesis using h(1) inc fl by (simp add: congestion_control_dispatch_cc_alg_def c2_def [symmetric] Let_def)
qed

lemma window_open: "congestion_control_get_package_window w (Some cc) \<noteq> 0 \<longleftrightarrow> uint (cc_inflight cc) < uint (cc_cwnd cc)"
proof -
  let ?d = "cc_cwnd cc - cc_inflight cc"
  have d: "uint ?d = uint (cc_cwnd cc) - uint (cc_inflight cc)" if "\<not> cc_inflight cc > cc_cwnd cc"
    using that by (subst uint_minus_simple_alt [THEN iffD1]) (simp_all add: word_le_def not_less)
  have "(ucast ?d :: u32) = 0 \<longleftrightarrow> uint ?d = 0" if "\<not> ?d > 2147483647"
  proof -
    have "uint ?d < 4294967296" using that by (simp add: word_less_def not_less)
    then have "uint (ucast ?d :: u32) = uint ?d" by (simp add: unsigned_ucast_eq take_bit_int_eq_self)
    then show ?thesis by (simp add: word_uint_eq_iff)
  qed
  then show ?thesis using d by (auto simp: congestion_control_get_package_window_def word_less_def not_less word_uint_eq_iff)
qed

lemma div_succ:
  fixes f n :: int
  assumes "0 < n" "0 \<le> f"
  shows "(f + 1) div n = (if (f + 1) mod n = 0 then f div n + 1 else f div n)"
proof -
  define q r where "q = f div n" and "r = f mod n"
  have f: "f = n * q + r" "0 \<le> r" "r < n" using assms by (simp_all add: q_def r_def)
  show ?thesis
  proof (cases "r + 1 = n")
    case True
    then have "f + 1 = n * (q + 1)" using f(1) by (simp add: algebra_simps)
    then show ?thesis using assms(1) by (simp add: q_def)
  next
    case False
    have "(f + 1) div n = q" by (rule int_div_pos_eq [of _ _ _ "r + 1"]) (use f False in auto)
    moreover have "(f + 1) mod n = r + 1" by (rule int_mod_pos_eq [of _ _ q]) (use f False in auto)
    ultimately show ?thesis using f(2) by (simp add: q_def)
  qed
qed

lemma send_inv:
  assumes inv: "cc_inv g cc" and win: "congestion_control_get_package_window w (Some cc) \<noteq> 0"
  shows "\<exists>cc'. congestion_control_note_cell_sent now cc = Some cc' \<and> cc_inv g cc' \<and> cc_sendme_inc cc' = cc_sendme_inc cc"
proof -
  let ?f = "uint (cc_inflight cc)" and ?n = "uint (cc_sendme_inc cc)"
  have p: "cc_params_ok cc" using inv by (simp add: cc_inv_def)
  have two: "2 \<le> ?n" "cc_sendme_inc cc \<noteq> 0" using p by (auto simp: cc_params_ok_def word_le_def)
  have lt: "?f < uint (cc_cwnd cc)" using win by (simp add: window_open)
  have le: "?f + 1 \<le> 4294967296" using lt inv by (simp add: cc_inv_def)
  have f1: "uint (cc_inflight cc + 1) = ?f + 1" using le by (subst uint64_add) simp_all
  have m: "(cc_inflight cc + 1) mod ucast (cc_sendme_inc cc) = 0 \<longleftrightarrow> (?f + 1) mod ?n = 0"
    unfolding word_uint_eq_iff uint_mod f1 uint_ucast8 by simp
  have z: "cc_inflight cc = 0 \<Longrightarrow> (?f + 1) mod ?n \<noteq> 0" using two(1) by simp
  define last where "last \<longleftrightarrow> (?f + 1) mod ?n = 0"
  have sent: "circuit_sent_cell_for_sendme 0 (Some cc) = Some last" using z m two(2) by (auto simp: circuit_sent_cell_for_sendme_def last_def)
  define c1 where "c1 = cc\<lparr>cc_inflight := cc_inflight cc + 1\<rparr>"
  define c2 where "c2 = (if last then c1\<lparr>sendme_pending_timestamps := sendme_pending_timestamps c1 @ [now]\<rparr> else c1)"
  have eq: "congestion_control_note_cell_sent now cc = Some c2" by (simp add: congestion_control_note_cell_sent_def sent c2_def c1_def Let_def)
  have st: "cc_static c2 = cc_static cc" "cc_sendme_inc c2 = cc_sendme_inc cc" "cc_cwnd c2 = cc_cwnd cc" "rtts_ok c2 = rtts_ok cc" "uint (cc_inflight c2) = ?f + 1"
    using f1 by (simp_all add: c2_def c1_def cc_static_def rtts_ok_def)
  have "int (length (sendme_pending_timestamps c2)) = (?f + 1) div ?n"
    using inv div_succ [of ?n ?f] two(1) uint_bounds(7) [of "cc_inflight cc"] by (auto simp: cc_inv_def c2_def c1_def last_def)
  then have "cc_inv g c2" using inv params_ok_static [OF st(1)] p le st by (simp add: cc_inv_def)
  then show ?thesis using eq st(2) by blast
qed

text \<open>
  The life of a congestion control object between a sender and the other end of the circuit: cells are
  sent while the window is open, an acknowledgement arrives when one is due.  In between a new consensus
  sets the global parameters, and other circuits change the global state except the limit of the window, which only
  a consensus sets.
\<close>

inductive cc_steps :: "cc_globals \<Rightarrow> cc_t \<Rightarrow> cc_globals \<Rightarrow> cc_t \<Rightarrow> bool" where
  start: "cc_steps g cc g cc"
| send: "cc_steps g0 cc0 g cc \<Longrightarrow> congestion_control_get_package_window w (Some cc) \<noteq> 0 \<Longrightarrow>
    congestion_control_note_cell_sent now cc = Some cc' \<Longrightarrow> cc_steps g0 cc0 g cc'"
| ack: "cc_steps g0 cc0 g cc \<Longrightarrow> ack_due cc \<Longrightarrow> clock_ok cc now \<Longrightarrow> circ_ok circ \<Longrightarrow>
    congestion_control_dispatch_cc_alg g cc circ now cfx = Some (g', cc', cfx') \<Longrightarrow> cc_steps g0 cc0 g' cc'"
| consensus: "cc_steps g0 cc0 g cc \<Longrightarrow> congestion_control_new_consensus_params latest ns g = Some g' \<Longrightarrow> cc_steps g0 cc0 g' cc"
| others: "cc_steps g0 cc0 g cc \<Longrightarrow> cwnd_max g' = cwnd_max g \<Longrightarrow> cc_steps g0 cc0 g' cc"

text \<open>A value that a consensus names is brought into its range.\<close>

lemma get_param_range:
  assumes "networkstatus_get_param latest ns name d lo hi = Some v" "lo \<le> d" "d \<le> hi"
  shows "lo \<le> v \<and> v \<le> hi"
proof (cases "case ns of None \<Rightarrow> latest | Some n \<Rightarrow> Some n")
  case None
  then show ?thesis using assms by (simp add: networkstatus_get_param_def)
next
  case (Some n)
  then show ?thesis using assms by (cases n) (auto simp: networkstatus_get_param_def get_net_param_from_list_def Let_def)
qed

lemma consensus_cwnd_max:
  assumes "congestion_control_new_consensus_params latest ns g = Some g'"
  shows "500 \<le> uint (cwnd_max g')"
proof -
  obtain m where m: "networkstatus_get_param latest None ''cc_cwnd_max'' 2147483647 500 2147483647 = Some m" "cwnd_max g' = word_of_int m"
    using assms by (auto simp: congestion_control_new_consensus_params_def Let_def split: bind_splits)
  then have "500 \<le> m \<and> m \<le> 2147483647" using get_param_range [OF m(1)] by simp
  then show ?thesis using m(2) by (simp add: take_bit_int_eq_self uint_word_of_int_eq)
qed

lemma set_params_ss_max:
  assumes "congestion_control_vegas_set_params latest g cc path = Some (g', cc')"
  shows "500 \<le> uint (ss_cwnd_max (vegas_params cc'))"
proof -
  obtain m where m: "networkstatus_get_param latest None ''cc_ss_max'' 5000 500 2147483647 = Some m" "ss_cwnd_max (vegas_params cc') = word_of_int m"
    using assms by (auto simp: congestion_control_vegas_set_params_def Let_def split: bind_splits)
  then show ?thesis using get_param_range [OF m(1)] by (simp add: take_bit_int_eq_self uint_word_of_int_eq)
qed

text \<open>What the ranges of the parameters give for a new object.\<close>

lemma new_object:
  assumes "congestion_control_new latest always g0 inc path = Some (g, cc)"
  shows "cc_sendme_inc cc = inc \<and> cwnd_inc_rate cc \<noteq> 0 \<and> uint (cc_cwnd cc) \<le> 10000 \<and> cwnd_max g = cwnd_max g0
    \<and> cc_inflight cc = 0 \<and> sendme_pending_timestamps cc = [] \<and> ewma_rtt_usec cc = 0 \<and> min_rtt_usec cc = 0
    \<and> (cc_algorithm cc = CC_ALG_VEGAS \<longrightarrow> 500 \<le> uint (ss_cwnd_max (vegas_params cc)))"
proof -
  let ?z = "zero_cc\<lparr>sendme_pending_timestamps := [], cc_in_slow_start := True\<rparr>"
  obtain cc1 rate0 where i: "congestion_control_init_params latest always g0 ?z inc path = Some (g, cc1)" and c: "cc = cc1\<lparr>next_cc_event := rate0\<rparr>"
    using assms by (auto simp: congestion_control_new_def congestion_control_init_def Let_def split: bind_splits)
  obtain cwnd rate where w: "networkstatus_get_param latest None ''cc_cwnd_init'' CIRCWINDOW_INIT SENDME_INC_DFLT 10000 = Some cwnd" "cc_cwnd cc1 = word_of_int cwnd"
    and r: "networkstatus_get_param latest None ''cc_cwnd_inc_rate'' SENDME_INC_DFLT 1 250 = Some rate" "cwnd_inc_rate cc1 = word_of_int rate"
    and z: "cc_sendme_inc cc1 = inc" "cwnd_max g = cwnd_max g0" "cc_inflight cc1 = 0" "sendme_pending_timestamps cc1 = []" "ewma_rtt_usec cc1 = 0" "min_rtt_usec cc1 = 0"
    using i by (auto simp: congestion_control_init_params_def congestion_control_vegas_set_params_def Let_def zero_cc_def tor_assert_def
        split: bind_splits if_splits)
  have "cc_algorithm cc1 = CC_ALG_VEGAS \<Longrightarrow> \<exists>c. congestion_control_vegas_set_params latest g0 c path = Some (g, cc1)"
    using i by (auto simp: congestion_control_init_params_def Let_def split: bind_splits if_splits)
  then have m: "cc_algorithm cc1 = CC_ALG_VEGAS \<Longrightarrow> 500 \<le> uint (ss_cwnd_max (vegas_params cc1))" using set_params_ss_max by blast
  have "31 \<le> cwnd \<and> cwnd \<le> 10000" "1 \<le> rate \<and> rate \<le> 250"
    using get_param_range [OF w(1)] get_param_range [OF r(1)] by (simp_all add: CIRCWINDOW_INIT_def SENDME_INC_DFLT_def TLS_RECORD_MAX_CELLS_def)
  then have "uint (cc_cwnd cc1) \<le> 10000" "uint (cwnd_inc_rate cc1) \<noteq> 0"
    using w(2) r(2) by (simp_all add: take_bit_int_eq_self uint_word_of_int_eq)
  then show ?thesis using z m c by auto
qed

lemma new_inv:
  assumes "congestion_control_new latest always g0 inc path = Some (g, cc)" "cc_algorithm cc = CC_ALG_VEGAS" "500 \<le> uint (cwnd_max g0)" "2 \<le> inc"
    and "uint inc \<le> uint (cwnd_min cc)" "uint inc \<le> uint (cc_cwnd cc)" "uint inc \<le> uint (vegas_gamma (vegas_params cc))"
  shows "cc_inv g cc"
  using new_object [OF assms(1)] assms(2-) uint_bounds(2) [of inc] by (simp add: cc_inv_def cc_params_ok_def rtts_ok_def RTT_MAX_def)

lemma steps_inv: "cc_steps g0 cc0 g cc \<Longrightarrow> cc_inv g0 cc0 \<Longrightarrow> cc_inv g cc \<and> cc_sendme_inc cc = cc_sendme_inc cc0"
proof (induction rule: cc_steps.induct)
  case (send g0 cc0 g cc w now cc')
  then show ?case using send_inv [OF _ send.hyps(2), of g now] by auto
next
  case (ack g0 cc0 g cc now circ cfx g' cc' cfx')
  then show ?case using dispatch_inv [OF _ ack.hyps(2-4), of g cfx] by auto
next
  case (consensus g0 cc0 g cc latest ns g')
  then show ?case using consensus_cwnd_max [OF consensus.hyps(2)] by (auto simp: cc_inv_def)
next
  case (others g0 cc0 g cc g')
  then show ?case by (auto simp: cc_inv_def)
qed simp

text \<open>C16 Congestion control never stalls.  Take a new Vegas object with an increment of at least 2 that is no larger than the
  initial window, the minimum window and gamma, and global parameters that a consensus has set (the limit of
  the window is at least 500).  In every state that sending, acknowledgements (with a measured round trip between 1 and
  \<open>2 ^ 31\<close> microseconds), new consensuses and other circuits lead to, a cell may be sent or an acknowledgement is
  due; sending and processing an acknowledgement return, without dividing by zero; an acknowledgement leaves a window of at
  least one increment and the count of cells in flight does not underflow; and there is a timestamp for exactly
  every acknowledgement that is due, so none is missing when it is taken.\<close>

theorem cc_never_stalls:
  assumes "congestion_control_new latest always g0 inc path = Some (g1, cc1)" "cc_algorithm cc1 = CC_ALG_VEGAS" "500 \<le> uint (cwnd_max g0)" "2 \<le> inc"
    and "uint inc \<le> uint (cwnd_min cc1)" "uint inc \<le> uint (cc_cwnd cc1)" "uint inc \<le> uint (vegas_gamma (vegas_params cc1))"
    and "cc_steps g1 cc1 g cc"
  shows "(congestion_control_get_package_window w (Some cc) \<noteq> 0 \<or> ack_due cc)
    \<and> int (length (sendme_pending_timestamps cc)) = uint (cc_inflight cc) div uint inc
    \<and> (congestion_control_get_package_window w (Some cc) \<noteq> 0 \<longrightarrow> (\<exists>cc'. congestion_control_note_cell_sent now cc = Some cc'))
    \<and> (ack_due cc \<and> clock_ok cc now \<and> circ_ok circ \<longrightarrow>
        (\<exists>g' cc' cfx'. congestion_control_dispatch_cc_alg g cc circ now cfx = Some (g', cc', cfx')
          \<and> uint inc \<le> uint (cc_cwnd cc') \<and> uint (cc_inflight cc') = uint (cc_inflight cc) - uint inc))"
proof -
  have inv: "cc_inv g cc" "cc_sendme_inc cc = inc"
    using steps_inv [OF assms(8) new_inv [OF assms(1-7)]] new_object [OF assms(1)] by simp_all
  have "congestion_control_get_package_window w (Some cc) \<noteq> 0 \<or> ack_due cc"
    using inv(1) by (auto simp: window_open ack_due_def cc_inv_def)
  moreover have "\<exists>g' cc' cfx'. congestion_control_dispatch_cc_alg g cc circ now cfx = Some (g', cc', cfx')
      \<and> uint inc \<le> uint (cc_cwnd cc') \<and> uint (cc_inflight cc') = uint (cc_inflight cc) - uint inc"
    if "ack_due cc" "clock_ok cc now" "circ_ok circ"
    using dispatch_inv [OF inv(1) that, of cfx] inv(2) by (auto simp: cc_inv_def)
  ultimately show ?thesis using inv send_inv [OF inv(1), of w now] by (auto simp: cc_inv_def)
qed

definition default_globals :: cc_globals where
  "default_globals = \<lparr>cell_queue_high = 256, cell_queue_low = 10, or_conn_highwater = 32768, or_conn_lowwater = 16384, cwnd_max = 2147483647,
     rtt_reset_pct = 100, consensus_sendme_inc = 31, consensus_cc_alg = CC_ALG_VEGAS, bwe_sendme_min = 5, n_ewma_cwnd_pct = 50, n_ewma_max = 10,
     n_ewma_ss = 2, cc_vegas_cwnd_full_minpct = 25, cc_vegas_cwnd_full_gap = 4, cc_cwnd_full_per_cwnd = True, is_monotime_clock_broken = False,
     num_rtt_reset = 0, num_clock_stalls = 0\<rparr>"

definition default_cc :: cc_t where
  "default_cc = zero_cc\<lparr>cc_cwnd := 124, cc_sendme_inc := 31, cc_in_slow_start := True, next_cc_event := 1, cwnd_inc_pct_ss := 100, cwnd_inc := 1,
     cwnd_min := 124, cwnd_inc_rate := 31, cc_algorithm := CC_ALG_VEGAS,
     vegas_params := \<lparr>ss_cwnd_cap = 600, ss_cwnd_max = 5000, vegas_gamma = 186, vegas_alpha = 186, vegas_beta = 248, vegas_delta = 310\<rparr>\<rparr>"

text \<open>An object with an increment of 2: two cells are sent, the second at time 100, and acknowledged at time 5100.\<close>

definition small_cc :: cc_t where "small_cc = default_cc\<lparr>cc_sendme_inc := 2\<rparr>"

definition small_sent :: cc_t where "small_sent = small_cc\<lparr>cc_inflight := 2, sendme_pending_timestamps := [100]\<rparr>"

definition open_circ :: cc_circ where
  "open_circ = \<lparr>cc_is_origin = True, n_chan_cells = 0, p_chan_cells = 0, blocked_on_n_chan = False, blocked_on_p_chan = False\<rparr>"

lemma small_steps: "cc_steps default_globals small_cc default_globals small_sent"
proof (rule cc_steps.send [OF cc_steps.send [OF cc_steps.start]])
  show "congestion_control_get_package_window 0 (Some small_cc) \<noteq> 0" by code_simp
  show "congestion_control_note_cell_sent 90 small_cc = Some (small_cc\<lparr>cc_inflight := 1\<rparr>)" by code_simp
  show "congestion_control_get_package_window 0 (Some (small_cc\<lparr>cc_inflight := 1\<rparr>)) \<noteq> 0" by code_simp
  show "congestion_control_note_cell_sent 100 (small_cc\<lparr>cc_inflight := 1\<rparr>) = Some small_sent" by code_simp
qed

theorem cc_never_stalls_witness:
  "\<exists>g cc. congestion_control_dispatch_cc_alg default_globals small_sent open_circ 5100 None = Some (g, cc, None)
     \<and> cc_steps default_globals small_cc g cc \<and> 2 \<le> uint (cc_cwnd cc) \<and> cc_inflight cc = 0 \<and> sendme_pending_timestamps cc = []
     \<and> congestion_control_get_package_window 0 (Some cc) \<noteq> 0"
proof -
  have "congestion_control_new None False default_globals 2 CC_PATH_EXIT = Some (default_globals, small_cc)" by code_simp
  moreover have "cc_algorithm small_cc = CC_ALG_VEGAS" "500 \<le> uint (cwnd_max default_globals)" "2 \<le> (2 :: u8)"
    "uint (2 :: u8) \<le> uint (cwnd_min small_cc)" "uint (2 :: u8) \<le> uint (cc_cwnd small_cc)" "uint (2 :: u8) \<le> uint (vegas_gamma (vegas_params small_cc))"
    by code_simp+
  note never = cc_never_stalls [OF calculation this]
  have due: "ack_due small_sent" "clock_ok small_sent 5100" "circ_ok open_circ" "uint (cc_inflight small_sent) = 2" by code_simp+
  with never [OF small_steps, of 0 5100 open_circ None] obtain g cc cfx where
    d: "congestion_control_dispatch_cc_alg default_globals small_sent open_circ 5100 None = Some (g, cc, cfx)"
      "2 \<le> uint (cc_cwnd cc)" "uint (cc_inflight cc) = 0" by auto
  have steps: "cc_steps default_globals small_cc g cc" by (rule cc_steps.ack [OF small_steps due(1-3) d(1)])
  have z: "cc_inflight cc = 0" using d(3) by (simp add: uint_0_iff)
  have "\<not> ack_due cc \<or> cc_sendme_inc cc = 0" using d(3) uint_bounds(1) [of "cc_sendme_inc cc"] by (auto simp: ack_due_def uint_0_iff)
  moreover have "cfx = None" using d(1) by (auto simp: congestion_control_dispatch_cc_alg_def Let_def split: bind_splits if_splits)
  ultimately show ?thesis using d steps z never [OF steps, of 0 0 open_circ None] window_open [of 0 cc] by auto
qed

section \<open>Deviations\<close>

text \<open>C17 A window smaller than its increment, as a consensus may configure it, wraps around when it is to be
  decreased: on the congestion signal of a blocked channel it becomes larger than \<open>2 ^ 63\<close> cells (and is then
  clamped to the maximum), and raising it to the minimum afterwards does not notice.\<close>

theorem cwnd_decrease_wraps:
  assumes "blocked_chan cc" "queue_use \<le> ucast (vegas_delta (vegas_params cc))" "uint (cc_cwnd cc) < uint (cwnd_inc cc)"
  shows "uint (cc_cwnd (vegas_steady_state cc queue_use)) = uint (cc_cwnd cc) + 18446744073709551616 - uint (cwnd_inc cc)"
proof -
  let ?w = "cc_cwnd cc - ucast (cwnd_inc cc)"
  have lo: "uint (cc_cwnd cc) + 18446744073709551616 - uint (cwnd_inc cc) \<ge> 65536" using uint_bounds(4) [of "cwnd_inc cc"] uint_bounds(7) [of "cc_cwnd cc"] by linarith
  have "uint ?w = (uint (cc_cwnd cc) - uint (cwnd_inc cc)) mod 18446744073709551616" by (simp add: uint_word_ariths uint_ucast16)
  also have "\<dots> = uint (cc_cwnd cc) + 18446744073709551616 - uint (cwnd_inc cc)"
  proof -
    have "(uint (cc_cwnd cc) - uint (cwnd_inc cc) + 18446744073709551616) mod 18446744073709551616 = uint (cc_cwnd cc) - uint (cwnd_inc cc) + 18446744073709551616"
      by (rule mod_pos_pos_trivial) (use assms(3) lo in linarith)+
    then show ?thesis by simp
  qed
  finally have w: "uint ?w = uint (cc_cwnd cc) + 18446744073709551616 - uint (cwnd_inc cc)" .
  then have "max ?w (ucast (cwnd_min cc)) = ?w" using lo uint_bounds(4) [of "cwnd_min cc"] by (simp add: max_def word_le_def uint_ucast16)
  then show ?thesis using assms(1,2) w by (auto simp: vegas_steady_state_def Let_def not_less)
qed

theorem cwnd_decrease_wraps_witness:
  "let cc = default_cc\<lparr>cc_in_slow_start := False, blocked_chan := True, cwnd_inc := 1000\<rparr> in
   blocked_chan cc \<and> uint (cc_cwnd cc) < uint (cwnd_inc cc) \<and> uint (cc_cwnd (vegas_steady_state cc 0)) = 18446744073709550740"
proof -
  let ?cc = "default_cc\<lparr>cc_in_slow_start := False, blocked_chan := True, cwnd_inc := 1000\<rparr>"
  have "blocked_chan ?cc" "(0 :: u64) \<le> ucast (vegas_delta (vegas_params ?cc))" "uint (cc_cwnd ?cc) < uint (cwnd_inc ?cc)" by code_simp+
  from cwnd_decrease_wraps [OF this] this(1,3) show ?thesis by (simp add: Let_def default_cc_def)
qed

text \<open>
  A measured round trip of zero is taken for a stalled clock and leaves the estimates alone.  If the first
  acknowledgement of a circuit measures one and the channel is blocked, slow start ends with no estimate at all, and the
  bandwidth in the log message is divided by zero.
\<close>

theorem stalled_clock_divides_by_zero:
  assumes "cc_algorithm cc = CC_ALG_VEGAS" "cc_in_slow_start cc" "ewma_rtt_usec cc = 0" "min_rtt_usec cc = 0"
    and "sendme_pending_timestamps cc = now # ts" "if cc_is_origin circ then blocked_on_n_chan circ else blocked_on_p_chan circ"
  shows "congestion_control_vegas_process_sendme g cc circ now = None"
proof -
  define c0 where "c0 = (let cc = (if next_cc_event cc \<noteq> 0 then cc\<lparr>next_cc_event := next_cc_event cc - 1\<rparr> else cc)
    in if next_cwnd_event cc \<noteq> 0 then cc\<lparr>next_cwnd_event := next_cwnd_event cc - 1\<rparr> else cc)"
  have c0: "cc_in_slow_start c0" "ewma_rtt_usec c0 = 0" "min_rtt_usec c0 = 0" "sendme_pending_timestamps c0 = now # ts"
    using assms by (simp_all add: c0_def Let_def)
  obtain g1 c1 where est: "congestion_control_update_circuit_estimates g c0 circ now = Some (True, g1, c1)"
      "cc_in_slow_start c1" "ewma_rtt_usec c1 = 0" "min_rtt_usec c1 = 0" "blocked_chan c1"
    using c0 assms(6) by (auto simp: congestion_control_update_circuit_estimates_def congestion_control_update_circuit_rtt_def
        congestion_control_update_circuit_bdp_def dequeue_timestamp_def time_delta_stalled_or_jumped_def Let_def)
  have "vegas_slow_start c queue_use = None" if "blocked_chan c" "ewma_rtt_usec c = 0" "min_rtt_usec c = 0" for c queue_use
    using that by (simp add: vegas_slow_start_def vegas_ss_window_def congestion_control_vegas_exit_slow_start_def congestion_control_vegas_log_def udiv_def)
  then show ?thesis using assms(1) est unfolding process_sendme_eq c0_def [unfolded Let_def] Let_def by simp
qed

text \<open>
  With an increment of 1, which a consensus may choose, no timestamp is taken for the first cell, although
  its acknowledgement is due: the queue is empty when the acknowledgement arrives.
\<close>

theorem first_timestamp_missing:
  "let cc = default_cc\<lparr>cc_sendme_inc := 1\<rparr> in
   (case congestion_control_note_cell_sent 7 cc of Some cc' \<Rightarrow> ack_due cc' \<and> sendme_pending_timestamps cc' = [] | None \<Rightarrow> False)"
  by code_simp

text \<open>Leaving slow start does not respect the minimum: with a low threshold gamma the window falls below
  \<open>cwnd_min\<close> and below one acknowledgement.\<close>

theorem slow_start_below_minimum:
  "let cc = default_cc\<lparr>ewma_rtt_usec := 1000, min_rtt_usec := 1000, blocked_chan := True, vegas_params := vegas_params default_cc\<lparr>vegas_gamma := 1\<rparr>\<rparr> in
   map_option (\<lambda>c. uint (cc_cwnd c)) (vegas_slow_start cc 124) = Some 1"
  by code_simp

end
