(* ===== verification/Address.thy ===== *)
theory Address
  imports Di_Ops
begin

text \<open>
  The comparison and classification of addresses in \<open>lib/net/address.c\<close>.  An IPv6 address is a 128-bit
  word whose bytes are the array \<open>s6_addr\<close>; a Unix address is known by the address of its object only.
\<close>

unbundle bit_operations_syntax

section \<open>Addresses\<close>

datatype tor_addr_t = Addr_Unspec | Addr_Unix nat | Addr_IPv4 u32 | Addr_IPv6 "128 word"

datatype tor_addr_comparison_t = CMP_EXACT | CMP_SEMANTIC

text \<open>The family numbers of Linux.\<close>

definition AF_UNSPEC :: int where "AF_UNSPEC = 0"
definition AF_UNIX :: int where "AF_UNIX = 1"
definition AF_INET :: int where "AF_INET = 2"
definition AF_INET6 :: int where "AF_INET6 = 10"

lemmas AF_defs = AF_UNSPEC_def AF_UNIX_def AF_INET_def AF_INET6_def

primrec tor_addr_family :: "tor_addr_t \<Rightarrow> int" where
  "tor_addr_family Addr_Unspec = AF_UNSPEC"
| "tor_addr_family (Addr_Unix p) = AF_UNIX"
| "tor_addr_family (Addr_IPv4 a) = AF_INET"
| "tor_addr_family (Addr_IPv6 a) = AF_INET6"

definition tor_addr_to_ipv4h :: "tor_addr_t \<Rightarrow> u32" where
  "tor_addr_to_ipv4h a = (case a of Addr_IPv4 w \<Rightarrow> w | _ \<Rightarrow> 0)"

text \<open>The bytes and, in host order, the 32-bit words of an IPv6 address.\<close>

definition s6_addr8 :: "128 word \<Rightarrow> u8 list" where
  "s6_addr8 w = map (\<lambda>i. ucast (drop_bit (120 - 8 * i) w)) [0..<16]"

definition s6_addr32 :: "128 word \<Rightarrow> nat \<Rightarrow> u32" where
  "s6_addr32 w i = ucast (drop_bit (96 - 32 * i) w)"

definition tor_addr_to_mapped_ipv4h :: "tor_addr_t \<Rightarrow> u32" where
  "tor_addr_to_mapped_ipv4h a = (case a of Addr_IPv6 w \<Rightarrow> s6_addr32 w 3 | _ \<Rightarrow> 0)"

definition tor_addr_is_v4 :: "tor_addr_t \<Rightarrow> bool" where
  "tor_addr_is_v4 addr =
     (case addr of
        Addr_IPv4 _ \<Rightarrow> True
      | Addr_IPv6 w \<Rightarrow> s6_addr32 w 0 = 0 \<and> s6_addr32 w 1 = 0 \<and> s6_addr32 w 2 = 0x0000FFFF
      | _ \<Rightarrow> False)"

definition tor_addr_is_v6 :: "tor_addr_t \<Rightarrow> bool" where
  "tor_addr_is_v6 addr \<longleftrightarrow> tor_addr_family addr = AF_INET6"

definition tor_addr_is_null :: "tor_addr_t \<Rightarrow> bool" where
  "tor_addr_is_null addr =
     (case addr of
        Addr_IPv6 w \<Rightarrow> s6_addr32 w 0 = 0 \<and> s6_addr32 w 1 = 0 \<and> s6_addr32 w 2 = 0 \<and> s6_addr32 w 3 = 0
      | Addr_IPv4 a \<Rightarrow> a = 0
      | Addr_Unix _ \<Rightarrow> True
      | Addr_Unspec \<Rightarrow> True)"

definition tor_addr_is_loopback :: "tor_addr_t \<Rightarrow> bool" where
  "tor_addr_is_loopback addr =
     (case addr of
        Addr_IPv6 w \<Rightarrow> s6_addr32 w 0 = 0 \<and> s6_addr32 w 1 = 0 \<and> s6_addr32 w 2 = 0 \<and> s6_addr32 w 3 = 1
      | Addr_IPv4 a \<Rightarrow> a AND 0xFF000000 = 0x7F000000
      | _ \<Rightarrow> False)"

definition tor_addr_is_valid :: "tor_addr_t option \<Rightarrow> bool \<Rightarrow> bool" where
  "tor_addr_is_valid addr for_listening =
     (case addr of
        None \<Rightarrow> False
      | Some a \<Rightarrow> for_listening \<and> (tor_addr_family a = AF_INET \<or> tor_addr_family a = AF_INET6) \<or> \<not> tor_addr_is_null a)"

definition tor_addr_is_multicast :: "tor_addr_t \<Rightarrow> bool" where
  "tor_addr_is_multicast a =
     (case a of
        Addr_IPv4 ipv4h \<Rightarrow> drop_bit 24 ipv4h = 0xE0
      | Addr_IPv6 w \<Rightarrow> s6_addr8 w ! 0 = 0xFF
      | _ \<Rightarrow> False)"

definition internal_ipv4 :: "u32 \<Rightarrow> bool \<Rightarrow> bool" where
  "internal_ipv4 iph4 for_listening =
     (if for_listening \<and> (iph4 = 0 \<or> iph4 AND 0xFFC00000 = 0x64400000) then False
      else iph4 AND 0xFF000000 = 0x0A000000 \<or> iph4 AND 0xFF000000 = 0 \<or> iph4 AND 0xFF000000 = 0x7F000000
        \<or> iph4 AND 0xFFC00000 = 0x64400000 \<or> iph4 AND 0xFFFF0000 = 0xA9FE0000 \<or> iph4 AND 0xFFF00000 = 0xAC100000
        \<or> iph4 AND 0xFFFF0000 = 0xC0A80000)"

definition internal_ipv6 :: "128 word \<Rightarrow> bool \<Rightarrow> bool" where
  "internal_ipv6 w for_listening =
     (let iph6 = s6_addr32 w in
      if for_listening \<and> iph6 0 = 0 \<and> iph6 1 = 0 \<and> iph6 2 = 0 \<and> iph6 3 = 0 then False
      else if iph6 0 AND 0xFE000000 = 0xFC000000 \<or> iph6 0 AND 0xFFC00000 = 0xFE800000 \<or> iph6 0 AND 0xFFC00000 = 0xFEC00000 then True
      else iph6 0 = 0 \<and> iph6 1 = 0 \<and> iph6 2 = 0 \<and> iph6 3 AND 0xFFFFFFFE = 0)"

text \<open>An address that is no IP address is taken as internal (after a log message).\<close>

definition tor_addr_is_internal :: "tor_addr_t \<Rightarrow> bool \<Rightarrow> bool" where
  "tor_addr_is_internal addr for_listening =
     (case addr of
        Addr_IPv4 a \<Rightarrow> internal_ipv4 a for_listening
      | Addr_IPv6 w \<Rightarrow>
          if tor_addr_is_v4 addr then internal_ipv4 (s6_addr32 w 3) for_listening else internal_ipv6 w for_listening
      | _ \<Rightarrow> True)"

section \<open>Comparison\<close>

definition TRISTATE :: "'a :: linorder \<Rightarrow> 'a \<Rightarrow> int" where
  "TRISTATE a b = (if a < b then -1 else if a = b then 0 else 1)"

text \<open>
  Masks are given in bits.  The byte arrays have 16 elements, so that \<open>tor_memcmp\<close> stays in bounds.
\<close>

definition compare_ipv4 :: "u32 \<Rightarrow> u32 \<Rightarrow> nat \<Rightarrow> int" where
  "compare_ipv4 a1 a2 mbits = (let mbits = (if mbits > 32 then 32 else mbits) in TRISTATE (drop_bit (32 - mbits) a1) (drop_bit (32 - mbits) a2))"

definition compare_ipv6 :: "128 word \<Rightarrow> 128 word \<Rightarrow> nat \<Rightarrow> int" where
  "compare_ipv6 w1 w2 mbits =
     (let mbits = (if mbits > 128 then 128 else mbits);
          a1 = s6_addr8 w1; a2 = s6_addr8 w2;
          bytes = mbits div 8; leftover_bits = mbits mod 8;
          r = (case tor_memcmp a1 a2 bytes of Some r \<Rightarrow> sint r | None \<Rightarrow> 0)
      in if bytes \<noteq> 0 \<and> r \<noteq> 0 then r
         else if leftover_bits \<noteq> 0 then TRISTATE (drop_bit (8 - leftover_bits) (a1 ! bytes)) (drop_bit (8 - leftover_bits) (a2 ! bytes))
         else 0)"

definition compare_semantic :: "tor_addr_t \<Rightarrow> tor_addr_t \<Rightarrow> nat \<Rightarrow> int" where
  "compare_semantic addr1 addr2 mbits =
     (let family1 = tor_addr_family addr1; family2 = tor_addr_family addr2;
          v_family1 = (if family1 = AF_INET6 \<and> tor_addr_is_v4 addr1 then AF_INET else family1);
          v_family2 = (if family2 = AF_INET6 \<and> tor_addr_is_v4 addr2 then AF_INET else family2)
      in if mbits = 0 then 0
         else if v_family1 = v_family2 then
           let a2 = (if family2 = AF_INET6 then tor_addr_to_mapped_ipv4h addr2 else tor_addr_to_ipv4h addr2)
           in if family1 = AF_INET6 then
                if mbits \<le> 96 then 0 else compare_ipv4 (tor_addr_to_mapped_ipv4h addr1) a2 (mbits - 96)
              else compare_ipv4 (tor_addr_to_ipv4h addr1) a2 mbits
         else TRISTATE family1 family2)"

definition tor_addr_compare_masked :: "tor_addr_t \<Rightarrow> tor_addr_t \<Rightarrow> nat \<Rightarrow> tor_addr_comparison_t \<Rightarrow> int" where
  "tor_addr_compare_masked addr1 addr2 mbits how =
     (case (addr1, addr2) of
        (Addr_Unspec, Addr_Unspec) \<Rightarrow> 0
      | (Addr_IPv4 a1, Addr_IPv4 a2) \<Rightarrow> if mbits = 0 then 0 else compare_ipv4 a1 a2 mbits
      | (Addr_IPv6 w1, Addr_IPv6 w2) \<Rightarrow> compare_ipv6 w1 w2 mbits
      | (Addr_Unix p1, Addr_Unix p2) \<Rightarrow> TRISTATE p1 p2
      | _ \<Rightarrow> if how = CMP_EXACT then TRISTATE (tor_addr_family addr1) (tor_addr_family addr2)
             else compare_semantic addr1 addr2 mbits)"

definition tor_addr_compare :: "tor_addr_t \<Rightarrow> tor_addr_t \<Rightarrow> tor_addr_comparison_t \<Rightarrow> int" where
  "tor_addr_compare addr1 addr2 how = tor_addr_compare_masked addr1 addr2 128 how"

section \<open>Exact comparison is equality of prefixes\<close>

lemma TRISTATE_0 [simp]: "TRISTATE a b = 0 \<longleftrightarrow> a = b"
  by (auto simp: TRISTATE_def)

lemma s6_length [simp]: "length (s6_addr8 w) = 16"
  by (simp add: s6_addr8_def)

lemma s6_nth: "i < 16 \<Longrightarrow> s6_addr8 w ! i = ucast (drop_bit (120 - 8 * i) w)"
  by (simp add: s6_addr8_def)

lemma drop_bit_eq_iff: "drop_bit n a = drop_bit n b \<longleftrightarrow> (\<forall>k \<ge> n. bit (a :: 'a :: len word) k = bit b k)"
proof
  assume e: "drop_bit n a = drop_bit n b"
  show "\<forall>k \<ge> n. bit a k = bit b k"
  proof (intro allI impI)
    fix k assume k: "n \<le> k"
    have "bit (drop_bit n a) (k - n) = bit (drop_bit n b) (k - n)" using e by simp
    then show "bit a k = bit b k" using k by (simp only: bit_drop_bit_eq o_apply le_add_diff_inverse)
  qed
next
  assume a: "\<forall>k \<ge> n. bit a k = bit b k"
  show "drop_bit n a = drop_bit n b"
    by (rule bit_word_eqI) (simp only: bit_drop_bit_eq o_apply a [rule_format] le_add1)
qed

text \<open>The bits of a byte of an IPv6 address.\<close>

lemma s6_byte_bit: "i < 16 \<Longrightarrow> n < 8 \<Longrightarrow> bit (s6_addr8 w ! i) n = bit w (120 - 8 * i + n)"
  by (simp add: s6_nth bit_ucast_iff bit_drop_bit_eq)

lemma s6_byte_eq:
  assumes "i < 16"
  shows "s6_addr8 v ! i = s6_addr8 w ! i \<longleftrightarrow> (\<forall>n < 8. bit v (120 - 8 * i + n) = bit w (120 - 8 * i + n))"
proof
  assume e: "s6_addr8 v ! i = s6_addr8 w ! i"
  show "\<forall>n < 8. bit v (120 - 8 * i + n) = bit w (120 - 8 * i + n)"
    using s6_byte_bit [OF assms, of _ v] s6_byte_bit [OF assms, of _ w] e by simp
next
  assume a: "\<forall>n < 8. bit v (120 - 8 * i + n) = bit w (120 - 8 * i + n)"
  show "s6_addr8 v ! i = s6_addr8 w ! i"
    by (rule bit_word_eqI) (use a s6_byte_bit [OF assms] in simp)
qed

lemma s6_take_eq:
  assumes "k \<le> 16"
  shows "take k (s6_addr8 v) = take k (s6_addr8 w) \<longleftrightarrow> drop_bit (128 - 8 * k) v = drop_bit (128 - 8 * k) w"
proof -
  have "take k (s6_addr8 v) = take k (s6_addr8 w) \<longleftrightarrow> (\<forall>i < k. s6_addr8 v ! i = s6_addr8 w ! i)"
    using assms by (auto simp: list_eq_iff_nth_eq)
  also have "\<dots> \<longleftrightarrow> (\<forall>i < k. \<forall>n < 8. bit v (120 - 8 * i + n) = bit w (120 - 8 * i + n))"
    using assms by (auto simp: s6_byte_eq)
  also have "\<dots> \<longleftrightarrow> (\<forall>m \<ge> 128 - 8 * k. bit v m = bit w m)"
  proof (rule iffI; intro allI impI)
    fix m assume all: "\<forall>i < k. \<forall>n < 8. bit v (120 - 8 * i + n) = bit w (120 - 8 * i + n)" and m: "128 - 8 * k \<le> m"
    show "bit v m = bit w m"
    proof (cases "m < 128")
      case True
      define q r where "q = m div 8" and "r = m mod 8"
      have qr: "m = 8 * q + r" "r < 8" by (simp_all add: q_def r_def)
      have "q \<le> 15" using True qr by linarith
      then have "120 - 8 * (15 - q) + r = m" "15 - q < k" using m qr assms by linarith+
      then show ?thesis using all [rule_format, of "15 - q" r] qr(2) by simp
    next
      case False
      then show ?thesis using bit_imp_le_length [of v m] bit_imp_le_length [of w m] by auto
    qed
  next
    fix i n :: nat assume "\<forall>m \<ge> 128 - 8 * k. bit v m = bit w m" "i < k" "n < 8"
    then show "bit v (120 - 8 * i + n) = bit w (120 - 8 * i + n)" using assms by simp
  qed
  finally show ?thesis by (simp only: drop_bit_eq_iff)
qed

lemma compare_ipv4_0: "compare_ipv4 a b m = 0 \<longleftrightarrow> drop_bit (32 - min 32 m) a = drop_bit (32 - min 32 m) b"
  by (simp add: compare_ipv4_def Let_def min_def)

lemma in6_memcmp: "k \<le> 16 \<Longrightarrow> \<exists>r. tor_memcmp (s6_addr8 v) (s6_addr8 w) k = Some r \<and> (sint r = 0 \<longleftrightarrow> take k (s6_addr8 v) = take k (s6_addr8 w))"
  using memcmp_loop_eq [of k "s6_addr8 v" "s6_addr8 w" 0] memcmp_zero_iff [of "take k (s6_addr8 v)" "take k (s6_addr8 w)"]
  by (auto simp: tor_memcmp_def)

lemma leftover_eq:
  assumes "i < 16" "0 < l" "l < 8" "drop_bit (128 - 8 * i) v = drop_bit (128 - 8 * i) (w :: 128 word)"
  shows "drop_bit (8 - l) (s6_addr8 v ! i) = drop_bit (8 - l) (s6_addr8 w ! i) \<longleftrightarrow> drop_bit (128 - (8 * i + l)) v = drop_bit (128 - (8 * i + l)) w"
proof -
  have "drop_bit (8 - l) (s6_addr8 v ! i) = drop_bit (8 - l) (s6_addr8 w ! i) \<longleftrightarrow> (\<forall>n. 8 - l \<le> n \<and> n < 8 \<longrightarrow> bit v (120 - 8 * i + n) = bit w (120 - 8 * i + n))"
  proof (unfold drop_bit_eq_iff, rule iffI; intro allI impI)
    fix n assume a: "\<forall>k \<ge> 8 - l. bit (s6_addr8 v ! i) k = bit (s6_addr8 w ! i) k" "8 - l \<le> n \<and> n < 8"
    then have "bit (s6_addr8 v ! i) n = bit (s6_addr8 w ! i) n" by blast
    then show "bit v (120 - 8 * i + n) = bit w (120 - 8 * i + n)" using s6_byte_bit [OF assms(1), of n] a(2) by simp
  next
    fix n assume a: "\<forall>n. 8 - l \<le> n \<and> n < 8 \<longrightarrow> bit v (120 - 8 * i + n) = bit w (120 - 8 * i + n)" "8 - l \<le> n"
    show "bit (s6_addr8 v ! i) n = bit (s6_addr8 w ! i) n"
    proof (cases "n < 8")
      case True
      then show ?thesis using a s6_byte_bit [OF assms(1) True] by simp
    next
      case False
      then show ?thesis using bit_imp_le_length [of "s6_addr8 v ! i" n] bit_imp_le_length [of "s6_addr8 w ! i" n] by auto
    qed
  qed
  also have "\<dots> \<longleftrightarrow> (\<forall>m \<ge> 128 - (8 * i + l). bit v m = bit w m)"
  proof (rule iffI; intro allI impI)
    fix m assume all: "\<forall>n. 8 - l \<le> n \<and> n < 8 \<longrightarrow> bit v (120 - 8 * i + n) = bit w (120 - 8 * i + n)" and m: "128 - (8 * i + l) \<le> m"
    show "bit v m = bit w m"
    proof (cases "m < 128 - 8 * i")
      case True
      then have "120 - 8 * i + (m - (120 - 8 * i)) = m" "8 - l \<le> m - (120 - 8 * i)" "m - (120 - 8 * i) < 8" using m assms(1-3) by auto
      then show ?thesis using all by metis
    next
      case False
      then show ?thesis using assms(4) unfolding drop_bit_eq_iff by simp
    qed
  next
    fix n assume "\<forall>m \<ge> 128 - (8 * i + l). bit v m = bit w m" "8 - l \<le> n \<and> n < 8"
    moreover from this have "128 - (8 * i + l) \<le> 120 - 8 * i + n" using assms(1-3) by linarith
    ultimately show "bit v (120 - 8 * i + n) = bit w (120 - 8 * i + n)" by blast
  qed
  finally show ?thesis by (simp only: drop_bit_eq_iff)
qed

lemma compare_ipv6_0: "compare_ipv6 v w m = 0 \<longleftrightarrow> drop_bit (128 - min 128 m) v = drop_bit (128 - min 128 m) w"
proof -
  define n where "n = min 128 m"
  define k l where "k = n div 8" and "l = n mod 8"
  have le: "n \<le> 128" by (simp add: n_def)
  have eq: "n = 8 * k + l" "l < 8" by (simp_all add: k_def l_def)
  have n: "n = 8 * k + l" "l < 8" "k \<le> 16" "l \<noteq> 0 \<Longrightarrow> k < 16" using le eq by linarith+
  obtain r where r: "tor_memcmp (s6_addr8 v) (s6_addr8 w) k = Some r" "sint r = 0 \<longleftrightarrow> take k (s6_addr8 v) = take k (s6_addr8 w)"
    using in6_memcmp [OF n(3)] by blast
  have mm: "(if m > 128 then 128 else m) = n" by (simp add: n_def)
  have eq: "compare_ipv6 v w m = (if k \<noteq> 0 \<and> sint r \<noteq> 0 then sint r
      else if l \<noteq> 0 then TRISTATE (drop_bit (8 - l) (s6_addr8 v ! k)) (drop_bit (8 - l) (s6_addr8 w ! k)) else 0)"
    unfolding compare_ipv6_def Let_def mm k_def [symmetric] l_def [symmetric] r(1) by simp
  have r0: "sint r = 0 \<longleftrightarrow> drop_bit (128 - 8 * k) v = drop_bit (128 - 8 * k) w" using r(2) s6_take_eq [OF n(3)] by simp
  have whole: "drop_bit (128 - n) v = drop_bit (128 - n) w \<Longrightarrow> sint r = 0" unfolding r0 drop_bit_eq_iff using n(1) by simp
  show ?thesis
  proof (cases "l = 0")
    case True
    then show ?thesis using eq r0 n(1) r(2) unfolding n_def [symmetric] by auto
  next
    case False
    have zero: "k = 0 \<Longrightarrow> sint r = 0" using r(2) by simp
    show ?thesis
    proof (cases "sint r = 0")
      case True
      then show ?thesis using eq False leftover_eq [of k l v w] n r0 unfolding n_def [symmetric] by simp
    next
      case nz: False
      then show ?thesis using eq whole zero unfolding n_def [symmetric] by auto
    qed
  qed
qed

text \<open>The addresses that a network \<open>net\<close> with a mask of \<open>mbits\<close> bits contains.\<close>

definition in_net :: "tor_addr_t \<Rightarrow> tor_addr_t \<Rightarrow> nat \<Rightarrow> bool" where
  "in_net addr net mbits =
     (case (addr, net) of
        (Addr_IPv4 a, Addr_IPv4 b) \<Rightarrow> drop_bit (32 - min 32 mbits) a = drop_bit (32 - min 32 mbits) b
      | (Addr_IPv6 v, Addr_IPv6 w) \<Rightarrow> drop_bit (128 - min 128 mbits) v = drop_bit (128 - min 128 mbits) w
      | _ \<Rightarrow> addr = net)"

lemma compare_exact_iff: "tor_addr_compare_masked a b m CMP_EXACT = 0 \<longleftrightarrow> in_net a b m"
  by (cases a; cases b)
    (simp_all add: tor_addr_compare_masked_def in_net_def compare_ipv4_0 compare_ipv6_0 AF_defs TRISTATE_def)

text \<open>An exact comparison under a mask answers 0 exactly if the addresses are of one family and agree
  in the leading bits, however the IPv6 comparison is split into whole bytes and leftover bits.\<close>

theorem compare_masked_exact: "tor_addr_compare_masked a b m CMP_EXACT = 0 \<longleftrightarrow> in_net a b m"
  by (rule compare_exact_iff)

lemma drop_bit_mono: "m \<le> n \<Longrightarrow> drop_bit m a = drop_bit m b \<Longrightarrow> drop_bit n a = drop_bit n (b :: 'a :: len word)"
  unfolding drop_bit_eq_iff by simp

lemma in_net_mono: "in_net a b n \<Longrightarrow> m \<le> n \<Longrightarrow> in_net a b m"
  by (auto simp: in_net_def split: tor_addr_t.splits elim!: drop_bit_mono [rotated])

lemma in_net_sym: "in_net a b m \<Longrightarrow> in_net b a m"
  by (auto simp: in_net_def split: tor_addr_t.splits)

lemma in_net_trans: "in_net a b m \<Longrightarrow> in_net b c m \<Longrightarrow> in_net a c m"
  by (auto simp: in_net_def split: tor_addr_t.splits)

lemma in_net_family: "in_net a b m \<Longrightarrow> tor_addr_family a = tor_addr_family b"
  by (auto simp: in_net_def split: tor_addr_t.splits)

lemma in_net_all: "tor_addr_family a = tor_addr_family b \<Longrightarrow> tor_addr_family b \<in> {AF_INET, AF_INET6} \<Longrightarrow> in_net a b 0"
  by (cases a; cases b) (auto simp: in_net_def AF_defs)

section \<open>Deviations\<close>

text \<open>
  Semantic comparison is not transitive, although it is documented as a total order: the mapped address
  \<open>::ffff:1.2.3.4\<close> equals \<open>1.2.3.4\<close>, which is below \<open>::1\<close>, which is below the mapped address.
\<close>

theorem semantic_compare_cycle:
  "let mapped = Addr_IPv6 0xFFFF01020304; v4 = Addr_IPv4 0x01020304; one = Addr_IPv6 1 in
   tor_addr_compare mapped v4 CMP_SEMANTIC = 0 \<and> tor_addr_compare v4 one CMP_SEMANTIC < 0 \<and> tor_addr_compare one mapped CMP_SEMANTIC < 0"
  by code_simp

text \<open>Of the multicast range \<open>224.0.0.0/4\<close> only \<open>224.0.0.0/8\<close> is recognised: \<open>239.0.0.1\<close> is not.\<close>

theorem multicast_missed: "\<not> tor_addr_is_multicast (Addr_IPv4 0xEF000001) \<and> tor_addr_is_multicast (Addr_IPv4 0xE0000001)"
  by code_simp

end
