(* ===== verification/Policies.thy ===== *)
theory Policies
  imports Address
begin

text \<open>
  Address policies, \<open>core/or/policies.c\<close>: deciding an address and a port, removing redundant entries,
  and the questions asked about whole policies.  A policy is the list of its entries; the canonical
  copies and their reference counts are not modelled, and log messages are left out.
\<close>

section \<open>Policies\<close>

datatype addr_policy_action_t = ADDR_POLICY_ACCEPT | ADDR_POLICY_REJECT

datatype addr_policy_result_t =
  ADDR_POLICY_ACCEPTED | ADDR_POLICY_REJECTED | ADDR_POLICY_PROBABLY_ACCEPTED | ADDR_POLICY_PROBABLY_REJECTED

record addr_policy_t =
  policy_type :: addr_policy_action_t
  is_private :: bool
  maskbits :: nat
  pol_addr :: tor_addr_t
  prt_min :: u16
  prt_max :: u16

fun compare_known_tor_addr_to_addr_policy :: "tor_addr_t \<Rightarrow> u16 \<Rightarrow> addr_policy_t list \<Rightarrow> addr_policy_result_t" where
  "compare_known_tor_addr_to_addr_policy addr port [] = ADDR_POLICY_ACCEPTED"
| "compare_known_tor_addr_to_addr_policy addr port (tmpe # rest) =
     (if tor_addr_compare_masked addr (pol_addr tmpe) (maskbits tmpe) CMP_EXACT = 0 \<and> port \<ge> prt_min tmpe \<and> port \<le> prt_max tmpe
      then if policy_type tmpe = ADDR_POLICY_ACCEPT then ADDR_POLICY_ACCEPTED else ADDR_POLICY_REJECTED
      else compare_known_tor_addr_to_addr_policy addr port rest)"

text \<open>The action_verdict of an entry that certainly matches, after entries that may have matched.\<close>

definition certain_verdict :: "addr_policy_action_t \<Rightarrow> bool \<Rightarrow> bool \<Rightarrow> addr_policy_result_t" where
  "certain_verdict action maybe_accept maybe_reject =
     (if action = ADDR_POLICY_ACCEPT
      then if maybe_reject then ADDR_POLICY_PROBABLY_ACCEPTED else ADDR_POLICY_ACCEPTED
      else if maybe_accept then ADDR_POLICY_PROBABLY_REJECTED else ADDR_POLICY_REJECTED)"

fun noport_loop :: "tor_addr_t \<Rightarrow> addr_policy_t list \<Rightarrow> bool \<Rightarrow> bool \<Rightarrow> addr_policy_result_t" where
  "noport_loop addr [] maybe_accept maybe_reject = (if maybe_reject then ADDR_POLICY_PROBABLY_ACCEPTED else ADDR_POLICY_ACCEPTED)"
| "noport_loop addr (tmpe # rest) maybe_accept maybe_reject =
     (if tor_addr_compare_masked addr (pol_addr tmpe) (maskbits tmpe) CMP_EXACT = 0 then
        if prt_min tmpe \<le> 1 \<and> prt_max tmpe \<ge> 65535 then certain_verdict (policy_type tmpe) maybe_accept maybe_reject
        else if policy_type tmpe = ADDR_POLICY_REJECT then noport_loop addr rest maybe_accept True
        else noport_loop addr rest True maybe_reject
      else noport_loop addr rest maybe_accept maybe_reject)"

definition compare_known_tor_addr_to_addr_policy_noport :: "tor_addr_t \<Rightarrow> addr_policy_t list \<Rightarrow> addr_policy_result_t" where
  "compare_known_tor_addr_to_addr_policy_noport addr policy = noport_loop addr policy False False"

fun unknown_loop :: "u16 \<Rightarrow> addr_policy_t list \<Rightarrow> bool \<Rightarrow> bool \<Rightarrow> addr_policy_result_t" where
  "unknown_loop port [] maybe_accept maybe_reject = (if maybe_reject then ADDR_POLICY_PROBABLY_ACCEPTED else ADDR_POLICY_ACCEPTED)"
| "unknown_loop port (tmpe # rest) maybe_accept maybe_reject =
     (if prt_min tmpe \<le> port \<and> port \<le> prt_max tmpe then
        if maskbits tmpe = 0 then certain_verdict (policy_type tmpe) maybe_accept maybe_reject
        else if policy_type tmpe = ADDR_POLICY_REJECT then unknown_loop port rest maybe_accept True
        else unknown_loop port rest True maybe_reject
      else unknown_loop port rest maybe_accept maybe_reject)"

definition compare_unknown_tor_addr_to_addr_policy :: "u16 \<Rightarrow> addr_policy_t list \<Rightarrow> addr_policy_result_t" where
  "compare_unknown_tor_addr_to_addr_policy port policy = unknown_loop port policy False False"

definition compare_tor_addr_to_addr_policy :: "tor_addr_t option \<Rightarrow> u16 \<Rightarrow> addr_policy_t list option \<Rightarrow> addr_policy_result_t" where
  "compare_tor_addr_to_addr_policy addr port policy =
     (case policy of
        None \<Rightarrow> ADDR_POLICY_ACCEPTED
      | Some policy \<Rightarrow>
          (case addr of
             Some addr \<Rightarrow>
               if tor_addr_is_null addr
               then if port = 0 then ADDR_POLICY_REJECTED else compare_unknown_tor_addr_to_addr_policy port policy
               else if port = 0 then compare_known_tor_addr_to_addr_policy_noport addr policy
               else compare_known_tor_addr_to_addr_policy addr port policy
           | None \<Rightarrow> if port = 0 then ADDR_POLICY_REJECTED else compare_unknown_tor_addr_to_addr_policy port policy))"

definition addr_policy_permits_tor_addr :: "tor_addr_t option \<Rightarrow> u16 \<Rightarrow> addr_policy_t list option \<Rightarrow> bool" where
  "addr_policy_permits_tor_addr addr port policy =
     (case compare_tor_addr_to_addr_policy addr port policy of
        ADDR_POLICY_PROBABLY_ACCEPTED \<Rightarrow> True
      | ADDR_POLICY_ACCEPTED \<Rightarrow> True
      | ADDR_POLICY_PROBABLY_REJECTED \<Rightarrow> False
      | ADDR_POLICY_REJECTED \<Rightarrow> False)"

definition single_addr_policy_eq :: "addr_policy_t \<Rightarrow> addr_policy_t \<Rightarrow> bool" where
  "single_addr_policy_eq a b \<longleftrightarrow> policy_type a = policy_type b \<and> is_private a = is_private b
     \<and> tor_addr_compare (pol_addr a) (pol_addr b) CMP_EXACT = 0 \<and> maskbits a = maskbits b \<and> prt_min a = prt_min b \<and> prt_max a = prt_max b"

definition addr_policies_eq :: "addr_policy_t list option \<Rightarrow> addr_policy_t list option \<Rightarrow> bool" where
  "addr_policies_eq a b =
     (let a = (case a of None \<Rightarrow> [] | Some a \<Rightarrow> a); b = (case b of None \<Rightarrow> [] | Some b \<Rightarrow> b)
      in length a = length b \<and> list_all (\<lambda>i. single_addr_policy_eq (a ! i) (b ! i)) [0..<length a])"

definition addr_policy_covers :: "addr_policy_t \<Rightarrow> addr_policy_t \<Rightarrow> bool" where
  "addr_policy_covers a b =
     (if tor_addr_family (pol_addr a) \<noteq> tor_addr_family (pol_addr b) then False
      else if maskbits a > maskbits b then False
      else if tor_addr_compare_masked (pol_addr a) (pol_addr b) (maskbits a) CMP_EXACT \<noteq> 0 then False
      else prt_min a \<le> prt_min b \<and> prt_max a \<ge> prt_max b)"

definition addr_policy_intersects :: "addr_policy_t \<Rightarrow> addr_policy_t \<Rightarrow> bool" where
  "addr_policy_intersects a b =
     (let minbits = (if maskbits a < maskbits b then maskbits a else maskbits b)
      in if tor_addr_compare_masked (pol_addr a) (pol_addr b) minbits CMP_EXACT \<noteq> 0 then False
         else if prt_max a < prt_min b \<or> prt_max b < prt_min a then False
         else True)"

section \<open>Removing redundant entries\<close>

text \<open>Step one: nothing after a catch-all entry of its family is reachable.\<close>

fun kill_unreachable :: "bool \<Rightarrow> bool \<Rightarrow> addr_policy_t list \<Rightarrow> addr_policy_t list" where
  "kill_unreachable kill_v4 kill_v6 [] = []"
| "kill_unreachable kill_v4 kill_v6 (ap # rest) =
     (let family = tor_addr_family (pol_addr ap) in
      if (family = AF_INET \<and> kill_v4) \<or> (family = AF_INET6 \<and> kill_v6) then kill_unreachable kill_v4 kill_v6 rest
      else if maskbits ap = 0 \<and> prt_min ap \<le> 1 \<and> prt_max ap \<ge> 65535 then
        ap # kill_unreachable (kill_v4 \<or> family = AF_INET) (kill_v6 \<or> family = AF_INET6) rest
      else ap # kill_unreachable kill_v4 kill_v6 rest)"

text \<open>Step two: an entry that an earlier one covers.\<close>

fun remove_covered :: "addr_policy_t list \<Rightarrow> addr_policy_t list" where
  "remove_covered [] = []"
| "remove_covered (ap # rest) = ap # remove_covered (filter (\<lambda>tmp. \<not> addr_policy_covers ap tmp) rest)"

text \<open>Step three: an entry that a later one of its type covers, with no entry of the other type between
  them that meets it.\<close>

fun covered_later :: "addr_policy_t \<Rightarrow> addr_policy_t list \<Rightarrow> bool" where
  "covered_later ap [] = False"
| "covered_later ap (tmp # rest) =
     (if policy_type ap \<noteq> policy_type tmp then if addr_policy_intersects ap tmp then False else covered_later ap rest
      else if addr_policy_covers tmp ap then True
      else covered_later ap rest)"

fun remove_covered_later :: "addr_policy_t list \<Rightarrow> addr_policy_t list" where
  "remove_covered_later [] = []"
| "remove_covered_later (ap # rest) = (if covered_later ap rest then remove_covered_later rest else ap # remove_covered_later rest)"

definition exit_policy_remove_redundancies :: "addr_policy_t list \<Rightarrow> addr_policy_t list" where
  "exit_policy_remove_redundancies dest = remove_covered_later (remove_covered (kill_unreachable False False dest))"

section \<open>Whole policies\<close>

fun policy_expand_unspec :: "addr_policy_t list \<Rightarrow> addr_policy_t list" where
  "policy_expand_unspec [] = []"
| "policy_expand_unspec (p # rest) =
     (let family = tor_addr_family (pol_addr p) in
      if family = AF_INET6 \<or> family = AF_INET \<or> is_private p then p # policy_expand_unspec rest
      else if family = AF_UNSPEC then
        p\<lparr>maskbits := 0, pol_addr := Addr_IPv4 0\<rparr> # p\<lparr>maskbits := 0, pol_addr := Addr_IPv6 0\<rparr> # policy_expand_unspec rest
      else p # policy_expand_unspec rest)"

definition addr_policy_append_reject_addr :: "addr_policy_t list \<Rightarrow> tor_addr_t \<Rightarrow> addr_policy_t list" where
  "addr_policy_append_reject_addr dest addr =
     dest @ [\<lparr>policy_type = ADDR_POLICY_REJECT, is_private = False, maskbits = if tor_addr_family addr = AF_INET6 then 128 else 32,
              pol_addr = addr, prt_min = 1, prt_max = 65535\<rparr>]"

definition tor_addr_is_public_for_reject :: "tor_addr_t \<Rightarrow> bool" where
  "tor_addr_is_public_for_reject addr \<longleftrightarrow> \<not> tor_addr_is_null addr \<and> \<not> tor_addr_is_internal addr False \<and> \<not> tor_addr_is_multicast addr"

definition addr_policy_append_reject_addr_filter :: "addr_policy_t list \<Rightarrow> tor_addr_t \<Rightarrow> bool \<Rightarrow> bool \<Rightarrow> addr_policy_t list" where
  "addr_policy_append_reject_addr_filter dest addr ipv4_rules ipv6_rules =
     (if tor_addr_is_public_for_reject addr \<and> (tor_addr_is_v4 addr \<and> ipv4_rules \<or> \<not> tor_addr_is_v4 addr \<and> ipv6_rules)
      then addr_policy_append_reject_addr dest addr else dest)"

definition addr_policy_append_reject_addr_list :: "addr_policy_t list \<Rightarrow> tor_addr_t list \<Rightarrow> addr_policy_t list" where
  "addr_policy_append_reject_addr_list dest addrs = foldl addr_policy_append_reject_addr dest addrs"

definition addr_policy_append_reject_addr_list_filter :: "addr_policy_t list \<Rightarrow> tor_addr_t list \<Rightarrow> bool \<Rightarrow> bool \<Rightarrow> addr_policy_t list" where
  "addr_policy_append_reject_addr_list_filter dest addrs ipv4_rules ipv6_rules =
     foldl (\<lambda>dest addr. addr_policy_append_reject_addr_filter dest addr ipv4_rules ipv6_rules) dest addrs"

text \<open>
  The configured ports (whether each is a Unix socket, and its address) and the addresses of the
  interfaces, by family, are what \<open>get_configured_ports()\<close> and \<open>get_interface_address6_list()\<close> return.
\<close>

definition policies_parse_exit_policy_reject_private ::
  "(bool \<times> tor_addr_t) list \<Rightarrow> (int \<Rightarrow> tor_addr_t list) \<Rightarrow> addr_policy_t list \<Rightarrow> bool \<Rightarrow> tor_addr_t list option \<Rightarrow> bool \<Rightarrow> bool \<Rightarrow> addr_policy_t list" where
  "policies_parse_exit_policy_reject_private port_addrs interface_addrs dest ipv6_exit configured_addresses
     reject_interface_addresses reject_configured_port_addresses =
     (let dest = (case configured_addresses of Some addrs \<Rightarrow> addr_policy_append_reject_addr_list_filter dest addrs True ipv6_exit | None \<Rightarrow> dest);
          dest = (if reject_configured_port_addresses
                  then foldl (\<lambda>dest (is_unix_addr, addr). if \<not> is_unix_addr then addr_policy_append_reject_addr_filter dest addr True ipv6_exit else dest)
                         dest port_addrs
                  else dest);
          dest = (if reject_interface_addresses
                  then let dest = addr_policy_append_reject_addr_list_filter dest (interface_addrs AF_INET) True False
                       in if ipv6_exit then addr_policy_append_reject_addr_list_filter dest (interface_addrs AF_INET6) False True else dest
                  else dest)
      in exit_policy_remove_redundancies dest)"

fun reject_star_loop :: "addr_policy_t list \<Rightarrow> int \<Rightarrow> bool \<Rightarrow> bool" where
  "reject_star_loop [] family default_reject = default_reject"
| "reject_star_loop (p # rest) family default_reject =
     (let f = tor_addr_family (pol_addr p) in
      if policy_type p = ADDR_POLICY_ACCEPT \<and> (f = family \<or> f = AF_UNSPEC) then False
      else if policy_type p = ADDR_POLICY_REJECT \<and> prt_min p \<le> 1 \<and> prt_max p = 65535 \<and> maskbits p = 0 \<and> (f = family \<or> f = AF_UNSPEC) then True
      else reject_star_loop rest family default_reject)"

definition policy_is_reject_star :: "addr_policy_t list option \<Rightarrow> int \<Rightarrow> bool \<Rightarrow> bool" where
  "policy_is_reject_star policy family default_reject =
     (case policy of None \<Rightarrow> default_reject | Some p \<Rightarrow> reject_star_loop p family default_reject)"

text \<open>The index of the entry that \<open>policies_log_first_redundant_entry\<close> names in its warning.  The two flags
  are local to the loop body.\<close>

fun first_redundant_loop :: "nat \<Rightarrow> addr_policy_t list \<Rightarrow> nat option" where
  "first_redundant_loop i [] = None"
| "first_redundant_loop i (p # rest) =
     (let wildcard = prt_min p \<le> 1 \<and> prt_max p = 65535 \<and> maskbits p = 0;
          family = tor_addr_family (pol_addr p);
          found_ipv4_wildcard = wildcard \<and> (family = AF_INET \<or> family = AF_UNSPEC);
          found_ipv6_wildcard = wildcard \<and> (family = AF_INET6 \<or> family = AF_UNSPEC)
      in if found_ipv4_wildcard \<and> found_ipv6_wildcard then if rest \<noteq> [] then Some (i + 1) else None
         else first_redundant_loop (i + 1) rest)"

definition policies_log_first_redundant_entry :: "addr_policy_t list \<Rightarrow> nat option" where
  "policies_log_first_redundant_entry policy = first_redundant_loop 0 policy"

section \<open>Entries and the addresses they match\<close>

definition pol_matches :: "tor_addr_t \<Rightarrow> u16 \<Rightarrow> addr_policy_t \<Rightarrow> bool" where
  "pol_matches addr port e \<longleftrightarrow> in_net addr (pol_addr e) (maskbits e) \<and> prt_min e \<le> port \<and> port \<le> prt_max e"

definition action_verdict :: "addr_policy_action_t \<Rightarrow> addr_policy_result_t" where
  "action_verdict action = (if action = ADDR_POLICY_ACCEPT then ADDR_POLICY_ACCEPTED else ADDR_POLICY_REJECTED)"

abbreviation decide :: "tor_addr_t \<Rightarrow> u16 \<Rightarrow> addr_policy_t list \<Rightarrow> addr_policy_result_t" where
  "decide \<equiv> compare_known_tor_addr_to_addr_policy"

lemma decide_Cons [simp]: "decide addr port (e # es) = (if pol_matches addr port e then action_verdict (policy_type e) else decide addr port es)"
  by (simp add: compare_exact_iff pol_matches_def action_verdict_def)

declare compare_known_tor_addr_to_addr_policy.simps(2) [simp del]

lemma covers_matches: "addr_policy_covers a b \<Longrightarrow> pol_matches addr port b \<Longrightarrow> pol_matches addr port a"
  by (auto simp: addr_policy_covers_def compare_exact_iff pol_matches_def split: if_splits
      intro: in_net_trans [OF in_net_mono] in_net_sym)

lemma matches_intersect:
  assumes "pol_matches addr port a" "pol_matches addr port b"
  shows "addr_policy_intersects a b"
proof -
  define m where "m = (if maskbits a < maskbits b then maskbits a else maskbits b)"
  have "in_net addr (pol_addr a) m" "in_net addr (pol_addr b) m"
    using assms in_net_mono by (auto simp: pol_matches_def m_def)
  then have "in_net (pol_addr a) (pol_addr b) m" using in_net_sym in_net_trans by blast
  then show ?thesis using assms by (auto simp: addr_policy_intersects_def compare_exact_iff m_def [symmetric] pol_matches_def Let_def)
qed

section \<open>Removing redundant entries keeps every decision\<close>

lemma decide_filter_covered: "(\<And>x. pol_matches addr port x \<Longrightarrow> \<not> Q x) \<Longrightarrow> decide addr port (filter (\<lambda>x. \<not> Q x) es) = decide addr port es"
  by (induction es) auto

lemma decide_remove_covered: "decide addr port (remove_covered es) = decide addr port es"
proof (induction es rule: remove_covered.induct)
  case (2 ap rest)
  then show ?case using decide_filter_covered [of addr port "addr_policy_covers ap" rest] covers_matches [of ap _ addr port] by auto
qed simp

lemma decide_covered_later:
  "covered_later ap es \<Longrightarrow> pol_matches addr port ap \<Longrightarrow> decide addr port es = action_verdict (policy_type ap)"
  by (induction es) (auto simp: matches_intersect covers_matches split: if_splits)

lemma decide_remove_covered_later: "decide addr port (remove_covered_later es) = decide addr port es"
  by (induction es) (auto simp: decide_covered_later)

lemma all_ports:
  assumes "port \<noteq> 0" "lo \<le> 1" "hi \<ge> 65535"
  shows "lo \<le> port" "port \<le> (hi :: u16)"
proof -
  have "1 \<le> port" using assms(1) by (simp add: word_le_nat_alt unat_gt_0 Suc_le_eq)
  then show "lo \<le> port" using assms(2) by order
  have "port \<le> 65535" using unsigned_less [of port, where 'a = nat] by (simp add: word_le_nat_alt)
  then show "port \<le> hi" using assms(3) by order
qed

text \<open>The entries that step one drops come after one that matches every address of their family.\<close>

lemma decide_kill_unreachable:
  assumes "port \<noteq> 0" "kill4 \<Longrightarrow> tor_addr_family addr \<noteq> AF_INET" "kill6 \<Longrightarrow> tor_addr_family addr \<noteq> AF_INET6"
  shows "decide addr port (kill_unreachable kill4 kill6 es) = decide addr port es"
  using assms(2,3)
proof (induction es arbitrary: kill4 kill6)
  case (Cons ap es)
  let ?f = "tor_addr_family (pol_addr ap)"
  have skip: "?f \<noteq> tor_addr_family addr \<Longrightarrow> \<not> pol_matches addr port ap"
    by (auto simp: pol_matches_def dest: in_net_family)
  have all: "?f = tor_addr_family addr \<Longrightarrow> ?f \<in> {AF_INET, AF_INET6} \<Longrightarrow> maskbits ap = 0 \<Longrightarrow> prt_min ap \<le> 1 \<Longrightarrow> prt_max ap \<ge> 65535
      \<Longrightarrow> pol_matches addr port ap"
    using in_net_all [of addr "pol_addr ap"] all_ports [OF assms(1)] by (auto simp: pol_matches_def)
  consider (killed) "?f = AF_INET \<and> kill4 \<or> ?f = AF_INET6 \<and> kill6"
    | (star) "\<not> (?f = AF_INET \<and> kill4 \<or> ?f = AF_INET6 \<and> kill6)" "maskbits ap = 0 \<and> prt_min ap \<le> 1 \<and> prt_max ap \<ge> 65535"
    | (other) "\<not> (?f = AF_INET \<and> kill4 \<or> ?f = AF_INET6 \<and> kill6)" "\<not> (maskbits ap = 0 \<and> prt_min ap \<le> 1 \<and> prt_max ap \<ge> 65535)"
    by blast
  then show ?case
  proof cases
    case killed
    then have "\<not> pol_matches addr port ap" using skip Cons.prems by auto
    then show ?thesis using Cons.IH [OF Cons.prems] killed by (simp add: Let_def)
  next
    case star
    let ?es' = "kill_unreachable (kill4 \<or> ?f = AF_INET) (kill6 \<or> ?f = AF_INET6) es"
    have "\<not> pol_matches addr port ap \<Longrightarrow> decide addr port ?es' = decide addr port es"
      by (rule Cons.IH) (use Cons.prems all star(2) in auto)
    moreover have "kill_unreachable kill4 kill6 (ap # es) = ap # ?es'"
      using star by (simp only: kill_unreachable.simps Let_def if_True if_False simp_thms)
    ultimately show ?thesis by simp
  next
    case other
    then have "kill_unreachable kill4 kill6 (ap # es) = ap # kill_unreachable kill4 kill6 es" by (simp only: kill_unreachable.simps Let_def if_False)
    then show ?thesis using Cons.IH [OF Cons.prems] by simp
  qed
qed simp

lemma decide_remove_redundancies:
  "port \<noteq> 0 \<Longrightarrow> decide addr port (exit_policy_remove_redundancies dest) = decide addr port dest"
  by (simp add: exit_policy_remove_redundancies_def decide_remove_covered_later decide_remove_covered decide_kill_unreachable)

text \<open>C10 Excising the "dead code" of a policy (three passes, the last of which the code asks to have
  double-checked) changes no decision: every address and port is accepted or rejected as before.\<close>

theorem remove_redundancies_decides:
  "port \<noteq> 0 \<Longrightarrow> compare_known_tor_addr_to_addr_policy addr port (exit_policy_remove_redundancies dest)
     = compare_known_tor_addr_to_addr_policy addr port dest"
  by (rule decide_remove_redundancies)

definition redundant_policy :: "addr_policy_t list" where
  "redundant_policy = map (\<lambda>(action, bits, addr). \<lparr>policy_type = action, is_private = False, maskbits = bits, pol_addr = addr, prt_min = 1, prt_max = 65535\<rparr>)
     [(ADDR_POLICY_REJECT, 16, Addr_IPv4 0x0A010000), (ADDR_POLICY_ACCEPT, 8, Addr_IPv4 0x0B000000), (ADDR_POLICY_REJECT, 8, Addr_IPv4 0x0A000000),
      (ADDR_POLICY_ACCEPT, 0, Addr_IPv4 0), (ADDR_POLICY_REJECT, 0, Addr_IPv4 0)]"

theorem remove_redundancies_decides_witness:
  "(80 :: u16) \<noteq> 0 \<and> length (exit_policy_remove_redundancies redundant_policy) = 2
   \<and> compare_known_tor_addr_to_addr_policy (Addr_IPv4 0x0A010203) 80 (exit_policy_remove_redundancies redundant_policy) = ADDR_POLICY_REJECTED"
proof -
  have "length (exit_policy_remove_redundancies redundant_policy) = 2" by code_simp
  moreover have "compare_known_tor_addr_to_addr_policy (Addr_IPv4 0x0A010203) 80 redundant_policy = ADDR_POLICY_REJECTED" by code_simp
  ultimately show ?thesis using remove_redundancies_decides [of 80 "Addr_IPv4 0x0A010203" redundant_policy] by simp
qed

text \<open>Appended rejections, and with them an exit's refusal to connect to its own addresses.\<close>

lemma decide_rejects: "list_all (\<lambda>e. policy_type e = ADDR_POLICY_REJECT) es \<Longrightarrow> decide addr port es = ADDR_POLICY_REJECTED \<longleftrightarrow> list_ex (pol_matches addr port) es"
  by (induction es) (auto simp: action_verdict_def)

abbreviation rejects_all :: "addr_policy_t list \<Rightarrow> bool" where
  "rejects_all es \<equiv> list_all (\<lambda>e. policy_type e = ADDR_POLICY_REJECT) es"

text \<open>What every list of appended rejections keeps: rejections only, and those that match.\<close>

definition extends_rejects :: "addr_policy_t list \<Rightarrow> addr_policy_t list \<Rightarrow> bool" where
  "extends_rejects dest dest' \<longleftrightarrow> (\<exists>more. dest' = dest @ more \<and> rejects_all more)"

lemma extends_refl: "extends_rejects dest dest"
  by (simp add: extends_rejects_def)

lemma extends_trans: "extends_rejects a b \<Longrightarrow> extends_rejects b c \<Longrightarrow> extends_rejects a c"
  by (auto simp: extends_rejects_def)

lemma extends_filter: "extends_rejects dest (addr_policy_append_reject_addr_filter dest addr v4 v6)"
  by (simp add: extends_rejects_def addr_policy_append_reject_addr_filter_def addr_policy_append_reject_addr_def)

lemma extends_foldl: "(\<And>d a. extends_rejects d (f d a)) \<Longrightarrow> extends_rejects dest (foldl f dest as)"
  by (induction "as" arbitrary: dest) (auto intro: extends_refl extends_trans)

lemma extends_list_filter: "extends_rejects dest (addr_policy_append_reject_addr_list_filter dest as v4 v6)"
  unfolding addr_policy_append_reject_addr_list_filter_def by (intro extends_foldl extends_filter)

lemma extends_matches: "extends_rejects d e \<Longrightarrow> list_ex (pol_matches addr port) d \<Longrightarrow> list_ex (pol_matches addr port) e"
  by (auto simp: extends_rejects_def)

lemma extends_rejects_all: "extends_rejects d e \<Longrightarrow> rejects_all d \<Longrightarrow> rejects_all e"
  by (auto simp: extends_rejects_def)

lemma in_net_refl: "in_net a a m"
  by (cases a) (simp_all add: in_net_def)

text \<open>An address that passes the filter is matched on every port.\<close>

definition refused :: "bool \<Rightarrow> bool \<Rightarrow> tor_addr_t \<Rightarrow> bool" where
  "refused v4 v6 addr \<longleftrightarrow> tor_addr_is_public_for_reject addr \<and> (if tor_addr_is_v4 addr then v4 else v6)"

lemma filter_matches: "port \<noteq> 0 \<Longrightarrow> refused v4 v6 addr \<Longrightarrow> list_ex (pol_matches addr port) (addr_policy_append_reject_addr_filter dest addr v4 v6)"
  using all_ports [of port 1 65535]
  by (auto simp: refused_def addr_policy_append_reject_addr_filter_def addr_policy_append_reject_addr_def pol_matches_def in_net_refl split: if_splits)

lemma foldl_matches:
  assumes "\<And>d a. extends_rejects d (f d a)" "x \<in> set as" "\<And>d. list_ex (pol_matches addr port) (f d x)"
  shows "list_ex (pol_matches addr port) (foldl f dest as)"
  using assms(2)
proof (induction "as" arbitrary: dest)
  case (Cons a as)
  show ?case
  proof (cases "x = a")
    case True
    then show ?thesis using extends_matches [OF extends_foldl [of f "f dest a" as, OF assms(1)]] assms(3) by simp
  next
    case False
    then show ?thesis using Cons by simp
  qed
qed simp

lemma list_filter_matches:
  "port \<noteq> 0 \<Longrightarrow> refused v4 v6 addr \<Longrightarrow> addr \<in> set as \<Longrightarrow> list_ex (pol_matches addr port) (addr_policy_append_reject_addr_list_filter dest as v4 v6)"
  unfolding addr_policy_append_reject_addr_list_filter_def by (intro foldl_matches [where x = addr] extends_filter filter_matches)

text \<open>The addresses of the relay itself that the options name.\<close>

definition own_addresses :: "(bool \<times> tor_addr_t) list \<Rightarrow> (int \<Rightarrow> tor_addr_t list) \<Rightarrow> tor_addr_t list option \<Rightarrow> bool \<Rightarrow> bool \<Rightarrow> tor_addr_t set" where
  "own_addresses ports ifaces configured use_ifaces use_ports =
     (case configured of Some addrs \<Rightarrow> set addrs | None \<Rightarrow> {})
     \<union> (if use_ports then {addr. (False, addr) \<in> set ports} else {})
     \<union> (if use_ifaces then {addr \<in> set (ifaces AF_INET). tor_addr_is_v4 addr} \<union> {addr \<in> set (ifaces AF_INET6). \<not> tor_addr_is_v4 addr} else {})"

lemma own_addresses_decided:
  assumes "port \<noteq> 0" "rejects_all dest" "addr \<in> own_addresses ports ifaces configured use_ifaces use_ports" "refused True ipv6_exit addr"
  shows "decide addr port (policies_parse_exit_policy_reject_private ports ifaces dest ipv6_exit configured use_ifaces use_ports) = ADDR_POLICY_REJECTED"
proof -
  define d1 where "d1 = (case configured of Some addrs \<Rightarrow> addr_policy_append_reject_addr_list_filter dest addrs True ipv6_exit | None \<Rightarrow> dest)"
  define f where "f = (\<lambda>dest (is_unix_addr, addr). if \<not> is_unix_addr then addr_policy_append_reject_addr_filter dest addr True ipv6_exit else dest)"
  define d2 where "d2 = (if use_ports then foldl f d1 ports else d1)"
  define d3 where "d3 = (if use_ifaces then addr_policy_append_reject_addr_list_filter d2 (ifaces AF_INET) True False else d2)"
  define d4 where "d4 = (if use_ifaces \<and> ipv6_exit then addr_policy_append_reject_addr_list_filter d3 (ifaces AF_INET6) False True else d3)"
  have f: "extends_rejects d (f d a)" for d a by (auto simp: f_def extends_filter extends_refl split: prod.splits)
  have e1: "extends_rejects dest d1" by (auto simp: d1_def extends_list_filter extends_refl split: option.splits)
  have e2: "extends_rejects d1 d2" using extends_foldl [of f, OF f] by (auto simp: d2_def extends_refl)
  have e3: "extends_rejects d2 d3" by (auto simp: d3_def extends_list_filter extends_refl)
  have e4: "extends_rejects d3 d4" by (auto simp: d4_def extends_list_filter extends_refl)
  let ?hit = "list_ex (pol_matches addr port)"
  have m1: "configured = Some as \<Longrightarrow> addr \<in> set as \<Longrightarrow> ?hit d1" for "as" using list_filter_matches [OF assms(1,4)] by (simp add: d1_def)
  have m2: "use_ports \<Longrightarrow> (False, addr) \<in> set ports \<Longrightarrow> ?hit d2"
    using foldl_matches [of f "(False, addr)" ports addr port d1, OF f] filter_matches [OF assms(1,4)] by (simp add: d2_def f_def)
  have r: "tor_addr_is_v4 addr \<Longrightarrow> refused True False addr" "\<not> tor_addr_is_v4 addr \<Longrightarrow> ipv6_exit \<and> refused False True addr"
    using assms(4) by (auto simp: refused_def)
  have m3: "use_ifaces \<Longrightarrow> addr \<in> set (ifaces AF_INET) \<Longrightarrow> tor_addr_is_v4 addr \<Longrightarrow> ?hit d3" using list_filter_matches [OF assms(1) r(1)] by (simp add: d3_def)
  have m4: "use_ifaces \<Longrightarrow> addr \<in> set (ifaces AF_INET6) \<Longrightarrow> \<not> tor_addr_is_v4 addr \<Longrightarrow> ?hit d4"
    using list_filter_matches [OF assms(1)] r(2) by (simp add: d4_def)
  have "?hit d4" using assms(3) m1 m2 m3 m4 extends_matches e2 e3 e4 by (auto simp: own_addresses_def split: option.splits if_splits; blast)
  moreover have "rejects_all d4" using e1 e2 e3 e4 assms(2) extends_rejects_all by blast
  ultimately have "decide addr port d4 = ADDR_POLICY_REJECTED" using decide_rejects by blast
  moreover have "policies_parse_exit_policy_reject_private ports ifaces dest ipv6_exit configured use_ifaces use_ports = exit_policy_remove_redundancies d4"
    by (simp add: policies_parse_exit_policy_reject_private_def d1_def d2_def d3_def d4_def f_def Let_def)
  ultimately show ?thesis using decide_remove_redundancies [OF assms(1)] by simp
qed

text \<open>C11 An exit refuses to connect to itself: after the rejections for the relay's own addresses have been added
  to a policy that so far only rejects, and redundant entries removed again, every public address
  that is configured, listened on or found on an interface is rejected on every port (an IPv6 one if
  the relay exits to IPv6 at all).\<close>

theorem own_addresses_rejected:
  assumes "port \<noteq> 0" "list_all (\<lambda>e. policy_type e = ADDR_POLICY_REJECT) dest"
    and "addr \<in> own_addresses ports ifaces configured use_ifaces use_ports" "refused True ipv6_exit addr"
  shows "compare_known_tor_addr_to_addr_policy addr port
      (policies_parse_exit_policy_reject_private ports ifaces dest ipv6_exit configured use_ifaces use_ports) = ADDR_POLICY_REJECTED"
  by (rule own_addresses_decided [OF assms])

theorem own_addresses_rejected_witness:
  "Addr_IPv4 0x01020304 \<in> own_addresses [(False, Addr_IPv4 0x01020304)] (\<lambda>_. []) None True True \<and> refused True False (Addr_IPv4 0x01020304)
   \<and> compare_known_tor_addr_to_addr_policy (Addr_IPv4 0x01020304) 22
       (policies_parse_exit_policy_reject_private [(False, Addr_IPv4 0x01020304)] (\<lambda>_. []) [] False None True True) = ADDR_POLICY_REJECTED"
proof -
  have a: "Addr_IPv4 0x01020304 \<in> own_addresses [(False, Addr_IPv4 0x01020304)] (\<lambda>_. []) None True True" by (simp add: own_addresses_def)
  have b: "refused True False (Addr_IPv4 0x01020304)" by code_simp
  from own_addresses_rejected [OF _ _ a b, of 22 "[]"] show ?thesis using a b by simp
qed

section \<open>Answers without a port or without an address\<close>

text \<open>
  Both loops answer for a set of targets at once.  An entry that may match some target is possible, one
  that matches all of them is certain; the loop remembers which actions were possible.  A definite
  answer is then the decision for each target.
\<close>

locale cautious_scan =
  fixes loop :: "addr_policy_t list \<Rightarrow> bool \<Rightarrow> bool \<Rightarrow> addr_policy_result_t"
    and possible certain admitted :: "addr_policy_t \<Rightarrow> bool"
    and targets :: "(tor_addr_t \<times> u16) set"
  assumes loop_Nil: "loop [] ma mr = (if mr then ADDR_POLICY_PROBABLY_ACCEPTED else ADDR_POLICY_ACCEPTED)"
    and loop_Cons: "loop (e # es) ma mr =
      (if possible e then if certain e then certain_verdict (policy_type e) ma mr
                          else if policy_type e = ADDR_POLICY_REJECT then loop es ma True else loop es True mr
       else loop es ma mr)"
    and certain_matches: "admitted e \<Longrightarrow> possible e \<Longrightarrow> certain e \<Longrightarrow> (addr, port) \<in> targets \<Longrightarrow> pol_matches addr port e"
    and matches_possible: "admitted e \<Longrightarrow> pol_matches addr port e \<Longrightarrow> (addr, port) \<in> targets \<Longrightarrow> possible e"
begin

lemma flags_rule_out:
  "loop es ma mr = ADDR_POLICY_ACCEPTED \<Longrightarrow> \<not> mr" "loop es ma mr = ADDR_POLICY_REJECTED \<Longrightarrow> \<not> ma"
  by (induction es arbitrary: ma mr) (auto simp: loop_Nil loop_Cons certain_verdict_def split: if_splits)

lemma definite_decides:
  assumes "loop es ma mr = action_verdict action" "(addr, port) \<in> targets" "list_all admitted es"
  shows "decide addr port es = action_verdict action"
  using assms(1,3)
proof (induction es arbitrary: ma mr)
  case Nil
  then show ?case by (auto simp: loop_Nil action_verdict_def split: if_splits)
next
  case (Cons e es)
  have adm: "admitted e" "list_all admitted es" using Cons.prems(2) by auto
  consider (no) "\<not> possible e" | (sure) "possible e" "certain e" | (maybe) "possible e" "\<not> certain e" by blast
  then show ?case
  proof cases
    case no
    then have "\<not> pol_matches addr port e" using matches_possible [OF adm(1) _ assms(2)] by blast
    moreover have "decide addr port es = action_verdict action" using Cons.prems(1) no by (intro Cons.IH [OF _ adm(2)]) (simp add: loop_Cons)
    ultimately show ?thesis by simp
  next
    case sure
    then have "certain_verdict (policy_type e) ma mr = action_verdict action" using Cons.prems(1) by (simp add: loop_Cons)
    then have "action_verdict (policy_type e) = action_verdict action" by (simp add: certain_verdict_def action_verdict_def split: if_splits)
    then show ?thesis using certain_matches [OF adm(1) sure assms(2)] by simp
  next
    case maybe
    then obtain ma' mr' where next_flags: "loop es ma' mr' = action_verdict action" "if policy_type e = ADDR_POLICY_REJECT then mr' else ma'"
      using Cons.prems(1) by (simp only: loop_Cons if_True if_False) (metis (full_types))
    have "policy_type e = action"
      using next_flags flags_rule_out [of es ma' mr'] by (cases "policy_type e"; cases action) (simp_all add: action_verdict_def)
    then show ?thesis using Cons.IH [OF next_flags(1) adm(2)] by simp
  qed
qed

end

interpretation noport: cautious_scan "noport_loop addr" "\<lambda>e. in_net addr (pol_addr e) (maskbits e)" "\<lambda>e. prt_min e \<le> 1 \<and> prt_max e \<ge> 65535"
  "\<lambda>_. True" "{addr} \<times> {port. port \<noteq> 0}" for addr
  by unfold_locales (auto simp: compare_exact_iff pol_matches_def intro: all_ports)

interpretation noaddr: cautious_scan "unknown_loop port" "\<lambda>e. prt_min e \<le> port \<and> port \<le> prt_max e" "\<lambda>e. maskbits e = 0"
  "\<lambda>e. tor_addr_family (pol_addr e) = family \<and> family \<in> {AF_INET, AF_INET6}" "{addr. tor_addr_family addr = family} \<times> {port}" for port family
  by unfold_locales (auto simp: pol_matches_def intro: in_net_all)

text \<open>C13 Asked about an address without a port, or about a port without an address, a definite answer is the
  decision for every port (for every address of the family, if the policy has no entry of another
  family): \<open>PROBABLY\<close> answers are given whenever two targets might be decided differently.\<close>

theorem partial_answer_sound:
  assumes "port \<noteq> 0" "\<not> tor_addr_is_null addr" "tor_addr_family addr = family" "family \<in> {AF_INET, AF_INET6}"
  shows "(compare_tor_addr_to_addr_policy (Some addr) 0 (Some p) = action_verdict action \<longrightarrow>
      compare_tor_addr_to_addr_policy (Some addr) port (Some p) = action_verdict action)
    \<and> (list_all (\<lambda>e. tor_addr_family (pol_addr e) = family) p \<and> compare_tor_addr_to_addr_policy None port (Some p) = action_verdict action \<longrightarrow>
      compare_tor_addr_to_addr_policy (Some addr) port (Some p) = action_verdict action)"
  using assms noport.definite_decides [of addr p False False action addr port] noaddr.definite_decides [of port p False False action addr port family]
  by (auto simp: compare_tor_addr_to_addr_policy_def compare_known_tor_addr_to_addr_policy_noport_def compare_unknown_tor_addr_to_addr_policy_def list_all_iff)

definition any4 :: "addr_policy_action_t \<Rightarrow> addr_policy_t" where
  "any4 action = \<lparr>policy_type = action, is_private = False, maskbits = 0, pol_addr = Addr_IPv4 0, prt_min = 1, prt_max = 65535\<rparr>"

definition any6 :: "addr_policy_action_t \<Rightarrow> addr_policy_t" where
  "any6 action = any4 action \<lparr>pol_addr := Addr_IPv6 0\<rparr>"

theorem partial_answer_sound_witness:
  "\<not> tor_addr_is_null (Addr_IPv4 0x01020304) \<and> compare_tor_addr_to_addr_policy (Some (Addr_IPv4 0x01020304)) 0 (Some [any4 ADDR_POLICY_REJECT]) = action_verdict ADDR_POLICY_REJECT
   \<and> compare_tor_addr_to_addr_policy None 80 (Some [any4 ADDR_POLICY_REJECT]) = action_verdict ADDR_POLICY_REJECT
   \<and> compare_tor_addr_to_addr_policy (Some (Addr_IPv4 0x01020304)) 80 (Some [any4 ADDR_POLICY_REJECT]) = action_verdict ADDR_POLICY_REJECT"
proof -
  have n: "\<not> tor_addr_is_null (Addr_IPv4 0x01020304)" "tor_addr_family (Addr_IPv4 0x01020304) = AF_INET" by code_simp+
  have a: "compare_tor_addr_to_addr_policy (Some (Addr_IPv4 0x01020304)) 0 (Some [any4 ADDR_POLICY_REJECT]) = action_verdict ADDR_POLICY_REJECT"
    "compare_tor_addr_to_addr_policy None 80 (Some [any4 ADDR_POLICY_REJECT]) = action_verdict ADDR_POLICY_REJECT" by code_simp+
  then show ?thesis using n partial_answer_sound [of 80 "Addr_IPv4 0x01020304" AF_INET "[any4 ADDR_POLICY_REJECT]" ADDR_POLICY_REJECT] by simp
qed

text \<open>
  With entries of both families, an entry of one family is taken to cover all addresses: the policy
  \<open>reject *4:*, accept *6:*\<close> is said to reject port 80 at every address, although it accepts it at
  \<open>::2\<close>.
\<close>

theorem unknown_address_wrong_family:
  "let p = [any4 ADDR_POLICY_REJECT, any6 ADDR_POLICY_ACCEPT] in
     compare_tor_addr_to_addr_policy None 80 (Some p) = ADDR_POLICY_REJECTED \<and>
     compare_tor_addr_to_addr_policy (Some (Addr_IPv6 2)) 80 (Some p) = ADDR_POLICY_ACCEPTED"
  by code_simp

section \<open>Wildcards of both families\<close>

text \<open>An entry whose address is unspecified is meant to match every IP address.\<close>

definition meant_matches :: "tor_addr_t \<Rightarrow> u16 \<Rightarrow> addr_policy_t \<Rightarrow> bool" where
  "meant_matches addr port e \<longleftrightarrow> (if pol_addr e = Addr_Unspec then prt_min e \<le> port \<and> port \<le> prt_max e else pol_matches addr port e)"

fun meant_decision :: "tor_addr_t \<Rightarrow> u16 \<Rightarrow> addr_policy_t list \<Rightarrow> addr_policy_result_t" where
  "meant_decision addr port [] = ADDR_POLICY_ACCEPTED"
| "meant_decision addr port (e # es) = (if meant_matches addr port e then action_verdict (policy_type e) else meant_decision addr port es)"

lemma family_unspec [simp]: "tor_addr_family a = AF_UNSPEC \<longleftrightarrow> a = Addr_Unspec"
  by (cases a) (simp_all add: AF_defs)

lemma expand_decides:
  assumes "tor_addr_family addr \<in> {AF_INET, AF_INET6}" "list_all (\<lambda>e. \<not> is_private e) es"
  shows "decide addr port (policy_expand_unspec es) = meant_decision addr port es"
  using assms(2)
proof (induction es)
  case (Cons e es)
  have wild: "in_net addr (Addr_IPv4 0) 0 \<or> in_net addr (Addr_IPv6 0) 0" using assms(1) by (cases addr) (auto simp: in_net_def AF_defs)
  show ?case
  proof (cases "pol_addr e = Addr_Unspec")
    case True
    then show ?thesis using Cons wild by (auto simp: Let_def AF_defs meant_matches_def pol_matches_def)
  next
    case False
    then show ?thesis using Cons by (simp add: Let_def meant_matches_def)
  qed
qed simp

text \<open>The expanded policy has no such entry left, so no later comparison meets one.\<close>

lemma expand_no_unspec: "list_all (\<lambda>e. \<not> is_private e) es \<Longrightarrow> list_all (\<lambda>e. pol_addr e \<noteq> Addr_Unspec) (policy_expand_unspec es)"
  by (induction es) (auto simp: Let_def AF_defs)

text \<open>A policy that \<open>policy_is_reject_star\<close> recognises rejects every address of the family.\<close>

lemma reject_star_decides:
  assumes "family \<in> {AF_INET, AF_INET6}" "tor_addr_family addr = family" "port \<noteq> 0" "list_all (\<lambda>e. pol_addr e \<noteq> Addr_Unspec) es"
  shows "reject_star_loop es family False \<Longrightarrow> decide addr port es = ADDR_POLICY_REJECTED"
  using assms(4)
proof (induction es)
  case (Cons e es)
  show ?case
  proof (cases "tor_addr_family (pol_addr e) = family")
    case True
    then have "maskbits e = 0 \<Longrightarrow> prt_min e \<le> 1 \<Longrightarrow> prt_max e = 65535 \<Longrightarrow> pol_matches addr port e"
      using in_net_all [of addr "pol_addr e"] assms(1,2) all_ports [OF assms(3)] by (auto simp: pol_matches_def)
    then show ?thesis using Cons True by (cases "policy_type e") (auto simp: Let_def action_verdict_def split: if_splits)
  next
    case False
    then have "\<not> pol_matches addr port e" using assms(2) by (auto simp: pol_matches_def dest: in_net_family)
    then show ?thesis using Cons False by (auto simp: Let_def split: if_splits)
  qed
qed simp

text \<open>
  The search for the first redundant entry never finds one in an expanded policy, although its comments
  promise it for a wildcard of each family: the flags are fresh for every entry, and one entry of a
  single family never sets both.
\<close>

theorem redundant_entry_never_found: "list_all (\<lambda>e. pol_addr e \<noteq> Addr_Unspec) p \<Longrightarrow> policies_log_first_redundant_entry p = None"
proof -
  have "list_all (\<lambda>e. pol_addr e \<noteq> Addr_Unspec) p \<Longrightarrow> first_redundant_loop i p = None" for i
    by (induction p arbitrary: i) (auto simp: Let_def AF_INET_def AF_INET6_def)
  then show "list_all (\<lambda>e. pol_addr e \<noteq> Addr_Unspec) p \<Longrightarrow> policies_log_first_redundant_entry p = None"
    by (simp add: policies_log_first_redundant_entry_def)
qed

end
