(* ===== verification/Policy_Summary.thy ===== *)
theory Policy_Summary
  imports Policies Smartlist
begin

text \<open>
  Summaries of exit policies, the second half of \<open>core/or/policies.c\<close>: a list of port ranges is built from
  a policy, printed, and parsed by clients.  A result of \<open>None\<close> stands for a failed assertion or an
  access outside a list.
\<close>

section \<open>Building a summary\<close>

definition port_range_out :: "int \<Rightarrow> int \<Rightarrow> u16 \<times> u16" where
  "port_range_out port_min port_max = (of_int (if port_min < 1 then 1 else port_min), of_int (if port_max > 65535 then 65535 else port_max))"

definition parse_port_range :: "string option \<Rightarrow> (u16 \<times> u16) option" where
  "parse_port_range port =
     (case port of
        None \<Rightarrow> Some (port_range_out 1 65535)
      | Some port \<Rightarrow>
          if port = [] \<or> port = ''*'' then Some (port_range_out 1 65535)
          else
            let (port_min, ok, endptr) = tor_parse_long port 0 65535 True in
            if \<not> ok then None
            else do {
              port_max \<leftarrow>
                (if endptr \<noteq> [] then
                   if deref endptr \<noteq> CHR ''-'' then None
                   else let (port_max, ok, endptr) = tor_parse_long (tl endptr) 1 65535 True in if \<not> ok then None else Some port_max
                 else Some port_min);
              if port_min > port_max then None else Some (port_range_out port_min port_max)
            })"

record policy_summary_item_t =
  s_prt_min :: u16
  s_prt_max :: u16
  reject_count :: u64
  accepted :: bool

type_synonym summary = "policy_summary_item_t list"

definition policy_summary_create :: summary where
  "policy_summary_create = [\<lparr>s_prt_min = 1, s_prt_max = 65535, reject_count = 0, accepted = False\<rparr>]"

definition policy_summary_item_split :: "policy_summary_item_t \<Rightarrow> u16 \<Rightarrow> (policy_summary_item_t \<times> policy_summary_item_t) option" where
  "policy_summary_item_split old new_starts =
     (let new = \<lparr>s_prt_min = new_starts, s_prt_max = s_prt_max old, reject_count = reject_count old, accepted = accepted old\<rparr>;
          old = old\<lparr>s_prt_max := new_starts - 1\<rparr>
      in if s_prt_min old \<le> s_prt_max old \<and> s_prt_min new \<le> s_prt_max new then Some (old, new) else None)"

definition REJECT_CUTOFF_SCALE_IPV4 :: int where "REJECT_CUTOFF_SCALE_IPV4 = 0"
definition REJECT_CUTOFF_COUNT_IPV4 :: u64 where "REJECT_CUTOFF_COUNT_IPV4 = push_bit 25 1"
definition REJECT_CUTOFF_SCALE_IPV6 :: int where "REJECT_CUTOFF_SCALE_IPV6 = 64"
definition REJECT_CUTOFF_COUNT_IPV6 :: u64 where "REJECT_CUTOFF_COUNT_IPV6 = push_bit 48 1"

text \<open>\<open>while (AT(i)->prt_max < port) i++\<close>\<close>

function item_ending_at :: "summary \<Rightarrow> nat \<Rightarrow> u16 \<Rightarrow> nat option" where
  "item_ending_at summary i port =
     (if i < length summary then if s_prt_max (summary ! i) < port then item_ending_at summary (i + 1) port else Some i else None)"
  by auto
termination by (relation "measure (\<lambda>(summary, i, port). length summary - i)") auto

declare item_ending_at.simps [simp del]

definition split_at :: "summary \<Rightarrow> nat \<Rightarrow> u16 \<Rightarrow> summary option" where
  "split_at summary i new_starts =
     map_option (\<lambda>(old, new). take i summary @ old # new # drop (i + 1) summary) (policy_summary_item_split (summary ! i) new_starts)"

definition policy_summary_split :: "summary \<Rightarrow> u16 \<Rightarrow> u16 \<Rightarrow> (summary \<times> nat) option" where
  "policy_summary_split summary min_prt max_prt = do {
     i \<leftarrow> item_ending_at summary 0 min_prt;
     (summary, start_at_index) \<leftarrow>
       (if s_prt_min (summary ! i) \<noteq> min_prt then map_option (\<lambda>summary. (summary, i + 1)) (split_at summary i min_prt) else Some (summary, i));
     i \<leftarrow> item_ending_at summary start_at_index max_prt;
     summary \<leftarrow> (if s_prt_max (summary ! i) \<noteq> max_prt then split_at summary i (max_prt + 1) else Some summary);
     Some (summary, start_at_index)
   }"

text \<open>The two loops that update every item from an index up to the end of a range of ports.\<close>

function update_items :: "(policy_summary_item_t \<Rightarrow> policy_summary_item_t) \<Rightarrow> u16 \<Rightarrow> summary \<Rightarrow> nat \<Rightarrow> summary \<times> nat" where
  "update_items f max_prt summary i =
     (if i < length summary \<and> s_prt_max (summary ! i) \<le> max_prt then update_items f max_prt (summary[i := f (summary ! i)]) (i + 1) else (summary, i))"
  by auto
termination by (relation "measure (\<lambda>(f, max_prt, summary, i). length summary - i)") auto

declare update_items.simps [simp del]

definition accept_item :: "u64 \<Rightarrow> policy_summary_item_t \<Rightarrow> policy_summary_item_t" where
  "accept_item family_reject_count it = (if \<not> accepted it \<and> reject_count it \<le> family_reject_count then it\<lparr>accepted := True\<rparr> else it)"

definition policy_summary_accept :: "summary \<Rightarrow> u16 \<Rightarrow> u16 \<Rightarrow> int \<Rightarrow> summary option" where
  "policy_summary_accept summary min_prt max_prt family =
     (let family_reject_count = (if family = AF_INET then REJECT_CUTOFF_COUNT_IPV4 else REJECT_CUTOFF_COUNT_IPV6) in do {
        (summary, i) \<leftarrow> policy_summary_split summary min_prt max_prt;
        let (summary, i) = update_items (accept_item family_reject_count) max_prt summary i;
        if i < length summary \<or> max_prt = 65535 then Some summary else None
      })"

definition UINT64_MAX :: u64 where "UINT64_MAX = 18446744073709551615"

definition count_item :: "u64 \<Rightarrow> policy_summary_item_t \<Rightarrow> policy_summary_item_t" where
  "count_item n_addrs it =
     it\<lparr>reject_count := if reject_count it \<le> UINT64_MAX - n_addrs then reject_count it + n_addrs else UINT64_MAX\<rparr>"

definition family_scale :: "int \<Rightarrow> int" where
  "family_scale family = (if family = AF_INET then 32 - REJECT_CUTOFF_SCALE_IPV4 else 128 - REJECT_CUTOFF_SCALE_IPV6)"

definition policy_summary_reject :: "summary \<Rightarrow> nat \<Rightarrow> u16 \<Rightarrow> u16 \<Rightarrow> int \<Rightarrow> summary option" where
  "policy_summary_reject summary bits min_prt max_prt family = do {
     (summary, i) \<leftarrow> policy_summary_split summary min_prt max_prt;
     let width = family_scale family;
     if int bits > width then Some summary
     else do {
       let n_addrs = (if width - int bits \<ge> 64 then UINT64_MAX else push_bit (nat (width - int bits)) 1);
       let (summary, i) = update_items (count_item n_addrs) max_prt summary i;
       if i < length summary \<or> max_prt = 65535 then Some summary else None
     }
   }"

text \<open>The networks that the strings in \<open>private_nets\<close> denote.\<close>

definition private_nets :: "(tor_addr_t \<times> nat) list" where
  "private_nets =
     [(Addr_IPv4 0, 8), (Addr_IPv4 0xA9FE0000, 16), (Addr_IPv4 0x7F000000, 8), (Addr_IPv4 0xC0A80000, 16), (Addr_IPv4 0x0A000000, 8),
      (Addr_IPv4 0xAC100000, 12), (Addr_IPv6 0, 8), (Addr_IPv6 0xFC000000000000000000000000000000, 7),
      (Addr_IPv6 0xFE800000000000000000000000000000, 10), (Addr_IPv6 0xFEC00000000000000000000000000000, 10),
      (Addr_IPv6 0xFF000000000000000000000000000000, 8), (Addr_IPv6 0, 127)]"

definition is_private_net :: "addr_policy_t \<Rightarrow> bool" where
  "is_private_net p \<longleftrightarrow> list_ex (\<lambda>(addr, bits). tor_addr_compare (pol_addr p) addr CMP_EXACT = 0 \<and> maskbits p = bits) private_nets"

definition policy_summary_add_item :: "summary \<Rightarrow> addr_policy_t \<Rightarrow> summary option" where
  "policy_summary_add_item summary p =
     (case policy_type p of
        ADDR_POLICY_ACCEPT \<Rightarrow>
          if maskbits p = 0 then policy_summary_accept summary (prt_min p) (prt_max p) (tor_addr_family (pol_addr p)) else Some summary
      | ADDR_POLICY_REJECT \<Rightarrow>
          if \<not> is_private_net p then policy_summary_reject summary (maskbits p) (prt_min p) (prt_max p) (tor_addr_family (pol_addr p))
          else Some summary)"

text \<open>The expansion of the keyword \<open>private\<close>.\<close>

fun policy_expand_private :: "addr_policy_t list \<Rightarrow> addr_policy_t list" where
  "policy_expand_private [] = []"
| "policy_expand_private (p # rest) =
     (if \<not> is_private p then p # policy_expand_private rest
      else map (\<lambda>(addr, bits). p\<lparr>is_private := False, pol_addr := addr, maskbits := bits\<rparr>) private_nets @ policy_expand_private rest)"

section \<open>Printing it\<close>

definition range_string :: "nat \<Rightarrow> nat \<Rightarrow> string" where
  "range_string start_prt end_prt = (if start_prt = end_prt then show_dec start_prt else show_dec start_prt @ ''-'' @ show_dec end_prt)"

text \<open>The loop that merges neighbouring items with the same answer; the results are the lists \<open>accepts\<close> and
  \<open>rejects\<close>.\<close>

fun summary_strings :: "u16 \<Rightarrow> summary \<Rightarrow> string list \<times> string list" where
  "summary_strings start_prt [] = ([], [])"
| "summary_strings start_prt [it] =
     (let buf = range_string (unat start_prt) (unat (s_prt_max it)) in if accepted it then ([buf], []) else ([], [buf]))"
| "summary_strings start_prt (it # it2 # rest) =
     (if accepted it \<noteq> accepted it2 then
        let buf = range_string (unat start_prt) (unat (s_prt_max it)); (accepts, rejects) = summary_strings (s_prt_min it2) (it2 # rest)
        in if accepted it then (buf # accepts, rejects) else (accepts, buf # rejects)
      else summary_strings start_prt (it2 # rest))"

definition MAX_EXITPOLICY_SUMMARY_LEN :: nat where "MAX_EXITPOLICY_SUMMARY_LEN = 1000"

text \<open>The scan backwards from \<open>c\<close> for a comma; the string is cut there.\<close>

fun cut_at_comma :: "string \<Rightarrow> nat \<Rightarrow> string option" where
  "cut_at_comma s 0 = (if deref s = CHR '','' then Some [] else None)"
| "cut_at_comma s (Suc c) = (if Suc c < length s \<and> s ! Suc c = CHR '','' then Some (take (Suc c) s) else cut_at_comma s c)"

fun summarize_items :: "addr_policy_t list \<Rightarrow> int \<Rightarrow> summary \<Rightarrow> summary option" where
  "summarize_items [] family summary = Some summary"
| "summarize_items (p # policy) family summary =
     (if tor_addr_family (pol_addr p) \<noteq> family then summarize_items policy family summary
      else do { summary \<leftarrow> policy_summary_add_item summary p; summarize_items policy family summary })"

definition policy_summarize :: "addr_policy_t list \<Rightarrow> int \<Rightarrow> string option" where
  "policy_summarize policy family = do {
     summary \<leftarrow> summarize_items policy family policy_summary_create;
     let (accepts, rejects) = summary_strings 1 summary;
     if accepts = [] then Some ''reject 1-65535''
     else if rejects = [] then Some ''accept 1-65535''
     else do {
       accepts_str \<leftarrow> smartlist_join_strings accepts '','' False;
       rejects_str \<leftarrow> smartlist_join_strings rejects '','' False;
       if length rejects_str > MAX_EXITPOLICY_SUMMARY_LEN - length ''reject'' - 1
          \<and> length accepts_str > MAX_EXITPOLICY_SUMMARY_LEN - length ''accept'' - 1 then do {
         shorter_str \<leftarrow> cut_at_comma accepts_str (MAX_EXITPOLICY_SUMMARY_LEN - length ''accept'' - 1);
         Some (''accept'' @ '' '' @ shorter_str)
       }
       else if length rejects_str < length accepts_str then Some (''reject'' @ '' '' @ rejects_str)
       else Some (''accept'' @ '' '' @ accepts_str)
     }
   }"

section \<open>Short policies\<close>

record short_policy_t =
  is_accept :: bool
  entries :: "(u16 \<times> u16) list"

text \<open>\<open>strchr(next, ',')\<close>, then one character on.\<close>

definition after_comma :: "string \<Rightarrow> string option" where
  "after_comma s = map_option (\<lambda>k. drop (k + 1) s) (index_of (CHR '','') s)"

datatype parsed_entry = Entry "u16 \<times> u16" string | Skip string | Bad

text \<open>One round of the loop: an entry and the string after it, the string to skip in, or a bad entry.\<close>

definition parse_short_entry :: "string \<Rightarrow> parsed_entry" where
  "parse_short_entry summary =
     (let (low, ok, next) = tor_parse_ulong summary 1 65535 True in
      if \<not> ok then if \<not> TOR_ISDIGIT (deref summary) \<or> deref summary = CHR '','' then Skip next else Bad
      else if deref next = CHR '','' then Entry (of_int low, of_int low) (tl next)
      else if next = [] then Entry (of_int low, of_int low) next
      else if deref next = CHR ''-'' then
        let (high, ok, next) = tor_parse_ulong (tl next) low 65535 True in
        if \<not> ok then Bad
        else if deref next = CHR '','' then Entry (of_int low, of_int high) (tl next)
        else if next \<noteq> [] then Bad
        else Entry (of_int low, of_int high) next
      else Bad)"

lemma strtoul_suffix:
  assumes "strtoul10 s = (v, e, r)"
  shows "length r \<le> length s"
proof -
  define t where "t = dropWhile TOR_ISSPACE s"
  have t: "length t \<le> length s" by (simp add: t_def length_dropWhile_le)
  show ?thesis using assms t unfolding strtoul10_def Let_def t_def [symmetric] by (auto split: if_splits)
qed

lemma parse_ulong_suffix: "tor_parse_ulong s lo hi b = (v, ok, r) \<Longrightarrow> length r \<le> length s"
  using strtoul_suffix by (auto simp: tor_parse_ulong_def split: prod.splits if_splits)

lemma skip_suffix: "parse_short_entry s = Skip r \<Longrightarrow> length r \<le> length s"
  using parse_ulong_suffix by (auto simp: parse_short_entry_def Let_def split: prod.splits if_splits)

lemma after_comma_shorter: "after_comma s = Some r \<Longrightarrow> length r < length s"
  using index_of_less by (fastforce simp: after_comma_def)

text \<open>The entries in order, \<open>n_entries\<close> of them read before.\<close>

function parse_short_loop :: "string \<Rightarrow> nat \<Rightarrow> (u16 \<times> u16) list option" where
  "parse_short_loop summary n_entries =
     (if summary = [] then Some []
      else if n_entries \<ge> MAX_EXITPOLICY_SUMMARY_LEN then None
      else case parse_short_entry summary of
             Bad \<Rightarrow> None
           | Entry e next \<Rightarrow> map_option (\<lambda>es. e # es) (parse_short_loop next (n_entries + 1))
           | Skip next \<Rightarrow> (case after_comma next of None \<Rightarrow> Some [] | Some next \<Rightarrow> parse_short_loop next n_entries))"
  by auto
termination
  by (relation "measures [\<lambda>(summary, n). MAX_EXITPOLICY_SUMMARY_LEN - n, \<lambda>(summary, n). length summary]")
    (auto dest!: skip_suffix after_comma_shorter)

declare parse_short_loop.simps [simp del]

definition parse_short_policy :: "string \<Rightarrow> short_policy_t option" where
  "parse_short_policy summary =
     (let parse = (\<lambda>is_acc rest. case parse_short_loop rest 0 of
                     None \<Rightarrow> None
                   | Some es \<Rightarrow> if es = [] then None else Some \<lparr>is_accept = is_acc, entries = es\<rparr>)
      in if take 7 summary = ''accept '' then parse True (drop 7 summary)
         else if take 7 summary = ''reject '' then parse False (drop 7 summary)
         else None)"

fun short_entry_strings :: "(u16 \<times> u16) list \<Rightarrow> string list" where
  "short_entry_strings [] = []"
| "short_entry_strings [(lo, hi)] = [range_string (unat lo) (unat hi)]"
| "short_entry_strings ((lo, hi) # es) = range_string (unat lo) (unat hi) # '','' # short_entry_strings es"

definition write_short_policy :: "short_policy_t \<Rightarrow> string option" where
  "write_short_policy policy =
     smartlist_join_strings ((if is_accept policy then ''accept '' else ''reject '') # short_entry_strings (entries policy)) [] False"

definition compare_tor_addr_to_short_policy :: "bool \<Rightarrow> tor_addr_t option \<Rightarrow> u16 \<Rightarrow> short_policy_t \<Rightarrow> addr_policy_result_t option" where
  "compare_tor_addr_to_short_policy ClientRejectInternalAddresses addr port policy =
     (if port = 0 then None
      else
        let addr = (case addr of Some a \<Rightarrow> if tor_addr_is_null a then None else Some a | None \<Rightarrow> None) in
        if (case addr of Some a \<Rightarrow> ClientRejectInternalAddresses \<and> (tor_addr_is_internal a False \<or> tor_addr_is_loopback a) | None \<Rightarrow> False)
        then Some ADDR_POLICY_REJECTED
        else
          let found_match = list_ex (\<lambda>(lo, hi). lo \<le> port \<and> port \<le> hi) (entries policy);
              does_accept = (if found_match then is_accept policy else \<not> is_accept policy)
          in Some (if does_accept then ADDR_POLICY_PROBABLY_ACCEPTED else ADDR_POLICY_REJECTED))"

definition short_policy_is_reject_star :: "short_policy_t \<Rightarrow> bool" where
  "short_policy_is_reject_star policy \<longleftrightarrow> \<not> is_accept policy \<and> entries policy = [(1, 65535)]"

section \<open>Summaries as functions of the port\<close>

text \<open>Items that follow each other without a gap, from a port up to before another.\<close>

fun seg :: "nat \<Rightarrow> summary \<Rightarrow> nat \<Rightarrow> bool" where
  "seg lo [] hi \<longleftrightarrow> lo = hi"
| "seg lo (it # s) hi \<longleftrightarrow> unat (s_prt_min it) = lo \<and> lo \<le> unat (s_prt_max it) \<and> seg (unat (s_prt_max it) + 1) s hi"

fun answer :: "summary \<Rightarrow> u16 \<Rightarrow> u64 \<times> bool" where
  "answer [] port = (0, False)"
| "answer (it # s) port = (if port \<le> s_prt_max it then (reject_count it, accepted it) else answer s port)"

lemma u16_bound [simp]: "unat (w :: u16) < 65536"
  using unsigned_less [of w, where 'a = nat] by simp

lemma seg_append: "seg lo (xs @ ys) hi \<longleftrightarrow> (\<exists>m. seg lo xs m \<and> seg m ys hi)"
  by (induction xs arbitrary: lo) auto

lemma seg_le: "seg lo s hi \<Longrightarrow> lo \<le> hi"
  by (induction s arbitrary: lo) (auto, fastforce)

lemma seg_max: "seg lo s hi \<Longrightarrow> it \<in> set s \<Longrightarrow> unat (s_prt_max it) < hi"
  by (induction s arbitrary: lo) (auto dest: seg_le)

lemma seg_nonempty: "seg lo s hi \<Longrightarrow> lo < hi \<Longrightarrow> s \<noteq> []"
  by auto

lemma answer_append:
  "seg lo xs m \<Longrightarrow> lo \<le> unat port \<Longrightarrow> answer (xs @ ys) port = (if unat port < m then answer xs port else answer ys port)"
proof (induction xs arbitrary: lo)
  case (Cons x xs)
  then have "unat (s_prt_max x) < m" using seg_max [of lo "x # xs" m x] by simp
  then show ?case using Cons by (auto simp: word_le_nat_alt)
qed simp

text \<open>The search for the item that holds a port, started after a prefix.\<close>

lemma item_ending_at_found:
  assumes "seg lo s hi" "lo \<le> unat port" "unat port < hi"
  shows "\<exists>xs it ys. s = xs @ it # ys \<and> item_ending_at (ws @ s) (length ws) port = Some (length ws + length xs)
    \<and> seg lo xs (unat (s_prt_min it)) \<and> s_prt_min it \<le> port \<and> port \<le> s_prt_max it \<and> seg (unat (s_prt_max it) + 1) ys hi"
  using assms
proof (induction s arbitrary: lo ws)
  case (Cons it s)
  show ?case
  proof (cases "port \<le> s_prt_max it")
    case True
    then have "item_ending_at (ws @ it # s) (length ws) port = Some (length ws)"
      by (subst item_ending_at.simps) (auto simp: not_less)
    then show ?thesis using Cons.prems True by (intro exI [of _ "[]"] exI [of _ it] exI [of _ s]) (auto simp: word_le_nat_alt)
  next
    case False
    then have lt: "s_prt_max it < port" by simp
    then have "unat (s_prt_max it) + 1 \<le> unat port" by (simp add: word_less_nat_alt)
    from Cons.IH [OF _ this Cons.prems(3), of "ws @ [it]"] Cons.prems(1) obtain xs it' ys where
      h: "s = xs @ it' # ys" "item_ending_at ((ws @ [it]) @ s) (length (ws @ [it])) port = Some (length (ws @ [it]) + length xs)"
        "seg (unat (s_prt_max it) + 1) xs (unat (s_prt_min it'))" "s_prt_min it' \<le> port" "port \<le> s_prt_max it'" "seg (unat (s_prt_max it') + 1) ys hi"
      by auto
    have "item_ending_at (ws @ it # s) (length ws) port = item_ending_at (ws @ it # s) (length ws + 1) port"
      using lt by (subst item_ending_at.simps) simp
    then have "item_ending_at (ws @ it # s) (length ws) port = Some (length ws + length (it # xs))" using h(2) by simp
    then show ?thesis using h Cons.prems(1) by (intro exI [of _ "it # xs"] exI [of _ it'] exI [of _ ys]) auto
  qed
qed simp

text \<open>Splitting an item changes no port.\<close>

lemma split_at_item:
  assumes "s_prt_min it < start" "start \<le> s_prt_max it"
  shows "\<exists>old new. split_at (xs @ it # ys) (length xs) start = Some (xs @ old # new # ys)
    \<and> unat (s_prt_min old) = unat (s_prt_min it) \<and> unat (s_prt_max old) + 1 = unat start \<and> unat (s_prt_min old) \<le> unat (s_prt_max old)
    \<and> s_prt_min new = start \<and> s_prt_max new = s_prt_max it
    \<and> reject_count old = reject_count it \<and> accepted old = accepted it \<and> reject_count new = reject_count it \<and> accepted new = accepted it"
proof -
  have "unat (start - 1) = unat start - 1" using assms(1) by (subst unat_sub) (auto simp: word_le_nat_alt word_less_nat_alt)
  moreover have "0 < unat start" using assms(1) by (simp add: word_less_nat_alt)
  ultimately show ?thesis using assms
    by (auto simp: split_at_def policy_summary_item_split_def Let_def word_le_nat_alt word_less_nat_alt)
qed

lemma answer_split:
  assumes "s_prt_max old < s_prt_max it" "s_prt_max new = s_prt_max it"
    "reject_count old = reject_count it" "accepted old = accepted it" "reject_count new = reject_count it" "accepted new = accepted it"
  shows "answer (xs @ old # new # ys) port = answer (xs @ it # ys) port"
  by (induction xs) (use assms in auto)

text \<open>An item that holds a port is divided before the port, or after it, unless it begins or ends there.\<close>

lemma divide_before:
  assumes "seg lo xs (unat (s_prt_min it))" "s_prt_min it \<le> port" "port \<le> s_prt_max it" "seg (unat (s_prt_max it) + 1) ys hi"
  shows "\<exists>us vs. (if s_prt_min it \<noteq> port then map_option (\<lambda>s. (s, length xs + 1)) (split_at (xs @ it # ys) (length xs) port)
      else Some (xs @ it # ys, length xs)) = Some (us @ vs, length us)
    \<and> seg lo us (unat port) \<and> seg (unat port) vs hi \<and> answer (us @ vs) = answer (xs @ it # ys)"
proof (cases "s_prt_min it = port")
  case True
  then show ?thesis using assms by (intro exI [of _ xs] exI [of _ "it # ys"]) (auto simp: word_le_nat_alt)
next
  case False
  then have "s_prt_min it < port" using assms(2) by simp
  from split_at_item [OF this assms(3), of xs ys] obtain old new where
    o: "split_at (xs @ it # ys) (length xs) port = Some (xs @ old # new # ys)" "unat (s_prt_min old) = unat (s_prt_min it)"
      "unat (s_prt_max old) + 1 = unat port" "unat (s_prt_min old) \<le> unat (s_prt_max old)" "s_prt_min new = port" "s_prt_max new = s_prt_max it"
      "reject_count old = reject_count it" "accepted old = accepted it" "reject_count new = reject_count it" "accepted new = accepted it"
    by blast
  have "answer (xs @ old # new # ys) = answer (xs @ it # ys)"
    using answer_split [OF _ o(6-10), of xs ys] o(3) assms(3) by (intro ext) (simp add: word_le_nat_alt word_less_nat_alt)
  then show ?thesis using False o assms
    by (intro exI [of _ "xs @ [old]"] exI [of _ "new # ys"]) (auto simp: seg_append word_le_nat_alt)
qed

lemma divide_after:
  assumes "seg lo xs (unat (s_prt_min it))" "s_prt_min it \<le> port" "port \<le> s_prt_max it" "seg (unat (s_prt_max it) + 1) ys hi"
  shows "\<exists>us vs. (if s_prt_max it \<noteq> port then split_at (ws @ xs @ it # ys) (length ws + length xs) (port + 1) else Some (ws @ xs @ it # ys)) = Some (ws @ us @ vs)
    \<and> seg lo us (unat port + 1) \<and> seg (unat port + 1) vs hi \<and> answer (ws @ us @ vs) = answer (ws @ xs @ it # ys)"
proof (cases "s_prt_max it = port")
  case True
  then show ?thesis using assms by (intro exI [of _ "xs @ [it]"] exI [of _ ys]) (auto simp: seg_append word_le_nat_alt)
next
  case False
  then have lt: "port < s_prt_max it" using assms(3) by simp
  then have "unat port + 1 < 65536" using u16_bound [of "s_prt_max it"] unfolding word_less_nat_alt by linarith
  then have s1: "unat (port + 1) = unat port + 1" by (intro unat_add_lem [THEN iffD1, THEN trans]) simp_all
  have sp: "s_prt_min it < port + 1" "port + 1 \<le> s_prt_max it" using s1 assms(2) lt by (simp_all add: word_less_nat_alt word_le_nat_alt)
  from split_at_item [OF sp, of "ws @ xs" ys] obtain old new where
    o: "split_at (ws @ xs @ it # ys) (length ws + length xs) (port + 1) = Some (ws @ xs @ old # new # ys)" "unat (s_prt_min old) = unat (s_prt_min it)"
      "unat (s_prt_max old) + 1 = unat (port + 1)" "unat (s_prt_min old) \<le> unat (s_prt_max old)" "s_prt_min new = port + 1" "s_prt_max new = s_prt_max it"
      "reject_count old = reject_count it" "accepted old = accepted it" "reject_count new = reject_count it" "accepted new = accepted it"
    by auto
  have "answer (ws @ xs @ old # new # ys) = answer (ws @ xs @ it # ys)"
    using answer_split [OF _ o(6-10), of "ws @ xs" ys] o(3) sp(2) by (intro ext) (simp add: word_le_nat_alt word_less_nat_alt)
  then show ?thesis using False o assms s1 sp
    by (intro exI [of _ "xs @ [old]"] exI [of _ "new # ys"]) (auto simp: seg_append word_le_nat_alt)
qed

lemma summary_split:
  assumes s: "seg 1 s 65536" and lo: "lo \<noteq> 0" and le: "lo \<le> hi"
  shows "\<exists>xs ys zs. policy_summary_split s lo hi = Some (xs @ ys @ zs, length xs)
    \<and> seg 1 xs (unat lo) \<and> seg (unat lo) ys (unat hi + 1) \<and> seg (unat hi + 1) zs 65536 \<and> answer (xs @ ys @ zs) = answer s"
proof -
  have l1: "1 \<le> unat lo" using lo by (simp add: unat_gt_0 Suc_le_eq)
  have ul: "unat lo \<le> unat hi" using le by (simp add: word_le_nat_alt)
  from item_ending_at_found [OF s l1 u16_bound, of "[]"] obtain xs it ys where
    i: "s = xs @ it # ys" "item_ending_at s 0 lo = Some (length xs)" "seg 1 xs (unat (s_prt_min it))"
      "s_prt_min it \<le> lo" "lo \<le> s_prt_max it" "seg (unat (s_prt_max it) + 1) ys 65536" by auto
  from divide_before [OF i(3-6)] obtain ps qs where
    h: "(if s_prt_min (s ! length xs) \<noteq> lo then map_option (\<lambda>s. (s, length xs + 1)) (split_at s (length xs) lo) else Some (s, length xs))
        = Some (ps @ qs, length ps)" "seg 1 ps (unat lo)" "seg (unat lo) qs 65536" "answer (ps @ qs) = answer s"
    unfolding i(1) by auto
  from item_ending_at_found [OF h(3) ul u16_bound, of ps] obtain us it2 vs where
    j: "qs = us @ it2 # vs" "item_ending_at (ps @ qs) (length ps) hi = Some (length ps + length us)" "seg (unat lo) us (unat (s_prt_min it2))"
      "s_prt_min it2 \<le> hi" "hi \<le> s_prt_max it2" "seg (unat (s_prt_max it2) + 1) vs 65536" by auto
  from divide_after [OF j(3-6), of ps] obtain as bs where
    k: "(if s_prt_max ((ps @ qs) ! (length ps + length us)) \<noteq> hi then split_at (ps @ qs) (length ps + length us) (hi + 1) else Some (ps @ qs)) = Some (ps @ as @ bs)"
      "seg (unat lo) as (unat hi + 1)" "seg (unat hi + 1) bs 65536" "answer (ps @ as @ bs) = answer (ps @ qs)"
    unfolding j(1) by (auto simp: nth_append)
  have "policy_summary_split s lo hi = Some (ps @ as @ bs, length ps)"
    unfolding policy_summary_split_def i(2) bind.bind_lunit h(1) prod.case j(2) k(1) ..
  then show ?thesis using h(2,4) k(2-4) by (intro exI [of _ ps] exI [of _ as] exI [of _ bs]) simp
qed

text \<open>The update of the items of a range of ports.\<close>

lemma update_items_eq:
  assumes "seg lo ys (unat hi + 1)" "seg (unat hi + 1) zs 65536"
  shows "update_items f hi (xs @ ys @ zs) (length xs) = (xs @ map f ys @ zs, length xs + length ys)"
  using assms(1)
proof (induction ys arbitrary: xs lo)
  case Nil
  have "zs \<noteq> [] \<Longrightarrow> hi < s_prt_max (hd zs)" using assms(2) by (cases zs) (auto simp: word_less_nat_alt)
  then have "\<not> (length xs < length (xs @ zs) \<and> s_prt_max ((xs @ zs) ! length xs) \<le> hi)" by (cases zs) (auto simp: nth_append)
  then show ?case by (subst update_items.simps) (simp only: append_Nil if_False list.map list.size add_0_right)
next
  case (Cons y ys)
  have "s_prt_max y \<le> hi" using seg_max [OF Cons.prems, of y] by (simp add: word_le_nat_alt)
  then have "update_items f hi (xs @ (y # ys) @ zs) (length xs) = update_items f hi ((xs @ [f y]) @ ys @ zs) (length (xs @ [f y]))"
    by (subst update_items.simps) simp
  then show ?case using Cons.IH [of "unat (s_prt_max y) + 1" "xs @ [f y]"] Cons.prems by simp
qed

section \<open>What a policy says of a port\<close>

definition n_rejected :: "addr_policy_t \<Rightarrow> u64" where
  "n_rejected e =
     (let width = family_scale (tor_addr_family (pol_addr e)) - int (maskbits e)
      in if width < 0 then 0 else if width \<ge> 64 then UINT64_MAX else push_bit (nat width) 1)"

definition sat_add :: "u64 \<Rightarrow> u64 \<Rightarrow> u64" where
  "sat_add a b = (if a \<le> UINT64_MAX - b then a + b else UINT64_MAX)"

definition family_cutoff :: "int \<Rightarrow> u64" where
  "family_cutoff family = (if family = AF_INET then REJECT_CUTOFF_COUNT_IPV4 else REJECT_CUTOFF_COUNT_IPV6)"

text \<open>One entry, for a port in its range: the number of addresses rejected so far, and whether the port
  counts as accepted.\<close>

definition entry_effect :: "addr_policy_t \<Rightarrow> u64 \<times> bool \<Rightarrow> u64 \<times> bool" where
  "entry_effect e st =
     (case policy_type e of
        ADDR_POLICY_ACCEPT \<Rightarrow>
          if maskbits e = 0 then (fst st, snd st \<or> fst st \<le> family_cutoff (tor_addr_family (pol_addr e))) else st
      | ADDR_POLICY_REJECT \<Rightarrow> if is_private_net e then st else (sat_add (fst st) (n_rejected e), snd st))"

definition ports_ok :: "addr_policy_t \<Rightarrow> bool" where
  "ports_ok e \<longleftrightarrow> prt_min e \<noteq> 0 \<and> prt_min e \<le> prt_max e"

definition summary_spec :: "(u16 \<Rightarrow> u64 \<times> bool) \<Rightarrow> addr_policy_t \<Rightarrow> (unit \<times> (u16 \<Rightarrow> u64 \<times> bool)) option" where
  "summary_spec a e =
     (if ports_ok e then Some ((), \<lambda>port. if prt_min e \<le> port \<and> port \<le> prt_max e then entry_effect e (a port) else a port) else None)"

definition port_state :: "summary \<Rightarrow> u16 \<Rightarrow> u64 \<times> bool" where
  "port_state s port = (if port = 0 then (0, False) else answer s port)"

lemma sat_add_0: "sat_add a 0 = a"
proof -
  have "a \<le> UINT64_MAX" using unsigned_less [of a, where 'a = nat] by (simp add: UINT64_MAX_def word_le_nat_alt)
  then show ?thesis by (simp add: sat_add_def)
qed

lemma answer_map:
  assumes "seg lo s hi" "lo \<le> unat port" "unat port < hi" "\<And>it. s_prt_max (f it) = s_prt_max it"
    and "\<And>it. (reject_count (f it), accepted (f it)) = g (reject_count it, accepted it)"
  shows "answer (map f s) port = g (answer s port)"
  using assms(1-3)
proof (induction s arbitrary: lo)
  case (Cons it s)
  show ?case
  proof (cases "port \<le> s_prt_max it")
    case False
    then have "unat (s_prt_max it) + 1 \<le> unat port" by (simp add: word_le_nat_alt)
    then show ?thesis using Cons.IH [of "unat (s_prt_max it) + 1"] Cons.prems False assms(4) by simp
  qed (simp add: assms(4,5))
qed simp

lemma seg_map: "(\<And>it. s_prt_max (f it) = s_prt_max it \<and> s_prt_min (f it) = s_prt_min it) \<Longrightarrow> seg lo (map f s) hi = seg lo s hi"
  by (induction s arbitrary: lo) auto

text \<open>Splitting, updating and the assertion at the end, for both kinds of entries.\<close>

lemma update_range:
  assumes s: "seg 1 s 65536" and p: "lo \<noteq> 0" "lo \<le> hi"
    and f: "\<And>it. s_prt_max (f it) = s_prt_max it \<and> s_prt_min (f it) = s_prt_min it"
      "\<And>it. (reject_count (f it), accepted (f it)) = g (reject_count it, accepted it)"
  shows "\<exists>t i u j. policy_summary_split s lo hi = Some (t, i) \<and> seg 1 t 65536 \<and> answer t = answer s
    \<and> update_items f hi t i = (u, j) \<and> (j < length u \<or> hi = 65535) \<and> seg 1 u 65536
    \<and> port_state u = (\<lambda>port. if lo \<le> port \<and> port \<le> hi then g (port_state s port) else port_state s port)"
proof -
  from summary_split [OF s p] obtain xs ys zs where
    h: "policy_summary_split s lo hi = Some (xs @ ys @ zs, length xs)" "seg 1 xs (unat lo)" "seg (unat lo) ys (unat hi + 1)"
      "seg (unat hi + 1) zs 65536" "answer (xs @ ys @ zs) = answer s" by blast
  let ?u = "xs @ map f ys @ zs"
  have my: "seg (unat lo) (map f ys) (unat hi + 1)" using h(3) seg_map f(1) by simp
  have "zs = [] \<Longrightarrow> hi = 65535" using h(4) by (simp add: word_unat_eq_iff)
  moreover have "seg 1 ?u 65536" "seg 1 (xs @ ys @ zs) 65536" using h(2-4) my by (auto simp: seg_append)
  moreover have "port_state ?u port = (if lo \<le> port \<and> port \<le> hi then g (port_state s port) else port_state s port)" for port
  proof (cases "port = 0")
    case False
    then have p1: "1 \<le> unat port" by (simp add: unat_gt_0 Suc_le_eq)
    have old: "answer s port = (if unat port < unat lo then answer xs port else if unat port < unat hi + 1 then answer ys port else answer zs port)"
      unfolding h(5) [symmetric] using answer_append [OF h(2) p1] answer_append [OF h(3)] by auto
    have new: "answer ?u port = (if unat port < unat lo then answer xs port else if unat port < unat hi + 1 then answer (map f ys) port else answer zs port)"
      using answer_append [OF h(2) p1] answer_append [OF my] by auto
    have "unat lo \<le> unat port \<Longrightarrow> unat port < unat hi + 1 \<Longrightarrow> answer (map f ys) port = g (answer ys port)"
      by (rule answer_map [OF h(3)]) (use f in auto)
    then show ?thesis using False old new by (auto simp: port_state_def word_le_nat_alt)
  qed (use p in \<open>auto simp: port_state_def\<close>)
  ultimately show ?thesis using h(1,5) update_items_eq [OF h(3,4), of f xs]
    by (intro exI [of _ "xs @ ys @ zs"] exI [of _ "length xs"] exI [of _ ?u] exI [of _ "length xs + length ys"]) (auto intro!: ext)
qed

lemma item_ranges:
  "s_prt_max (accept_item c it) = s_prt_max it \<and> s_prt_min (accept_item c it) = s_prt_min it"
  "s_prt_max (count_item n it) = s_prt_max it \<and> s_prt_min (count_item n it) = s_prt_min it"
  by (simp_all add: accept_item_def count_item_def)

lemma item_effects:
  "(reject_count (accept_item c it), accepted (accept_item c it)) = (\<lambda>st. (fst st, snd st \<or> fst st \<le> c)) (reject_count it, accepted it)"
  "(reject_count (count_item n it), accepted (count_item n it)) = (\<lambda>st. (sat_add (fst st) n, snd st)) (reject_count it, accepted it)"
  by (auto simp: accept_item_def count_item_def sat_add_def)

lemma add_item_refines:
  assumes "seg 1 s 65536" "ports_ok e"
  shows "\<exists>u. policy_summary_add_item s e = Some u \<and> seg 1 u 65536
    \<and> port_state u = (\<lambda>port. if prt_min e \<le> port \<and> port \<le> prt_max e then entry_effect e (port_state s port) else port_state s port)"
proof (cases "policy_type e")
  case ADDR_POLICY_ACCEPT
  let ?c = "family_cutoff (tor_addr_family (pol_addr e))"
  let ?g = "\<lambda>st. (fst st, snd st \<or> fst st \<le> ?c)"
  show ?thesis
  proof (cases "maskbits e = 0")
    case True
    from update_range [of s "prt_min e" "prt_max e" "accept_item ?c" ?g, OF assms(1) _ _ item_ranges(1) item_effects(1)] assms(2) obtain t i u j where
      h: "policy_summary_split s (prt_min e) (prt_max e) = Some (t, i)" "update_items (accept_item ?c) (prt_max e) t i = (u, j)"
        "j < length u \<or> prt_max e = 65535" "seg 1 u 65536"
        "port_state u = (\<lambda>port. if prt_min e \<le> port \<and> port \<le> prt_max e then ?g (port_state s port) else port_state s port)"
      unfolding ports_ok_def by blast
    then have "policy_summary_add_item s e = Some u"
      using ADDR_POLICY_ACCEPT True by (simp add: policy_summary_add_item_def policy_summary_accept_def family_cutoff_def [symmetric] Let_def)
    moreover have "entry_effect e = ?g" using True ADDR_POLICY_ACCEPT by (intro ext) (simp add: entry_effect_def)
    ultimately show ?thesis using h(4,5) by (simp cong: if_cong)
  next
    case False
    moreover have "entry_effect e = (\<lambda>st. st)" using False ADDR_POLICY_ACCEPT by (intro ext) (simp add: entry_effect_def)
    ultimately show ?thesis using ADDR_POLICY_ACCEPT assms(1) by (simp add: policy_summary_add_item_def cong: if_cong)
  qed
next
  case ADDR_POLICY_REJECT
  let ?f = "count_item (n_rejected e)" and ?g = "\<lambda>st. (sat_add (fst st) (n_rejected e), snd st)"
  show ?thesis
  proof (cases "is_private_net e")
    case False
    from update_range [of s "prt_min e" "prt_max e" ?f ?g, OF assms(1) _ _ item_ranges(2) item_effects(2)] assms(2) obtain t i u j where
      h: "policy_summary_split s (prt_min e) (prt_max e) = Some (t, i)" "seg 1 t 65536" "answer t = answer s" "update_items ?f (prt_max e) t i = (u, j)"
        "j < length u \<or> prt_max e = 65535" "seg 1 u 65536"
        "port_state u = (\<lambda>port. if prt_min e \<le> port \<and> port \<le> prt_max e then ?g (port_state s port) else port_state s port)"
      unfolding ports_ok_def by blast
    have eff: "entry_effect e = ?g" using False ADDR_POLICY_REJECT by (intro ext) (simp add: entry_effect_def)
    show ?thesis
    proof (cases "int (maskbits e) > family_scale (tor_addr_family (pol_addr e))")
      case True
      then have "policy_summary_add_item s e = Some t" "n_rejected e = 0"
        using h(1) ADDR_POLICY_REJECT False by (simp_all add: policy_summary_add_item_def policy_summary_reject_def n_rejected_def Let_def)
      moreover have "port_state t = port_state s" using h(3) by (intro ext) (simp add: port_state_def)
      ultimately show ?thesis using h(2) eff by (simp add: sat_add_0 cong: if_cong)
    next
      case small: False
      then have "policy_summary_add_item s e = Some u"
        using h(1,4,5) ADDR_POLICY_REJECT False
        by (simp add: policy_summary_add_item_def policy_summary_reject_def n_rejected_def Let_def del: push_bit_of_1)
      then show ?thesis using h(6,7) eff by (simp cong: if_cong)
    qed
  next
    case True
    moreover have "entry_effect e = (\<lambda>st. st)" using True ADDR_POLICY_REJECT by (intro ext) (simp add: entry_effect_def)
    ultimately show ?thesis using ADDR_POLICY_REJECT assms(1) by (simp add: policy_summary_add_item_def cong: if_cong)
  qed
qed

definition summary_step :: "summary \<Rightarrow> addr_policy_t \<Rightarrow> (unit \<times> summary) option" where
  "summary_step s e = map_option (\<lambda>s. ((), s)) (policy_summary_add_item s e)"

interpretation port_summaries: op_refinement summary_step summary_spec "\<lambda>s. seg 1 s 65536" port_state
  by unfold_locales (use add_item_refines in \<open>fastforce simp: summary_step_def summary_spec_def split: if_splits\<close>)

definition port_summary :: "addr_policy_t list \<Rightarrow> int \<Rightarrow> u16 \<Rightarrow> u64 \<times> bool" where
  "port_summary policy family port =
     foldl (\<lambda>st e. entry_effect e st) (0, False)
       (filter (\<lambda>e. tor_addr_family (pol_addr e) = family \<and> prt_min e \<le> port \<and> port \<le> prt_max e) policy)"

lemma summarize_items_run:
  "summarize_items policy family s = map_option snd (run_ops summary_step s (filter (\<lambda>e. tor_addr_family (pol_addr e) = family) policy))"
proof (induction policy arbitrary: s)
  case (Cons e es)
  show ?case
  proof (cases "policy_summary_add_item s e")
    case (Some t)
    then have "summary_step s e = Some ((), t)" by (simp add: summary_step_def)
    then show ?thesis using Cons Some by (cases "run_ops summary_step t (filter (\<lambda>e. tor_addr_family (pol_addr e) = family) es)") auto
  qed (simp add: Cons summary_step_def)
qed simp

lemma run_summary_spec:
  "list_all ports_ok es \<Longrightarrow> \<exists>outs. run_ops summary_spec a es =
     Some (outs, \<lambda>port. foldl (\<lambda>st e. entry_effect e st) (a port) (filter (\<lambda>e. prt_min e \<le> port \<and> port \<le> prt_max e) es))"
proof (induction es arbitrary: a)
  case (Cons e es)
  let ?b = "\<lambda>port. if prt_min e \<le> port \<and> port \<le> prt_max e then entry_effect e (a port) else a port"
  from Cons.IH [of ?b] Cons.prems obtain outs where
    h: "run_ops summary_spec ?b es = Some (outs, \<lambda>port. foldl (\<lambda>st e. entry_effect e st) (?b port) (filter (\<lambda>e. prt_min e \<le> port \<and> port \<le> prt_max e) es))"
    by auto
  have "summary_spec a e = Some ((), ?b)" using Cons.prems by (simp add: summary_spec_def)
  then have "run_ops summary_spec a (e # es) =
      Some (() # outs, \<lambda>port. foldl (\<lambda>st e. entry_effect e st) (?b port) (filter (\<lambda>e. prt_min e \<le> port \<and> port \<le> prt_max e) es))"
    using h by simp
  then show ?case by (auto intro!: ext)
qed simp

lemma create_state: "seg 1 policy_summary_create 65536" "port_state policy_summary_create = (\<lambda>_. (0, False))"
  by (auto simp: policy_summary_create_def port_state_def)

lemma summarize_items_ports:
  assumes "list_all ports_ok policy"
  shows "\<exists>s. summarize_items policy family policy_summary_create = Some s \<and> seg 1 s 65536
    \<and> (\<forall>port. port \<noteq> 0 \<longrightarrow> answer s port = port_summary policy family port)"
proof -
  let ?es = "filter (\<lambda>e. tor_addr_family (pol_addr e) = family) policy"
  have "list_all ports_ok ?es" using assms by (auto simp: list_all_iff)
  from run_summary_spec [OF this, of "port_state policy_summary_create"] obtain outs where
    r: "run_ops summary_spec (port_state policy_summary_create) ?es = Some (outs, \<lambda>port. port_summary policy family port)"
    unfolding create_state(2) port_summary_def filter_filter by (auto simp: conj_commute)
  from port_summaries.run_refines [OF create_state(1) r] obtain s where
    "run_ops summary_step policy_summary_create ?es = Some (outs, s)" "seg 1 s 65536" "port_state s = port_summary policy family" by blast
  moreover from this(3) have "port \<noteq> 0 \<Longrightarrow> answer s port = port_summary policy family port" for port
    by (metis port_state_def)
  ultimately show ?thesis by (intro exI [of _ s]) (simp add: summarize_items_run)
qed

section \<open>The printed ranges\<close>

text \<open>The ranges behind the two lists of strings.\<close>

fun summary_ranges :: "u16 \<Rightarrow> summary \<Rightarrow> (u16 \<times> u16) list \<times> (u16 \<times> u16) list" where
  "summary_ranges start [] = ([], [])"
| "summary_ranges start [it] = (if accepted it then ([(start, s_prt_max it)], []) else ([], [(start, s_prt_max it)]))"
| "summary_ranges start (it # it2 # rest) =
     (if accepted it \<noteq> accepted it2 then
        let (accepts, rejects) = summary_ranges (s_prt_min it2) (it2 # rest)
        in if accepted it then ((start, s_prt_max it) # accepts, rejects) else (accepts, (start, s_prt_max it) # rejects)
      else summary_ranges start (it2 # rest))"

abbreviation port_range_str :: "u16 \<times> u16 \<Rightarrow> string" where
  "port_range_str r \<equiv> range_string (unat (fst r)) (unat (snd r))"

lemma summary_strings_ranges: "summary_strings start s = map_prod (map port_range_str) (map port_range_str) (summary_ranges start s)"
  by (induction start s rule: summary_ranges.induct) (auto simp: Let_def split: prod.splits)

definition in_port_ranges :: "u16 \<Rightarrow> (u16 \<times> u16) list \<Rightarrow> bool" where
  "in_port_ranges port rs \<longleftrightarrow> list_ex (\<lambda>(lo, hi). lo \<le> port \<and> port \<le> hi) rs"

lemma in_port_ranges_simps [simp]:
  "\<not> in_port_ranges port []" "in_port_ranges port ((lo, hi) # rs) \<longleftrightarrow> lo \<le> port \<and> port \<le> hi \<or> in_port_ranges port rs"
  by (auto simp: in_port_ranges_def)

definition range_answer :: "nat \<Rightarrow> summary \<Rightarrow> u16 \<Rightarrow> bool" where
  "range_answer m s port \<longleftrightarrow> (if unat port < m then accepted (hd s) else snd (answer s port))"

text \<open>A port at or after \<open>start\<close> is in a range of its answer; ports before the first item go with that item.\<close>

lemma ranges_answer:
  assumes "seg m s 65536" "s \<noteq> []" "unat start \<le> m" "summary_ranges start s = (accepts, rejects)"
  shows "(in_port_ranges port accepts \<longleftrightarrow> start \<le> port \<and> range_answer m s port) \<and> (in_port_ranges port rejects \<longleftrightarrow> start \<le> port \<and> \<not> range_answer m s port)"
  using assms
proof (induction start s arbitrary: m accepts rejects rule: summary_ranges.induct)
  case (2 start it)
  then have "unat (s_prt_max it) = 65535" by simp
  then have "port \<le> s_prt_max it" using u16_bound [of port] unfolding word_le_nat_alt by linarith
  then show ?case using 2 by (auto simp: range_answer_def split: if_splits)
next
  case (3 start it it2 rest)
  note m = \<open>seg m (it # it2 # rest) 65536\<close> and ranges = \<open>summary_ranges start (it # it2 # rest) = (accepts, rejects)\<close>
  from m have seg: "seg (unat (s_prt_min it2)) (it2 # rest) 65536" "unat (s_prt_min it2) = unat (s_prt_max it) + 1" "m \<le> unat (s_prt_max it)"
    by auto
  then have cmp: "s_prt_min it2 \<le> port \<longleftrightarrow> \<not> port \<le> s_prt_max it"
    unfolding word_le_nat_alt by linarith
  have st: "unat start \<le> unat (s_prt_min it2)" "\<not> port \<le> s_prt_max it \<Longrightarrow> start \<le> port"
    using \<open>unat start \<le> m\<close> seg(2,3) unfolding word_le_nat_alt by linarith+
  have "unat port < m \<Longrightarrow> port \<le> s_prt_max it" using seg(3) unfolding word_le_nat_alt by linarith
  then have range_answer: "range_answer m (it # it2 # rest) port = (if port \<le> s_prt_max it then accepted it else snd (answer (it2 # rest) port))"
    by (auto simp: range_answer_def)
  have ans2: "range_answer (unat (s_prt_min it2)) (it2 # rest) port = (if port \<le> s_prt_max it then accepted it2 else snd (answer (it2 # rest) port))"
    using seg(2) by (auto simp: range_answer_def word_le_nat_alt)
  show ?case
  proof (cases "accepted it = accepted it2")
    case True
    then show ?thesis using 3(2) [OF _ seg(1) _ st(1), of accepts rejects] ranges range_answer ans2 by simp
  next
    case False
    obtain acc rej where r: "summary_ranges (s_prt_min it2) (it2 # rest) = (acc, rej)" by fastforce
    have "(in_port_ranges port acc \<longleftrightarrow> \<not> port \<le> s_prt_max it \<and> snd (answer (it2 # rest) port))
        \<and> (in_port_ranges port rej \<longleftrightarrow> \<not> port \<le> s_prt_max it \<and> \<not> snd (answer (it2 # rest) port))"
      using 3(1) [OF _ seg(1) _ order_refl r] False cmp ans2 by simp
    then show ?thesis using r ranges False range_answer st(2) by (auto split: if_splits)
  qed
qed simp

end
