(* ===== verification/Policy_Client.thy ===== *)
theory Policy_Client
  imports Policy_Summary
begin

text \<open>
  Printed summaries of \<open>core/or/policies.c\<close> read by a client: parsing what was printed, cutting what is too
  long, and the theorem that joins them to the policy.
\<close>

section \<open>Parsing what was printed\<close>

definition range_ok :: "u16 \<times> u16 \<Rightarrow> bool" where
  "range_ok r \<longleftrightarrow> fst r \<noteq> 0 \<and> fst r \<le> snd r"

abbreviation ranges_text :: "(u16 \<times> u16) list \<Rightarrow> string" where
  "ranges_text rs \<equiv> join_loop '','' (map port_range_str rs)"

lemma parse_ulong_show:
  assumes "lo \<le> int n" "int n \<le> hi" "hi \<le> 65535" "\<not> TOR_ISDIGIT (deref r)"
  shows "tor_parse_ulong (show_dec n @ r) lo hi True = (int n, True, r)"
  using strtoul10_digits [of "show_dec n" r] assms show_dec_digits by (simp add: tor_parse_ulong_def ULONG_MAX_def)

lemma not_digit [simp]: "\<not> TOR_ISDIGIT (CHR '','')" "\<not> TOR_ISDIGIT (CHR ''-'')" "\<not> TOR_ISDIGIT NUL"
  by (simp_all add: TOR_ISDIGIT_def NUL_def)

lemma deref_Cons [simp]: "deref (c # s) = c" "deref [] = NUL"
  by (simp_all add: deref_def)

lemma parse_entry_range:
  assumes "range_ok r" "rest = [] \<or> (\<exists>t. rest = CHR '','' # t)"
  shows "parse_short_entry (port_range_str r @ rest) = Entry r (tl rest)"
proof -
  obtain lo hi where r: "r = (lo, hi)" by (cases r)
  have "lo \<noteq> 0" "unat lo \<le> unat hi" using assms(1) r by (simp_all add: range_ok_def word_le_nat_alt)
  then have b: "1 \<le> int (unat lo)" "int (unat lo) \<le> 65535" "int (unat hi) \<le> 65535" "unat lo \<le> unat hi"
    using u16_bound [of lo] u16_bound [of hi] unat_gt_0 [of lo] by linarith+
  have nd: "\<not> TOR_ISDIGIT (deref rest)" using assms(2) by auto
  show ?thesis
  proof (cases "lo = hi")
    case True
    then have "tor_parse_ulong (port_range_str r @ rest) 1 65535 True = (int (unat lo), True, rest)"
      using parse_ulong_show [of 1 "unat lo" 65535 rest] b nd r by (simp add: range_string_def)
    then show ?thesis using assms(2) r True by (auto simp: parse_short_entry_def)
  next
    case False
    then have ne: "unat lo \<noteq> unat hi" by (simp add: word_unat_eq_iff)
    have "tor_parse_ulong (port_range_str r @ rest) 1 65535 True = (int (unat lo), True, CHR ''-'' # show_dec (unat hi) @ rest)"
      using parse_ulong_show [of 1 "unat lo" 65535 "CHR ''-'' # show_dec (unat hi) @ rest"] b r ne by (simp add: range_string_def)
    moreover have "tor_parse_ulong (show_dec (unat hi) @ rest) (int (unat lo)) 65535 True = (int (unat hi), True, rest)"
      by (rule parse_ulong_show) (use b nd in simp_all, simp add: word_le_nat_alt [symmetric] word_le_def)
    ultimately show ?thesis using assms(2) r by (auto simp: parse_short_entry_def)
  qed
qed

lemma port_range_nonempty [simp]: "range_string a b \<noteq> []"
  by (simp add: range_string_def)

lemma parse_ranges_text:
  "list_all range_ok rs \<Longrightarrow> n + length rs \<le> 1000 \<Longrightarrow> parse_short_loop (ranges_text rs) n = Some rs"
proof (induction rs arbitrary: n)
  case Nil
  show ?case by (subst parse_short_loop.simps) simp
next
  case (Cons r rs)
  define rest where "rest = (if rs = [] then [] else CHR '','' # ranges_text rs)"
  have t: "ranges_text (r # rs) = port_range_str r @ rest" by (auto simp: rest_def)
  have "parse_short_entry (port_range_str r @ rest) = Entry r (tl rest)" by (rule parse_entry_range) (use Cons.prems in \<open>auto simp: rest_def\<close>)
  moreover have "tl rest = ranges_text rs" by (auto simp: rest_def)
  ultimately show ?case unfolding t using Cons by (subst parse_short_loop.simps) (simp add: MAX_EXITPOLICY_SUMMARY_LEN_def)
qed

lemma join_concat_entries: "join_loop [] (short_entry_strings es) = ranges_text es"
proof (induction es rule: short_entry_strings.induct)
  case (3 lo hi e es)
  then show ?case by (cases "short_entry_strings (e # es)") (auto split: prod.splits)
qed simp_all

lemma join_Some: "smartlist_join_strings sl sep False = Some (join_loop sep sl)"
  using length_join_loop [of sep sl] by (simp add: smartlist_join_strings_def smartlist_join_strings2_def Let_def)

lemma write_short: "write_short_policy p = Some ((if is_accept p then ''accept '' else ''reject '') @ ranges_text (entries p))"
  using join_concat_entries [of "entries p"] by (auto simp: write_short_policy_def join_Some)

lemma parse_keyword:
  "parse_short_policy ((if b then ''accept '' else ''reject '') @ s) =
     (case parse_short_loop s 0 of None \<Rightarrow> None | Some es \<Rightarrow> if es = [] then None else Some \<lparr>is_accept = b, entries = es\<rparr>)"
  by (cases b) (simp_all add: parse_short_policy_def split: option.splits)

definition short_policy_ok :: "short_policy_t \<Rightarrow> bool" where
  "short_policy_ok p \<longleftrightarrow> entries p \<noteq> [] \<and> length (entries p) \<le> MAX_EXITPOLICY_SUMMARY_LEN \<and> list_all range_ok (entries p)"

lemma short_policy_parse_write:
  assumes "short_policy_ok p"
  shows "\<exists>s. write_short_policy p = Some s \<and> parse_short_policy s = Some p"
  using assms parse_ranges_text [of "entries p" 0]
  by (simp add: write_short parse_keyword short_policy_ok_def MAX_EXITPOLICY_SUMMARY_LEN_def)

section \<open>Cutting a long summary\<close>

lemma range_string_chars: "c \<in> set (range_string a b) \<Longrightarrow> TOR_ISDIGIT c \<or> c = CHR ''-''"
  using show_dec_digits by (auto simp: range_string_def split: if_splits)

lemma no_comma_in_range: "CHR '','' \<notin> set (range_string a b)"
  using range_string_chars [of "CHR '',''"] by auto

lemma length_range_str: "length (port_range_str r) \<le> 11"
  using length_show_dec [of "unat (fst r)" 5] length_show_dec [of "unat (snd r)" 5] u16_bound [of "fst r"] u16_bound [of "snd r"]
  by (simp add: range_string_def)

text \<open>A comma in the text ends the text of the first ranges.\<close>

lemma comma_ends_ranges:
  "k < length (ranges_text rs) \<Longrightarrow> ranges_text rs ! k = CHR '','' \<Longrightarrow> \<exists>j > 0. take k (ranges_text rs) = ranges_text (take j rs) \<and> take j rs \<noteq> []"
proof (induction rs arbitrary: k)
  case (Cons r rs)
  let ?n = "length (port_range_str r)"
  have in_r: "k < ?n \<Longrightarrow> port_range_str r ! k \<noteq> CHR '',''" using no_comma_in_range nth_mem by metis
  show ?case
  proof (cases "rs = []")
    case True
    then show ?thesis using Cons.prems in_r by simp
  next
    case False
    then have k: "?n \<le> k" using Cons.prems in_r by (cases "k < ?n") (auto simp: nth_append)
    show ?thesis
    proof (cases "k = ?n")
      case True
      then show ?thesis using False by (intro exI [of _ 1]) simp
    next
      case more: False
      define k' where "k' = k - ?n - 1"
      have k': "k = ?n + 1 + k'" using k more by (simp add: k'_def)
      have "k' < length (ranges_text rs)" "ranges_text rs ! k' = CHR '',''" using Cons.prems False k' by (auto simp: nth_append)
      from Cons.IH [OF this] obtain j where "0 < j" "take k' (ranges_text rs) = ranges_text (take j rs)" "take j rs \<noteq> []" by blast
      then show ?thesis using False k' by (intro exI [of _ "j + 1"]) auto
    qed
  qed
qed simp

text \<open>Every twelve characters there is a comma.\<close>

lemma comma_in_window: "i + 12 \<le> length (ranges_text rs) \<Longrightarrow> \<exists>j. i \<le> j \<and> j < i + 12 \<and> ranges_text rs ! j = CHR '',''"
proof (induction rs arbitrary: i)
  case (Cons r rs)
  let ?n = "length (port_range_str r)"
  have n: "?n \<le> 11" by (rule length_range_str)
  then have ne: "rs \<noteq> []" using Cons.prems by auto
  show ?case
  proof (cases "i \<le> ?n")
    case True
    then show ?thesis using n ne by (intro exI [of _ ?n]) (simp add: nth_append)
  next
    case False
    then obtain i' where i': "i = ?n + 1 + i'" by (metis add.assoc less_iff_Suc_add not_le plus_1_eq_Suc add.commute Suc_eq_plus1)
    then have "i' + 12 \<le> length (ranges_text rs)" using Cons.prems ne by simp
    from Cons.IH [OF this] obtain j where "i' \<le> j" "j < i' + 12" "ranges_text rs ! j = CHR '',''" by blast
    then show ?thesis using i' ne by (intro exI [of _ "?n + 1 + j"]) (simp add: nth_append)
  qed
qed simp

lemma cut_at_comma_found:
  "j \<le> c \<Longrightarrow> c < length s \<Longrightarrow> s ! j = CHR '','' \<Longrightarrow> \<exists>k. cut_at_comma s c = Some (take k s) \<and> j \<le> k \<and> k \<le> c \<and> s ! k = CHR '',''"
proof (induction s c rule: cut_at_comma.induct)
  case (1 s)
  then show ?case by (cases s) (auto simp: deref_def)
next
  case (2 s c)
  show ?case
  proof (cases "s ! Suc c = CHR '',''")
    case True
    then show ?thesis using 2 by (intro exI [of _ "Suc c"]) auto
  next
    case False
    then have "j \<le> c" using 2 by (metis le_Suc_eq)
    then obtain k where "cut_at_comma s c = Some (take k s)" "j \<le> k" "k \<le> c" "s ! k = CHR '',''" using 2 False by auto
    then show ?thesis using False by (intro exI [of _ k]) auto
  qed
qed

lemma cut_ranges:
  assumes "length (ranges_text rs) > 993"
  shows "\<exists>j. cut_at_comma (ranges_text rs) 993 = Some (ranges_text (take j rs)) \<and> take j rs \<noteq> [] \<and> 982 \<le> length (ranges_text (take j rs))
    \<and> length (ranges_text (take j rs)) \<le> 993"
proof -
  obtain i where i: "982 \<le> i" "i < 982 + 12" "ranges_text rs ! i = CHR '',''" using comma_in_window [of 982 rs] assms by auto
  from cut_at_comma_found [of i 993 "ranges_text rs"] i assms obtain k where
    k: "cut_at_comma (ranges_text rs) 993 = Some (take k (ranges_text rs))" "i \<le> k" "k \<le> 993" "ranges_text rs ! k = CHR '',''" by auto
  from comma_ends_ranges [of k rs] k assms obtain j where
    "take k (ranges_text rs) = ranges_text (take j rs)" "take j rs \<noteq> []" by auto
  moreover have "length (take k (ranges_text rs)) = k" using k(3) assms by simp
  ultimately show ?thesis using k i(1) by (intro exI [of _ j]) auto
qed

section \<open>From a policy to the answers of a client\<close>

definition short_accepts :: "short_policy_t \<Rightarrow> u16 \<Rightarrow> bool" where
  "short_accepts sp port \<longleftrightarrow> (if in_port_ranges port (entries sp) then is_accept sp else \<not> is_accept sp)"

lemma compare_short_unknown:
  "port \<noteq> 0 \<Longrightarrow> compare_tor_addr_to_short_policy reject_internal None port sp
     = Some (if short_accepts sp port then ADDR_POLICY_PROBABLY_ACCEPTED else ADDR_POLICY_REJECTED)"
  by (auto simp: compare_tor_addr_to_short_policy_def short_accepts_def in_port_ranges_def Let_def)

lemma range_ok_pair: "range_ok (lo, hi) \<longleftrightarrow> lo \<noteq> 0 \<and> lo \<le> hi"
  by (simp add: range_ok_def)

lemma summary_ranges_ok:
  "seg m s 65536 \<Longrightarrow> s \<noteq> [] \<Longrightarrow> start \<noteq> 0 \<Longrightarrow> unat start \<le> m \<Longrightarrow> summary_ranges start s = (accepts, rejects) \<Longrightarrow>
     list_all range_ok accepts \<and> list_all range_ok rejects"
proof (induction start s arbitrary: m accepts rejects rule: summary_ranges.induct)
  case (2 start it)
  then show ?case by (auto simp: range_ok_def word_le_nat_alt split: if_splits)
next
  case (3 start it it2 rest)
  note m = \<open>seg m (it # it2 # rest) 65536\<close> and ranges = \<open>summary_ranges start (it # it2 # rest) = (accepts, rejects)\<close>
  from m have seg: "seg (unat (s_prt_min it2)) (it2 # rest) 65536" "unat (s_prt_min it2) = unat (s_prt_max it) + 1" "m \<le> unat (s_prt_max it)"
    by auto
  have st: "unat start \<le> unat (s_prt_min it2)" "start \<le> s_prt_max it" "s_prt_min it2 \<noteq> 0"
    using \<open>unat start \<le> m\<close> seg(2,3) by (auto simp: word_le_nat_alt)
  show ?case
  proof (cases "accepted it = accepted it2")
    case True
    then show ?thesis using 3(2) [OF _ seg(1) _ \<open>start \<noteq> 0\<close> st(1), of accepts rejects] ranges by simp
  next
    case False
    obtain acc rej where r: "summary_ranges (s_prt_min it2) (it2 # rest) = (acc, rej)" by fastforce
    have "list_all range_ok acc \<and> list_all range_ok rej" using 3(1) [OF _ seg(1) _ st(3) order_refl r] False by simp
    then show ?thesis using r ranges False st(2) \<open>start \<noteq> 0\<close> by (auto simp: range_ok_pair split: if_splits)
  qed
qed simp

lemma length_ranges_text: "length rs \<le> length (ranges_text rs)"
proof (induction rs)
  case (Cons r rs)
  have "0 < length (port_range_str r)" by simp
  then show ?case using Cons by (cases rs) (simp_all del: length_greater_0_conv add: Suc_le_eq)
qed simp

lemma parse_text:
  assumes "list_all range_ok rs" "rs \<noteq> []" "length (ranges_text rs) \<le> 993"
  shows "parse_short_policy ((if b then ''accept '' else ''reject '') @ ranges_text rs) = Some \<lparr>is_accept = b, entries = rs\<rparr>"
  using assms parse_ranges_text [of rs 0] length_ranges_text [of rs] by (simp add: parse_keyword del: if_split)

lemma in_ranges_take: "in_port_ranges port (take j rs) \<Longrightarrow> in_port_ranges port rs"
  by (auto simp: in_port_ranges_def list_ex_iff dest: in_set_takeD)

text \<open>What is printed for the two lists of ranges, and what it says of a port.\<close>

lemma printed_summary:
  assumes "list_all range_ok accepts" "list_all range_ok rejects" "accepts \<noteq> []" "rejects \<noteq> []"
    and ports: "\<And>port. port \<noteq> 0 \<Longrightarrow> in_port_ranges port accepts \<longleftrightarrow> acc port" "\<And>port. port \<noteq> 0 \<Longrightarrow> in_port_ranges port rejects \<longleftrightarrow> \<not> acc port"
  defines "a \<equiv> ranges_text accepts" and "r \<equiv> ranges_text rejects"
  shows "\<exists>str sp. (if length r > 993 \<and> length a > 993 then do { c \<leftarrow> cut_at_comma a 993; Some (''accept '' @ c) }
      else if length r < length a then Some (''reject '' @ r) else Some (''accept '' @ a)) = Some str
    \<and> parse_short_policy str = Some sp \<and> length str \<le> 1000
    \<and> (\<forall>port. port \<noteq> 0 \<longrightarrow> (short_accepts sp port \<longrightarrow> acc port) \<and> (length str < 989 \<longrightarrow> acc port \<longrightarrow> short_accepts sp port))"
proof -
  consider (cut) "length r > 993" "length a > 993" | (rej) "\<not> (length r > 993 \<and> length a > 993)" "length r < length a"
    | (acc) "\<not> (length r > 993 \<and> length a > 993)" "\<not> length r < length a" by blast
  then show ?thesis
  proof cases
    case cut
    from cut_ranges [of accepts] cut(2) obtain j where
      j: "cut_at_comma a 993 = Some (ranges_text (take j accepts))" "take j accepts \<noteq> []" "982 \<le> length (ranges_text (take j accepts))"
        "length (ranges_text (take j accepts)) \<le> 993" by (auto simp: a_def)
    have "list_all range_ok (take j accepts)" using assms(1) by (auto simp: list_all_iff dest: in_set_takeD)
    from parse_text [OF this j(2,4), of True]
    have "parse_short_policy (''accept '' @ ranges_text (take j accepts)) = Some \<lparr>is_accept = True, entries = take j accepts\<rparr>" by simp
    then show ?thesis using cut j ports(1) in_ranges_take [of _ j accepts]
      by (intro exI [of _ "''accept '' @ ranges_text (take j accepts)"] exI [of _ "\<lparr>is_accept = True, entries = take j accepts\<rparr>"])
        (auto simp: short_accepts_def)
  next
    case rej
    then have "length r \<le> 993" by linarith
    from parse_text [OF assms(2,4) this [unfolded r_def], of False]
    have "parse_short_policy (''reject '' @ r) = Some \<lparr>is_accept = False, entries = rejects\<rparr>" by (simp add: r_def)
    then show ?thesis using rej \<open>length r \<le> 993\<close> ports(2)
      by (intro exI [of _ "''reject '' @ r"] exI [of _ "\<lparr>is_accept = False, entries = rejects\<rparr>"]) (auto simp: short_accepts_def)
  next
    case acc
    then have "length a \<le> 993" by linarith
    from parse_text [OF assms(1,3) this [unfolded a_def], of True]
    have "parse_short_policy (''accept '' @ a) = Some \<lparr>is_accept = True, entries = accepts\<rparr>" by (simp add: a_def)
    then show ?thesis using acc \<open>length a \<le> 993\<close> ports(1)
      by (intro exI [of _ "''accept '' @ a"] exI [of _ "\<lparr>is_accept = True, entries = accepts\<rparr>"]) (auto simp: short_accepts_def)
  qed
qed

lemma all_ports_text: "ranges_text [(1, 65535)] = ''1-65535''"
proof -
  have "chr 49 = CHR ''1''" "chr 51 = CHR ''3''" "chr 53 = CHR ''5''" "chr 54 = CHR ''6''" by code_simp+
  then show ?thesis by (simp add: range_string_def show_dec.simps)
qed

lemma all_ranges: "port \<noteq> 0 \<Longrightarrow> in_port_ranges port [(1, 65535)]"
  using all_ports [of port 1 65535] by simp

lemma summarize_decides:
  assumes "list_all ports_ok policy"
  shows "\<exists>str sp. policy_summarize policy family = Some str \<and> parse_short_policy str = Some sp \<and> length str \<le> 1000
    \<and> (\<forall>port. port \<noteq> 0 \<longrightarrow> (short_accepts sp port \<longrightarrow> snd (port_summary policy family port))
         \<and> (length str < 989 \<longrightarrow> snd (port_summary policy family port) \<longrightarrow> short_accepts sp port))"
proof -
  from summarize_items_ports [OF assms, of family] obtain s where
    s: "summarize_items policy family policy_summary_create = Some s" "seg 1 s 65536" "\<And>port. port \<noteq> 0 \<Longrightarrow> answer s port = port_summary policy family port"
    by blast
  obtain accepts rejects where r: "summary_ranges 1 s = (accepts, rejects)" by fastforce
  have ne: "s \<noteq> []" using s(2) by auto
  have ok: "list_all range_ok accepts" "list_all range_ok rejects" using summary_ranges_ok [OF s(2) ne _ _ r] by simp_all
  have p: "in_port_ranges port accepts \<longleftrightarrow> snd (port_summary policy family port)" "in_port_ranges port rejects \<longleftrightarrow> \<not> snd (port_summary policy family port)"
    if "port \<noteq> 0" for port
  proof -
    have "1 \<le> port" using all_ports(1) [OF that, of 1 65535] by simp
    then show "in_port_ranges port accepts \<longleftrightarrow> snd (port_summary policy family port)" "in_port_ranges port rejects \<longleftrightarrow> \<not> snd (port_summary policy family port)"
      using ranges_answer [OF s(2) ne _ r, of port] s(3) [OF that] by (simp_all add: range_answer_def word_le_nat_alt)
  qed
  have strs: "summary_strings 1 s = (map port_range_str accepts, map port_range_str rejects)" by (simp add: summary_strings_ranges r)
  have all: "parse_short_policy ''reject 1-65535'' = Some \<lparr>is_accept = False, entries = [(1, 65535)]\<rparr>"
    "parse_short_policy ''accept 1-65535'' = Some \<lparr>is_accept = True, entries = [(1, 65535)]\<rparr>"
    using parse_text [of "[(1, 65535)]" False] parse_text [of "[(1, 65535)]" True] unfolding all_ports_text by (simp_all add: range_ok_def)
  consider (none) "accepts = []" | (every) "accepts \<noteq> []" "rejects = []" | (some) "accepts \<noteq> []" "rejects \<noteq> []" by blast
  then show ?thesis
  proof cases
    case none
    then have "policy_summarize policy family = Some ''reject 1-65535''" using s(1) strs by (simp add: policy_summarize_def)
    moreover have "port \<noteq> 0 \<Longrightarrow> \<not> snd (port_summary policy family port)" for port using p(1) [of port] none by simp
    ultimately show ?thesis using all(1) all_ranges
      by (intro exI [of _ "''reject 1-65535''"] exI [of _ "\<lparr>is_accept = False, entries = [(1, 65535)]\<rparr>"]) (simp add: short_accepts_def)
  next
    case every
    then have "policy_summarize policy family = Some ''accept 1-65535''" using s(1) strs by (simp add: policy_summarize_def)
    moreover have "port \<noteq> 0 \<Longrightarrow> snd (port_summary policy family port)" for port using p(2) [of port] every by simp
    ultimately show ?thesis using all(2) all_ranges
      by (intro exI [of _ "''accept 1-65535''"] exI [of _ "\<lparr>is_accept = True, entries = [(1, 65535)]\<rparr>"]) (simp add: short_accepts_def)
  next
    case some
    then have eq: "policy_summarize policy family = (let a = ranges_text accepts; r = ranges_text rejects in
        if length r > 993 \<and> length a > 993 then do { c \<leftarrow> cut_at_comma a 993; Some (''accept '' @ c) }
        else if length r < length a then Some (''reject '' @ r) else Some (''accept '' @ a))"
      using s(1) strs by (simp add: policy_summarize_def join_Some MAX_EXITPOLICY_SUMMARY_LEN_def Let_def)
    show ?thesis unfolding eq Let_def by (rule printed_summary [OF ok some]) (use p in blast)+
  qed
qed

text \<open>C12 The summary of a policy, printed by an authority and parsed by a client, decides every port: the client
  counts a port as accepted only if the entries of the family, read in order, accept it under the
  cutoff for rejected addresses, and exactly then if the summary was not cut (a cut one is at least
  989 characters long).  Building and printing it fails no assertion, and it fits the limit.\<close>

theorem policy_summary_decides:
  assumes "list_all ports_ok policy"
  shows "\<exists>str sp. policy_summarize policy family = Some str \<and> parse_short_policy str = Some sp \<and> length str \<le> MAX_EXITPOLICY_SUMMARY_LEN
    \<and> (\<forall>port. port \<noteq> 0 \<longrightarrow>
         (compare_tor_addr_to_short_policy reject_internal None port sp = Some ADDR_POLICY_PROBABLY_ACCEPTED \<longrightarrow> snd (port_summary policy family port))
       \<and> (length str < 989 \<longrightarrow> snd (port_summary policy family port) \<longrightarrow>
            compare_tor_addr_to_short_policy reject_internal None port sp = Some ADDR_POLICY_PROBABLY_ACCEPTED))"
proof -
  from summarize_decides [OF assms, of family] obtain str sp where
    h: "policy_summarize policy family = Some str" "parse_short_policy str = Some sp" "length str \<le> 1000"
      "\<forall>port. port \<noteq> 0 \<longrightarrow> (short_accepts sp port \<longrightarrow> snd (port_summary policy family port))
         \<and> (length str < 989 \<longrightarrow> snd (port_summary policy family port) \<longrightarrow> short_accepts sp port)" by blast
  then show ?thesis by (intro exI [of _ str] exI [of _ sp]) (auto simp: compare_short_unknown MAX_EXITPOLICY_SUMMARY_LEN_def)
qed

definition mail_blocked :: "addr_policy_t list" where
  "mail_blocked = [(any4 ADDR_POLICY_REJECT)\<lparr>prt_min := 25, prt_max := 25\<rparr>, any4 ADDR_POLICY_ACCEPT]"

theorem policy_summary_decides_witness:
  "list_all ports_ok mail_blocked \<and> (\<exists>str sp. policy_summarize mail_blocked AF_INET = Some str \<and> parse_short_policy str = Some sp
     \<and> compare_tor_addr_to_short_policy False None 25 sp \<noteq> Some ADDR_POLICY_PROBABLY_ACCEPTED)"
proof -
  have ok: "list_all ports_ok mail_blocked" by code_simp
  from policy_summary_decides [OF ok, of AF_INET False] obtain str sp where
    h: "policy_summarize mail_blocked AF_INET = Some str" "parse_short_policy str = Some sp"
      "\<forall>port. port \<noteq> 0 \<longrightarrow> (compare_tor_addr_to_short_policy False None port sp = Some ADDR_POLICY_PROBABLY_ACCEPTED \<longrightarrow> snd (port_summary mail_blocked AF_INET port))"
    by blast
  have "\<not> snd (port_summary mail_blocked AF_INET 25)" by code_simp
  then have "compare_tor_addr_to_short_policy False None 25 sp \<noteq> Some ADDR_POLICY_PROBABLY_ACCEPTED" using h(3) [rule_format, of 25] by auto
  then show ?thesis using ok h(1,2) by blast
qed

text \<open>C14 A short policy that is written out is read back as it was.\<close>

theorem short_policy_roundtrip:
  assumes "short_policy_ok p"
  shows "\<exists>s. write_short_policy p = Some s \<and> parse_short_policy s = Some p"
  by (rule short_policy_parse_write [OF assms])

theorem short_policy_roundtrip_witness:
  "\<exists>s. write_short_policy \<lparr>is_accept = True, entries = [(80, 80), (440, 450)]\<rparr> = Some s \<and> s = ''accept 80,440-450''
     \<and> parse_short_policy s = Some \<lparr>is_accept = True, entries = [(80, 80), (440, 450)]\<rparr>"
proof -
  have "short_policy_ok \<lparr>is_accept = True, entries = [(80, 80), (440, 450)]\<rparr>" by code_simp
  from short_policy_roundtrip [OF this] obtain s where
    "write_short_policy \<lparr>is_accept = True, entries = [(80, 80), (440, 450)]\<rparr> = Some s"
    "parse_short_policy s = Some \<lparr>is_accept = True, entries = [(80, 80), (440, 450)]\<rparr>" by blast
  moreover have "write_short_policy \<lparr>is_accept = True, entries = [(80, 80), (440, 450)]\<rparr> = Some ''accept 80,440-450''" by code_simp
  ultimately show ?thesis by auto
qed

section \<open>Port 0\<close>

text \<open>C15 A port of \<open>0\<close> parses as the empty range from 1 to 0, since the bounds are compared before the lower one
  is raised to 1; an entry with that range, the first that the summary looks at, fails an assertion
  when the summary is split, whichever policy follows.\<close>

theorem port_zero_aborts:
  "parse_port_range (Some ''0'') = Some (1, 0) \<and>
   (tor_addr_family (pol_addr e) = family \<longrightarrow> policy_type e = ADDR_POLICY_REJECT \<longrightarrow> \<not> is_private_net e \<longrightarrow>
    parse_port_range (Some ''0'') = Some (prt_min e, prt_max e) \<longrightarrow> policy_summarize (e # policy) family = None)"
proof -
  have zero: "parse_port_range (Some ''0'') = Some (1, 0)" by code_simp
  have "policy_summary_split policy_summary_create 1 0 = None" by code_simp
  then show ?thesis using zero by (auto simp: policy_summarize_def policy_summary_add_item_def policy_summary_reject_def)
qed

theorem port_zero_aborts_witness:
  "let e = (any4 ADDR_POLICY_REJECT)\<lparr>prt_min := 1, prt_max := 0\<rparr> in
   tor_addr_family (pol_addr e) = AF_INET \<and> policy_type e = ADDR_POLICY_REJECT \<and> \<not> is_private_net e
   \<and> parse_port_range (Some ''0'') = Some (prt_min e, prt_max e) \<and> policy_summarize [e, any4 ADDR_POLICY_ACCEPT] AF_INET = None"
proof -
  let ?e = "(any4 ADDR_POLICY_REJECT)\<lparr>prt_min := 1, prt_max := 0\<rparr>"
  have h: "tor_addr_family (pol_addr ?e) = AF_INET" "policy_type ?e = ADDR_POLICY_REJECT" "\<not> is_private_net ?e"
    "parse_port_range (Some ''0'') = Some (prt_min ?e, prt_max ?e)" by code_simp+
  then show ?thesis using port_zero_aborts [of ?e AF_INET "[any4 ADDR_POLICY_ACCEPT]"] by (simp add: Let_def)
qed

text \<open>What follows a second port is not looked at: \<open>1-5x\<close> is read as \<open>1-5\<close>.\<close>

theorem port_range_garbage: "parse_port_range (Some ''1-5x'') = Some (1, 5)"
  by code_simp

end
